(* ===== verification/Prelude.thy ===== *)
theory Prelude
  imports Main "HOL-Library.Word"
begin

text \<open>
  Shared vocabulary of the development: the machine types of the C sources, byte strings read as
  big-endian and little-endian numbers, \<open>size_t\<close> arithmetic, and the generic list, option and word
  lemmas the component theories rely on.  \<open>size_t\<close> is 64 bits wide (the code is built for arm64 and
  x86_64); a \<open>size_t\<close> is a \<^typ>\<open>nat\<close> below \<open>size_lim\<close> and every addition or multiplication whose
  overflow the code tests is written with \<open>size_add\<close> and \<open>size_mul\<close>, which wrap.
\<close>

unbundle bit_operations_syntax

named_theorems size_simps
named_theorems word_nat_simps

section \<open>Machine types\<close>

type_synonym u8 = "8 word"
type_synonym u16 = "16 word"
type_synonym u32 = "32 word"
type_synonym u64 = "64 word"
type_synonym bytes = "8 word list"

abbreviation size_lim :: nat where
  "size_lim \<equiv> 18446744073709551616"

definition size_add :: "nat \<Rightarrow> nat \<Rightarrow> nat" where
  "size_add a b = (a + b) mod size_lim"

definition size_mul :: "nat \<Rightarrow> nat \<Rightarrow> nat" where
  "size_mul a b = (a * b) mod size_lim"

text \<open>The overflow test \<open>a + b < a\<close> of the sources is exact for operands that are \<open>size_t\<close> values.\<close>

lemma size_add_overflow [size_simps]:
  assumes "a < size_lim" "b < size_lim"
  shows "size_add a b < a \<longleftrightarrow> size_lim \<le> a + b"
  using assms by (auto simp: size_add_def mod_if split: if_splits)

lemma size_add_exact [size_simps]: "a + b < size_lim \<Longrightarrow> size_add a b = a + b"
  by (simp add: size_add_def)

lemma size_mul_exact [size_simps]: "a * b < size_lim \<Longrightarrow> size_mul a b = a * b"
  by (simp add: size_mul_def)

lemma size_add_less [simp]: "size_add a b < size_lim"
  by (simp add: size_add_def)

lemma size_add_0 [simp]: "a < size_lim \<Longrightarrow> size_add a 0 = a"
  by (simp add: size_add_def)

section \<open>Big-endian and little-endian numbers\<close>

definition be_val :: "bytes \<Rightarrow> nat" where
  "be_val bs = foldl (\<lambda>a b. a * 256 + unat b) 0 bs"

primrec be_bytes :: "nat \<Rightarrow> nat \<Rightarrow> bytes" where
  "be_bytes 0 v = []"
| "be_bytes (Suc n) v = be_bytes n (v div 256) @ [of_nat v]"

lemma be_val_Nil [simp]: "be_val [] = 0"
  by (simp add: be_val_def)

lemma be_val_snoc [simp]: "be_val (bs @ [b]) = be_val bs * 256 + unat b"
  by (simp add: be_val_def)

lemma be_val_single [simp]: "be_val [b] = unat b"
  using be_val_snoc [of "[]" b] by simp

lemma be_val_append: "be_val (xs @ ys) = be_val xs * 256 ^ length ys + be_val ys"
proof (induction ys rule: rev_induct)
  case (snoc y ys)
  have "be_val (xs @ ys @ [y]) = be_val (xs @ ys) * 256 + unat y"
    using be_val_snoc [of "xs @ ys" y] by simp
  with snoc show ?case by (simp add: algebra_simps)
qed simp

lemma be_val_Cons: "be_val (b # bs) = unat b * 256 ^ length bs + be_val bs"
  using be_val_append [of "[b]" bs] by simp

lemma u8_less_256 [simp]: "unat (b :: u8) < 256"
  using unsigned_less [of b] by simp

lemma u16_less_lim [simp]: "unat (v :: u16) < 65536"
  using unsigned_less [of v] by simp

lemma u32_less_lim [simp]: "unat (v :: u32) < 4294967296"
  using unsigned_less [of v] by simp

lemma u64_less_lim [simp]: "unat (v :: u64) < size_lim"
  using unsigned_less [of v] by simp

lemma mod_mult_add_left: "(x mod m * c + u) mod m = (x * c + u) mod (m :: nat)"
  by (metis mod_add_left_eq mod_mult_left_eq)

lemma digit_step_less: "x < y \<Longrightarrow> u < 256 \<Longrightarrow> x * 256 + u < y * (256::nat)"
  using mult_le_mono1 [of "Suc x" y 256] by simp

lemma be_val_bound: "be_val bs < 256 ^ length bs"
proof (induction bs rule: rev_induct)
  case (snoc b bs)
  then have "be_val bs * 256 + unat b < 256 ^ length bs * 256"
    by (rule digit_step_less) simp
  then show ?case by (simp add: mult.commute)
qed simp

lemma length_be_bytes [simp]: "length (be_bytes n v) = n"
  by (induction n arbitrary: v) auto

lemma be_val_be_bytes: "be_val (be_bytes n v) = v mod 256 ^ n"
proof (induction n arbitrary: v)
  case (Suc n)
  have "v mod (256 * 256 ^ n) = 256 * (v div 256 mod 256 ^ n) + v mod 256"
    by (rule mod_mult2_eq)
  with Suc show ?case by (simp add: unat_of_nat)
qed simp

lemma be_bytes_be_val: "be_bytes (length bs) (be_val bs) = bs"
proof (induction bs rule: rev_induct)
  case (snoc b bs)
  have "(be_val bs * 256 + unat b) div 256 = be_val bs"
    using u8_less_256 [of b] by (simp add: div_add1_eq)
  moreover have "(of_nat (be_val bs * 256 + unat b) :: u8) = b"
    by (rule word_unat_eq_iff [THEN iffD2])
      (simp only: unat_of_nat, simp add: mod_add_eq [symmetric])
  ultimately show ?case using snoc by simp
qed simp

lemma be_bytes_Suc_Cons:
  "be_bytes (Suc n) v = of_nat (v div 256 ^ n) # be_bytes n v"
  by (induction n arbitrary: v) (auto simp: div_mult2_eq mult.commute)

lemma be_val_inject:
  "length xs = length ys \<Longrightarrow> be_val xs = be_val ys \<Longrightarrow> xs = ys"
  by (metis be_bytes_be_val)

definition le_val :: "bytes \<Rightarrow> nat" where
  "le_val bs = be_val (rev bs)"

definition le_bytes :: "nat \<Rightarrow> nat \<Rightarrow> bytes" where
  "le_bytes n v = rev (be_bytes n v)"

section \<open>Lists\<close>

lemma append_prefixE:
  assumes "xs @ r = out @ t" "length xs \<le> length out"
  obtains b where "out = xs @ b" "r = b @ t"
  using assms that by (auto simp: append_eq_append_conv2)

section \<open>Words read as numbers\<close>

lemma or_add_disjoint:
  fixes a b :: nat
  assumes "b < 2 ^ n"
  shows "(a * 2 ^ n) OR b = a * 2 ^ n + b"
proof -
  have "push_bit n a AND take_bit n b = 0"
    by (rule bit_eqI) (auto simp: bit_simps)
  moreover have "take_bit n b = b" using assms by (simp add: take_bit_nat_eq_self)
  ultimately have "push_bit n a AND b = 0" by simp
  then have "push_bit n a + b = push_bit n a OR b" by (rule disjunctive_add_eq_or)
  then show ?thesis by (simp add: push_bit_eq_mult)
qed

lemma unat_drop_bit: "unat (drop_bit k (w :: 'a::len word)) = unat w div 2 ^ k"
  unfolding unat_drop_bit_eq by (simp only: drop_bit_eq_div)

text \<open>The shift-and-or step of every byte-wise read.\<close>

lemma unat_shift_or8 [word_nat_simps]:
  "unat (push_bit 8 (r :: u64) OR ucast (b :: u8)) = (unat r * 256 + unat b) mod size_lim"
proof -
  have "unat (push_bit 8 r) = (unat r * 256) mod size_lim"
    unfolding unsigned_push_bit_eq by (simp add: take_bit_eq_mod push_bit_eq_mult)
  also have "\<dots> = (unat r mod 2 ^ 56) * 2 ^ 8"
    using mult_mod_left [of "unat r" "2 ^ 56" 256] by simp
  finally have p: "unat (push_bit 8 r) = (unat r mod 2 ^ 56) * 2 ^ 8" .
  have u: "unat (ucast b :: u64) = unat b" by (simp add: unsigned_ucast_eq take_bit_nat_eq_self_iff less_trans [OF u8_less_256])
  have "unat (push_bit 8 r OR ucast b) = (unat r mod 2 ^ 56) * 2 ^ 8 OR unat b"
    by (simp only: unsigned_or_eq p u)
  also have "\<dots> = (unat r mod 2 ^ 56) * 2 ^ 8 + unat b"
    using u8_less_256 [of b] by (intro or_add_disjoint) simp
  also have "\<dots> = (unat r * 256 + unat b) mod size_lim"
    using mod_mult2_eq [of "unat r * 256 + unat b" 256 "2 ^ 56"] u8_less_256 [of b]
    by simp
  finally show ?thesis .
qed

end
