(* ===== verification/Readers.thy ===== *)
theory Readers
  imports Prelude
begin

text \<open>
  The reader shape shared by every function that parses from a \<open>CBS\<close> (BoringSSL,
  \<open>crypto/bytestring\<close>).  A \<open>CBS\<close> is a pointer and a length; the model is the byte string it
  denotes.  A C function \<open>int f(CBS *cbs, T *out)\<close> is an \<^emph>\<open>reader\<close>: it returns the new window
  and either the value (return 1) or nothing (return 0).  A failing call may have advanced the
  window already, so the window is returned in both cases.  Out-parameters that C writes before it
  returns 0 are not part of the model.

  The locales state the contracts every reader keeps: it never leaves its window, its result does
  not depend on the bytes after what it consumed, and, for encoders and decoders, the round trip.
\<close>

type_synonym 'a rd = "bytes \<Rightarrow> 'a option \<times> bytes"

definition rd_return :: "'a \<Rightarrow> 'a rd" where
  "rd_return x = (\<lambda>s. (Some x, s))"

definition rd_fail :: "'a rd" where
  "rd_fail = (\<lambda>s. (None, s))"

definition rd_bind :: "'a rd \<Rightarrow> ('a \<Rightarrow> 'b rd) \<Rightarrow> 'b rd" where
  "rd_bind p f = (\<lambda>s. case p s of (None, s') \<Rightarrow> (None, s') | (Some x, s') \<Rightarrow> f x s')"

definition rd_guard :: "bool \<Rightarrow> unit rd" where
  "rd_guard b = (if b then rd_return () else rd_fail)"

lemma rd_return_apply [simp]: "rd_return x s = (Some x, s)"
  by (simp add: rd_return_def)

lemma rd_fail_apply [simp]: "rd_fail s = (None, s)"
  by (simp add: rd_fail_def)

lemma rd_guard_simps [simp]:
  "rd_guard True = rd_return ()" "rd_guard False = rd_fail"
  by (simp_all add: rd_guard_def)

lemma rd_bind_return [simp]: "rd_bind (rd_return x) f = f x"
  by (simp add: rd_bind_def fun_eq_iff)

lemma rd_bind_fail [simp]: "rd_bind rd_fail f = rd_fail"
  by (simp add: rd_bind_def fun_eq_iff)

lemma rd_bind_Some [simp]: "p s = (Some x, s') \<Longrightarrow> rd_bind p f s = f x s'"
  by (simp add: rd_bind_def)

lemma rd_bind_None [simp]: "p s = (None, s') \<Longrightarrow> rd_bind p f s = (None, s')"
  by (simp add: rd_bind_def)

lemma rd_bind_eq_Some:
  "rd_bind p f s = (Some y, t) \<longleftrightarrow> (\<exists>x s'. p s = (Some x, s') \<and> f x s' = (Some y, t))"
  by (auto simp: rd_bind_def split: prod.splits option.splits)

section \<open>Readers stay inside their window\<close>

locale byte_reader =
  fixes p :: "'a rd"
  assumes suffix: "\<exists>pre. s = pre @ snd (p s)"
    and extend: "p s = (Some x, s') \<Longrightarrow> p (s @ t) = (Some x, s' @ t)"
begin

lemma length_le: "length (snd (p s)) \<le> length s"
proof -
  obtain pre where "s = pre @ snd (p s)" using suffix by blast
  then have "length s = length pre + length (snd (p s))" by (metis length_append)
  then show ?thesis by simp
qed

lemma consumed: "p s = (Some x, s') \<Longrightarrow> \<exists>pre. s = pre @ s'"
  using suffix [of s] by simp

lemma prefix_free:
  assumes "p a = (Some x, [])" "p (a @ t) = (Some y, [])"
  shows "t = [] \<and> x = y"
  using extend [OF assms(1), of t] assms(2) by simp

end

text \<open>A \<^emph>\<open>local\<close> reader also needs no look-ahead: it succeeds on exactly what it consumes.\<close>

locale local_reader = byte_reader +
  assumes restrict: "p (pre @ s') = (Some x, s') \<Longrightarrow> p pre = (Some x, [])"
begin

lemma any_rest:
  assumes "p (pre @ s') = (Some x, s')"
  shows "p (pre @ t) = (Some x, t)"
  using extend [OF restrict [OF assms], of t] by simp

lemma splits:
  assumes "p s = (Some x, s')"
  obtains pre where "s = pre @ s'" "p pre = (Some x, [])" "\<And>t. p (pre @ t) = (Some x, t)"
proof -
  obtain pre where s: "s = pre @ s'" using consumed [OF assms] by blast
  show thesis
    using that [of pre] s assms restrict any_rest by blast
qed

end

lemma local_reader_return: "local_reader (rd_return x)"
  by unfold_locales auto

lemma local_reader_fail: "local_reader rd_fail"
  by unfold_locales auto

lemma local_reader_guard: "local_reader (rd_guard b)"
  by (cases b) (simp_all add: local_reader_return local_reader_fail)

lemma rd_bind_suffix:
  assumes p: "\<exists>pre. s = pre @ snd (p s)" and f: "\<And>x s'. \<exists>pre. s' = pre @ snd (f x s')"
  shows "\<exists>pre. s = pre @ snd (rd_bind p f s)"
proof -
  obtain r s' where r: "p s = (r, s')" by (cases "p s")
  then obtain pre where pre: "s = pre @ s'" using p by auto
  show ?thesis
  proof (cases r)
    case None
    with r pre show ?thesis by auto
  next
    case (Some x)
    obtain pre2 where "s' = pre2 @ snd (f x s')" using f by blast
    with r Some pre have "s = (pre @ pre2) @ snd (rd_bind p f s)" by simp
    then show ?thesis by blast
  qed
qed

lemma byte_reader_bind:
  assumes p: "byte_reader p" and f: "\<And>x. byte_reader (f x)"
  shows "byte_reader (rd_bind p f)"
proof
  show "\<exists>pre. s = pre @ snd (rd_bind p f s)" for s
    by (intro rd_bind_suffix byte_reader.suffix p f)
next
  fix s t :: bytes and y s'
  assume "rd_bind p f s = (Some y, s')"
  then obtain x m where "p s = (Some x, m)" "f x m = (Some y, s')"
    by (auto simp: rd_bind_eq_Some)
  then have "p (s @ t) = (Some x, m @ t)" "f x (m @ t) = (Some y, s' @ t)"
    using byte_reader.extend [OF p] byte_reader.extend [OF f] by auto
  then show "rd_bind p f (s @ t) = (Some y, s' @ t)" by simp
qed

lemma local_reader_bind:
  assumes p: "local_reader p" and f: "\<And>x. local_reader (f x)"
  shows "local_reader (rd_bind p f)"
proof -
  have b: "byte_reader (rd_bind p f)"
    using p f by (intro byte_reader_bind) (auto dest: local_reader.axioms)
  show ?thesis
  proof (rule local_reader.intro [OF b], unfold_locales)
    fix pre s' y
    assume "rd_bind p f (pre @ s') = (Some y, s')"
    then obtain x m where pm: "p (pre @ s') = (Some x, m)" and fm: "f x m = (Some y, s')"
      by (auto simp: rd_bind_eq_Some)
    obtain p1 where p1: "pre @ s' = p1 @ m" "\<And>t. p (p1 @ t) = (Some x, t)"
      using local_reader.splits [OF p pm] by metis
    obtain p2 where p2: "m = p2 @ s'" "f x p2 = (Some y, [])"
      using local_reader.splits [OF f fm] by metis
    from p1 p2 have "pre = p1 @ p2" by simp
    then show "rd_bind p f pre = (Some y, [])" using p1(2) p2(2) by simp
  qed
qed

section \<open>Encoders and decoders\<close>

primrec rd_many :: "nat \<Rightarrow> 'a rd \<Rightarrow> 'a list rd" where
  "rd_many 0 p = rd_return []"
| "rd_many (Suc n) p = rd_bind p (\<lambda>x. rd_bind (rd_many n p) (\<lambda>xs. rd_return (x # xs)))"

text \<open>
  \<open>codec\<close>: whatever the encoder writes for a value in its domain, the decoder reads back, leaving
  the rest.  \<open>canonical_codec\<close>: the decoder accepts nothing else, so there is one encoding per value.
\<close>

locale codec =
  fixes enc :: "'a \<Rightarrow> bytes" and dec :: "'a rd" and dom :: "'a \<Rightarrow> bool"
  assumes roundtrip: "dom x \<Longrightarrow> dec (enc x @ t) = (Some x, t)"
begin

lemma enc_inject:
  assumes "dom x" "dom y" "enc x @ s = enc y @ t"
  shows "x = y \<and> s = t"
proof -
  have "(Some x, s) = dec (enc x @ s)" by (rule roundtrip [OF assms(1), symmetric])
  also have "\<dots> = dec (enc y @ t)" by (simp only: assms(3))
  also have "\<dots> = (Some y, t)" by (rule roundtrip [OF assms(2)])
  finally show ?thesis by simp
qed

lemma many_roundtrip:
  "\<forall>x \<in> set xs. dom x \<Longrightarrow>
   rd_many (length xs) dec (concat (map enc xs) @ t) = (Some xs, t)"
  by (induction xs) (simp_all add: roundtrip)

end

locale canonical_codec = codec +
  assumes canonical: "dec s = (Some x, t) \<Longrightarrow> dom x \<and> s = enc x @ t"
    and dec_suffix: "\<exists>pre. s = pre @ snd (dec s)"
begin

sublocale local_reader dec
proof
  show "\<exists>pre. s = pre @ snd (dec s)" for s by (rule dec_suffix)
  show "dec (s @ t) = (Some x, s' @ t)" if "dec s = (Some x, s')" for s x s' t
    using canonical [OF that] roundtrip [of x "s' @ t"] by simp
  show "dec pre = (Some x, [])" if "dec (pre @ s') = (Some x, s')" for pre s' x
    using canonical [OF that] roundtrip [of x "[]"] by simp
qed

lemma accepts_iff: "dec s = (Some x, t) \<longleftrightarrow> dom x \<and> s = enc x @ t"
  using canonical roundtrip by blast

lemma many_canonical:
  "rd_many n dec s = (Some xs, t) \<Longrightarrow>
   length xs = n \<and> (\<forall>x \<in> set xs. dom x) \<and> s = concat (map enc xs) @ t"
proof (induction n arbitrary: s xs t)
  case (Suc n)
  then obtain x s' ys where
    "dec s = (Some x, s')" "rd_many n dec s' = (Some ys, t)" "xs = x # ys"
    by (auto simp: rd_bind_eq_Some)
  with canonical [of s x s'] Suc.IH [of s' ys t] show ?case by auto
qed simp

end

text \<open>A codec stays one when the decoded value passes through a bijection.\<close>

lemma canonical_codec_map:
  assumes c: "canonical_codec enc dec P"
    and fg: "\<And>x. f (g x) = x" and gf: "\<And>y. g (f y) = y"
  shows "canonical_codec (\<lambda>y. enc (f y)) (rd_bind dec (\<lambda>x. rd_return (g x))) (\<lambda>y. P (f y))"
proof
  show "rd_bind dec (\<lambda>x. rd_return (g x)) (enc (f y) @ t) = (Some y, t)" if "P (f y)" for y t
    using codec.roundtrip [OF canonical_codec.axioms(1) [OF c] that, of t] by (simp add: gf)
  show "P (f y) \<and> s = enc (f y) @ t"
    if "rd_bind dec (\<lambda>x. rd_return (g x)) s = (Some y, t)" for s y t
    using that canonical_codec.canonical [OF c] fg by (auto simp: rd_bind_eq_Some)
  fix s
  have "snd (rd_bind dec (\<lambda>x. rd_return (g x)) s) = snd (dec s)"
    by (simp add: rd_bind_def split: prod.splits option.splits)
  then show "\<exists>pre. s = pre @ snd (rd_bind dec (\<lambda>x. rd_return (g x)) s)"
    using canonical_codec.dec_suffix [OF c, of s] by metis
qed

end
