(* ===== verification/Mem.thy ===== *)
theory Mem
  imports Prelude
begin

text \<open>
  \<open>crypto/mem.c\<close>: allocation and the string helpers.  libc's \<open>malloc\<close> is a parameter: an
  allocator gives, for a size, a block of arbitrary bytes or nothing.  The weak hooks
  \<open>OPENSSL_memory_alloc\<close> and its companions are \<open>NULL\<close> on the platforms the library is built for
  (\<open>WEAK_SYMBOL_FUNC\<close> outside ELF), so those branches are not part of the model.  A \<open>NULL\<close> pointer is
  \<^term>\<open>None\<close>.  The size header in front of a block is the length of the modelled block.
\<close>

type_synonym allocator = "nat \<Rightarrow> bytes option"

section \<open>Allocation\<close>

definition OPENSSL_malloc :: "allocator \<Rightarrow> nat \<Rightarrow> bytes option" where
  "OPENSSL_malloc al sz =
     (if size_add sz 8 < sz then None
      else case al (size_add sz 8) of
             None \<Rightarrow> None
           | Some blk \<Rightarrow> Some (drop 8 blk))"

definition OPENSSL_realloc :: "allocator \<Rightarrow> bytes option \<Rightarrow> nat \<Rightarrow> bytes option" where
  "OPENSSL_realloc al orig new_size =
     (case orig of
        None \<Rightarrow> OPENSSL_malloc al new_size
      | Some old \<Rightarrow>
          (case OPENSSL_malloc al new_size of
             None \<Rightarrow> None
           | Some ret \<Rightarrow>
               (let to_copy = (if length old < new_size then length old else new_size)
                in Some (take to_copy old @ drop to_copy ret))))"

definition OPENSSL_memdup :: "allocator \<Rightarrow> bytes \<Rightarrow> bytes option" where
  "OPENSSL_memdup al data =
     (if length data = 0 then None
      else case OPENSSL_malloc al (length data) of
             None \<Rightarrow> None
           | Some ret \<Rightarrow> Some (data @ drop (length data) ret))"

text \<open>The contract of an allocator: a block that is handed out has the size asked for.\<close>

locale allocator =
  fixes malloc :: "nat \<Rightarrow> bytes option"
  assumes malloc_length: "n < size_lim \<Longrightarrow> malloc n = Some blk \<Longrightarrow> length blk = n"
begin

lemma openssl_malloc_length:
  assumes "n < size_lim" "OPENSSL_malloc malloc n = Some blk"
  shows "length blk = n"
proof -
  from assms(2) have ok: "\<not> size_add n 8 < n" and
    "\<exists>b. malloc (size_add n 8) = Some b \<and> blk = drop 8 b"
    by (auto simp: OPENSSL_malloc_def split: if_splits option.splits)
  then obtain b where b: "malloc (size_add n 8) = Some b" "blk = drop 8 b" by blast
  have "n + 8 < size_lim" using ok assms(1) size_add_overflow [of n 8] by simp
  then have "size_add n 8 = n + 8" by (rule size_add_exact)
  with b \<open>n + 8 < size_lim\<close> malloc_length [of "n + 8" b] show ?thesis by simp
qed

lemma openssl_realloc_length:
  assumes "n < size_lim" "OPENSSL_realloc malloc orig n = Some blk"
  shows "length blk = n"
  using assms openssl_malloc_length [OF assms(1)]
  by (auto simp: OPENSSL_realloc_def Let_def split: option.splits)

lemma openssl_realloc_keeps:
  assumes "n < size_lim" "OPENSSL_realloc malloc (Some old) n = Some blk"
  shows "take (min n (length old)) blk = take (min n (length old)) old"
  using assms openssl_malloc_length [OF assms(1)]
  by (auto simp: OPENSSL_realloc_def Let_def min_def split: option.splits if_splits)

lemma openssl_memdup_length:
  assumes "length d < size_lim" "OPENSSL_memdup malloc d = Some r"
  shows "r = d"
  using assms openssl_malloc_length [OF assms(1)]
  by (auto simp: OPENSSL_memdup_def split: option.splits if_splits)

end

text \<open>
  A bounded arena: an allocator that hands out zeroed blocks up to a limit.  It shows that the
  contract can be met, and the witnesses of the components run on it.
\<close>

definition arena :: "nat \<Rightarrow> nat \<Rightarrow> bytes option" where
  "arena limit n = (if n \<le> limit then Some (replicate n 0) else None)"

text \<open>\<open>OPENSSL_malloc\<close> itself meets the contract of an allocator when libc's \<open>malloc\<close> does.\<close>

lemma allocator_openssl_malloc: "allocator al \<Longrightarrow> allocator (OPENSSL_malloc al)"
  by unfold_locales (rule allocator.openssl_malloc_length)

interpretation arena: allocator "arena limit"
  by unfold_locales (auto simp: arena_def split: if_splits)

interpretation openssl_arena: allocator "OPENSSL_malloc (arena limit)"
  by (rule allocator_openssl_malloc) (rule arena.allocator_axioms)

section \<open>Comparison and hashing of bytes\<close>

definition CRYPTO_memcmp :: "bytes \<Rightarrow> bytes \<Rightarrow> nat \<Rightarrow> u8" where
  "CRYPTO_memcmp a b len = fold (\<lambda>i x. x OR (a ! i XOR b ! i)) [0..<len] 0"

lemma fold_or_0_iff: "fold (\<lambda>i x. x OR f i) is x = 0 \<longleftrightarrow> x = 0 \<and> (\<forall>i \<in> set is. f i = (0 :: u8))"
proof (induction "is" arbitrary: x)
  case (Cons i "is")
  then show ?case by (auto simp: or_eq_0_iff)
qed simp

lemma xor_eq_0_iff_u8: "a XOR b = (0 :: u8) \<longleftrightarrow> a = b"
  by (metis xor.assoc xor.left_neutral xor_self_eq)

lemma CRYPTO_memcmp_zero_iff:
  assumes "len \<le> length a" "len \<le> length b"
  shows "CRYPTO_memcmp a b len = 0 \<longleftrightarrow> take len a = take len b"
proof -
  have "CRYPTO_memcmp a b len = 0 \<longleftrightarrow> (\<forall>i < len. a ! i = b ! i)"
    by (simp add: CRYPTO_memcmp_def fold_or_0_iff xor_eq_0_iff_u8 atLeast0LessThan Ball_def)
  also have "\<dots> \<longleftrightarrow> take len a = take len b"
    using assms by (auto simp: list_eq_iff_nth_eq)
  finally show ?thesis .
qed

definition OPENSSL_hash32 :: "bytes \<Rightarrow> u32" where
  "OPENSSL_hash32 bs = fold (\<lambda>b h. (h XOR ucast b) * 16777619) bs 2166136261"

end
