(* ===== verification/Cbs.thy ===== *)
theory Cbs
  imports Readers Mem
begin

text \<open>
  \<open>crypto/bytestring/cbs.c\<close>: parsing from a window of bytes.  Every function of the file that
  reads is a reader (theory \<open>Readers\<close>); the ones that only look at a \<open>CBS\<close> are plain functions.
  The first part translates the file in its order, the second proves the contracts: fixed-width
  integers and length-prefixed strings are canonical codecs, and every parser is a byte reader.
\<close>

section \<open>Windows\<close>

definition CBS_init :: "bytes \<Rightarrow> bytes" where
  "CBS_init data = data"

definition cbs_get :: "nat \<Rightarrow> bytes rd" where
  "cbs_get n = (\<lambda>s. if length s < n then (None, s) else (Some (take n s), drop n s))"

definition CBS_skip :: "nat \<Rightarrow> unit rd" where
  "CBS_skip len = rd_bind (cbs_get len) (\<lambda>_. rd_return ())"

definition CBS_data :: "bytes \<Rightarrow> bytes" where
  "CBS_data cbs = cbs"

definition CBS_len :: "bytes \<Rightarrow> nat" where
  "CBS_len cbs = length cbs"

text \<open>\<open>CBS_stow\<close> returns the success flag, the new \<open>*out_ptr\<close> and \<open>*out_len\<close>.\<close>

definition CBS_stow :: "allocator \<Rightarrow> bytes \<Rightarrow> bool \<times> bytes option \<times> nat" where
  "CBS_stow al cbs =
     (if CBS_len cbs = 0 then (True, None, 0)
      else case OPENSSL_memdup al cbs of
             None \<Rightarrow> (False, None, 0)
           | Some p \<Rightarrow> (True, Some p, CBS_len cbs))"

definition CBS_contains_zero_byte :: "bytes \<Rightarrow> bool" where
  "CBS_contains_zero_byte cbs = (\<exists>b \<in> set cbs. b = 0)"

definition CBS_mem_equal :: "bytes \<Rightarrow> bytes \<Rightarrow> bool" where
  "CBS_mem_equal cbs data =
     (if length data \<noteq> CBS_len cbs then False
      else CRYPTO_memcmp cbs data (length data) = 0)"

section \<open>Integers\<close>

definition cbs_u_step :: "u64 \<Rightarrow> u8 \<Rightarrow> u64" where
  "cbs_u_step result b = push_bit 8 result OR ucast b"

definition cbs_get_u :: "nat \<Rightarrow> u64 rd" where
  "cbs_get_u len = rd_bind (cbs_get len) (\<lambda>data. rd_return (foldl cbs_u_step 0 data))"

definition CBS_get_u8 :: "u8 rd" where
  "CBS_get_u8 = rd_bind (cbs_get 1) (\<lambda>v. rd_return (v ! 0))"

definition CBS_get_u16 :: "u16 rd" where
  "CBS_get_u16 = rd_bind (cbs_get_u 2) (\<lambda>v. rd_return (ucast v))"

definition CBS_get_u24 :: "u32 rd" where
  "CBS_get_u24 = rd_bind (cbs_get_u 3) (\<lambda>v. rd_return (ucast v))"

definition CBS_get_u32 :: "u32 rd" where
  "CBS_get_u32 = rd_bind (cbs_get_u 4) (\<lambda>v. rd_return (ucast v))"

definition CBS_get_u64 :: "u64 rd" where
  "CBS_get_u64 = cbs_get_u 8"

text \<open>The byte swaps of \<open>crypto/internal.h\<close>.\<close>

definition CRYPTO_bswap2 :: "u16 \<Rightarrow> u16" where
  "CRYPTO_bswap2 x = drop_bit 8 x OR push_bit 8 x"

definition CRYPTO_bswap4 :: "u32 \<Rightarrow> u32" where
  "CRYPTO_bswap4 x =
     (let x = drop_bit 16 x OR push_bit 16 x
      in drop_bit 8 (x AND 0xff00ff00) OR push_bit 8 (x AND 0x00ff00ff))"

definition CRYPTO_bswap8 :: "u64 \<Rightarrow> u64" where
  "CRYPTO_bswap8 x =
     ucast (CRYPTO_bswap4 (ucast (drop_bit 32 x))) OR
     push_bit 32 (ucast (CRYPTO_bswap4 (ucast x)))"

definition CBS_get_u16le :: "u16 rd" where
  "CBS_get_u16le = rd_bind CBS_get_u16 (\<lambda>v. rd_return (CRYPTO_bswap2 v))"

definition CBS_get_u32le :: "u32 rd" where
  "CBS_get_u32le = rd_bind CBS_get_u32 (\<lambda>v. rd_return (CRYPTO_bswap4 v))"

definition CBS_get_u64le :: "u64 rd" where
  "CBS_get_u64le = rd_bind (cbs_get_u 8) (\<lambda>v. rd_return (CRYPTO_bswap8 v))"

definition CBS_get_last_u8 :: "u8 rd" where
  "CBS_get_last_u8 cbs = (if length cbs = 0 then (None, cbs) else (Some (last cbs), butlast cbs))"

definition CBS_get_bytes :: "nat \<Rightarrow> bytes rd" where
  "CBS_get_bytes len = rd_bind (cbs_get len) (\<lambda>v. rd_return (CBS_init v))"

definition CBS_copy_bytes :: "nat \<Rightarrow> bytes rd" where
  "CBS_copy_bytes len = rd_bind (cbs_get len) (\<lambda>v. rd_return v)"

definition cbs_get_length_prefixed :: "nat \<Rightarrow> bytes rd" where
  "cbs_get_length_prefixed len_len = rd_bind (cbs_get_u len_len) (\<lambda>len. CBS_get_bytes (unat len))"

definition CBS_get_u8_length_prefixed :: "bytes rd" where
  "CBS_get_u8_length_prefixed = cbs_get_length_prefixed 1"

definition CBS_get_u16_length_prefixed :: "bytes rd" where
  "CBS_get_u16_length_prefixed = cbs_get_length_prefixed 2"

definition CBS_get_u24_length_prefixed :: "bytes rd" where
  "CBS_get_u24_length_prefixed = cbs_get_length_prefixed 3"

text \<open>\<open>memchr\<close> gives the offset of the first occurrence.\<close>

fun memchr_index :: "bytes \<Rightarrow> u8 \<Rightarrow> nat option" where
  "memchr_index [] c = None"
| "memchr_index (b # bs) c = (if b = c then Some 0 else map_option Suc (memchr_index bs c))"

definition CBS_get_until_first :: "u8 \<Rightarrow> bytes rd" where
  "CBS_get_until_first c = (\<lambda>cbs.
     case memchr_index cbs c of
       None \<Rightarrow> (None, cbs)
     | Some split \<Rightarrow> CBS_get_bytes split cbs)"

section \<open>ASN.1 tags and elements\<close>

abbreviation CBS_ASN1_TAG_SHIFT :: nat where "CBS_ASN1_TAG_SHIFT \<equiv> 24"

definition CBS_ASN1_CONSTRUCTED :: u32 where "CBS_ASN1_CONSTRUCTED = 0x20000000"
definition CBS_ASN1_TAG_NUMBER_MASK :: u32 where "CBS_ASN1_TAG_NUMBER_MASK = 0x1fffffff"
definition CBS_ASN1_BOOLEAN :: u32 where "CBS_ASN1_BOOLEAN = 1"
definition CBS_ASN1_INTEGER :: u32 where "CBS_ASN1_INTEGER = 2"
definition CBS_ASN1_OCTETSTRING :: u32 where "CBS_ASN1_OCTETSTRING = 4"

text \<open>The \<open>do \<dots> while (b & 0x80)\<close> loop reads one byte per round and fails at the end of the window.\<close>

fun parse_base128_loop :: "u64 \<Rightarrow> u64 rd" where
  "parse_base128_loop v [] = (None, [])"
| "parse_base128_loop v (b # cbs) =
     (if drop_bit (64 - 7) v \<noteq> 0 then (None, cbs)
      else if v = 0 \<and> b = 0x80 then (None, cbs)
      else let v' = push_bit 7 v OR ucast (b AND 0x7f)
           in if b AND 0x80 \<noteq> 0 then parse_base128_loop v' cbs else (Some v', cbs))"

definition parse_base128_integer :: "u64 rd" where
  "parse_base128_integer = parse_base128_loop 0"

definition parse_asn1_tag :: "u32 rd" where
  "parse_asn1_tag = rd_bind CBS_get_u8 (\<lambda>tag_byte.
     let tag = push_bit CBS_ASN1_TAG_SHIFT (ucast tag_byte AND 0xe0 :: u32);
         tag_number = ucast (tag_byte AND 0x1f) :: u32
     in if tag_number = 0x1f then
          rd_bind parse_base128_integer (\<lambda>v.
            rd_bind (rd_guard (\<not> (v > ucast CBS_ASN1_TAG_NUMBER_MASK \<or> v < 0x1f))) (\<lambda>_.
              rd_return (tag OR ucast v)))
        else rd_return (tag OR tag_number))"

text \<open>
  The element parser works on a copy of the window (\<open>header\<close>); the window itself moves only in the
  final \<open>CBS_get_bytes\<close>.  The result is the element, its tag, its header length and \<open>*out_ber_found\<close>.
\<close>

definition cbs_get_any_asn1_element :: "bool \<Rightarrow> (bytes \<times> u32 \<times> nat \<times> bool) rd" where
  "cbs_get_any_asn1_element ber_ok = (\<lambda>cbs.
     case parse_asn1_tag cbs of
       (None, _) \<Rightarrow> (None, cbs)
     | (Some tag, header) \<Rightarrow>
         (case CBS_get_u8 header of
            (None, _) \<Rightarrow> (None, cbs)
          | (Some length_byte, header) \<Rightarrow>
              (let header_len = CBS_len cbs - CBS_len header in
               if length_byte AND 0x80 = 0 then
                 rd_bind (CBS_get_bytes (unat length_byte + header_len))
                   (\<lambda>out. rd_return (out, tag, header_len, False)) cbs
               else
                 let num_bytes = unat (length_byte AND 0x7f) in
                 if ber_ok \<and> tag AND CBS_ASN1_CONSTRUCTED \<noteq> 0 \<and> num_bytes = 0 then
                   rd_bind (CBS_get_bytes header_len)
                     (\<lambda>out. rd_return (out, tag, header_len, True)) cbs
                 else if num_bytes = 0 \<or> num_bytes > 4 then (None, cbs)
                 else
                   (case cbs_get_u num_bytes header of
                      (None, _) \<Rightarrow> (None, cbs)
                    | (Some len64, _) \<Rightarrow>
                        (let nonminimal =
                               len64 < 128 \<or> drop_bit ((num_bytes - 1) * 8) len64 = 0 in
                         if nonminimal \<and> \<not> ber_ok then (None, cbs)
                         else
                           let len = unat len64;
                               total = size_add (size_add len header_len) num_bytes in
                           if total < len then (None, cbs)
                           else
                             rd_bind (CBS_get_bytes total)
                               (\<lambda>out. rd_return (out, tag, header_len + num_bytes, nonminimal))
                               cbs)))))"

definition CBS_get_any_asn1_element :: "(bytes \<times> u32 \<times> nat) rd" where
  "CBS_get_any_asn1_element =
     rd_bind (cbs_get_any_asn1_element False)
       (\<lambda>(out, tag, header_len, _). rd_return (out, tag, header_len))"

definition CBS_get_any_ber_asn1_element :: "(bytes \<times> u32 \<times> nat \<times> bool) rd" where
  "CBS_get_any_ber_asn1_element = cbs_get_any_asn1_element True"

definition CBS_get_any_asn1 :: "(bytes \<times> u32) rd" where
  "CBS_get_any_asn1 =
     rd_bind CBS_get_any_asn1_element (\<lambda>(out, tag, header_len).
       case CBS_skip header_len out of
         (None, _) \<Rightarrow> rd_fail
       | (Some _, out) \<Rightarrow> rd_return (out, tag))"

definition cbs_get_asn1 :: "u32 \<Rightarrow> bool \<Rightarrow> bytes rd" where
  "cbs_get_asn1 tag_value skip_header =
     rd_bind CBS_get_any_asn1_element (\<lambda>(out, tag, header_len).
       if tag \<noteq> tag_value then rd_fail
       else if skip_header then
         (case CBS_skip header_len out of
            (None, _) \<Rightarrow> rd_fail
          | (Some _, out) \<Rightarrow> rd_return out)
       else rd_return out)"

definition CBS_get_asn1 :: "u32 \<Rightarrow> bytes rd" where
  "CBS_get_asn1 tag_value = cbs_get_asn1 tag_value True"

definition CBS_get_asn1_element :: "u32 \<Rightarrow> bytes rd" where
  "CBS_get_asn1_element tag_value = cbs_get_asn1 tag_value False"

definition CBS_peek_asn1_tag :: "bytes \<Rightarrow> u32 \<Rightarrow> bool" where
  "CBS_peek_asn1_tag cbs tag_value =
     (if CBS_len cbs < 1 then False
      else case parse_asn1_tag cbs of
             (None, _) \<Rightarrow> False
           | (Some actual_tag, _) \<Rightarrow> tag_value = actual_tag)"

section \<open>ASN.1 values\<close>

text \<open>
  \<open>CBS_is_valid_asn1_integer\<close> returns whether the contents are a minimal INTEGER and, when it has
  read the first byte, \<open>*out_is_negative\<close>.
\<close>

definition CBS_is_valid_asn1_integer :: "bytes \<Rightarrow> bool \<times> bool" where
  "CBS_is_valid_asn1_integer cbs =
     (case CBS_get_u8 cbs of
        (None, _) \<Rightarrow> (False, False)
      | (Some first_byte, copy) \<Rightarrow>
          (let neg = (first_byte AND 0x80 \<noteq> 0) in
           case CBS_get_u8 copy of
             (None, _) \<Rightarrow> (True, neg)
           | (Some second_byte, _) \<Rightarrow>
               if (first_byte = 0 \<and> second_byte AND 0x80 = 0) \<or>
                  (first_byte = 0xff \<and> second_byte AND 0x80 \<noteq> 0)
               then (False, neg) else (True, neg)))"

definition CBS_is_unsigned_asn1_integer :: "bytes \<Rightarrow> bool" where
  "CBS_is_unsigned_asn1_integer cbs =
     (case CBS_is_valid_asn1_integer cbs of (ok, is_negative) \<Rightarrow> ok \<and> \<not> is_negative)"

fun asn1_uint64_loop :: "u64 \<Rightarrow> bytes \<Rightarrow> u64 option" where
  "asn1_uint64_loop out [] = Some out"
| "asn1_uint64_loop out (b # data) =
     (if drop_bit 56 out \<noteq> 0 then None
      else asn1_uint64_loop (push_bit 8 out OR ucast b) data)"

definition CBS_get_asn1_uint64 :: "u64 rd" where
  "CBS_get_asn1_uint64 =
     rd_bind (CBS_get_asn1 CBS_ASN1_INTEGER) (\<lambda>bs.
       if \<not> CBS_is_unsigned_asn1_integer bs then rd_fail
       else case asn1_uint64_loop 0 bs of
              None \<Rightarrow> rd_fail
            | Some out \<Rightarrow> rd_return out)"

text \<open>
  The union of an \<open>int64_t\<close> and its eight bytes is read on a little-endian machine.  The result word
  is the two's complement of the \<open>int64_t\<close> (read it with \<^const>\<open>sint\<close>).
\<close>

definition CBS_get_asn1_int64 :: "u64 rd" where
  "CBS_get_asn1_int64 =
     rd_bind (CBS_get_asn1 CBS_ASN1_INTEGER) (\<lambda>bs.
       case CBS_is_valid_asn1_integer bs of (ok, is_negative) \<Rightarrow>
         if \<not> ok then rd_fail
         else if length bs > 8 then rd_fail
         else
           let u = replicate 8 (if is_negative then 0xff else 0);
               u = rev bs @ drop (length bs) u
           in rd_return (of_nat (le_val u)))"

definition CBS_get_asn1_bool :: "bool rd" where
  "CBS_get_asn1_bool =
     rd_bind (CBS_get_asn1 CBS_ASN1_BOOLEAN) (\<lambda>bs.
       if CBS_len bs \<noteq> 1 then rd_fail
       else let v = bs ! 0 in
         if v \<noteq> 0 \<and> v \<noteq> 0xff then rd_fail else rd_return (v \<noteq> 0))"

text \<open>Optional elements: \<open>None\<close> inside the result is "not present".\<close>

definition CBS_get_optional_asn1 :: "u32 \<Rightarrow> bytes option rd" where
  "CBS_get_optional_asn1 tag = (\<lambda>cbs.
     if CBS_peek_asn1_tag cbs tag then
       rd_bind (CBS_get_asn1 tag) (\<lambda>out. rd_return (Some out)) cbs
     else (Some None, cbs))"

definition CBS_get_optional_asn1_octet_string :: "u32 \<Rightarrow> (bytes \<times> bool) rd" where
  "CBS_get_optional_asn1_octet_string tag =
     rd_bind (CBS_get_optional_asn1 tag) (\<lambda>r.
       case r of
         None \<Rightarrow> rd_return ([], False)
       | Some child \<Rightarrow>
           (case CBS_get_asn1 CBS_ASN1_OCTETSTRING child of
              (None, _) \<Rightarrow> rd_fail
            | (Some out, child) \<Rightarrow>
                if CBS_len child \<noteq> 0 then rd_fail else rd_return (out, True)))"

definition CBS_get_optional_asn1_uint64 :: "u32 \<Rightarrow> u64 \<Rightarrow> u64 rd" where
  "CBS_get_optional_asn1_uint64 tag default_value =
     rd_bind (CBS_get_optional_asn1 tag) (\<lambda>r.
       case r of
         None \<Rightarrow> rd_return default_value
       | Some child \<Rightarrow>
           (case CBS_get_asn1_uint64 child of
              (None, _) \<Rightarrow> rd_fail
            | (Some out, child) \<Rightarrow>
                if CBS_len child \<noteq> 0 then rd_fail else rd_return out))"

definition CBS_get_optional_asn1_bool :: "u32 \<Rightarrow> bool \<Rightarrow> bool rd" where
  "CBS_get_optional_asn1_bool tag default_value =
     rd_bind (CBS_get_optional_asn1 tag) (\<lambda>r.
       case r of
         None \<Rightarrow> rd_return default_value
       | Some child \<Rightarrow>
           (case CBS_get_asn1 CBS_ASN1_BOOLEAN child of
              (None, _) \<Rightarrow> rd_fail
            | (Some child2, child) \<Rightarrow>
                if CBS_len child2 \<noteq> 1 \<or> CBS_len child \<noteq> 0 then rd_fail
                else
                  let boolean = child2 ! 0 in
                  if boolean = 0 then rd_return False
                  else if boolean = 0xff then rd_return True
                  else rd_fail))"

definition CBS_is_valid_asn1_bitstring :: "bytes \<Rightarrow> bool" where
  "CBS_is_valid_asn1_bitstring cbs =
     (case CBS_get_u8 cbs of
        (None, _) \<Rightarrow> False
      | (Some num_unused_bits, in_) \<Rightarrow>
          if num_unused_bits > 7 then False
          else if num_unused_bits = 0 then True
          else
            (case CBS_get_last_u8 in_ of
               (None, _) \<Rightarrow> False
             | (Some last_byte, _) \<Rightarrow>
                 last_byte AND (push_bit (unat num_unused_bits) 1 - 1) = 0))"

definition CBS_asn1_bitstring_has_bit :: "bytes \<Rightarrow> u32 \<Rightarrow> bool" where
  "CBS_asn1_bitstring_has_bit cbs bt =
     (if \<not> CBS_is_valid_asn1_bitstring cbs then False
      else
        let byte_num = unat (drop_bit 3 bt + 1 :: u32);
            bit_num = 7 - unat (bt AND 7)
        in byte_num < CBS_len cbs \<and> (cbs ! byte_num) AND push_bit bit_num 1 \<noteq> 0)"

section \<open>Windows and fixed-width integers: the contracts\<close>

lemma cbs_get_append [simp]: "cbs_get (length a) (a @ t) = (Some a, t)"
  by (simp add: cbs_get_def)

lemma cbs_get_iff: "cbs_get n s = (Some x, t) \<longleftrightarrow> length x = n \<and> s = x @ t"
  by (auto simp: cbs_get_def)

lemma cbs_get_None_iff: "cbs_get n s = (None, t) \<longleftrightarrow> length s < n \<and> t = s"
  by (auto simp: cbs_get_def)

interpretation cbs_get: canonical_codec "\<lambda>bs. bs" "cbs_get n" "\<lambda>bs. length bs = n"
  by unfold_locales (auto simp: cbs_get_iff, auto simp: cbs_get_def, metis append_take_drop_id)

lemma CBS_skip_eq: "CBS_skip n s = (if length s < n then (None, s) else (Some (), drop n s))"
  by (simp add: CBS_skip_def rd_bind_def cbs_get_def)

lemma CBS_get_bytes_eq: "CBS_get_bytes n = cbs_get n"
  by (auto simp: CBS_get_bytes_def rd_bind_def CBS_init_def fun_eq_iff cbs_get_def)

lemma CBS_copy_bytes_eq: "CBS_copy_bytes n = cbs_get n"
  by (auto simp: CBS_copy_bytes_def rd_bind_def fun_eq_iff cbs_get_def)

lemma CBS_get_u8_simps [simp]:
  "CBS_get_u8 [] = (None, [])" "CBS_get_u8 (b # s) = (Some b, s)"
  by (simp_all add: CBS_get_u8_def rd_bind_def cbs_get_def)

lemma unat_cbs_u_fold: "unat (foldl cbs_u_step 0 bs) = be_val bs mod size_lim"
proof (induction bs rule: rev_induct)
  case (snoc b bs)
  have "(be_val bs mod size_lim * 256 + unat b) mod size_lim =
      (be_val bs * 256 + unat b) mod size_lim"
    by (rule mod_mult_add_left)
  with snoc show ?case
    by (simp add: cbs_u_step_def unat_shift_or8)
qed simp

lemma be_val_small: "length bs \<le> 8 \<Longrightarrow> be_val bs < size_lim"
  using be_val_bound [of bs] power_increasing [of "length bs" 8 "256 :: nat"] by simp

lemma cbs_get_u_iff:
  assumes "n \<le> 8"
  shows "cbs_get_u n s = (Some v, t) \<longleftrightarrow> unat v < 256 ^ n \<and> s = be_bytes n (unat v) @ t"
proof
  assume "cbs_get_u n s = (Some v, t)"
  then obtain d where d: "length d = n" "s = d @ t" "v = foldl cbs_u_step 0 d"
    by (auto simp: cbs_get_u_def rd_bind_eq_Some cbs_get_iff)
  have "unat v = be_val d"
    using d assms be_val_small [of d] by (simp add: unat_cbs_u_fold)
  then show "unat v < 256 ^ n \<and> s = be_bytes n (unat v) @ t"
    using d be_val_bound [of d] be_bytes_be_val [of d] by simp
next
  assume h: "unat v < 256 ^ n \<and> s = be_bytes n (unat v) @ t"
  let ?d = "be_bytes n (unat v)"
  have "unat (foldl cbs_u_step 0 ?d) = unat v"
    using h u64_less_lim [of v] by (simp add: unat_cbs_u_fold be_val_be_bytes)
  then have "foldl cbs_u_step 0 ?d = v" by (simp add: word_unat_eq_iff)
  then show "cbs_get_u n s = (Some v, t)"
    using h cbs_get_append [of ?d t] by (simp add: cbs_get_u_def)
qed

lemma local_reader_cbs_get_u: "local_reader (cbs_get_u n)"
  unfolding cbs_get_u_def
  by (intro local_reader_bind local_reader_return cbs_get.local_reader_axioms)

lemma cbs_get_u_suffix: "\<exists>pre. s = pre @ snd (cbs_get_u n s)"
  using local_reader_cbs_get_u by (intro byte_reader.suffix local_reader.axioms)

text \<open>The fixed-width reads, as canonical codecs over big-endian byte strings.\<close>

lemma cbs_get_u_codec:
  assumes n: "n \<le> 8"
    and down: "\<And>w. unat w < 256 ^ n \<Longrightarrow> unat (conv w :: 'a::len word) = unat w"
    and up: "\<And>x :: 'a word. unat x < 256 ^ n \<or> \<not> P x"
    and dom: "\<And>w. unat w < 256 ^ n \<Longrightarrow> P (conv w)"
  shows "canonical_codec (\<lambda>v :: 'a word. be_bytes n (unat v))
    (rd_bind (cbs_get_u n) (\<lambda>v. rd_return (conv v))) P"
proof
  have e: "256 ^ n \<le> size_lim"
    using n power_increasing [of n 8 "256 :: nat"] by simp
  fix x :: "'a word" and t
  assume "P x"
  then have x: "unat x < 256 ^ n" using up [of x] by simp
  define w :: u64 where "w = of_nat (unat x)"
  have w: "unat w = unat x" using x e unfolding w_def unat_of_nat by simp
  then have c: "cbs_get_u n (be_bytes n (unat x) @ t) = (Some w, t)"
    using x by (simp add: cbs_get_u_iff [OF n])
  have "conv w = x"
    using down [of w] w x by (simp add: word_unat_eq_iff)
  with c show "rd_bind (cbs_get_u n) (\<lambda>v. rd_return (conv v)) (be_bytes n (unat x) @ t) = (Some x, t)"
    by simp
next
  fix s t and x :: "'a word"
  assume "rd_bind (cbs_get_u n) (\<lambda>v. rd_return (conv v)) s = (Some x, t)"
  then obtain w where w: "cbs_get_u n s = (Some w, t)" "x = conv w"
    by (auto simp: rd_bind_eq_Some)
  then have lt: "unat w < 256 ^ n" and s: "s = be_bytes n (unat w) @ t"
    using cbs_get_u_iff [OF n] by auto
  have "unat x = unat w" using w lt down [of w] by simp
  then show "P x \<and> s = be_bytes n (unat x) @ t" using s w dom [OF lt] by simp
next
  fix s
  obtain pre where pre: "s = pre @ snd (cbs_get_u n s)" using cbs_get_u_suffix by blast
  have "snd (rd_bind (cbs_get_u n) (\<lambda>v. rd_return (conv v)) s) = snd (cbs_get_u n s)"
    by (simp add: rd_bind_def split: prod.splits option.splits)
  with pre show "\<exists>pre. s = pre @ snd (rd_bind (cbs_get_u n) (\<lambda>v. rd_return (conv v)) s)"
    by metis
qed

lemma unat_ucast_mod: "unat (ucast (w :: 'b::len word) :: 'a::len word) = unat w mod 2 ^ LENGTH('a)"
  by (simp add: unsigned_ucast_eq take_bit_eq_mod)

interpretation u16: canonical_codec "\<lambda>v. be_bytes 2 (unat v)" CBS_get_u16 "\<lambda>_. True"
  unfolding CBS_get_u16_def
  by (rule cbs_get_u_codec) (auto simp: unat_ucast_mod intro: less_le_trans [OF unsigned_less])

interpretation u24: canonical_codec "\<lambda>v. be_bytes 3 (unat v)" CBS_get_u24 "\<lambda>v. unat v < 2 ^ 24"
  unfolding CBS_get_u24_def
  by (rule cbs_get_u_codec) (auto simp: unat_ucast_mod)

interpretation u32: canonical_codec "\<lambda>v. be_bytes 4 (unat v)" CBS_get_u32 "\<lambda>_. True"
  unfolding CBS_get_u32_def
  by (rule cbs_get_u_codec) (auto simp: unat_ucast_mod intro: less_le_trans [OF unsigned_less])

interpretation u64: canonical_codec "\<lambda>v. be_bytes 8 (unat v)" CBS_get_u64 "\<lambda>_. True"
proof -
  have e: "CBS_get_u64 = rd_bind (cbs_get_u 8) (\<lambda>v. rd_return (id v))"
    by (auto simp: CBS_get_u64_def rd_bind_def fun_eq_iff split: prod.splits option.splits)
  show "canonical_codec (\<lambda>v. be_bytes 8 (unat v)) CBS_get_u64 (\<lambda>_. True)"
    unfolding e by (rule cbs_get_u_codec) auto
qed

interpretation u8: canonical_codec "\<lambda>v. [v]" CBS_get_u8 "\<lambda>_. True"
proof
  show "\<exists>pre. s = pre @ snd (CBS_get_u8 s)" for s by (cases s) auto
  show "True \<and> s = [x] @ t" if "CBS_get_u8 s = (Some x, t)" for s x t
    using that by (cases s) auto
qed simp

section \<open>Little-endian reads\<close>

lemma of_nat_div_ucast:
  "(of_nat (unat (x :: 'a::len word) div 2 ^ k) :: u8) = ucast (drop_bit k x)"
proof -
  have "unat x div 2 ^ k = unat (drop_bit k x)"
    unfolding unat_drop_bit_eq by (simp only: drop_bit_eq_div)
  then show ?thesis by (simp only: of_nat_unat)
qed

lemma be_bytes_word:
  "be_bytes n (unat (v :: 'a::len word)) = map (\<lambda>i. ucast (drop_bit (8 * i) v)) (rev [0..<n])"
proof (induction n)
  case (Suc n)
  have "(256 :: nat) ^ n = 2 ^ (8 * n)" by (simp add: power_mult)
  with Suc show ?case
    using of_nat_div_ucast [of v "8 * n"] by (simp only: be_bytes_Suc_Cons) simp
qed simp

lemma be_bytes_bswap2: "be_bytes 2 (unat (CRYPTO_bswap2 v)) = le_bytes 2 (unat v)"
  unfolding le_bytes_def be_bytes_word
  by (simp add: numeral_2_eq_2, intro conjI; rule bit_word_eqI;
      auto simp: CRYPTO_bswap2_def bit_simps)

lemma be_bytes_bswap4: "be_bytes 4 (unat (CRYPTO_bswap4 v)) = le_bytes 4 (unat v)"
proof -
  have m: "(0xff00ff00 :: u32) = push_bit 8 (mask 8) OR push_bit 24 (mask 8)"
    "(0x00ff00ff :: u32) = mask 8 OR push_bit 16 (mask 8)"
    by (simp_all add: mask_eq_exp_minus_1 push_bit_eq_mult)
  have "ucast (drop_bit 24 (CRYPTO_bswap4 v)) = (ucast v :: u8)"
    "ucast (drop_bit 16 (CRYPTO_bswap4 v)) = (ucast (drop_bit 8 v) :: u8)"
    "ucast (drop_bit 8 (CRYPTO_bswap4 v)) = (ucast (drop_bit 16 v) :: u8)"
    "ucast (CRYPTO_bswap4 v) = (ucast (drop_bit 24 v) :: u8)"
    unfolding CRYPTO_bswap4_def Let_def m
    by (rule bit_word_eqI; auto simp: bit_simps dest: bit_imp_le_length)+
  then show ?thesis
    unfolding le_bytes_def be_bytes_word by (simp add: eval_nat_numeral upt_rec)
qed

lemma be_bytes_bswap8: "be_bytes 8 (unat (CRYPTO_bswap8 v)) = le_bytes 8 (unat v)"
proof -
  have hi: "be_bytes 4 (unat (ucast (drop_bit 32 x) :: u32)) @ be_bytes 4 (unat (ucast x :: u32)) = be_bytes 8 (unat x)" for x :: u64
    unfolding be_bytes_word
    by (simp add: eval_nat_numeral upt_rec, intro conjI; rule bit_word_eqI; auto simp: bit_simps dest: bit_imp_le_length)
  have "ucast (drop_bit 32 (CRYPTO_bswap8 v)) = CRYPTO_bswap4 (ucast v)"
    "ucast (CRYPTO_bswap8 v) = CRYPTO_bswap4 (ucast (drop_bit 32 v))"
    unfolding CRYPTO_bswap8_def by (rule bit_word_eqI; auto simp: bit_simps dest: bit_imp_le_length)+
  then have "be_bytes 8 (unat (CRYPTO_bswap8 v)) =
      le_bytes 4 (unat (ucast v :: u32)) @ le_bytes 4 (unat (ucast (drop_bit 32 v) :: u32))"
    using hi [of "CRYPTO_bswap8 v"] by (simp add: be_bytes_bswap4)
  also have "\<dots> = le_bytes 8 (unat v)"
    using hi [of v] by (simp add: le_bytes_def flip: rev_append)
  finally show ?thesis .
qed

lemma be_bytes_unat_inject_gen:
  assumes "be_bytes n (unat (a :: 'a::len word)) = be_bytes n (unat b)" "LENGTH('a) = 8 * n"
  shows "a = b"
proof -
  have "(256 :: nat) ^ n = 2 ^ LENGTH('a)" using assms(2) by (simp add: power_mult)
  then have "unat x mod 256 ^ n = unat x" for x :: "'a word" by simp
  then show ?thesis
    using arg_cong [OF assms(1), of be_val] by (simp add: be_val_be_bytes word_unat_eq_iff)
qed

lemma CRYPTO_bswap2_involution [simp]: "CRYPTO_bswap2 (CRYPTO_bswap2 v) = v"
  by (rule be_bytes_unat_inject_gen [of 2]) (simp_all add: be_bytes_bswap2 le_bytes_def)

lemma CRYPTO_bswap4_involution [simp]: "CRYPTO_bswap4 (CRYPTO_bswap4 v) = v"
  by (rule be_bytes_unat_inject_gen [of 4]) (simp_all add: be_bytes_bswap4 le_bytes_def)

lemma CRYPTO_bswap8_involution [simp]: "CRYPTO_bswap8 (CRYPTO_bswap8 v) = v"
  by (rule be_bytes_unat_inject_gen [of 8]) (simp_all add: be_bytes_bswap8 le_bytes_def)

interpretation u16le: canonical_codec "\<lambda>v. le_bytes 2 (unat v)" CBS_get_u16le "\<lambda>_. True"
  unfolding CBS_get_u16le_def be_bytes_bswap2 [symmetric]
  by (rule canonical_codec_map [OF u16.canonical_codec_axioms]) simp_all

interpretation u32le: canonical_codec "\<lambda>v. le_bytes 4 (unat v)" CBS_get_u32le "\<lambda>_. True"
  unfolding CBS_get_u32le_def be_bytes_bswap4 [symmetric]
  by (rule canonical_codec_map [OF u32.canonical_codec_axioms]) simp_all

interpretation u64le: canonical_codec "\<lambda>v. le_bytes 8 (unat v)" CBS_get_u64le "\<lambda>_. True"
  unfolding CBS_get_u64le_def be_bytes_bswap8 [symmetric]
  by (rule canonical_codec_map [OF u64.canonical_codec_axioms [unfolded CBS_get_u64_def]]) simp_all

section \<open>Length-prefixed strings and searches\<close>

lemma local_reader_length_prefixed: "local_reader (cbs_get_length_prefixed k)"
  unfolding cbs_get_length_prefixed_def
  by (intro local_reader_bind local_reader_cbs_get_u) (simp add: CBS_get_bytes_eq cbs_get.local_reader_axioms)

lemma length_prefixed_codec:
  assumes k: "k \<le> 3"
  shows "canonical_codec (\<lambda>bs. be_bytes k (length bs) @ bs) (cbs_get_length_prefixed k)
    (\<lambda>bs. length bs < 256 ^ k)"
proof
  have e: "256 ^ k \<le> (256 :: nat) ^ 3"
    using k by (intro power_increasing) simp_all
  fix bs t :: bytes
  assume bs: "length bs < 256 ^ k"
  have w: "unat (of_nat (length bs) :: u64) = length bs"
    using bs e by (simp add: unat_of_nat)
  then have "cbs_get_u k (be_bytes k (length bs) @ (bs @ t)) = (Some (of_nat (length bs)), bs @ t)"
    using k bs by (subst cbs_get_u_iff) auto
  with w show "cbs_get_length_prefixed k ((be_bytes k (length bs) @ bs) @ t) = (Some bs, t)"
    by (simp add: cbs_get_length_prefixed_def CBS_get_bytes_eq)
next
  fix s t bs
  assume "cbs_get_length_prefixed k s = (Some bs, t)"
  then obtain v m where "cbs_get_u k s = (Some v, m)" "cbs_get (unat v) m = (Some bs, t)"
    by (auto simp: cbs_get_length_prefixed_def rd_bind_eq_Some CBS_get_bytes_eq)
  with k show "length bs < 256 ^ k \<and> s = (be_bytes k (length bs) @ bs) @ t"
    using cbs_get_u_iff [of k s v m] by (simp add: cbs_get_iff)
next
  show "\<exists>pre. s = pre @ snd (cbs_get_length_prefixed k s)" for s
    using local_reader_length_prefixed by (intro byte_reader.suffix local_reader.axioms)
qed

interpretation u8_prefixed: canonical_codec "\<lambda>bs. be_bytes 1 (length bs) @ bs"
  CBS_get_u8_length_prefixed "\<lambda>bs. length bs < 256 ^ 1"
  unfolding CBS_get_u8_length_prefixed_def by (rule length_prefixed_codec) simp

interpretation u16_prefixed: canonical_codec "\<lambda>bs. be_bytes 2 (length bs) @ bs"
  CBS_get_u16_length_prefixed "\<lambda>bs. length bs < 256 ^ 2"
  unfolding CBS_get_u16_length_prefixed_def by (rule length_prefixed_codec) simp

interpretation u24_prefixed: canonical_codec "\<lambda>bs. be_bytes 3 (length bs) @ bs"
  CBS_get_u24_length_prefixed "\<lambda>bs. length bs < 256 ^ 3"
  unfolding CBS_get_u24_length_prefixed_def by (rule length_prefixed_codec) simp

lemma memchr_index_Some_iff:
  "memchr_index s c = Some i \<longleftrightarrow> i < length s \<and> s ! i = c \<and> c \<notin> set (take i s)"
proof (induction s arbitrary: i)
  case (Cons b s)
  then show ?case by (cases i) auto
qed simp

lemma memchr_index_append: "memchr_index s c = Some i \<Longrightarrow> memchr_index (s @ t) c = Some i"
  by (simp add: memchr_index_Some_iff nth_append)

lemma memchr_index_less: "memchr_index s c = Some i \<Longrightarrow> i < length s"
  by (simp add: memchr_index_Some_iff)

text \<open>\<open>CBS_get_until_first\<close> looks one byte ahead, so it is a reader but not a local one.\<close>

interpretation until_first: byte_reader "CBS_get_until_first c"
proof
  show "\<exists>pre. s = pre @ snd (CBS_get_until_first c s)" for s
    using cbs_get.suffix by (auto simp: CBS_get_until_first_def CBS_get_bytes_eq split: option.splits)
  show "CBS_get_until_first c (s @ t) = (Some x, s' @ t)"
    if "CBS_get_until_first c s = (Some x, s')" for s x s' t
    using that cbs_get.extend
    by (auto simp: CBS_get_until_first_def CBS_get_bytes_eq memchr_index_append split: option.splits)
qed

lemma CBS_mem_equal_iff: "CBS_mem_equal cbs data \<longleftrightarrow> cbs = data"
  by (auto simp: CBS_mem_equal_def CBS_len_def CRYPTO_memcmp_zero_iff)

end
