(* ===== verification/Der.thy ===== *)
theory Der
  imports Cbs
begin

text \<open>
  The encoding the parser of theory \<open>Cbs\<close> accepts, written down independently of the code: base-128
  integers, ASN.1 identifier octets, DER length octets and tag-length-value elements.  The
  interpretations prove that each parser accepts exactly these strings, so every value has one
  encoding and every accepted input is the encoding of the value returned.
\<close>

section \<open>Base-128 integers\<close>

fun b128_hi :: "nat \<Rightarrow> bytes" where
  "b128_hi n = (if n = 0 then [] else b128_hi (n div 128) @ [of_nat (128 + n mod 128)])"

declare b128_hi.simps [simp del]

definition b128 :: "nat \<Rightarrow> bytes" where
  "b128 n = b128_hi (n div 128) @ [of_nat (n mod 128)]"

lemma b128_hi_0 [simp]: "b128_hi 0 = []"
  by (simp add: b128_hi.simps)

lemma b128_hi_step:
  "0 < 128 * n + d \<Longrightarrow> d < 128 \<Longrightarrow> b128_hi (128 * n + d) = b128_hi n @ [of_nat (128 + d)]"
  by (subst b128_hi.simps) auto

lemma u8_high_bit_iff: "(b :: u8) AND 0x80 = 0 \<longleftrightarrow> unat b < 128"
proof -
  have "(b AND 0x80 = 0) = (\<not> bit b 7)"
    using and_exp_eq_0_iff_not_bit [of b 7] by simp
  also have "bit b 7 = bit (unat b) 7" by (simp add: bit_unsigned_iff)
  also have "\<dots> = odd (unat b div 128)" by (simp add: bit_iff_odd)
  also have "(\<not> odd (unat b div 128)) = (unat b < 128)"
  proof -
    have "unat b div 128 < 2" using u8_less_256 [of b] by (simp add: div_less_iff_less_mult)
    then have "unat b div 128 = 0 \<or> unat b div 128 = 1" by linarith
    then show ?thesis by (auto simp: div_eq_0_iff)
  qed
  finally show ?thesis .
qed

lemma unat_and_7f: "unat ((b :: u8) AND 0x7f) = unat b mod 128"
proof -
  have "b AND 0x7f = take_bit 7 b" by (simp add: take_bit_eq_mask mask_eq_exp_minus_1)
  then have "unat (b AND 0x7f) = take_bit 7 (unat b)" by (simp only: unsigned_take_bit_eq)
  then show ?thesis by (simp add: take_bit_eq_mod)
qed

lemma unat_or_80: "unat (b :: u8) < 128 \<Longrightarrow> unat (b OR 0x80) = unat b + 128"
  using or_add_disjoint [of "unat b" 7 1] by (simp add: unsigned_or_eq or.commute)

lemma u8_mod_128:
  assumes "128 \<le> unat (b :: u8)"
  shows "unat b mod 128 = unat b - 128"
proof -
  have "unat b - 128 < 128" using u8_less_256 [of b] assms by linarith
  then show ?thesis using assms le_mod_geq [of 128 "unat b"] by simp
qed

text \<open>Shift left and put a small value in the free bits: multiply and add.\<close>

lemma unat_push_or:
  fixes r :: "'a::len word" and c :: "'b::len word"
  assumes c: "unat c < 2 ^ k" and r: "unat r * 2 ^ k < 2 ^ LENGTH('a)" and k: "k \<le> LENGTH('a)"
  shows "unat (push_bit k r OR ucast c) = unat r * 2 ^ k + unat c"
proof -
  have p: "unat (push_bit k r) = unat r * 2 ^ k"
    using r unfolding unsigned_push_bit_eq by (simp add: take_bit_eq_mod push_bit_eq_mult)
  have "unat c < 2 ^ LENGTH('a)"
    using c power_increasing [OF k, of "2 :: nat"] by (meson less_le_trans one_le_numeral)
  then have u: "unat (ucast c :: 'a word) = unat c"
    by (simp add: unsigned_ucast_eq take_bit_nat_eq_self_iff)
  have "unat (push_bit k r OR ucast c) = unat r * 2 ^ k OR unat c"
    by (simp only: unsigned_or_eq p u)
  then show ?thesis using or_add_disjoint [OF c] by simp
qed

lemma base128_step:
  assumes "drop_bit 57 v = (0 :: u64)"
  shows "unat (push_bit 7 v OR ucast (b AND 0x7f :: u8)) = unat v * 128 + unat b mod 128"
proof -
  have "drop_bit 57 (unat v) = 0" using assms by (metis unat_0 unat_drop_bit_eq)
  then have "unat v < 2 ^ 57" by (simp add: drop_bit_eq_div div_eq_0_iff)
  then show ?thesis
    using unat_push_or [of "b AND 0x7f" 7 v] by (simp add: unat_and_7f)
qed

lemma drop_57_iff: "drop_bit 57 v = (0 :: u64) \<longleftrightarrow> unat v < 2 ^ 57"
proof -
  have "drop_bit 57 v = 0 \<longleftrightarrow> drop_bit 57 (unat v) = 0"
    by (metis unat_0 unat_drop_bit_eq unsigned_eq_0_iff)
  then show ?thesis by (simp add: drop_bit_eq_div div_eq_0_iff)
qed

lemma base128_loop_more:
  "drop_bit 57 v = 0 \<Longrightarrow> \<not> (v = 0 \<and> b = 0x80) \<Longrightarrow> b AND 0x80 \<noteq> 0 \<Longrightarrow>
   parse_base128_loop v (b # r) = parse_base128_loop (push_bit 7 v OR ucast (b AND 0x7f)) r"
  by (auto simp: Let_def)

lemma base128_loop_last:
  "drop_bit 57 v = 0 \<Longrightarrow> b AND 0x80 = 0 \<Longrightarrow>
   parse_base128_loop v (b # r) = (Some (push_bit 7 v OR ucast (b AND 0x7f)), r)"
  by (auto simp: Let_def)

lemma base128_loop_hi:
  "n < 2 ^ 64 \<Longrightarrow> parse_base128_loop 0 (b128_hi n @ r) = parse_base128_loop (of_nat n) r"
proof (induction n arbitrary: r rule: b128_hi.induct)
  case (1 n)
  show ?case
  proof (cases "n = 0")
    case False
    let ?b = "of_nat (128 + n mod 128) :: u8" and ?v = "of_nat (n div 128) :: u64"
    have b: "unat ?b = 128 + n mod 128" by (simp only: unat_of_nat) simp
    have v: "unat ?v = n div 128" using "1.prems" by (simp only: unat_of_nat) simp
    have d: "drop_bit 57 ?v = 0" using "1.prems" v by (simp add: drop_57_iff div_less_iff_less_mult)
    have "parse_base128_loop 0 (b128_hi n @ r) = parse_base128_loop ?v (?b # r)"
      using False "1.IH" "1.prems" by (simp add: b128_hi.simps [of n] less_le_trans [of _ n])
    also have "\<dots> = parse_base128_loop (push_bit 7 ?v OR ucast (?b AND 0x7f)) r"
    proof -
      have "\<not> (?v = 0 \<and> ?b = 0x80)"
      proof
        assume "?v = 0 \<and> ?b = 0x80"
        then have "unat ?v = 0" "unat ?b = 128" by simp_all
        then have "n div 128 = 0" "n mod 128 = 0" using b v by linarith+
        then show False using False div_mult_mod_eq [of n 128] by simp
      qed
      moreover have "?b AND 0x80 \<noteq> 0" using b by (simp add: u8_high_bit_iff)
      ultimately show ?thesis using d by (intro base128_loop_more)
    qed
    also have "push_bit 7 ?v OR ucast (?b AND 0x7f) = of_nat n"
    proof -
      have "unat (push_bit 7 ?v OR ucast (?b AND 0x7f)) = n"
        unfolding base128_step [OF d] b v by simp
      then show ?thesis by (metis of_nat_unat ucast_id)
    qed
    finally show ?thesis .
  qed simp
qed

lemma parse_base128_roundtrip:
  assumes "n < 2 ^ 64"
  shows "parse_base128_integer (b128 n @ r) = (Some (of_nat n), r)"
proof -
  let ?b = "of_nat (n mod 128) :: u8" and ?v = "of_nat (n div 128) :: u64"
  have b: "unat ?b = n mod 128" by (simp only: unat_of_nat) simp
  have v: "unat ?v = n div 128" using assms by (simp only: unat_of_nat) simp
  have d: "drop_bit 57 ?v = 0" using assms v by (simp add: drop_57_iff div_less_iff_less_mult)
  have "parse_base128_integer (b128 n @ r) = parse_base128_loop ?v (?b # r)"
    using assms base128_loop_hi [of "n div 128" "?b # r"]
    by (simp add: parse_base128_integer_def b128_def div_less_iff_less_mult)
  also have "\<dots> = (Some (push_bit 7 ?v OR ucast (?b AND 0x7f)), r)"
    using b by (intro base128_loop_last [OF d]) (simp add: u8_high_bit_iff)
  also have "push_bit 7 ?v OR ucast (?b AND 0x7f) = of_nat n"
  proof -
    have "unat (push_bit 7 ?v OR ucast (?b AND 0x7f)) = n"
      unfolding base128_step [OF d] b v by simp
    then show ?thesis by (metis of_nat_unat ucast_id)
  qed
  finally show ?thesis .
qed

lemma base128_loop_canonical:
  "parse_base128_loop v s = (Some x, t) \<Longrightarrow> \<exists>pre. s = pre @ t \<and> b128_hi (unat v) @ pre = b128 (unat x)"
proof (induction s arbitrary: v)
  case (Cons b s)
  let ?v' = "push_bit 7 v OR ucast (b AND 0x7f)"
  from Cons.prems have d: "drop_bit 57 v = 0" and z: "\<not> (v = 0 \<and> b = 0x80)"
    by (auto split: if_splits)
  have v': "unat ?v' = 128 * unat v + unat b mod 128"
    using base128_step [OF d, of b] by simp
  show ?case
  proof (cases "b AND 0x80 = 0")
    case True
    then have "unat b < 128" by (simp add: u8_high_bit_iff)
    moreover have "x = ?v'" "t = s"
      using Cons.prems base128_loop_last [OF d True, of s] by auto
    ultimately have "b128_hi (unat v) @ [b] = b128 (unat x)"
      using v' by (simp add: b128_def)
    then show ?thesis using \<open>t = s\<close> by (intro exI [of _ "[b]"]) simp
  next
    case False
    then have hb: "128 \<le> unat b" by (simp add: u8_high_bit_iff)
    have m: "unat b = 128 + unat b mod 128"
      using hb by (simp add: u8_mod_128)
    have pos: "0 < 128 * unat v + unat b mod 128"
    proof (rule ccontr)
      assume "\<not> ?thesis"
      then have "unat v = 0" "unat b = 128" using m by simp_all
      then have "v = 0" "b = 0x80" by (simp_all add: word_unat_eq_iff)
      then show False using z by simp
    qed
    have "(of_nat (128 + unat b mod 128) :: u8) = b" using m by (metis of_nat_unat ucast_id)
    then have hi: "b128_hi (unat ?v') = b128_hi (unat v) @ [b]"
      using b128_hi_step [OF pos] v' by simp
    have "parse_base128_loop ?v' s = (Some x, t)"
      using Cons.prems base128_loop_more [OF d z False, of s] by simp
    from Cons.IH [OF this] obtain pre where "s = pre @ t" "b128_hi (unat ?v') @ pre = b128 (unat x)"
      by blast
    then show ?thesis using hi by (intro exI [of _ "b # pre"]) simp
  qed
qed simp

lemma base128_loop_suffix: "\<exists>pre. s = pre @ snd (parse_base128_loop v s)"
proof (induction v s rule: parse_base128_loop.induct)
  case (2 v b s)
  show ?case
  proof (cases "drop_bit 57 v = 0 \<and> \<not> (v = 0 \<and> b = 0x80) \<and> b AND 0x80 \<noteq> 0")
    case True
    then obtain pre where "s = pre @ snd (parse_base128_loop (push_bit 7 v OR ucast (b AND 0x7f)) s)"
      using "2.IH" by auto
    then show ?thesis using True base128_loop_more [of v b s] by (metis append_Cons)
  next
    case False
    then have "snd (parse_base128_loop v (b # s)) = s" by (auto simp: Let_def)
    then show ?thesis by (metis append_Cons append_Nil)
  qed
qed simp

interpretation base128: canonical_codec "\<lambda>v. b128 (unat v)" parse_base128_integer "\<lambda>_. True"
proof
  show "parse_base128_integer (b128 (unat x) @ t) = (Some x, t)" for x t
    using parse_base128_roundtrip [of "unat x" t] by simp
  show "True \<and> s = b128 (unat x) @ t" if "parse_base128_integer s = (Some x, t)" for s x t
    using base128_loop_canonical [of 0 s x t] that by (auto simp: parse_base128_integer_def)
  show "\<exists>pre. s = pre @ snd (parse_base128_integer s)" for s
    unfolding parse_base128_integer_def by (rule base128_loop_suffix)
qed

section \<open>Identifier octets\<close>

definition der_tag :: "u32 \<Rightarrow> bytes" where
  "der_tag tag =
     (let tag_bits = ucast (drop_bit 24 tag AND 0xe0) :: u8;
          tag_number = tag AND CBS_ASN1_TAG_NUMBER_MASK
      in if tag_number < 0x1f then [tag_bits OR ucast tag_number]
         else (tag_bits OR 0x1f) # b128 (unat tag_number))"

lemma tag_masks:
  "(0xe0 :: u32) = push_bit 5 (mask 3)" "(0x1f :: u8) = mask 5" "(0x1f :: u32) = mask 5"
  "(0xe0 :: u8) = push_bit 5 (mask 3)" "CBS_ASN1_TAG_NUMBER_MASK = mask 29"
  by (simp_all add: mask_eq_exp_minus_1 push_bit_eq_mult CBS_ASN1_TAG_NUMBER_MASK_def)

lemma tag_split: "push_bit 24 (drop_bit 24 tag AND 0xe0) OR (tag AND CBS_ASN1_TAG_NUMBER_MASK) = (tag :: u32)"
  unfolding tag_masks by (rule bit_word_eqI) (auto simp: bit_simps)

lemma tag_compose:
  fixes c :: u8 and v :: u32
  assumes "v AND CBS_ASN1_TAG_NUMBER_MASK = v"
  defines "tag \<equiv> push_bit 24 (ucast c AND 0xe0) OR v"
  shows "tag AND CBS_ASN1_TAG_NUMBER_MASK = v"
    and "ucast (drop_bit 24 tag AND 0xe0) = c AND 0xe0"
proof -
  have v: "n < 29" if "bit v n" for n
    using arg_cong [OF assms(1), of "\<lambda>w. bit w n"] that unfolding tag_masks by (auto simp: bit_simps)
  show "tag AND CBS_ASN1_TAG_NUMBER_MASK = v"
    unfolding tag_def tag_masks by (intro bit_word_eqI) (auto simp: bit_simps dest: v)
  show "ucast (drop_bit 24 tag AND 0xe0) = c AND 0xe0"
    unfolding tag_def tag_masks by (intro bit_word_eqI) (auto simp: bit_simps dest: v)
qed

lemma tag_byte_low:
  fixes k :: u32 and c :: u8
  assumes "k < 0x20"
  shows "((c AND 0xe0) OR ucast k) AND 0x1f = ucast k" "((c AND 0xe0) OR ucast k) AND 0xe0 = c AND 0xe0"
    and "ucast (ucast k :: u8) = k"
proof -
  have "unat k < 2 ^ 5" using assms by (simp add: word_less_nat_alt)
  then have "take_bit 5 k = k"
    by (simp add: word_unat_eq_iff unsigned_take_bit_eq take_bit_nat_eq_self_iff)
  then have k: "n < 5" if "bit k n" for n
    using that by (metis bit_take_bit_iff)
  show "((c AND 0xe0) OR ucast k) AND 0x1f = ucast k"
    unfolding tag_masks by (intro bit_word_eqI) (auto simp: bit_simps dest: k)
  show "((c AND 0xe0) OR ucast k) AND 0xe0 = c AND 0xe0"
    unfolding tag_masks by (intro bit_word_eqI) (auto simp: bit_simps dest: k)
  show "ucast (ucast k :: u8) = k"
    by (intro bit_word_eqI) (auto simp: bit_simps dest: k)
qed

lemma tag_byte_split: "(c AND 0xe0) OR (c AND 0x1f) = (c :: u8)"
  unfolding tag_masks by (intro bit_word_eqI) (auto simp: bit_simps)

lemma ucast_tag_bits: "ucast (c AND 0xe0 :: u8) = (ucast c AND 0xe0 :: u32)"
  unfolding tag_masks by (intro bit_word_eqI) (auto simp: bit_simps)

lemma tag_bits_facts:
  fixes tag :: u32
  defines "c \<equiv> ucast (drop_bit 24 tag AND 0xe0) :: u8"
  shows "c AND 0xe0 = c" "(ucast c AND 0xe0 :: u32) = drop_bit 24 tag AND 0xe0"
  unfolding c_def tag_masks by (intro bit_word_eqI; auto simp: bit_simps)+

lemma parse_asn1_tag_Nil [simp]: "parse_asn1_tag [] = (None, [])"
  by (simp add: parse_asn1_tag_def rd_bind_def)

lemma parse_asn1_tag_Cons:
  "parse_asn1_tag (b # s) =
     (let tag = push_bit 24 (ucast b AND 0xe0 :: u32); n = ucast (b AND 0x1f) :: u32
      in if n = 0x1f then
           rd_bind parse_base128_integer (\<lambda>v.
             rd_bind (rd_guard (\<not> (v > ucast CBS_ASN1_TAG_NUMBER_MASK \<or> v < 0x1f))) (\<lambda>_.
               rd_return (tag OR ucast v))) s
         else (Some (tag OR n), s))"
  by (simp add: parse_asn1_tag_def Let_def)

lemma u32_via_u64:
  fixes k :: u32
  shows "(of_nat (unat k) :: u64) = ucast k" "ucast (ucast k :: u64) = k"
    "unat (ucast k :: u64) = unat k"
proof -
  show u: "unat (ucast k :: u64) = unat k"
    using u32_less_lim [of k] by (simp add: unsigned_ucast_eq take_bit_nat_eq_self_iff del: u32_less_lim)
  show "(of_nat (unat k) :: u64) = ucast k" by simp
  show "ucast (ucast k :: u64) = k"
    by (intro bit_word_eqI) (auto simp: bit_simps dest: bit_imp_le_length)
qed

lemma parse_asn1_tag_roundtrip: "parse_asn1_tag (der_tag tag @ r) = (Some tag, r)"
proof -
  let ?c = "ucast (drop_bit 24 tag AND 0xe0) :: u8"
  let ?k = "tag AND CBS_ASN1_TAG_NUMBER_MASK"
  note c = tag_bits_facts [of tag]
  show ?thesis
  proof (cases "?k < 0x1f")
    case True
    then have k: "?k < 0x20" by (rule less_trans) simp
    note b = tag_byte_low(1,2) [OF k, of ?c, unfolded c(1)] tag_byte_low(3) [OF k]
    have "ucast (?c OR ucast ?k) AND 0xe0 = (ucast ?c AND 0xe0 :: u32)"
      unfolding ucast_tag_bits [symmetric] b(2) c(1) ..
    then show ?thesis
      using True b c tag_split [of tag]
      by (simp add: der_tag_def parse_asn1_tag_Cons Let_def)
  next
    case False
    have "(0x1f :: u32) < 0x20" by simp
    note b = tag_byte_low(1,2) [OF this, of ?c, unfolded c(1), simplified]
    have "ucast (?c OR 0x1f) AND 0xe0 = (ucast ?c AND 0xe0 :: u32)"
      unfolding ucast_tag_bits [symmetric] b(2) c(1) ..
    moreover have "\<not> ucast ?k > (ucast CBS_ASN1_TAG_NUMBER_MASK :: u64)" "\<not> ucast ?k < (0x1f :: u64)"
      using False word_and_le1 [of tag CBS_ASN1_TAG_NUMBER_MASK]
      by (simp_all add: word_less_nat_alt word_le_nat_alt u32_via_u64 not_less)
    moreover have "parse_base128_integer (b128 (unat ?k) @ r) = (Some (ucast ?k), r)"
      using base128.roundtrip [of "ucast ?k" r] by (simp add: u32_via_u64)
    ultimately show ?thesis
      using False b c tag_split [of tag]
      by (simp add: der_tag_def parse_asn1_tag_Cons Let_def u32_via_u64)
  qed
qed

lemma parse_asn1_tag_canonical:
  assumes "parse_asn1_tag s = (Some tag, t)"
  shows "s = der_tag tag @ t"
proof (cases s)
  case Nil
  with assms show ?thesis by simp
next
  case (Cons b s1)
  let ?n = "ucast (b AND 0x1f) :: u32"
  have nlt: "b AND 0x1f \<le> 0x1f" by (rule word_and_le1)
  have un: "unat ?n = unat (b AND 0x1f)"
    by (simp add: unsigned_ucast_eq take_bit_nat_eq_self_iff less_trans [OF u8_less_256])
  show ?thesis
  proof (cases "?n = 0x1f")
    case False
    then have tag: "tag = push_bit 24 (ucast b AND 0xe0) OR ?n" and t: "t = s1"
      using assms Cons by (simp_all add: parse_asn1_tag_Cons Let_def)
    have n: "?n < 0x1f"
      using nlt False un by (simp add: word_less_nat_alt word_le_nat_alt word_unat_eq_iff)
    then have "?n AND CBS_ASN1_TAG_NUMBER_MASK = ?n"
      unfolding tag_masks by (intro bit_word_eqI) (auto simp: bit_simps)
    note c = tag_compose [OF this, of b, folded tag]
    have "ucast ?n = b AND 0x1f"
      by (intro bit_word_eqI) (auto simp: bit_simps)
    then show ?thesis
      using c n Cons t tag_byte_split [of b] by (simp add: der_tag_def Let_def)
  next
    case True
    then obtain v where v: "parse_base128_integer s1 = (Some v, t)"
      "\<not> v > ucast CBS_ASN1_TAG_NUMBER_MASK" "\<not> v < 0x1f"
      and tag: "tag = push_bit 24 (ucast b AND 0xe0) OR ucast v"
      using assms Cons
      by (auto simp: parse_asn1_tag_Cons Let_def rd_bind_eq_Some rd_guard_def split: if_splits)
    have vb: "unat v \<le> 0x1fffffff"
      using v(2) by (simp add: word_le_nat_alt not_less CBS_ASN1_TAG_NUMBER_MASK_def)
    have uv: "unat (ucast v :: u32) = unat v"
      using vb by (simp add: unsigned_ucast_eq take_bit_nat_eq_self_iff)
    have "take_bit 29 (ucast v :: u32) = ucast v"
      using vb uv by (simp add: word_unat_eq_iff unsigned_take_bit_eq take_bit_nat_eq_self_iff)
    then have "(ucast v :: u32) AND CBS_ASN1_TAG_NUMBER_MASK = ucast v"
      unfolding tag_masks by (simp add: take_bit_eq_mask)
    note c = tag_compose [OF this, of b, folded tag]
    have "\<not> (ucast v :: u32) < 0x1f"
      using v(3) uv by (simp add: word_less_nat_alt)
    moreover have "b AND 0x1f = 0x1f"
      using True un by (simp add: word_unat_eq_iff)
    moreover have "s1 = b128 (unat v) @ t"
      using base128.canonical [OF v(1)] by simp
    ultimately show ?thesis
      using c Cons uv tag_byte_split [of b] by (simp add: der_tag_def Let_def)
  qed
qed

lemma local_reader_asn1_tag: "local_reader parse_asn1_tag"
  unfolding parse_asn1_tag_def Let_def
  by (intro local_reader_bind u8.local_reader_axioms) 
    (auto intro!: local_reader_bind local_reader_return local_reader_guard base128.local_reader_axioms)

interpretation asn1_tag: canonical_codec der_tag parse_asn1_tag "\<lambda>_. True"
proof
  show "\<exists>pre. s = pre @ snd (parse_asn1_tag s)" for s
    using local_reader_asn1_tag by (intro byte_reader.suffix local_reader.axioms)
qed (simp_all add: parse_asn1_tag_roundtrip parse_asn1_tag_canonical)

section \<open>Length octets and elements\<close>

fun nbytes :: "nat \<Rightarrow> nat" where
  "nbytes n = (if n < 256 then 1 else Suc (nbytes (n div 256)))"

declare nbytes.simps [simp del]

definition der_len :: "nat \<Rightarrow> bytes" where
  "der_len n = (if n < 128 then [of_nat n] else of_nat (128 + nbytes n) # be_bytes (nbytes n) n)"

definition der :: "u32 \<Rightarrow> bytes \<Rightarrow> bytes" where
  "der tag body = der_tag tag @ der_len (length body) @ body"

definition der_header_len :: "u32 \<Rightarrow> nat \<Rightarrow> nat" where
  "der_header_len tag n = length (der_tag tag) + length (der_len n)"

lemma nbytes_bounds: "n < 256 ^ nbytes n \<and> (0 < n \<longrightarrow> 256 ^ (nbytes n - 1) \<le> n) \<and> 0 < nbytes n"
proof (induction n rule: nbytes.induct)
  case (1 n)
  show ?case
  proof (cases "n < 256")
    case True
    then show ?thesis by (simp add: nbytes.simps [of n])
  next
    case False
    let ?m = "n div 256"
    have m: "0 < ?m" using False by (simp add: div_greater_zero_iff)
    from "1.IH" [OF False] m have IH: "?m < 256 ^ nbytes ?m" "256 ^ (nbytes ?m - 1) \<le> ?m" "0 < nbytes ?m"
      by simp_all
    have "n < 256 * 256 ^ nbytes ?m"
      using IH(1) by (simp add: div_less_iff_less_mult mult.commute)
    moreover have "256 * 256 ^ (nbytes ?m - 1) \<le> n"
      using IH(2) by (simp add: less_eq_div_iff_mult_less_eq mult.commute)
    then have "256 ^ nbytes ?m \<le> n"
      using IH(3) power_minus_mult [of "nbytes ?m" "256 :: nat"] by (simp add: mult.commute)
    ultimately show ?thesis using False by (simp add: nbytes.simps [of n])
  qed
qed

lemma nbytes_unique:
  assumes "0 < k" "256 ^ (k - 1) \<le> n" "n < 256 ^ k"
  shows "nbytes n = k"
proof -
  have n: "0 < n" using assms(2) by (metis le_0_eq not_gr_zero power_eq_0_iff zero_neq_numeral)
  note b = nbytes_bounds [of n]
  have "(256 :: nat) ^ (k - 1) < 256 ^ nbytes n" using b assms(2) by linarith
  then have 1: "k - 1 < nbytes n" by (rule power_less_imp_less_exp [rotated]) simp
  have "(256 :: nat) ^ (nbytes n - 1) < 256 ^ k" using b n assms(3) by linarith
  then have 2: "nbytes n - 1 < k" by (rule power_less_imp_less_exp [rotated]) simp
  show ?thesis using 1 2 assms(1) b by linarith
qed

lemma nbytes_le: "n < 256 ^ k \<Longrightarrow> 0 < k \<Longrightarrow> nbytes n \<le> k"
proof (rule ccontr)
  assume n: "n < 256 ^ k" "0 < k" "\<not> nbytes n \<le> k"
  show False
  proof (cases "n = 0")
    case True
    then show False using n nbytes.simps [of 0] by simp
  next
    case False
    then have "(256 :: nat) ^ (nbytes n - 1) < 256 ^ k" using n(1) nbytes_bounds [of n] by linarith
    then have "nbytes n - 1 < k" by (rule power_less_imp_less_exp [rotated]) simp
    then show False using n by linarith
  qed
qed

lemma length_b128_hi: "n < 128 ^ k \<Longrightarrow> length (b128_hi n) \<le> k"
proof (induction k arbitrary: n)
  case (Suc k)
  then have "length (b128_hi (n div 128)) \<le> k" by (simp add: div_less_iff_less_mult mult.commute)
  then show ?case by (simp add: b128_hi.simps [of n])
qed simp

lemma length_der_tag: "length (der_tag tag) \<le> 6" "0 < length (der_tag tag)"
proof -
  have "unat (tag AND CBS_ASN1_TAG_NUMBER_MASK) \<le> 0x1fffffff"
    using word_and_le1 [of tag CBS_ASN1_TAG_NUMBER_MASK]
    by (simp add: word_le_nat_alt CBS_ASN1_TAG_NUMBER_MASK_def)
  then have "unat (tag AND CBS_ASN1_TAG_NUMBER_MASK) div 128 < 128 ^ 4"
    by (simp add: div_less_iff_less_mult)
  from length_b128_hi [OF this] show "length (der_tag tag) \<le> 6"
    by (simp add: der_tag_def b128_def Let_def)
  show "0 < length (der_tag tag)" by (simp add: der_tag_def Let_def)
qed

lemma drop_bit_0_iff_unat: "drop_bit k (v :: 'a::len word) = 0 \<longleftrightarrow> unat v < 2 ^ k"
proof -
  have "drop_bit k v = 0 \<longleftrightarrow> drop_bit k (unat v) = 0"
    by (metis unat_0 unat_drop_bit_eq unsigned_eq_0_iff)
  then show ?thesis by (simp add: drop_bit_eq_div div_eq_0_iff)
qed

text \<open>The two length forms, as equations of the element parser.\<close>

lemma any_element_short:
  assumes "parse_asn1_tag s = (Some tag, lb # h)" "unat lb < 128"
  shows "cbs_get_any_asn1_element ber s =
    (let hl = length s - length h in
     rd_bind (cbs_get (unat lb + hl)) (\<lambda>out. rd_return (out, tag, hl, False)) s)"
  using assms
  by (simp add: cbs_get_any_asn1_element_def Let_def CBS_len_def CBS_get_bytes_eq u8_high_bit_iff)

lemma any_element_long:
  assumes "parse_asn1_tag s = (Some tag, lb # h)" "128 \<le> unat lb"
  shows "cbs_get_any_asn1_element False s =
    (let hl = length s - length h; k = unat lb - 128 in
     if k = 0 \<or> 4 < k then (None, s)
     else case cbs_get_u k h of
       (None, _) \<Rightarrow> (None, s)
     | (Some v, _) \<Rightarrow>
         if unat v < 128 \<or> unat v < 256 ^ (k - 1) then (None, s)
         else let total = size_add (size_add (unat v) hl) k in
           if total < unat v then (None, s)
           else rd_bind (cbs_get total) (\<lambda>out. rd_return (out, tag, hl + k, False)) s)"
proof -
  have k: "unat (lb AND 0x7f) = unat lb - 128"
    using assms(2) by (simp add: unat_and_7f u8_mod_128)
  have h: "lb AND 0x80 \<noteq> 0" using assms(2) by (simp add: u8_high_bit_iff)
  have p: "(2 :: nat) ^ (m * 8) = 256 ^ m" for m
    by (simp add: power_mult mult.commute [of _ 8])
  show ?thesis
  proof (cases "unat lb - 128 = 0 \<or> 4 < unat lb - 128")
    case True
    then show ?thesis
      using assms(1) h
      by (simp add: cbs_get_any_asn1_element_def Let_def CBS_len_def CBS_get_bytes_eq k)
  next
    case False
    obtain r h' where g: "cbs_get_u (unat lb - 128) h = (r, h')" by (cases "cbs_get_u (unat lb - 128) h")
    show ?thesis
      using assms(1) h False g
      by (cases r) (auto simp add: cbs_get_any_asn1_element_def Let_def CBS_len_def CBS_get_bytes_eq k
          drop_bit_0_iff_unat p word_less_nat_alt)
  qed
qed

lemma cbs_get_exact: "n = length a \<Longrightarrow> cbs_get n (a @ t) = (Some a, t)"
  by simp

lemma any_element_roundtrip:
  assumes n: "length body < 2 ^ 32"
  shows "cbs_get_any_asn1_element False (der tag body @ t) =
    (Some (der tag body, tag, der_header_len tag (length body), False), t)"
proof -
  let ?n = "length body"
  have s: "der tag body @ t = der_tag tag @ (der_len ?n @ body @ t)" by (simp add: der_def)
  show ?thesis
  proof (cases "?n < 128")
    case True
    let ?lb = "of_nat ?n :: u8"
    have lb: "unat ?lb = ?n" using True by (simp only: unat_of_nat) simp
    have p: "parse_asn1_tag (der tag body @ t) = (Some tag, ?lb # (body @ t))"
      using asn1_tag.roundtrip [of tag "?lb # (body @ t)"] True by (simp add: s der_len_def)
    have d: "der tag body = der_tag tag @ [?lb] @ body" using True by (simp add: der_def der_len_def)
    show ?thesis
      using True lb any_element_short [OF p, of False]
      by (simp add: d Let_def der_header_len_def der_len_def cbs_get_exact [of _ "der_tag tag @ [?lb] @ body" t, simplified])
  next
    case False
    let ?k = "nbytes ?n" and ?hl = "length (der_tag tag) + 1"
    let ?lb = "of_nat (128 + ?k) :: u8" and ?v = "of_nat ?n :: u64"
    have k4: "?k \<le> 4" using n nbytes_le [of ?n 4] by simp
    note kb = nbytes_bounds [of ?n]
    have lb: "unat ?lb = 128 + ?k" using k4 by (simp only: unat_of_nat) simp
    have v: "unat ?v = ?n" using n by (simp only: unat_of_nat) simp
    let ?r = "be_bytes ?k ?n @ (body @ t)"
    have d: "der tag body = der_tag tag @ [?lb] @ be_bytes ?k ?n @ body"
      using False by (simp add: der_def der_len_def)
    have p: "parse_asn1_tag (der tag body @ t) = (Some tag, ?lb # ?r)"
      using asn1_tag.roundtrip [of tag "?lb # ?r"] by (simp add: d)
    have g: "cbs_get_u ?k ?r = (Some ?v, body @ t)"
      using k4 kb v by (subst cbs_get_u_iff) simp_all
    have tot: "size_add (size_add ?n ?hl) ?k = length (der tag body)"
      using n k4 length_der_tag(1) [of tag] by (simp add: d size_add_exact)
    have "\<not> (?n < 128 \<or> ?n < 256 ^ (?k - 1))" using False kb by auto
    moreover have "\<not> (?k = 0 \<or> 4 < ?k)" using k4 kb by auto
    moreover have "length (der tag body @ t) - length ?r = ?hl" by (simp add: d)
    moreover have "\<not> length (der tag body) < ?n" by (simp add: d)
    moreover have "der_header_len tag ?n = ?hl + ?k"
      using False by (simp add: der_header_len_def der_len_def)
    ultimately show ?thesis
      using any_element_long [OF p] lb g v tot cbs_get_append [of "der tag body" t]
      by (simp add: Let_def)
  qed
qed

lemma any_element_canonical:
  assumes "cbs_get_any_asn1_element False s = (Some (out, tag, hl, ber), t)"
  shows "\<exists>body. length body < 2 ^ 32 \<and> out = der tag body \<and> hl = der_header_len tag (length body) \<and>
    \<not> ber \<and> s = out @ t"
proof -
  obtain tag' h where pt: "parse_asn1_tag s = (Some tag', h)"
    using assms by (auto simp: cbs_get_any_asn1_element_def split: prod.splits option.splits)
  moreover have "h \<noteq> []"
    using assms pt by (auto simp: cbs_get_any_asn1_element_def)
  ultimately obtain lb r where p: "parse_asn1_tag s = (Some tag', lb # r)" by (cases h) auto
  have s: "s = der_tag tag' @ lb # r" using asn1_tag.canonical [OF p] by simp
  let ?hl = "length (der_tag tag') + 1"
  have hl: "length s - length r = ?hl" by (simp add: s)
  show ?thesis
  proof (cases "unat lb < 128")
    case True
    have e: "cbs_get (unat lb + ?hl) s = (Some out, t)" "tag = tag'" "hl = ?hl" "\<not> ber"
      using assms any_element_short [OF p True, of False] hl by (auto simp: Let_def rd_bind_eq_Some)
    then have o: "length out = unat lb + ?hl" "s = out @ t" by (simp_all add: cbs_get_iff)
    have "(der_tag tag' @ [lb]) @ r = out @ t" using s o(2) by simp
    then obtain body where body: "out = (der_tag tag' @ [lb]) @ body" "r = body @ t"
      by (rule append_prefixE) (use o(1) in simp)
    then have l: "length body = unat lb" using o(1) by simp
    have "out = der tag body \<and> hl = der_header_len tag (length body)"
      using True e l body by (simp add: der_def der_len_def der_header_len_def)
    then show ?thesis using o(2) e(4) l True by (intro exI [of _ body]) simp
  next
    case False
    then have lb: "128 \<le> unat lb" by simp
    define k where "k = unat lb - 128"
    note eq = any_element_long [OF p lb, folded k_def]
    have lbk: "lb = of_nat (128 + k)" using lb by (simp add: k_def)
    have k: "0 < k" "k \<le> 4"
      using assms eq by (auto simp: Let_def split: if_splits)
    obtain v h' where g: "cbs_get_u k r = (Some v, h')"
      using assms eq k by (auto simp: Let_def split: if_splits option.splits prod.splits)
    have vk: "unat v < 256 ^ k" and r: "r = be_bytes k (unat v) @ h'"
      using g k cbs_get_u_iff [of k r v h'] by simp_all
    have v4: "unat v < 256 ^ 4"
      using vk k(2) power_increasing [of k 4 "256 :: nat"] by linarith
    have c: "\<not> (unat v < 128 \<or> unat v < 256 ^ (k - 1))"
      using assms eq k g by (auto simp: Let_def split: if_splits)
    have nb: "nbytes (unat v) = k" using nbytes_unique [of k "unat v"] k c vk by simp
    have tot: "size_add (size_add (unat v) ?hl) k = unat v + ?hl + k"
      using v4 k length_der_tag(1) [of tag'] by (simp add: size_add_exact)
    have e: "cbs_get (unat v + ?hl + k) s = (Some out, t)" "tag = tag'" "hl = ?hl + k" "\<not> ber"
      using assms eq k g c tot hl by (auto simp: Let_def rd_bind_eq_Some)
    then have o: "length out = unat v + ?hl + k" "s = out @ t" by (simp_all add: cbs_get_iff)
    let ?pre = "der_tag tag' @ lb # be_bytes k (unat v)"
    have "?pre @ h' = out @ t" using s r o(2) by simp
    then obtain body where body: "out = ?pre @ body" "h' = body @ t"
      by (rule append_prefixE) (use o(1) in simp)
    then have l: "length body = unat v" using o(1) by simp
    have "out = der tag body \<and> hl = der_header_len tag (length body)"
      using c e l body nb lbk by (simp add: der_def der_len_def der_header_len_def)
    then show ?thesis using o(2) e(4) l v4 by (intro exI [of _ body]) simp
  qed
qed

theorem any_element_iff:
  "cbs_get_any_asn1_element False s = (Some (out, tag, hl, ber), t) \<longleftrightarrow>
   (\<exists>body. length body < 2 ^ 32 \<and> out = der tag body \<and> hl = der_header_len tag (length body) \<and>
      \<not> ber \<and> s = out @ t)"
proof
  assume "\<exists>body. length body < 2 ^ 32 \<and> out = der tag body \<and> hl = der_header_len tag (length body) \<and>
      \<not> ber \<and> s = out @ t"
  then show "cbs_get_any_asn1_element False s = (Some (out, tag, hl, ber), t)"
    using any_element_roundtrip by auto
qed (rule any_element_canonical)

text \<open>A reader that post-processes what another one read, without touching the window.\<close>

lemma snd_rd_bind_pure:
  "(\<And>x s. snd (f x s) = s) \<Longrightarrow> snd (rd_bind p f s) = snd (p s)"
  by (auto simp: rd_bind_def split: prod.splits option.splits)

lemma any_element_suffix: "\<exists>pre. s = pre @ snd (cbs_get_any_asn1_element ber s)"
proof -
  have g: "\<exists>pre. s = pre @ snd (rd_bind (cbs_get n) (\<lambda>out. rd_return (f out)) s)" for n and f :: "bytes \<Rightarrow> 'x"
    using cbs_get.suffix [of s n] by (simp add: snd_rd_bind_pure)
  have n: "\<exists>pre. s = pre @ snd (None, s)" by simp
  show ?thesis
    unfolding cbs_get_any_asn1_element_def CBS_get_bytes_eq Let_def
    by (auto simp only: g n split: prod.split option.split if_split)
qed

lemma CBS_get_any_asn1_element_iff:
  "CBS_get_any_asn1_element s = (Some (out, tag, hl), t) \<longleftrightarrow>
   (\<exists>body. length body < 2 ^ 32 \<and> out = der tag body \<and> hl = der_header_len tag (length body) \<and>
      s = out @ t)"
  by (auto simp: CBS_get_any_asn1_element_def rd_bind_eq_Some any_element_iff)

lemma CBS_get_any_asn1_element_snd:
  "snd (CBS_get_any_asn1_element s) = snd (cbs_get_any_asn1_element False s)"
  unfolding CBS_get_any_asn1_element_def by (rule snd_rd_bind_pure) (auto split: prod.splits)

lemma skip_der_header: "CBS_skip (der_header_len tag (length body)) (der tag body) = (Some (), body)"
  by (simp add: CBS_skip_eq der_header_len_def der_def)

lemma cbs_get_asn1_snd: "snd (cbs_get_asn1 tag skip s) = snd (cbs_get_any_asn1_element False s)"
  unfolding cbs_get_asn1_def CBS_get_any_asn1_element_snd [symmetric]
  by (rule snd_rd_bind_pure) (auto split: prod.splits option.splits)

lemma CBS_get_any_asn1_snd: "snd (CBS_get_any_asn1 s) = snd (cbs_get_any_asn1_element False s)"
  unfolding CBS_get_any_asn1_def CBS_get_any_asn1_element_snd [symmetric]
  by (rule snd_rd_bind_pure) (auto split: prod.splits option.splits)

text \<open>
  Every parser of DER elements accepts exactly the DER encodings: \<open>CBS_get_any_asn1\<close> with the tag
  as part of the value, \<open>CBS_get_asn1\<close> for a fixed tag, \<open>CBS_get_asn1_element\<close> with the header left on.
\<close>

interpretation any_asn1: canonical_codec "\<lambda>(body, tag). der tag body" CBS_get_any_asn1
  "\<lambda>(body, tag). length body < 2 ^ 32"
proof
  show "CBS_get_any_asn1 ((case x of (body, tag) \<Rightarrow> der tag body) @ t) = (Some x, t)"
    if "case x of (body, tag) \<Rightarrow> length body < 2 ^ 32" for x t
  proof -
    obtain body tag where x: "x = (body, tag)" by (cases x)
    then have "CBS_get_any_asn1_element (der tag body @ t) =
        (Some (der tag body, tag, der_header_len tag (length body)), t)"
      using that by (subst CBS_get_any_asn1_element_iff) auto
    then show ?thesis by (simp add: CBS_get_any_asn1_def x skip_der_header)
  qed
  show "(case x of (body, tag) \<Rightarrow> length body < 2 ^ 32) \<and> s = (case x of (body, tag) \<Rightarrow> der tag body) @ t"
    if a: "CBS_get_any_asn1 s = (Some x, t)" for s x t
  proof -
    obtain out tag hl t' where e: "CBS_get_any_asn1_element s = (Some (out, tag, hl), t')"
      using a by (auto simp: CBS_get_any_asn1_def rd_bind_eq_Some)
    then obtain body where "length body < 2 ^ 32" "out = der tag body"
      "hl = der_header_len tag (length body)" "s = out @ t'"
      by (auto simp: CBS_get_any_asn1_element_iff)
    with a e show ?thesis by (auto simp: CBS_get_any_asn1_def skip_der_header)
  qed
  show "\<exists>pre. s = pre @ snd (CBS_get_any_asn1 s)" for s
    unfolding CBS_get_any_asn1_snd by (rule any_element_suffix)
qed

interpretation get_asn1: canonical_codec "der tag" "CBS_get_asn1 tag" "\<lambda>body. length body < 2 ^ 32"
proof
  show "CBS_get_asn1 tag (der tag body @ t) = (Some body, t)" if "length body < 2 ^ 32" for body t
  proof -
    have "CBS_get_any_asn1_element (der tag body @ t) =
        (Some (der tag body, tag, der_header_len tag (length body)), t)"
      using that by (subst CBS_get_any_asn1_element_iff) auto
    then show ?thesis by (simp add: CBS_get_asn1_def cbs_get_asn1_def skip_der_header)
  qed
  show "length x < 2 ^ 32 \<and> s = der tag x @ t" if a: "CBS_get_asn1 tag s = (Some x, t)" for s x t
  proof -
    obtain out tag' hl t' where e: "CBS_get_any_asn1_element s = (Some (out, tag', hl), t')"
      using a by (auto simp: CBS_get_asn1_def cbs_get_asn1_def rd_bind_eq_Some)
    then obtain body where "length body < 2 ^ 32" "out = der tag' body"
      "hl = der_header_len tag' (length body)" "s = out @ t'"
      by (auto simp: CBS_get_any_asn1_element_iff)
    with a e show ?thesis
      by (auto simp: CBS_get_asn1_def cbs_get_asn1_def skip_der_header split: if_splits)
  qed
  show "\<exists>pre. s = pre @ snd (CBS_get_asn1 tag s)" for s
    unfolding CBS_get_asn1_def cbs_get_asn1_snd by (rule any_element_suffix)
qed

interpretation get_asn1_element: canonical_codec "\<lambda>out. out" "CBS_get_asn1_element tag"
  "\<lambda>out. \<exists>body. length body < 2 ^ 32 \<and> out = der tag body"
proof
  show "CBS_get_asn1_element tag (out @ t) = (Some out, t)"
    if ex: "\<exists>body. length body < 2 ^ 32 \<and> out = der tag body" for out t
  proof -
    obtain body where b: "length body < 2 ^ 32" "out = der tag body" using ex by blast
    then have "CBS_get_any_asn1_element (out @ t) = (Some (out, tag, der_header_len tag (length body)), t)"
      by (subst CBS_get_any_asn1_element_iff) auto
    then show ?thesis by (simp add: CBS_get_asn1_element_def cbs_get_asn1_def)
  qed
  show "(\<exists>body. length body < 2 ^ 32 \<and> out = der tag body) \<and> s = out @ t"
    if a: "CBS_get_asn1_element tag s = (Some out, t)" for s out t
  proof -
    obtain out' tag' hl t' where e: "CBS_get_any_asn1_element s = (Some (out', tag', hl), t')"
      using a by (auto simp: CBS_get_asn1_element_def cbs_get_asn1_def rd_bind_eq_Some)
    then obtain body where "length body < 2 ^ 32" "out' = der tag' body"
      "hl = der_header_len tag' (length body)" "s = out' @ t'"
      by (auto simp: CBS_get_any_asn1_element_iff)
    with a e show ?thesis
      by (auto simp: CBS_get_asn1_element_def cbs_get_asn1_def split: if_splits)
  qed
  show "\<exists>pre. s = pre @ snd (CBS_get_asn1_element tag s)" for s
    unfolding CBS_get_asn1_element_def cbs_get_asn1_snd by (rule any_element_suffix)
qed

lemma CBS_peek_asn1_tag_iff:
  "CBS_peek_asn1_tag cbs tag \<longleftrightarrow> (\<exists>r. cbs = der_tag tag @ r)"
proof
  assume "CBS_peek_asn1_tag cbs tag"
  then obtain r where "parse_asn1_tag cbs = (Some tag, r)"
    by (auto simp: CBS_peek_asn1_tag_def split: if_splits prod.splits option.splits)
  then show "\<exists>r. cbs = der_tag tag @ r" using asn1_tag.canonical by blast
next
  assume "\<exists>r. cbs = der_tag tag @ r"
  then obtain r where r: "cbs = der_tag tag @ r" by blast
  then have "0 < length cbs" using length_der_tag(2) [of tag] by simp
  then show "CBS_peek_asn1_tag cbs tag"
    using asn1_tag.roundtrip [of tag r] r by (simp add: CBS_peek_asn1_tag_def CBS_len_def)
qed

end
