(* ===== verification/Cbb.thy ===== *)
theory Cbb
  imports Der
begin

text \<open>
  \<open>crypto/bytestring/cbb.c\<close>: building byte strings with nested length prefixes.  The model of a
  root \<open>CBB\<close> and its pending children is one record: the buffer \<open>base\<close> that all of them share
  (\<^term>\<open>None\<close> is \<open>NULL\<close>), and the chain root, child, grandchild, \<dots> that the \<open>child\<close> pointers form.
  A \<open>CBB *\<close> argument is a depth in that chain.  A depth beyond the chain is a \<open>CBB\<close> whose \<open>base\<close> is
  \<open>NULL\<close>: a child that was flushed or discarded.  Every operation returns its \<open>int\<close> result as a
  boolean and the new state.
\<close>

section \<open>State\<close>

record cbb_buffer =
  cb_buf :: "bytes option"
  cb_len :: nat
  cb_cap :: nat
  cb_can_resize :: bool
  cb_error :: bool

record cbb_frame =
  fr_offset :: nat
  fr_pending_len_len :: nat
  fr_pending_is_asn1 :: bool
  fr_is_child :: bool

record cbb =
  cbb_base :: "cbb_buffer option"
  cbb_chain :: "cbb_frame list"

type_synonym cbb_op = "cbb \<Rightarrow> bool \<times> cbb"

definition zero_frame :: cbb_frame where
  "zero_frame = \<lparr> fr_offset = 0, fr_pending_len_len = 0, fr_pending_is_asn1 = False, fr_is_child = False \<rparr>"

definition CBB_zero :: cbb where
  "CBB_zero = \<lparr> cbb_base = None, cbb_chain = [zero_frame] \<rparr>"

text \<open>\<open>if (!f || !g) return 0; \<dots>\<close>: go on with the state as long as the calls succeed.\<close>

definition cbb_then :: "cbb_op \<Rightarrow> cbb_op \<Rightarrow> cbb_op" where
  "cbb_then f g st = (case f st of (ok, st') \<Rightarrow> if ok then g st' else (False, st'))"

definition cbb_ok :: cbb_op where
  "cbb_ok st = (True, st)"

definition cbb_fail :: cbb_op where
  "cbb_fail st = (False, st)"

text \<open>An operation on the shared buffer.\<close>

definition on_base :: "(cbb_buffer \<Rightarrow> bool \<times> cbb_buffer) \<Rightarrow> cbb_op" where
  "on_base f st =
     (case cbb_base st of
        None \<Rightarrow> (False, st)
      | Some b \<Rightarrow> (case f b of (ok, b') \<Rightarrow> (ok, st \<lparr> cbb_base := Some b' \<rparr>)))"

text \<open>\<open>memcpy\<close> to \<open>buf + off\<close>, and its one-byte case.\<close>

definition write_at :: "nat \<Rightarrow> bytes \<Rightarrow> cbb_buffer \<Rightarrow> cbb_buffer" where
  "write_at off data b =
     b \<lparr> cb_buf := map_option (\<lambda>buf. take off buf @ data @ drop (off + length data) buf) (cb_buf b) \<rparr>"

definition buf_bytes :: "cbb_buffer \<Rightarrow> bytes" where
  "buf_bytes b = (case cb_buf b of None \<Rightarrow> [] | Some buf \<Rightarrow> buf)"

section \<open>Initialisation\<close>

definition cbb_init :: "allocator \<Rightarrow> bytes option \<Rightarrow> nat \<Rightarrow> cbb_op" where
  "cbb_init al buf cap st =
     (case OPENSSL_malloc al 32 of
        None \<Rightarrow> (False, st)
      | Some _ \<Rightarrow>
          (True, st \<lparr> cbb_base := Some \<lparr> cb_buf = buf, cb_len = 0, cb_cap = cap,
             cb_can_resize = True, cb_error = False \<rparr> \<rparr>))"

definition CBB_init :: "allocator \<Rightarrow> nat \<Rightarrow> bool \<times> cbb" where
  "CBB_init al initial_capacity =
     (let buf = OPENSSL_malloc al initial_capacity in
      if initial_capacity > 0 \<and> buf = None then (False, CBB_zero)
      else case cbb_init al buf initial_capacity CBB_zero of
             (ok, st) \<Rightarrow> if ok then (True, st) else (False, st))"

definition CBB_init_fixed :: "allocator \<Rightarrow> bytes \<Rightarrow> bool \<times> cbb" where
  "CBB_init_fixed al buf =
     (case cbb_init al (Some buf) (length buf) CBB_zero of
        (ok, st) \<Rightarrow>
          if \<not> ok then (False, st)
          else (True, st \<lparr> cbb_base := map_option (\<lambda>b. b \<lparr> cb_can_resize := False \<rparr>) (cbb_base st) \<rparr>))"

definition fr_child_at :: "nat \<Rightarrow> cbb \<Rightarrow> bool" where
  "fr_child_at d st = (d < length (cbb_chain st) \<longrightarrow> fr_is_child (cbb_chain st ! d))"

definition CBB_cleanup :: "nat \<Rightarrow> cbb \<Rightarrow> cbb" where
  "CBB_cleanup d st = (if fr_child_at d st then st else st \<lparr> cbb_base := None \<rparr>)"

section \<open>The buffer\<close>

definition cbb_buffer_reserve :: "allocator \<Rightarrow> nat \<Rightarrow> cbb_buffer \<Rightarrow> bool \<times> cbb_buffer" where
  "cbb_buffer_reserve al len base =
     (let newlen = size_add (cb_len base) len in
      if newlen < cb_len base then (False, base \<lparr> cb_error := True \<rparr>)
      else if newlen > cb_cap base then
        (let newcap = size_mul (cb_cap base) 2 in
         if \<not> cb_can_resize base then (False, base \<lparr> cb_error := True \<rparr>)
         else
           let newcap = (if newcap < cb_cap base \<or> newcap < newlen then newlen else newcap) in
           case OPENSSL_realloc al (cb_buf base) newcap of
             None \<Rightarrow> (False, base \<lparr> cb_error := True \<rparr>)
           | Some newbuf \<Rightarrow> (True, base \<lparr> cb_buf := Some newbuf, cb_cap := newcap \<rparr>))
      else (True, base))"

definition cbb_buffer_add :: "allocator \<Rightarrow> nat \<Rightarrow> cbb_buffer \<Rightarrow> bool \<times> cbb_buffer" where
  "cbb_buffer_add al len base =
     (case cbb_buffer_reserve al len base of
        (ok, base) \<Rightarrow>
          if \<not> ok then (False, base)
          else (True, base \<lparr> cb_len := size_add (cb_len base) len \<rparr>))"

text \<open>The loop \<open>for (i = len_len - 1; i < len_len; i--) { buf[i] = v; v >>= 8; }\<close>.\<close>

fun store_be_loop :: "nat \<Rightarrow> nat \<Rightarrow> u64 \<Rightarrow> cbb_buffer \<Rightarrow> u64 \<times> cbb_buffer" where
  "store_be_loop 0 off v base = (v, base)"
| "store_be_loop (Suc i) off v base =
     store_be_loop i off (drop_bit 8 v) (write_at (off + i) [ucast v] base)"

definition cbb_buffer_add_u :: "allocator \<Rightarrow> u64 \<Rightarrow> nat \<Rightarrow> cbb_buffer \<Rightarrow> bool \<times> cbb_buffer" where
  "cbb_buffer_add_u al v len_len base =
     (if len_len = 0 then (True, base)
      else case cbb_buffer_add al len_len base of
             (ok, base1) \<Rightarrow>
               if \<not> ok then (False, base1)
               else case store_be_loop len_len (cb_len base) v base1 of
                      (v, base2) \<Rightarrow>
                        if v \<noteq> 0 then (False, base2 \<lparr> cb_error := True \<rparr>) else (True, base2))"

section \<open>Flushing\<close>

text \<open>The prefix of an ASN.1 element: \<open>len_len\<close> and \<open>initial_length_byte\<close>, or failure.\<close>

definition asn1_len_len :: "nat \<Rightarrow> (nat \<times> u8) option" where
  "asn1_len_len len =
     (if len > 0xfffffffe then None
      else if len > 0xffffff then Some (5, 0x80 OR 4)
      else if len > 0xffff then Some (4, 0x80 OR 3)
      else if len > 0xff then Some (3, 0x80 OR 2)
      else if len > 0x7f then Some (2, 0x80 OR 1)
      else Some (1, of_nat len))"

definition cbb_err :: "cbb_buffer \<Rightarrow> cbb_buffer" where
  "cbb_err base = base \<lparr> cb_error := True \<rparr>"

text \<open>
  Writing the pending prefix of a child whose contents are complete: \<open>offset\<close>,
  \<open>pending_len_len\<close>, \<open>pending_is_asn1\<close> are the child's, \<open>len\<close> the length of the contents.
\<close>

definition cbb_write_prefix ::
  "allocator \<Rightarrow> nat \<Rightarrow> nat \<Rightarrow> bool \<Rightarrow> nat \<Rightarrow> cbb_buffer \<Rightarrow> bool \<times> cbb_buffer" where
  "cbb_write_prefix al offset pending_len_len is_asn1 len base =
     (let child_start = offset + pending_len_len;
          prepared =
            (if is_asn1 then
               (case asn1_len_len len of
                  None \<Rightarrow> (False, base, offset, pending_len_len, len)
                | Some (len_len, initial_length_byte) \<Rightarrow>
                    (case (if len_len \<noteq> 1 then
                             (let extra_bytes = len_len - 1 in
                              case cbb_buffer_add al extra_bytes base of
                                (ok, base1) \<Rightarrow>
                                  if \<not> ok then (False, base1)
                                  else (True, write_at (child_start + extra_bytes)
                                          (take len (drop child_start (buf_bytes base1))) base1))
                           else (True, base)) of
                       (ok, base2) \<Rightarrow>
                         if \<not> ok then (False, base2, offset, pending_len_len, len)
                         else (True, write_at offset [initial_length_byte] base2, offset + 1,
                                 len_len - 1, (if len_len = 1 then 0 else len))))
             else (True, base, offset, pending_len_len, len))
      in case prepared of
           (ok, base3, off, n, len) \<Rightarrow>
             if \<not> ok then (False, cbb_err base3)
             else case store_be_loop n off (of_nat len) base3 of
                    (rest, base4) \<Rightarrow>
                      if rest \<noteq> 0 then (False, cbb_err base4) else (True, base4))"

fun cbb_flush_chain ::
  "allocator \<Rightarrow> cbb_frame list \<Rightarrow> cbb_buffer \<Rightarrow> bool \<times> cbb_frame list \<times> cbb_buffer" where
  "cbb_flush_chain al [] base = (False, [], base)"
| "cbb_flush_chain al [cbb] base = (if cb_error base then (False, [cbb], base) else (True, [cbb], base))"
| "cbb_flush_chain al (cbb # child # rest) base =
     (if cb_error base then (False, cbb # child # rest, base)
      else if fr_pending_len_len child = 0 then (True, cbb # child # rest, base)
      else
        let child_start = size_add (fr_offset child) (fr_pending_len_len child) in
        case cbb_flush_chain al (child # rest) base of
          (ok, chain, base1) \<Rightarrow>
            if \<not> ok \<or> child_start < fr_offset child \<or> cb_len base1 < child_start then
              (False, cbb # chain, cbb_err base1)
            else
              case cbb_write_prefix al (fr_offset child) (fr_pending_len_len child)
                     (fr_pending_is_asn1 child) (cb_len base1 - child_start) base1 of
                (ok, base2) \<Rightarrow>
                  if ok then (True, [cbb], base2) else (False, cbb # chain, base2))"

definition CBB_flush :: "allocator \<Rightarrow> nat \<Rightarrow> cbb_op" where
  "CBB_flush al d st =
     (case cbb_base st of
        None \<Rightarrow> (False, st)
      | Some base \<Rightarrow>
          (case cbb_flush_chain al (drop d (cbb_chain st)) base of
             (ok, chain, base) \<Rightarrow>
               (ok, \<lparr> cbb_base = Some base, cbb_chain = take d (cbb_chain st) @ chain \<rparr>)))"

text \<open>\<open>CBB_finish\<close>: the flags say whether \<open>out_data\<close> and \<open>out_len\<close> are not \<open>NULL\<close>; the result is the
  buffer handed out and its length.\<close>

definition CBB_finish ::
  "allocator \<Rightarrow> bool \<Rightarrow> bool \<Rightarrow> nat \<Rightarrow> cbb \<Rightarrow> (bytes option \<times> nat) option \<times> cbb" where
  "CBB_finish al has_out_data has_out_len d st =
     (if fr_child_at d st then (None, st)
      else case CBB_flush al d st of
             (ok, st) \<Rightarrow>
               if \<not> ok then (None, st)
               else case cbb_base st of
                      None \<Rightarrow> (None, st)
                    | Some base \<Rightarrow>
                        if cb_can_resize base \<and> (\<not> has_out_data \<or> \<not> has_out_len) then (None, st)
                        else (Some (cb_buf base, cb_len base),
                              CBB_cleanup d (st \<lparr> cbb_base := Some (base \<lparr> cb_buf := None \<rparr>) \<rparr>)))"

text \<open>\<open>CBB_data\<close> and \<open>CBB_len\<close> of a \<open>CBB\<close> without a pending child.\<close>

definition CBB_data :: "nat \<Rightarrow> cbb \<Rightarrow> bytes" where
  "CBB_data d st =
     (case cbb_base st of
        None \<Rightarrow> []
      | Some base \<Rightarrow> drop (fr_offset (cbb_chain st ! d) + fr_pending_len_len (cbb_chain st ! d)) (buf_bytes base))"

definition CBB_len :: "nat \<Rightarrow> cbb \<Rightarrow> nat" where
  "CBB_len d st =
     (case cbb_base st of
        None \<Rightarrow> 0
      | Some base \<Rightarrow> cb_len base - fr_offset (cbb_chain st ! d) - fr_pending_len_len (cbb_chain st ! d))"

section \<open>Adding contents\<close>

definition new_child :: "nat \<Rightarrow> nat \<Rightarrow> bool \<Rightarrow> cbb_frame" where
  "new_child offset len_len is_asn1 =
     \<lparr> fr_offset = offset, fr_pending_len_len = len_len, fr_pending_is_asn1 = is_asn1,
       fr_is_child = True \<rparr>"

definition base_len :: "cbb \<Rightarrow> nat" where
  "base_len st = (case cbb_base st of None \<Rightarrow> 0 | Some base \<Rightarrow> cb_len base)"

definition set_child :: "nat \<Rightarrow> cbb_frame \<Rightarrow> cbb_op" where
  "set_child d child st = (True, st \<lparr> cbb_chain := take (Suc d) (cbb_chain st) @ [child] \<rparr>)"

text \<open>\<open>memset\<close> and \<open>memcpy\<close> to the bytes that \<open>cbb_buffer_add\<close> has just handed out.\<close>

definition fill_base :: "nat \<Rightarrow> bytes \<Rightarrow> cbb_op" where
  "fill_base off data = on_base (\<lambda>base. (True, write_at off data base))"

definition cbb_add_length_prefixed :: "allocator \<Rightarrow> nat \<Rightarrow> nat \<Rightarrow> cbb_op" where
  "cbb_add_length_prefixed al len_len d =
     cbb_then (CBB_flush al d) (\<lambda>st.
       let offset = base_len st in
       cbb_then (on_base (cbb_buffer_add al len_len))
         (cbb_then (fill_base offset (replicate len_len 0))
           (set_child d (new_child offset len_len False))) st)"

definition CBB_add_u8_length_prefixed :: "allocator \<Rightarrow> nat \<Rightarrow> cbb_op" where
  "CBB_add_u8_length_prefixed al d = cbb_add_length_prefixed al 1 d"

definition CBB_add_u16_length_prefixed :: "allocator \<Rightarrow> nat \<Rightarrow> cbb_op" where
  "CBB_add_u16_length_prefixed al d = cbb_add_length_prefixed al 2 d"

definition CBB_add_u24_length_prefixed :: "allocator \<Rightarrow> nat \<Rightarrow> cbb_op" where
  "CBB_add_u24_length_prefixed al d = cbb_add_length_prefixed al 3 d"

definition CBB_add_u8 :: "allocator \<Rightarrow> u8 \<Rightarrow> nat \<Rightarrow> cbb_op" where
  "CBB_add_u8 al v d = cbb_then (CBB_flush al d) (on_base (cbb_buffer_add_u al (ucast v) 1))"

definition CBB_add_u16 :: "allocator \<Rightarrow> u16 \<Rightarrow> nat \<Rightarrow> cbb_op" where
  "CBB_add_u16 al v d = cbb_then (CBB_flush al d) (on_base (cbb_buffer_add_u al (ucast v) 2))"

definition CBB_add_u16le :: "allocator \<Rightarrow> u16 \<Rightarrow> nat \<Rightarrow> cbb_op" where
  "CBB_add_u16le al v = CBB_add_u16 al (CRYPTO_bswap2 v)"

definition CBB_add_u24 :: "allocator \<Rightarrow> u32 \<Rightarrow> nat \<Rightarrow> cbb_op" where
  "CBB_add_u24 al v d = cbb_then (CBB_flush al d) (on_base (cbb_buffer_add_u al (ucast v) 3))"

definition CBB_add_u32 :: "allocator \<Rightarrow> u32 \<Rightarrow> nat \<Rightarrow> cbb_op" where
  "CBB_add_u32 al v d = cbb_then (CBB_flush al d) (on_base (cbb_buffer_add_u al (ucast v) 4))"

definition CBB_add_u32le :: "allocator \<Rightarrow> u32 \<Rightarrow> nat \<Rightarrow> cbb_op" where
  "CBB_add_u32le al v = CBB_add_u32 al (CRYPTO_bswap4 v)"

definition CBB_add_u64 :: "allocator \<Rightarrow> u64 \<Rightarrow> nat \<Rightarrow> cbb_op" where
  "CBB_add_u64 al v d = cbb_then (CBB_flush al d) (on_base (cbb_buffer_add_u al v 8))"

definition CBB_add_u64le :: "allocator \<Rightarrow> u64 \<Rightarrow> nat \<Rightarrow> cbb_op" where
  "CBB_add_u64le al v = CBB_add_u64 al (CRYPTO_bswap8 v)"

definition CBB_add_bytes :: "allocator \<Rightarrow> bytes \<Rightarrow> nat \<Rightarrow> cbb_op" where
  "CBB_add_bytes al data d =
     cbb_then (CBB_flush al d) (\<lambda>st.
       let dest = base_len st in
       cbb_then (on_base (cbb_buffer_add al (length data))) (fill_base dest data) st)"

definition CBB_add_space :: "allocator \<Rightarrow> nat \<Rightarrow> nat \<Rightarrow> cbb_op" where
  "CBB_add_space al len d = cbb_then (CBB_flush al d) (on_base (cbb_buffer_add al len))"

text \<open>\<open>*out\<close> of \<open>CBB_add_space\<close> is the end of the buffer before the call's \<open>cbb_buffer_add\<close>.\<close>

definition CBB_add_zeros :: "allocator \<Rightarrow> nat \<Rightarrow> nat \<Rightarrow> cbb_op" where
  "CBB_add_zeros al len d =
     cbb_then (CBB_add_space al len d) (\<lambda>st. fill_base (base_len st - len) (replicate len 0) st)"

definition CBB_reserve :: "allocator \<Rightarrow> nat \<Rightarrow> nat \<Rightarrow> cbb_op" where
  "CBB_reserve al len d = cbb_then (CBB_flush al d) (on_base (cbb_buffer_reserve al len))"

definition CBB_did_write :: "nat \<Rightarrow> nat \<Rightarrow> cbb_op" where
  "CBB_did_write len d st =
     on_base (\<lambda>base.
       let newlen = size_add (cb_len base) len in
       if Suc d < length (cbb_chain st) \<or> newlen < cb_len base \<or> newlen > cb_cap base then (False, base)
       else (True, base \<lparr> cb_len := newlen \<rparr>)) st"

definition CBB_discard_child :: "nat \<Rightarrow> cbb \<Rightarrow> cbb" where
  "CBB_discard_child d st =
     (if Suc d < length (cbb_chain st) then
        st \<lparr> cbb_base := map_option (\<lambda>base. base \<lparr> cb_len := fr_offset (cbb_chain st ! Suc d) \<rparr>) (cbb_base st),
             cbb_chain := take (Suc d) (cbb_chain st) \<rparr>
      else st)"

section \<open>ASN.1 elements\<close>

text \<open>\<open>len_len\<close> counts the base-128 digits; the loop writes digits \<open>len_len - 1\<close> down to 0.\<close>

function base128_count :: "u64 \<Rightarrow> nat" where
  "base128_count copy = (if copy > 0 then Suc (base128_count (drop_bit 7 copy)) else 0)"
  by pat_completeness auto
termination
proof (relation "measure unat")
  show "(drop_bit 7 copy, copy) \<in> measure unat" if "0 < copy" for copy :: u64
    using that unfolding in_measure unat_drop_bit by (simp add: word_less_nat_alt)
qed simp

declare base128_count.simps [simp del]

fun add_base128_loop :: "allocator \<Rightarrow> u64 \<Rightarrow> nat \<Rightarrow> nat \<Rightarrow> cbb_op" where
  "add_base128_loop al v 0 d st = (True, st)"
| "add_base128_loop al v (Suc i) d st =
     (let byte = ucast (drop_bit (7 * i) v AND 0x7f) :: u8;
          byte = (if i \<noteq> 0 then byte OR 0x80 else byte)
      in cbb_then (CBB_add_u8 al byte d) (add_base128_loop al v i d) st)"

definition add_base128_integer :: "allocator \<Rightarrow> u64 \<Rightarrow> nat \<Rightarrow> cbb_op" where
  "add_base128_integer al v d =
     (let len_len = base128_count v;
          len_len = (if len_len = 0 then 1 else len_len)
      in add_base128_loop al v len_len d)"

definition CBB_add_asn1 :: "allocator \<Rightarrow> u32 \<Rightarrow> nat \<Rightarrow> cbb_op" where
  "CBB_add_asn1 al tag d =
     cbb_then (CBB_flush al d)
       (let tag_bits = ucast (drop_bit CBS_ASN1_TAG_SHIFT tag AND 0xe0) :: u8;
            tag_number = tag AND CBS_ASN1_TAG_NUMBER_MASK
        in cbb_then
             (if tag_number \<ge> 0x1f then
                cbb_then (CBB_add_u8 al (tag_bits OR 0x1f) d) (add_base128_integer al (ucast tag_number) d)
              else CBB_add_u8 al (tag_bits OR ucast tag_number) d)
             (\<lambda>st.
               let offset = base_len st in
               cbb_then (CBB_add_u8 al 0 d) (set_child d (new_child offset 1 True)) st))"

text \<open>The loop of \<open>CBB_add_asn1_uint64\<close> over the bytes of the value, most significant first.\<close>

fun asn1_uint64_bytes :: "allocator \<Rightarrow> nat \<Rightarrow> bool \<Rightarrow> bytes \<Rightarrow> cbb \<Rightarrow> bool \<times> bool \<times> cbb" where
  "asn1_uint64_bytes al d started [] st = (True, started, st)"
| "asn1_uint64_bytes al d started (byte # bs) st =
     (if \<not> started \<and> byte = 0 then asn1_uint64_bytes al d started bs st
      else
        case (if \<not> started \<and> byte AND 0x80 \<noteq> 0 then CBB_add_u8 al 0 d st else (True, st)) of
          (ok, st) \<Rightarrow>
            if \<not> ok then (False, started, st)
            else case CBB_add_u8 al byte d st of
                   (ok, st) \<Rightarrow> if \<not> ok then (False, True, st)
                               else asn1_uint64_bytes al d True bs st)"

definition CBB_add_asn1_uint64 :: "allocator \<Rightarrow> u64 \<Rightarrow> nat \<Rightarrow> cbb_op" where
  "CBB_add_asn1_uint64 al v d =
     cbb_then (CBB_add_asn1 al CBS_ASN1_INTEGER d) (\<lambda>st.
       case asn1_uint64_bytes al (Suc d) False
              (map (\<lambda>i. ucast (drop_bit (8 * (7 - i)) v AND 0xff)) [0..<8]) st of
         (ok, started, st) \<Rightarrow>
           if \<not> ok then (False, st)
           else cbb_then (if \<not> started then CBB_add_u8 al 0 (Suc d) else cbb_ok) (CBB_flush al d) st)"

text \<open>\<open>start\<close> of \<open>CBB_add_asn1_int64\<close>: skip redundant sign bytes of the little-endian bytes.\<close>

fun int64_start :: "bytes \<Rightarrow> nat \<Rightarrow> nat" where
  "int64_start u 0 = 0"
| "int64_start u (Suc start) =
     (if u ! Suc start = 0xff \<and> u ! start AND 0x80 \<noteq> 0 then int64_start u start else Suc start)"

fun add_bytes_down :: "allocator \<Rightarrow> nat \<Rightarrow> bytes \<Rightarrow> nat \<Rightarrow> cbb_op" where
  "add_bytes_down al d u 0 = cbb_ok"
| "add_bytes_down al d u (Suc i) = cbb_then (CBB_add_u8 al (u ! i) d) (add_bytes_down al d u i)"

definition CBB_add_asn1_int64 :: "allocator \<Rightarrow> u64 \<Rightarrow> nat \<Rightarrow> cbb_op" where
  "CBB_add_asn1_int64 al v d =
     (if 0 \<le> sint v then CBB_add_asn1_uint64 al v d
      else
        let u = le_bytes 8 (unat v);
            start = int64_start u 7
        in cbb_then (CBB_add_asn1 al CBS_ASN1_INTEGER d)
             (cbb_then (add_bytes_down al (Suc d) u (Suc start)) (CBB_flush al d)))"

definition CBB_add_asn1_octet_string :: "allocator \<Rightarrow> bytes \<Rightarrow> nat \<Rightarrow> cbb_op" where
  "CBB_add_asn1_octet_string al data d =
     cbb_then (CBB_add_asn1 al CBS_ASN1_OCTETSTRING d)
       (cbb_then (CBB_add_bytes al data (Suc d)) (CBB_flush al d))"

definition CBB_add_asn1_bool :: "allocator \<Rightarrow> bool \<Rightarrow> nat \<Rightarrow> cbb_op" where
  "CBB_add_asn1_bool al v d =
     cbb_then (CBB_add_asn1 al CBS_ASN1_BOOLEAN d)
       (cbb_then (CBB_add_u8 al (if v then 0xff else 0) (Suc d)) (CBB_flush al d))"

end
