(* ===== verification/CbbSpec.thy ===== *)
theory CbbSpec
  imports Cbb
begin

text \<open>
  What a \<open>CBB\<close> means, independently of offsets, reserved prefix bytes and the shared buffer: a list of
  open entries, each with the kind of its length prefix and the bytes added so far.  The theory proves
  that buffer growth keeps the bytes written, that writing a pending prefix over its reserved zeros
  gives the sealed entry (moving the contents when a DER length needs more than one byte), and that
  \<open>CBB_flush\<close> implements closing the entries below a depth.  \<open>refines\<close> is the simulation relation
  all operations are proved in.
\<close>

section \<open>Buffers\<close>

definition written :: "cbb_buffer \<Rightarrow> bytes" where
  "written b = take (cb_len b) (buf_bytes b)"

definition wf_buffer :: "cbb_buffer \<Rightarrow> bool" where
  "wf_buffer b \<longleftrightarrow> length (buf_bytes b) = cb_cap b \<and> cb_len b \<le> cb_cap b \<and> cb_cap b < size_lim"

lemma wf_bufferD:
  assumes "wf_buffer b"
  shows "length (buf_bytes b) = cb_cap b" "cb_len b \<le> cb_cap b" "cb_cap b < size_lim"
    "cb_len b < size_lim" "length (written b) = cb_len b"
  using assms by (auto simp: wf_buffer_def written_def)

lemma write_at_fields [simp]:
  "cb_len (write_at off d b) = cb_len b" "cb_cap (write_at off d b) = cb_cap b"
  "cb_error (write_at off d b) = cb_error b" "cb_can_resize (write_at off d b) = cb_can_resize b"
  by (simp_all add: write_at_def)

lemma buf_bytes_write_at:
  "off + length d \<le> length (buf_bytes b) \<Longrightarrow>
   buf_bytes (write_at off d b) = take off (buf_bytes b) @ d @ drop (off + length d) (buf_bytes b)"
  by (cases "cb_buf b") (auto simp: write_at_def buf_bytes_def)

lemma wf_write_at: "wf_buffer b \<Longrightarrow> off + length d \<le> cb_len b \<Longrightarrow> wf_buffer (write_at off d b)"
  by (auto simp: wf_buffer_def buf_bytes_write_at)

text \<open>A write over bytes that are already written.\<close>

lemma written_write_at:
  assumes "wf_buffer b" "written b = pre @ x @ c" "length d = length x" "off = length pre"
  shows "wf_buffer (write_at off d b) \<and> written (write_at off d b) = pre @ d @ c"
proof -
  let ?B = "buf_bytes b"
  have l: "cb_len b = length pre + length x + length c"
    using wf_bufferD(5) [OF assms(1)] assms(2) by simp
  then have le: "off + length d \<le> cb_len b" using assms by simp
  obtain r where r: "?B = pre @ x @ c @ r"
    using assms(2) unfolding written_def by (metis append_assoc append_take_drop_id)
  have "buf_bytes (write_at off d b) = pre @ d @ c @ r"
    using le wf_bufferD(1,2) [OF assms(1)] assms r by (subst buf_bytes_write_at) auto
  then show ?thesis
    using wf_write_at [OF assms(1) le] l assms(3) by (simp add: written_def)
qed

lemma write_at_snoc:
  assumes "off + length d < length (buf_bytes b)"
  shows "write_at off d (write_at (off + length d) [x] b) = write_at off (d @ [x]) b"
  using assms by (cases "cb_buf b") (auto simp: write_at_def buf_bytes_def)

lemma write_at_Nil [simp]: "write_at off [] b = b"
  by (cases "cb_buf b") (auto simp: write_at_def)

lemma store_be_loop_eq:
  "off + n \<le> length (buf_bytes b) \<Longrightarrow>
   store_be_loop n off v b = (drop_bit (8 * n) v, write_at off (be_bytes n (unat v)) b)"
proof (induction n arbitrary: v b)
  case (Suc n)
  have l: "length (buf_bytes (write_at (off + n) [ucast v] b)) = length (buf_bytes b)"
    using Suc.prems by (subst buf_bytes_write_at) auto
  have d: "unat (drop_bit 8 v) = unat v div 256"
    using unat_drop_bit [of 8 v] by simp
  have c: "of_nat (unat v) = (ucast v :: u8)" by simp
  have "store_be_loop (Suc n) off v b =
      (drop_bit (8 * n) (drop_bit 8 v),
       write_at off (be_bytes n (unat v div 256)) (write_at (off + n) [ucast v] b))"
    using Suc.IH [of "write_at (off + n) [ucast v] b" "drop_bit 8 v"] Suc.prems l d
    by (simp del: drop_bit_drop_bit)
  also have "\<dots> = (drop_bit (8 * Suc n) v, write_at off (be_bytes (Suc n) (unat v)) b)"
    using write_at_snoc [of off "be_bytes n (unat v div 256)" b "ucast v"] Suc.prems
    by (simp add: add.commute)
  finally show ?case .
qed simp

section \<open>Growing\<close>

text \<open>
  \<open>room al b m\<close>: the buffer can grow to \<open>m\<close> bytes.  A fixed buffer must have them; a growing one
  doubles its capacity, so an allocator that serves requests up to twice the size (and the block
  header) is enough.
\<close>

definition room :: "allocator \<Rightarrow> cbb_buffer \<Rightarrow> nat \<Rightarrow> bool" where
  "room al b m \<longleftrightarrow>
     (if cb_can_resize b then 2 * m + 8 < size_lim \<and> (\<forall>k \<le> 2 * m + 8. al k \<noteq> None)
      else m \<le> cb_cap b)"

lemma room_mono: "room al b m \<Longrightarrow> n \<le> m \<Longrightarrow> room al b n"
  by (auto simp: room_def split: if_splits)

lemma room_write_at [simp]: "room al (write_at off d b) m = room al b m"
  by (simp add: room_def)

lemma openssl_malloc_ok:
  "n + 8 < size_lim \<Longrightarrow> al (n + 8) \<noteq> None \<Longrightarrow> OPENSSL_malloc al n \<noteq> None"
  by (auto simp: OPENSSL_malloc_def size_add_exact)

lemma openssl_realloc_ok:
  "n + 8 < size_lim \<Longrightarrow> al (n + 8) \<noteq> None \<Longrightarrow> OPENSSL_realloc al orig n \<noteq> None"
  using openssl_malloc_ok [of n al] by (auto simp: OPENSSL_realloc_def Let_def split: option.splits)

context allocator
begin

lemma realloc_prefix:
  assumes "n < size_lim" "OPENSSL_realloc malloc orig n = Some blk"
    and "len \<le> n" "len \<le> length (case orig of None \<Rightarrow> [] | Some o1 \<Rightarrow> o1)"
  shows "length blk = n" "take len blk = take len (case orig of None \<Rightarrow> [] | Some o1 \<Rightarrow> o1)"
proof -
  show "length blk = n" using openssl_realloc_length [OF assms(1,2)] .
  show "take len blk = take len (case orig of None \<Rightarrow> [] | Some o1 \<Rightarrow> o1)"
  proof (cases orig)
    case (Some old)
    with openssl_realloc_keeps [OF assms(1)] assms
    have "take (min n (length old)) blk = take (min n (length old)) old" by blast
    then have "take len (take (min n (length old)) blk) = take len (take (min n (length old)) old)" by simp
    then show ?thesis using assms Some by (simp add: min_def split: if_splits)
  qed (use assms in simp)
qed

text \<open>What a call that may grow the buffer leaves.\<close>

lemma size_add_noov: "a < size_lim \<Longrightarrow> b < size_lim \<Longrightarrow> \<not> size_add a b < a \<Longrightarrow> size_add a b = a + b \<and> a + b < size_lim"
  using size_add_overflow [of a b] size_add_exact [of a b] by simp

lemma cbb_buffer_reserve_ok:
  assumes wf: "wf_buffer b" and n: "n < size_lim" and ok: "cbb_buffer_reserve malloc n b = (True, b')"
  shows "wf_buffer b' \<and> cb_len b' = cb_len b \<and> cb_len b + n \<le> cb_cap b' \<and> written b' = written b \<and>
    cb_error b' = cb_error b \<and> cb_can_resize b' = cb_can_resize b"
proof -
  note w = wf_bufferD [OF wf]
  have nov: "\<not> size_add (cb_len b) n < cb_len b"
    using ok by (auto simp: cbb_buffer_reserve_def Let_def split: if_splits)
  from size_add_noov [OF w(4) n this] have nl: "size_add (cb_len b) n = cb_len b + n"
    "cb_len b + n < size_lim" by auto
  show ?thesis
  proof (cases "cb_len b + n > cb_cap b")
    case False
    then have "b' = b" using ok nl(1) by (simp add: cbb_buffer_reserve_def Let_def)
    with False wf show ?thesis by simp
  next
    case True
    define newcap where "newcap =
      (if size_mul (cb_cap b) 2 < cb_cap b \<or> size_mul (cb_cap b) 2 < cb_len b + n
       then cb_len b + n else size_mul (cb_cap b) 2)"
    obtain blk where blk: "OPENSSL_realloc malloc (cb_buf b) newcap = Some blk"
      and b': "b' = b \<lparr> cb_buf := Some blk, cb_cap := newcap \<rparr>"
      using ok True nl(1) unfolding cbb_buffer_reserve_def Let_def newcap_def
      by (auto split: if_splits option.splits)
    have nc: "newcap < size_lim" "cb_len b + n \<le> newcap"
      using nl(2) by (auto simp: newcap_def size_mul_def)
    have bb: "(case cb_buf b of None \<Rightarrow> [] | Some o1 \<Rightarrow> o1) = buf_bytes b" by (simp add: buf_bytes_def)
    have "cb_len b \<le> newcap" "cb_len b \<le> length (buf_bytes b)" using nc w by auto
    from realloc_prefix [OF nc(1) blk, unfolded bb, OF this]
    show ?thesis using b' nc w by (auto simp: wf_buffer_def written_def buf_bytes_def)
  qed
qed

lemma cbb_buffer_add_ok:
  assumes wf: "wf_buffer b" and n: "n < size_lim" and ok: "cbb_buffer_add malloc n b = (True, b')"
  shows "wf_buffer b' \<and> cb_len b' = cb_len b + n \<and> (\<exists>junk. length junk = n \<and> written b' = written b @ junk) \<and>
    cb_error b' = cb_error b \<and> cb_can_resize b' = cb_can_resize b"
proof -
  obtain b1 where r: "cbb_buffer_reserve malloc n b = (True, b1)"
    and b': "b' = b1 \<lparr> cb_len := size_add (cb_len b1) n \<rparr>"
    using ok by (auto simp: cbb_buffer_add_def split: prod.splits if_splits)
  note b1 = cbb_buffer_reserve_ok [OF wf n r]
  then have l: "size_add (cb_len b1) n = cb_len b + n" "cb_len b + n \<le> length (buf_bytes b1)"
    by (auto simp: wf_buffer_def size_add_exact)
  have "take (cb_len b + n) (buf_bytes b1) = written b @ take n (drop (cb_len b) (buf_bytes b1))"
    using b1 by (metis take_add written_def)
  moreover have "length (take n (drop (cb_len b) (buf_bytes b1))) = n" using l by simp
  ultimately show ?thesis
    using b1 b' l by (auto simp: wf_buffer_def written_def buf_bytes_def)
qed

end

lemma cbb_buffer_reserve_fail:
  "cbb_buffer_reserve al n b = (False, b') \<Longrightarrow> b' = b \<lparr> cb_error := True \<rparr>"
  by (auto simp: cbb_buffer_reserve_def Let_def split: if_splits option.splits)

lemma cbb_buffer_add_fail:
  "cbb_buffer_add al n b = (False, b') \<Longrightarrow> b' = b \<lparr> cb_error := True \<rparr>"
  by (auto simp: cbb_buffer_add_def split: prod.splits if_splits dest: cbb_buffer_reserve_fail)

lemma cbb_buffer_reserve_room:
  assumes wf: "wf_buffer b" and r: "room al b m" and m: "cb_len b + n \<le> m"
  shows "\<exists>b'. cbb_buffer_reserve al n b = (True, b') \<and> room al b' m"
proof -
  note w = wf_bufferD [OF wf]
  show ?thesis
  proof (cases "cb_can_resize b")
    case False
    then have le: "cb_len b + n \<le> cb_cap b" using r m by (simp add: room_def)
    then have "size_add (cb_len b) n = cb_len b + n" using w by (intro size_add_exact) simp
    with le False r show ?thesis by (simp add: cbb_buffer_reserve_def Let_def)
  next
    case True
    then have lim: "2 * m + 8 < size_lim" and al: "\<And>k. k \<le> 2 * m + 8 \<Longrightarrow> al k \<noteq> None"
      using r by (auto simp: room_def)
    then have nl: "size_add (cb_len b) n = cb_len b + n" using m by (intro size_add_exact) simp
    show ?thesis
    proof (cases "cb_len b + n > cb_cap b")
      case False
      with nl r show ?thesis by (simp add: cbb_buffer_reserve_def Let_def)
    next
      case grow: True
      then have "size_mul (cb_cap b) 2 = cb_cap b * 2" using lim m by (intro size_mul_exact) simp
      then have "(if size_mul (cb_cap b) 2 < cb_cap b \<or> size_mul (cb_cap b) 2 < cb_len b + n
          then cb_len b + n else size_mul (cb_cap b) 2) \<le> 2 * m" (is "?nc \<le> _")
        using grow m by auto
      then obtain blk where "OPENSSL_realloc al (cb_buf b) ?nc = Some blk"
        using openssl_realloc_ok [of ?nc al "cb_buf b"] al [of "?nc + 8"] lim by auto
      then show ?thesis
        using grow nl True r by (simp add: cbb_buffer_reserve_def Let_def room_def)
    qed
  qed
qed

lemma cbb_buffer_add_room:
  assumes "wf_buffer b" "room al b m" "cb_len b + n \<le> m"
  shows "\<exists>b'. cbb_buffer_add al n b = (True, b') \<and> room al b' m"
  using cbb_buffer_reserve_room [OF assms] by (auto simp: cbb_buffer_add_def room_def)

section \<open>The abstract builder\<close>

text \<open>
  What a client sees: one entry per open \<open>CBB\<close>, with the kind of its length prefix and the bytes
  added to it so far.  Sealing an entry puts its prefix in front.
\<close>

datatype pfx = Root | Len_pfx nat | Asn1_pfx

type_synonym acbb = "(pfx \<times> bytes) list"

primrec pfx_len :: "pfx \<Rightarrow> nat" where
  "pfx_len Root = 0"
| "pfx_len (Len_pfx n) = n"
| "pfx_len Asn1_pfx = 1"

primrec seal :: "pfx \<Rightarrow> bytes \<Rightarrow> bytes option" where
  "seal Root c = None"
| "seal (Len_pfx n) c = (if length c < 256 ^ n then Some (be_bytes n (length c) @ c) else None)"
| "seal Asn1_pfx c = (if length c \<le> 0xfffffffe then Some (der_len (length c) @ c) else None)"

fun close :: "acbb \<Rightarrow> (pfx \<times> bytes) option" where
  "close [] = None"
| "close [kc] = Some kc"
| "close ((k, c) # r) =
     (case close r of
        None \<Rightarrow> None
      | Some (k', c') \<Rightarrow> (case seal k' c' of None \<Rightarrow> None | Some s \<Rightarrow> Some (k, c @ s)))"

definition frame_of :: "nat \<Rightarrow> pfx \<Rightarrow> cbb_frame" where
  "frame_of pos k =
     \<lparr> fr_offset = pos, fr_pending_len_len = pfx_len k, fr_pending_is_asn1 = (k = Asn1_pfx),
       fr_is_child = (k \<noteq> Root) \<rparr>"

fun frames_at :: "nat \<Rightarrow> acbb \<Rightarrow> cbb_frame list" where
  "frames_at pos [] = []"
| "frames_at pos ((k, c) # r) = frame_of pos k # frames_at (pos + pfx_len k + length c) r"

fun flat :: "acbb \<Rightarrow> bytes" where
  "flat [] = []"
| "flat ((k, c) # r) = replicate (pfx_len k) 0 @ c @ flat r"

definition proper :: "acbb \<Rightarrow> bool" where
  "proper r \<longleftrightarrow> (\<forall>kc \<in> set r. fst kc \<noteq> Root \<and> 0 < pfx_len (fst kc) \<and> pfx_len (fst kc) \<le> 8)"

lemma proper_simps [simp]:
  "proper []"
  "proper ((k, c) # r) \<longleftrightarrow> k \<noteq> Root \<and> 0 < pfx_len k \<and> pfx_len k \<le> 8 \<and> proper r"
  "proper (a @ b) \<longleftrightarrow> proper a \<and> proper b"
  by (auto simp: proper_def)

lemma proper_subset: "proper r \<Longrightarrow> set s \<subseteq> set r \<Longrightarrow> proper s"
  by (auto simp: proper_def)

lemma length_der_len_ge: "1 \<le> length (der_len n)"
  by (simp add: der_len_def)

lemma length_seal: "seal k c = Some s \<Longrightarrow> pfx_len k + length c \<le> length s"
  using length_der_len_ge [of "length c"] by (cases k) (auto split: if_splits)

lemma length_close: "close a = Some (k, c) \<Longrightarrow> length (flat a) \<le> pfx_len k + length c"
proof (induction a arbitrary: k c rule: close.induct)
  case (3 k0 c0 p r)
  then obtain k' c' s where "close (p # r) = Some (k', c')" "seal k' c' = Some s" "k = k0" "c = c0 @ s"
    by (auto split: option.splits)
  with "3.IH" [OF this(1)] length_seal [of k' c' s] show ?case by simp
qed auto

lemma asn1_len_len_der:
  assumes "n \<le> 0xfffffffe"
  obtains l i where "asn1_len_len n = Some (l, i)" "1 \<le> l" "l \<le> 5" "l = 1 \<longleftrightarrow> n < 128"
    "der_len n = i # be_bytes (l - 1) n" "n < 128 \<or> n < 256 ^ (l - 1)"
proof -
  consider "n \<le> 0x7f" | "0x7f < n" "n \<le> 0xff" | "0xff < n" "n \<le> 0xffff" | "0xffff < n" "n \<le> 0xffffff"
    | "0xffffff < n" by linarith
  then show thesis
  proof cases
    case 1
    with that [of 1 "of_nat n"] show thesis by (simp add: asn1_len_len_def der_len_def)
  next
    case 2
    then have "nbytes n = 1" by (intro nbytes_unique) auto
    with 2 that [of 2 "0x80 OR 1"] show thesis by (simp add: asn1_len_len_def der_len_def)
  next
    case 3
    then have "nbytes n = 2" by (intro nbytes_unique) auto
    with 3 that [of 3 "0x80 OR 2"] show thesis by (simp add: asn1_len_len_def der_len_def)
  next
    case 4
    then have "nbytes n = 3" by (intro nbytes_unique) auto
    with 4 that [of 4 "0x80 OR 3"] show thesis by (simp add: asn1_len_len_def der_len_def)
  next
    case 5
    then have "nbytes n = 4" using assms by (intro nbytes_unique) auto
    with 5 assms that [of 5 "0x80 OR 4"] show thesis by (simp add: asn1_len_len_def der_len_def)
  qed
qed

text \<open>The step at the heart of \<open>CBB_flush\<close>: a prefix of zeros becomes the length prefix.\<close>

context allocator
begin

lemma write_prefix_len:
  assumes wf: "wf_buffer b" and e: "\<not> cb_error b" and w: "written b = pre @ replicate n 0 @ c" and n: "n \<le> 8"
  shows "cbb_write_prefix malloc (length pre) n False (length c) b =
    (if length c < 256 ^ n then (True, write_at (length pre) (be_bytes n (length c)) b)
     else (False, cbb_err (write_at (length pre) (be_bytes n (length c)) b)))"
proof -
  note wb = wf_bufferD [OF wf]
  have l: "cb_len b = length pre + n + length c" using wb(5) w by simp
  have c: "unat (of_nat (length c) :: u64) = length c"
    using l wb(4) by (simp only: unat_of_nat) simp
  have "drop_bit (8 * n) (of_nat (length c) :: u64) = 0 \<longleftrightarrow> length c < 256 ^ n"
    unfolding drop_bit_0_iff_unat c by (simp add: power_mult)
  moreover have "store_be_loop n (length pre) (of_nat (length c)) b =
      (drop_bit (8 * n) (of_nat (length c)), write_at (length pre) (be_bytes n (length c)) b)"
    using store_be_loop_eq [of "length pre" n b "of_nat (length c)"] l wb c by simp
  ultimately show ?thesis by (simp add: cbb_write_prefix_def)
qed

lemma write_prefix_asn1_eq:
  "cbb_write_prefix al off (Suc 0) True len b =
     (case asn1_len_len len of
        None \<Rightarrow> (False, cbb_err b)
      | Some (l, i) \<Rightarrow>
          if l = 1 then (True, write_at off [i] b)
          else
            (case cbb_buffer_add al (l - 1) b of
               (ok, b1) \<Rightarrow>
                 if \<not> ok then (False, cbb_err b1)
                 else
                   let b3 = write_at off [i] (write_at (off + 1 + (l - 1))
                              (take len (drop (off + 1) (buf_bytes b1))) b1)
                   in case store_be_loop (l - 1) (off + 1) (of_nat len) b3 of
                        (rest, b4) \<Rightarrow> if rest \<noteq> 0 then (False, cbb_err b4) else (True, b4)))"
  by (simp add: cbb_write_prefix_def Let_def split: option.splits prod.splits)

lemma moved_contents:
  assumes wf: "wf_buffer b1" and w: "written b1 = pre @ [0] @ c @ junk" and e: "length junk = e"
  shows "take (length c) (drop (length pre + 1) (buf_bytes b1)) = c"
    and "\<exists>y. length y = e \<and> wf_buffer (write_at (length pre + 1 + e) c b1) \<and>
      written (write_at (length pre + 1 + e) c b1) = (pre @ [0] @ y) @ c"
proof -
  obtain r where "buf_bytes b1 = written b1 @ r"
    unfolding written_def by (metis append_take_drop_id)
  then show "take (length c) (drop (length pre + 1) (buf_bytes b1)) = c" using w by simp
  define y where "y = take e (c @ junk)"
  define x where "x = drop e (c @ junk)"
  have y: "length y = e" and x: "length c = length x" using e by (auto simp: y_def x_def)
  have "c @ junk = y @ x" unfolding x_def y_def by (rule append_take_drop_id [symmetric])
  then have "written b1 = (pre @ [0] @ y) @ x @ []" using w by simp
  from written_write_at [OF wf this x] y
  show "\<exists>y. length y = e \<and> wf_buffer (write_at (length pre + 1 + e) c b1) \<and>
      written (write_at (length pre + 1 + e) c b1) = (pre @ [0] @ y) @ c"
    by (intro exI [of _ y]) (simp add: add.assoc)
qed

lemma write_prefix_asn1_step:
  fixes i :: u8
  assumes wf: "wf_buffer b1" and w: "written b1 = pre @ [0] @ c @ junk" and e: "length junk = l - 1"
    and lt: "length c < 256 ^ (l - 1)" and l8: "l \<le> 5"
  defines "b3 \<equiv> write_at (length pre) [i] (write_at (length pre + 1 + (l - 1))
      (take (length c) (drop (length pre + 1) (buf_bytes b1))) b1)"
  shows "\<exists>b4. store_be_loop (l - 1) (length pre + 1) (of_nat (length c)) b3 = (0, b4) \<and> wf_buffer b4 \<and>
    written b4 = pre @ i # be_bytes (l - 1) (length c) @ c \<and> cb_error b4 = cb_error b1 \<and>
    cb_can_resize b4 = cb_can_resize b1 \<and> (\<forall>al m. room al b4 m = room al b1 m)"
proof -
  let ?b2 = "write_at (length pre + 1 + (l - 1)) c b1"
  obtain y where y: "length y = l - 1" "wf_buffer ?b2" "written ?b2 = (pre @ [0] @ y) @ c"
    using moved_contents(2) [OF wf w e] by blast
  have b3: "b3 = write_at (length pre) [i] ?b2" unfolding b3_def moved_contents(1) [OF wf w e] ..
  have "written ?b2 = pre @ [0] @ (y @ c)" using y(3) by simp
  from written_write_at [OF y(2) this, of "[i]"] have w3: "wf_buffer b3" "written b3 = pre @ [i] @ y @ c"
    unfolding b3 by simp_all
  note wb = wf_bufferD [OF w3(1)]
  have bound: "length pre + 1 + (l - 1) \<le> length (buf_bytes b3)"
    using wb w3(2) y(1) by simp
  have c: "unat (of_nat (length c) :: u64) = length c"
    using wb w3(2) by (simp only: unat_of_nat) simp
  have z: "drop_bit (8 * (l - 1)) (of_nat (length c) :: u64) = 0"
    using lt unfolding drop_bit_0_iff_unat c by (simp add: power_mult)
  have s: "store_be_loop (l - 1) (length pre + 1) (of_nat (length c)) b3 =
      (0, write_at (length pre + 1) (be_bytes (l - 1) (length c)) b3)"
    using store_be_loop_eq [OF bound, of "of_nat (length c)"] c z by simp
  have "written b3 = (pre @ [i]) @ y @ c" using w3(2) by simp
  from written_write_at [OF w3(1) this, of "be_bytes (l - 1) (length c)"] y(1)
  show ?thesis using s by (simp add: b3)
qed

lemma seal_Asn1_len:
  assumes al: "asn1_len_len (length c) = Some (l, i)" "length c \<le> 0xfffffffe"
  shows "seal Asn1_pfx c = Some ((i # be_bytes (l - 1) (length c)) @ c)" "1 \<le> l" "l \<le> 5"
    "l \<noteq> 1 \<Longrightarrow> length c < 256 ^ (l - 1)"
proof -
  obtain l' i' where "asn1_len_len (length c) = Some (l', i')" "1 \<le> l'" "l' \<le> 5"
    "l' = 1 \<longleftrightarrow> length c < 128" "der_len (length c) = i' # be_bytes (l' - 1) (length c)"
    "length c < 128 \<or> length c < 256 ^ (l' - 1)"
    using asn1_len_len_der [OF al(2)] by metis
  with al show "seal Asn1_pfx c = Some ((i # be_bytes (l - 1) (length c)) @ c)" "1 \<le> l" "l \<le> 5"
    "l \<noteq> 1 \<Longrightarrow> length c < 256 ^ (l - 1)" by auto
qed

lemma asn1_len_len_None: "asn1_len_len n = None \<longleftrightarrow> 0xfffffffe < n"
  by (auto simp: asn1_len_len_def)

lemma write_prefix_asn1_ok:
  assumes wf: "wf_buffer b" and w: "written b = pre @ [0] @ c"
    and ok: "cbb_write_prefix malloc (length pre) (Suc 0) True (length c) b = (True, b')"
  shows "\<exists>s. seal Asn1_pfx c = Some s \<and> wf_buffer b' \<and> written b' = pre @ s \<and>
    cb_error b' = cb_error b \<and> cb_can_resize b' = cb_can_resize b"
proof -
  obtain l i where li: "asn1_len_len (length c) = Some (l, i)"
    using ok by (auto simp: write_prefix_asn1_eq split: option.splits)
  then have small: "length c \<le> 0xfffffffe" using asn1_len_len_None [of "length c"] by simp
  note seal = seal_Asn1_len [OF li small]
  show ?thesis
  proof (cases "l = 1")
    case True
    then have "b' = write_at (length pre) [i] b" using ok li by (simp add: write_prefix_asn1_eq)
    with written_write_at [OF wf w, of "[i]"] seal(1) True show ?thesis by simp
  next
    case False
    then obtain b1 where a: "cbb_buffer_add malloc (l - 1) b = (True, b1)"
      using ok li by (auto simp: write_prefix_asn1_eq split: prod.splits if_splits)
    have "l - 1 < size_lim" using seal(3) by simp
    from cbb_buffer_add_ok [OF wf this a] w obtain junk where
      b1: "wf_buffer b1" "length junk = l - 1" "written b1 = pre @ [0] @ c @ junk"
      "cb_error b1 = cb_error b" "cb_can_resize b1 = cb_can_resize b"
      by auto
    from write_prefix_asn1_step [OF b1(1,3,2) seal(4) [OF False] seal(3), of i] ok li a False b1 seal(1)
    show ?thesis by (auto simp: write_prefix_asn1_eq Let_def)
  qed
qed

lemma write_prefix_asn1_room:
  assumes wf: "wf_buffer b" and w: "written b = pre @ [0] @ c" and s: "seal Asn1_pfx c = Some s"
    and r: "room malloc b m" and m: "length pre + length s \<le> m"
  shows "\<exists>b'. cbb_write_prefix malloc (length pre) (Suc 0) True (length c) b = (True, b') \<and> room malloc b' m"
proof -
  have small: "length c \<le> 0xfffffffe" using s by (auto split: if_splits)
  then obtain l i where li: "asn1_len_len (length c) = Some (l, i)"
    using asn1_len_len_None [of "length c"] by (cases "asn1_len_len (length c)") auto
  note seal = seal_Asn1_len [OF li small]
  show ?thesis
  proof (cases "l = 1")
    case True
    then show ?thesis using li r by (simp add: write_prefix_asn1_eq)
  next
    case False
    have "s = (i # be_bytes (l - 1) (length c)) @ c" using seal(1) s by (simp del: seal.simps)
    then have "length s = l + length c" using seal(2) by simp
    moreover have "cb_len b = length pre + 1 + length c"
      using wf_bufferD(5) [OF wf] w by simp
    ultimately have "cb_len b + (l - 1) \<le> m" using m seal(2) by linarith
    from cbb_buffer_add_room [OF wf r this] obtain b1 where
      a: "cbb_buffer_add malloc (l - 1) b = (True, b1)" "room malloc b1 m" by blast
    have "l - 1 < size_lim" using seal(3) by simp
    from cbb_buffer_add_ok [OF wf this a(1)] w obtain junk where
      b1: "wf_buffer b1" "length junk = l - 1" "written b1 = pre @ [0] @ c @ junk" by auto
    from write_prefix_asn1_step [OF b1(1,3,2) seal(4) [OF False] seal(3), of i] li a False
    show ?thesis by (auto simp: write_prefix_asn1_eq Let_def)
  qed
qed

text \<open>Both kinds of prefix.\<close>

lemma write_prefix_ok:
  assumes wf: "wf_buffer b" and w: "written b = pre @ replicate (pfx_len k) 0 @ c" and e: "\<not> cb_error b"
    and k: "proper [(k, c)]"
    and ok: "cbb_write_prefix malloc (length pre) (pfx_len k) (k = Asn1_pfx) (length c) b = (True, b')"
  shows "\<exists>s. seal k c = Some s \<and> wf_buffer b' \<and> written b' = pre @ s \<and> \<not> cb_error b' \<and>
    cb_can_resize b' = cb_can_resize b"
proof (cases k)
  case (Len_pfx n)
  with k have n: "n \<le> 8" by simp
  from Len_pfx w have w': "written b = pre @ replicate n 0 @ c" by simp
  from written_write_at [OF wf w', of "be_bytes n (length c)"] write_prefix_len [OF wf e w' n] ok Len_pfx e
  show ?thesis by (auto split: if_splits)
next
  case Asn1_pfx
  with w have "written b = pre @ [0] @ c" by simp
  from write_prefix_asn1_ok [OF wf this, of b'] ok Asn1_pfx e show ?thesis by auto
qed (use k in simp)

lemma write_prefix_room:
  assumes wf: "wf_buffer b" and w: "written b = pre @ replicate (pfx_len k) 0 @ c" and e: "\<not> cb_error b"
    and k: "proper [(k, c)]" and s: "seal k c = Some s" and r: "room malloc b m" and m: "length pre + length s \<le> m"
  shows "\<exists>b'. cbb_write_prefix malloc (length pre) (pfx_len k) (k = Asn1_pfx) (length c) b = (True, b') \<and>
    room malloc b' m"
proof (cases k)
  case (Len_pfx n)
  with k have n: "n \<le> 8" by simp
  from Len_pfx w have w': "written b = pre @ replicate n 0 @ c" by simp
  from write_prefix_len [OF wf e w' n] Len_pfx s r show ?thesis by (auto split: if_splits)
next
  case Asn1_pfx
  with w have "written b = pre @ [0] @ c" by simp
  from write_prefix_asn1_room [OF wf this _ r m] s Asn1_pfx show ?thesis by auto
qed (use k in simp)

end

lemma write_prefix_fail:
  "cbb_write_prefix al off n a len b = (False, b') \<Longrightarrow> cb_error b'"
  by (auto simp: cbb_write_prefix_def Let_def cbb_err_def split: prod.splits if_splits option.splits)

section \<open>Flushing refines closing\<close>

lemma frame_of_fields [simp]:
  "fr_offset (frame_of p k) = p" "fr_pending_len_len (frame_of p k) = pfx_len k"
  "fr_pending_is_asn1 (frame_of p k) = (k = Asn1_pfx)" "fr_is_child (frame_of p k) = (k \<noteq> Root)"
  by (simp_all add: frame_of_def)

lemma proper_pfx_len: "proper [(k, c)] \<Longrightarrow> 0 < pfx_len k \<and> pfx_len k \<le> 8"
  by auto

text \<open>One unfolding of \<open>CBB_flush\<close>, in terms of the entries.\<close>

lemma flush_chain_step:
  assumes wf: "wf_buffer b" and e: "\<not> cb_error b" and k1: "proper [(k1, c1)]"
    and w: "written b = pre @ flat ((k0, c0) # (k1, c1) # r)"
    and rec: "cbb_flush_chain al (frames_at (length (pre @ replicate (pfx_len k0) 0 @ c0)) ((k1, c1) # r)) b =
      (ok1, ch1, b1)"
  defines "start \<equiv> length (pre @ replicate (pfx_len k0) 0 @ c0) + pfx_len k1"
  shows "cbb_flush_chain al (frames_at (length pre) ((k0, c0) # (k1, c1) # r)) b =
    (if \<not> ok1 \<or> cb_len b1 < start then (False, frame_of (length pre) k0 # ch1, cbb_err b1)
     else case cbb_write_prefix al (length (pre @ replicate (pfx_len k0) 0 @ c0)) (pfx_len k1)
                 (k1 = Asn1_pfx) (cb_len b1 - start) b1 of
       (ok, b2) \<Rightarrow> if ok then (True, [frame_of (length pre) k0], b2)
         else (False, frame_of (length pre) k0 # ch1, b2))"
proof -
  let ?pre1 = "pre @ replicate (pfx_len k0) 0 @ c0"
  have "written b = ?pre1 @ flat ((k1, c1) # r)" using w by simp
  then have "start < size_lim"
    using wf_bufferD(4,5) [OF wf] by (simp add: start_def)
  then have add: "size_add (length ?pre1) (pfx_len k1) = start"
    unfolding start_def by (rule size_add_exact)
  have pos: "length pre + pfx_len k0 + length c0 = length ?pre1" by simp
  have "length ?pre1 \<le> start" by (simp add: start_def)
  then show ?thesis
    using rec e proper_pfx_len [OF k1] add unfolding frames_at.simps pos by (simp add: Let_def)
qed

context allocator
begin

lemma flush_chain_ok:
  assumes wf: "wf_buffer b" and e: "\<not> cb_error b" and w: "written b = pre @ flat ((k0, c0) # r)"
    and r: "proper r"
    and ok: "cbb_flush_chain malloc (frames_at (length pre) ((k0, c0) # r)) b = (True, chain, b')"
  shows "\<exists>c. close ((k0, c0) # r) = Some (k0, c) \<and> chain = [frame_of (length pre) k0] \<and>
    wf_buffer b' \<and> written b' = pre @ flat [(k0, c)] \<and> \<not> cb_error b' \<and> cb_can_resize b' = cb_can_resize b"
  using w r ok
proof (induction r arbitrary: pre k0 c0 chain b')
  case Nil
  then show ?case using wf e by (auto split: if_splits)
next
  case (Cons kc r)
  obtain k1 c1 where kc: "kc = (k1, c1)" by (cases kc)
  let ?pre1 = "pre @ replicate (pfx_len k0) 0 @ c0"
  let ?start = "length ?pre1 + pfx_len k1"
  have w1: "written b = ?pre1 @ flat ((k1, c1) # r)" using Cons.prems(1) kc by simp
  have k1: "proper [(k1, c1)]" "proper r" using Cons.prems(2) kc by auto
  obtain ok1 ch1 b1 where rec: "cbb_flush_chain malloc (frames_at (length ?pre1) ((k1, c1) # r)) b = (ok1, ch1, b1)"
    by (cases "cbb_flush_chain malloc (frames_at (length ?pre1) ((k1, c1) # r)) b") auto
  note step = flush_chain_step [OF wf e k1(1) Cons.prems(1) [unfolded kc] rec]
  from Cons.prems(3) have ok1: ok1 unfolding kc step by (auto split: if_splits)
  from Cons.IH [OF w1 k1(2), of ch1 b1] rec ok1 obtain c1' where
    IH: "close ((k1, c1) # r) = Some (k1, c1')" "wf_buffer b1"
      "written b1 = ?pre1 @ replicate (pfx_len k1) 0 @ c1'" "\<not> cb_error b1" "cb_can_resize b1 = cb_can_resize b"
    by auto
  have len: "cb_len b1 - ?start = length c1'" using wf_bufferD(5) [OF IH(2)] IH(3) by simp
  have p1: "proper [(k1, c1')]" using k1(1) by simp
  obtain b2 where pf: "cbb_write_prefix malloc (length ?pre1) (pfx_len k1) (k1 = Asn1_pfx) (length c1') b1 = (True, b2)"
    and res: "chain = [frame_of (length pre) k0]" "b' = b2"
    using Cons.prems(3) unfolding kc step len by (auto split: if_splits prod.splits)
  from write_prefix_ok [OF IH(2,3,4) p1 pf] obtain s where
    "seal k1 c1' = Some s" "wf_buffer b2" "written b2 = ?pre1 @ s" "\<not> cb_error b2" "cb_can_resize b2 = cb_can_resize b1"
    by blast
  with IH(1,5) res kc show ?case by simp
qed

lemma flush_chain_room:
  assumes wf: "wf_buffer b" and e: "\<not> cb_error b" and w: "written b = pre @ flat ((k0, c0) # r)"
    and r: "proper r" and c: "close ((k0, c0) # r) = Some (k0, c)"
    and m: "room malloc b m" "length pre + pfx_len k0 + length c \<le> m"
  shows "\<exists>chain b'. cbb_flush_chain malloc (frames_at (length pre) ((k0, c0) # r)) b = (True, chain, b') \<and>
    room malloc b' m"
  using w r c m(2)
proof (induction r arbitrary: pre k0 c0 c)
  case Nil
  then show ?case using e m(1) by simp
next
  case (Cons kc r)
  obtain k1 c1 where kc: "kc = (k1, c1)" by (cases kc)
  let ?pre1 = "pre @ replicate (pfx_len k0) 0 @ c0"
  let ?start = "length ?pre1 + pfx_len k1"
  have w1: "written b = ?pre1 @ flat ((k1, c1) # r)" using Cons.prems(1) kc by simp
  have k1: "proper [(k1, c1)]" "proper r" using Cons.prems(2) kc by auto
  obtain k' c' s where cl: "close ((k1, c1) # r) = Some (k', c')" "seal k' c' = Some s" "c = c0 @ s"
    using Cons.prems(3) kc by (auto split: option.splits)
  have k': "k' = k1" using cl(1) by (cases r) (auto split: option.splits)
  have m1: "length ?pre1 + pfx_len k1 + length c' \<le> m" "length ?pre1 + length s \<le> m"
    using Cons.prems(4) cl(3) length_seal [OF cl(2)] k' by auto
  from Cons.IH [OF w1 k1(2) cl(1) [unfolded k'] m1(1)] obtain ch1 b1 where
    rec: "cbb_flush_chain malloc (frames_at (length ?pre1) ((k1, c1) # r)) b = (True, ch1, b1)"
    "room malloc b1 m" by blast
  from flush_chain_ok [OF wf e w1 k1(2) rec(1)] cl(1) have IH: "wf_buffer b1"
      "written b1 = ?pre1 @ replicate (pfx_len k1) 0 @ c'" "\<not> cb_error b1" by auto
  have len: "cb_len b1 - ?start = length c'" "\<not> cb_len b1 < ?start"
    using wf_bufferD(5) [OF IH(1)] IH(2) by simp_all
  have p1: "proper [(k1, c')]" using k1(1) by simp
  from write_prefix_room [OF IH p1 cl(2) [unfolded k'] rec(2) m1(2)] obtain b2 where
    "cbb_write_prefix malloc (length ?pre1) (pfx_len k1) (k1 = Asn1_pfx) (length c') b1 = (True, b2)"
    "room malloc b2 m" by blast
  then show ?case
    unfolding kc flush_chain_step [OF wf e k1(1) Cons.prems(1) [unfolded kc] rec(1)] len(1)
    using len(2) by simp
qed

end

lemma flush_chain_fail:
  "chain0 \<noteq> [] \<Longrightarrow> cbb_flush_chain al chain0 b = (False, chain, b') \<Longrightarrow> cb_error b'"
  by (induction al chain0 b arbitrary: chain b' rule: cbb_flush_chain.induct)
    (auto simp: Let_def cbb_err_def split: if_splits prod.splits dest: write_prefix_fail)

section \<open>States and entries\<close>

definition valid_acbb :: "acbb \<Rightarrow> bool" where
  "valid_acbb a \<longleftrightarrow> (\<exists>c r. a = (Root, c) # r \<and> proper r)"

definition represents :: "cbb \<Rightarrow> acbb \<Rightarrow> bool" where
  "represents st a \<longleftrightarrow>
     (\<exists>b. cbb_base st = Some b \<and> wf_buffer b \<and> \<not> cb_error b \<and> written b = flat a) \<and>
     cbb_chain st = frames_at 0 a \<and> valid_acbb a"

definition has_room :: "allocator \<Rightarrow> cbb \<Rightarrow> nat \<Rightarrow> bool" where
  "has_room al st m \<longleftrightarrow> (\<exists>b. cbb_base st = Some b \<and> room al b m)"

text \<open>
  \<open>refines al f g\<close>: when the operation \<open>f\<close> returns 1 the new state represents what \<open>g\<close> computes,
  \<open>g\<close> never drops bytes, and \<open>f\<close> returns 1 whenever \<open>g\<close> is defined and the buffer has room for the
  result.
\<close>

definition refines :: "allocator \<Rightarrow> cbb_op \<Rightarrow> (acbb \<Rightarrow> acbb option) \<Rightarrow> bool" where
  "refines al f g \<longleftrightarrow>
     (\<forall>a a'. valid_acbb a \<and> g a = Some a' \<longrightarrow> valid_acbb a' \<and> length (flat a) \<le> length (flat a')) \<and>
     (\<forall>st a. represents st a \<longrightarrow>
       (\<forall>st'. f st = (True, st') \<longrightarrow> (\<exists>a'. g a = Some a' \<and> represents st' a')) \<and>
       (\<forall>a' m. g a = Some a' \<and> has_room al st m \<and> length (flat a') \<le> m \<longrightarrow>
         (\<exists>st'. f st = (True, st') \<and> has_room al st' m)))"

lemma refinesI:
  assumes "\<And>a a'. valid_acbb a \<Longrightarrow> g a = Some a' \<Longrightarrow> valid_acbb a' \<and> length (flat a) \<le> length (flat a')"
    and "\<And>st a st'. represents st a \<Longrightarrow> f st = (True, st') \<Longrightarrow> \<exists>a'. g a = Some a' \<and> represents st' a'"
    and "\<And>st a a' m. represents st a \<Longrightarrow> g a = Some a' \<Longrightarrow> has_room al st m \<Longrightarrow> length (flat a') \<le> m \<Longrightarrow>
      \<exists>st'. f st = (True, st') \<and> has_room al st' m"
  shows "refines al f g"
  using assms unfolding refines_def by blast

lemma refines_ok:
  "refines al f g \<Longrightarrow> represents st a \<Longrightarrow> f st = (True, st') \<Longrightarrow> \<exists>a'. g a = Some a' \<and> represents st' a'"
  unfolding refines_def by blast

lemma refines_grows:
  "refines al f g \<Longrightarrow> valid_acbb a \<Longrightarrow> g a = Some a' \<Longrightarrow> valid_acbb a' \<and> length (flat a) \<le> length (flat a')"
  unfolding refines_def by blast

lemma refines_room:
  "refines al f g \<Longrightarrow> represents st a \<Longrightarrow> g a = Some a' \<Longrightarrow> has_room al st m \<Longrightarrow> length (flat a') \<le> m \<Longrightarrow>
   \<exists>st'. f st = (True, st') \<and> has_room al st' m \<and> represents st' a'"
  unfolding refines_def by (metis option.inject)

lemma represents_valid: "represents st a \<Longrightarrow> valid_acbb a"
  by (simp add: represents_def)

lemma refines_then:
  assumes f: "refines al f g" and h: "refines al h k"
  shows "refines al (cbb_then f h) (\<lambda>a. Option.bind (g a) k)"
proof (rule refinesI)
  fix a a' assume v: "valid_acbb a" and "Option.bind (g a) k = Some a'"
  then obtain a1 where a1: "g a = Some a1" "k a1 = Some a'" by (auto simp: Option.bind_eq_Some_conv)
  from refines_grows [OF f v a1(1)] refines_grows [OF h _ a1(2)]
  show "valid_acbb a' \<and> length (flat a) \<le> length (flat a')" by linarith
next
  fix st a st' assume "represents st a" "cbb_then f h st = (True, st')"
  then obtain s1 where "f st = (True, s1)" "h s1 = (True, st')"
    by (auto simp: cbb_then_def split: prod.splits if_splits)
  with refines_ok [OF f \<open>represents st a\<close>] refines_ok [OF h]
  show "\<exists>a'. Option.bind (g a) k = Some a' \<and> represents st' a'" by fastforce
next
  fix st a a' m assume r: "represents st a" and "Option.bind (g a) k = Some a'" and m: "has_room al st m" "length (flat a') \<le> m"
  then obtain a1 where a1: "g a = Some a1" "k a1 = Some a'" by (auto simp: Option.bind_eq_Some_conv)
  then have "valid_acbb a1" "length (flat a1) \<le> m"
    using m refines_grows [OF f represents_valid [OF r]] refines_grows [OF h, of a1 a'] by auto
  from refines_room [OF f r a1(1) m(1) this(2)] refines_room [OF h _ a1(2) _ m(2)]
  show "\<exists>st'. cbb_then f h st = (True, st') \<and> has_room al st' m"
    by (fastforce simp: cbb_then_def)
qed

text \<open>The abstract steps: close what is open below depth \<open>d\<close>, append, open a child.\<close>

definition close_at :: "nat \<Rightarrow> acbb \<Rightarrow> acbb option" where
  "close_at d a =
     (if d < length a then map_option (\<lambda>kc. take d a @ [kc]) (close (drop d a)) else None)"

definition add_last :: "bytes \<Rightarrow> acbb \<Rightarrow> acbb" where
  "add_last data a = butlast a @ [(fst (last a), snd (last a) @ data)]"

definition open_last :: "pfx \<Rightarrow> acbb \<Rightarrow> acbb" where
  "open_last k a = a @ [(k, [])]"

lemma flat_append: "flat (a @ b) = flat a @ flat b"
  by (induction a rule: flat.induct) auto

lemma frames_at_append: "frames_at pos (a @ b) = frames_at pos a @ frames_at (pos + length (flat a)) b"
  by (induction pos a rule: frames_at.induct) (auto simp: add.assoc)

lemma length_frames_at [simp]: "length (frames_at pos a) = length a"
  by (induction pos a rule: frames_at.induct) auto

lemma valid_acbb_snoc_cong:
  "valid_acbb (a @ [(k, c)]) \<longleftrightarrow> valid_acbb (a @ [(k, c')])"
  by (cases a) (auto simp: valid_acbb_def)

lemma valid_acbb_take: "valid_acbb a \<Longrightarrow> valid_acbb (take (Suc d) a)"
  by (auto simp: valid_acbb_def intro: proper_subset [OF _ set_take_subset])

lemma close_fst: "close ((k, c) # r) = Some (k', c') \<Longrightarrow> k' = k"
  by (cases r) (auto split: option.splits)

lemma close_at_split:
  assumes "valid_acbb a" "close_at d a = Some a'"
  obtains pre k0 c0 r c where "a = pre @ (k0, c0) # r" "length pre = d" "proper r"
    "close ((k0, c0) # r) = Some (k0, c)" "a' = pre @ [(k0, c)]"
proof -
  from assms(2) have d: "d < length a" by (auto simp: close_at_def split: if_splits)
  obtain k0 c0 r where kr: "drop d a = (k0, c0) # r"
    using d by (cases "drop d a") auto
  have a: "a = take d a @ (k0, c0) # r" using kr by (metis append_take_drop_id)
  have r: "proper r"
  proof -
    have "set r \<subseteq> set (tl a)"
      using kr by (metis drop_Suc list.sel(3) set_drop_subset tl_drop)
    then show ?thesis using assms(1) proper_subset by (auto simp: valid_acbb_def)
  qed
  obtain k c where kc: "close ((k0, c0) # r) = Some (k, c)" "a' = take d a @ [(k, c)]"
    using assms(2) d kr by (auto simp: close_at_def)
  with close_fst have "k = k0" by blast
  with kc a r d show thesis by (intro that [of "take d a" k0 c0 r c]) auto
qed

lemma close_at_valid:
  assumes "valid_acbb a" "close_at d a = Some a'"
  shows "valid_acbb a' \<and> length (flat a) \<le> length (flat a') \<and> length a' = Suc d"
proof -
  obtain pre k0 c0 r c where s: "a = pre @ (k0, c0) # r" "length pre = d" "proper r"
    "close ((k0, c0) # r) = Some (k0, c)" "a' = pre @ [(k0, c)]"
    by (rule close_at_split [OF assms])
  have "valid_acbb (pre @ [(k0, c0)])" using assms(1) s(1) by (cases pre) (auto simp: valid_acbb_def)
  with s length_close [OF s(4)] show ?thesis by (auto simp: flat_append valid_acbb_snoc_cong [of pre k0 c c0])
qed

context allocator
begin

lemma CBB_flush_represents:
  assumes r: "represents st a" and d: "close_at d a = Some a' \<or> fst (CBB_flush malloc d st)"
  obtains pre k0 c0 r0 b where "a = pre @ (k0, c0) # r0" "length pre = d" "proper r0"
    "cbb_base st = Some b" "wf_buffer b" "\<not> cb_error b" "written b = flat pre @ flat ((k0, c0) # r0)"
    "CBB_flush malloc d st =
       (case cbb_flush_chain malloc (frames_at (length (flat pre)) ((k0, c0) # r0)) b of
          (ok, chain, b') \<Rightarrow> (ok, \<lparr> cbb_base = Some b', cbb_chain = frames_at 0 pre @ chain \<rparr>))"
proof -
  obtain b where b: "cbb_base st = Some b" "wf_buffer b" "\<not> cb_error b" "written b = flat a"
    and ch: "cbb_chain st = frames_at 0 a" and v: "valid_acbb a"
    using r by (auto simp: represents_def)
  have "d < length a"
  proof (rule ccontr)
    assume "\<not> d < length a"
    then have "close_at d a = None" "drop d (cbb_chain st) = []" by (simp_all add: close_at_def ch)
    with d b(1) show False by (simp add: CBB_flush_def)
  qed
  then obtain k0 c0 r0 where dr: "drop d a = (k0, c0) # r0" by (cases "drop d a") auto
  define pre where "pre = take d a"
  have a: "a = pre @ (k0, c0) # r0" and l: "length pre = d"
    using dr \<open>d < length a\<close> unfolding pre_def by (metis append_take_drop_id, simp)
  have "proper r0"
    using v a by (cases pre) (auto simp: valid_acbb_def)
  moreover have "drop d (cbb_chain st) = frames_at (length (flat pre)) ((k0, c0) # r0)"
    "take d (cbb_chain st) = frames_at 0 pre"
    unfolding ch a frames_at_append using l by simp_all
  ultimately show thesis
    using that [OF a l _ b(1,2,3)] b a l by (simp add: CBB_flush_def flat_append del: flat.simps frames_at.simps)
qed

lemma refines_flush: "refines malloc (CBB_flush malloc d) (close_at d)"
proof (rule refinesI)
  show "valid_acbb a' \<and> length (flat a) \<le> length (flat a')" if "valid_acbb a" "close_at d a = Some a'" for a a'
    using close_at_valid [OF that] by blast
next
  fix st a st' assume r: "represents st a" and f: "CBB_flush malloc d st = (True, st')"
  obtain pre k0 c0 r0 b where s: "a = pre @ (k0, c0) # r0" "length pre = d" "proper r0"
    "cbb_base st = Some b" "wf_buffer b" "\<not> cb_error b" "written b = flat pre @ flat ((k0, c0) # r0)"
    and fl: "CBB_flush malloc d st =
       (case cbb_flush_chain malloc (frames_at (length (flat pre)) ((k0, c0) # r0)) b of
          (ok, chain, b') \<Rightarrow> (ok, \<lparr> cbb_base = Some b', cbb_chain = frames_at 0 pre @ chain \<rparr>))"
    by (rule CBB_flush_represents [OF r, of d "[]"]) (use f in simp_all)
  obtain chain b' where c: "cbb_flush_chain malloc (frames_at (length (flat pre)) ((k0, c0) # r0)) b = (True, chain, b')"
    and st': "st' = \<lparr> cbb_base = Some b', cbb_chain = frames_at 0 pre @ chain \<rparr>"
    using f fl by (auto split: prod.splits)
  from flush_chain_ok [OF s(5,6,7,3) c] obtain c' where
    c': "close ((k0, c0) # r0) = Some (k0, c')" "chain = [frame_of (length (flat pre)) k0]"
    "wf_buffer b'" "written b' = flat pre @ flat [(k0, c')]" "\<not> cb_error b'" by blast
  have cl: "close_at d a = Some (pre @ [(k0, c')])"
    using s(1,2) c'(1) by (simp add: close_at_def)
  moreover have "represents st' (pre @ [(k0, c')])"
    using c' st' close_at_valid [OF represents_valid [OF r] cl]
    by (simp add: represents_def flat_append frames_at_append)
  ultimately show "\<exists>a'. close_at d a = Some a' \<and> represents st' a'" by blast
next
  fix st a a' m assume r: "represents st a" and cl: "close_at d a = Some a'"
    and m: "has_room malloc st m" "length (flat a') \<le> m"
  obtain pre k0 c0 r0 b where s: "a = pre @ (k0, c0) # r0" "length pre = d" "proper r0"
    "cbb_base st = Some b" "wf_buffer b" "\<not> cb_error b" "written b = flat pre @ flat ((k0, c0) # r0)"
    and fl: "CBB_flush malloc d st =
       (case cbb_flush_chain malloc (frames_at (length (flat pre)) ((k0, c0) # r0)) b of
          (ok, chain, b') \<Rightarrow> (ok, \<lparr> cbb_base = Some b', cbb_chain = frames_at 0 pre @ chain \<rparr>))"
    by (rule CBB_flush_represents [OF r, of d a']) (use cl in simp_all)
  obtain c' where c': "close ((k0, c0) # r0) = Some (k0, c')" "a' = pre @ [(k0, c')]"
    using cl s(1,2) close_fst by (fastforce simp: close_at_def)
  have "room malloc b m" "length (flat pre) + pfx_len k0 + length c' \<le> m"
    using m s(4) c'(2) by (auto simp: has_room_def flat_append)
  from flush_chain_room [OF s(5,6,7,3) c'(1) this] obtain chain b' where
    "cbb_flush_chain malloc (frames_at (length (flat pre)) ((k0, c0) # r0)) b = (True, chain, b')" "room malloc b' m"
    by blast
  then show "\<exists>st'. CBB_flush malloc d st = (True, st') \<and> has_room malloc st' m"
    unfolding fl by (simp add: has_room_def)
qed

end

text \<open>Operations on the buffer that append bytes.\<close>

definition appends :: "allocator \<Rightarrow> (cbb_buffer \<Rightarrow> bool \<times> cbb_buffer) \<Rightarrow> bytes option \<Rightarrow> bool" where
  "appends al f data \<longleftrightarrow>
     (\<forall>b. wf_buffer b \<and> \<not> cb_error b \<longrightarrow>
       (\<forall>b'. f b = (True, b') \<longrightarrow> (\<exists>d. data = Some d \<and> wf_buffer b' \<and> \<not> cb_error b' \<and> written b' = written b @ d)) \<and>
       (\<forall>d m. data = Some d \<and> room al b m \<and> cb_len b + length d \<le> m \<longrightarrow>
         (\<exists>b'. f b = (True, b') \<and> room al b' m)))"

lemma appends_ok:
  "appends al f data \<Longrightarrow> wf_buffer b \<Longrightarrow> \<not> cb_error b \<Longrightarrow> f b = (True, b') \<Longrightarrow>
   \<exists>d. data = Some d \<and> wf_buffer b' \<and> \<not> cb_error b' \<and> written b' = written b @ d"
  unfolding appends_def by blast

lemma appends_room:
  "appends al f data \<Longrightarrow> wf_buffer b \<Longrightarrow> \<not> cb_error b \<Longrightarrow> data = Some d \<Longrightarrow> room al b m \<Longrightarrow>
   cb_len b + length d \<le> m \<Longrightarrow> \<exists>b'. f b = (True, b') \<and> room al b' m"
  unfolding appends_def by blast

lemma represents_last:
  assumes "represents st a"
  obtains pre k c where "a = pre @ [(k, c)]" "valid_acbb (pre @ [(k, c)])"
  using assms by (cases a rule: rev_cases) (auto simp: represents_def valid_acbb_def)

lemma valid_add_last:
  "valid_acbb a \<Longrightarrow> valid_acbb (add_last x a) \<and> length (flat a) \<le> length (flat (add_last x a))"
proof (cases a rule: rev_cases)
  case (snoc pre kc)
  obtain k c where "kc = (k, c)" by (cases kc)
  then show "valid_acbb a \<Longrightarrow> ?thesis"
    using snoc valid_acbb_snoc_cong [of pre k c "c @ x"] by (auto simp: add_last_def flat_append)
qed (simp add: valid_acbb_def)

lemma refines_appends:
  assumes f: "appends al f data"
  shows "refines al (on_base f) (\<lambda>a. map_option (\<lambda>x. add_last x a) data)"
proof (rule refinesI)
  show "valid_acbb a' \<and> length (flat a) \<le> length (flat a')"
    if "valid_acbb a" "map_option (\<lambda>x. add_last x a) data = Some a'" for a a'
    using that valid_add_last by auto
next
  fix st a st' assume r: "represents st a" and ok: "on_base f st = (True, st')"
  obtain b where b: "cbb_base st = Some b" "wf_buffer b" "\<not> cb_error b" "written b = flat a"
    and ch: "cbb_chain st = frames_at 0 a"
    using r by (auto simp: represents_def)
  from ok b(1) obtain b' where b': "f b = (True, b')" "st' = st \<lparr> cbb_base := Some b' \<rparr>"
    by (auto simp: on_base_def split: prod.splits)
  then obtain x where x: "data = Some x" "wf_buffer b'" "\<not> cb_error b'" "written b' = written b @ x"
    using appends_ok [OF f b(2,3)] by blast
  obtain pre k c where a: "a = pre @ [(k, c)]" by (rule represents_last [OF r])
  have "represents st' (add_last x a)"
    using x b' b ch a valid_add_last [OF represents_valid [OF r], of x]
    by (simp add: represents_def add_last_def flat_append frames_at_append)
  with x show "\<exists>a'. map_option (\<lambda>x. add_last x a) data = Some a' \<and> represents st' a'" by simp
next
  fix st a a' m assume r: "represents st a" and g: "map_option (\<lambda>x. add_last x a) data = Some a'"
    and m: "has_room al st m" "length (flat a') \<le> m"
  obtain b where b: "cbb_base st = Some b" "wf_buffer b" "\<not> cb_error b" "written b = flat a"
    using r by (auto simp: represents_def)
  obtain x where x: "data = Some x" "a' = add_last x a" using g by auto
  obtain pre k c where a: "a = pre @ [(k, c)]" by (rule represents_last [OF r])
  have "cb_len b + length x \<le> m"
    using m x a b wf_bufferD(5) [OF b(2)] by (simp add: add_last_def flat_append)
  then obtain b' where "f b = (True, b')" "room al b' m"
    using appends_room [OF f b(2,3) x(1)] b(1) m(1) unfolding has_room_def by auto
  then show "\<exists>st'. on_base f st = (True, st') \<and> has_room al st' m"
    using b(1) by (simp add: on_base_def has_room_def)
qed

definition put :: "nat \<Rightarrow> bytes \<Rightarrow> acbb \<Rightarrow> acbb option" where
  "put d data a = map_option (add_last data) (close_at d a)"

context allocator
begin

lemma appends_add_u:
  assumes n: "0 < n" "n \<le> 8"
  shows "appends malloc (cbb_buffer_add_u malloc v n)
    (if unat v < 256 ^ n then Some (be_bytes n (unat v)) else None)"
  unfolding appends_def
proof (intro allI impI conjI; elim conjE)
  fix b assume wf: "wf_buffer b" and e: "\<not> cb_error b"
  have n': "n < size_lim" using n by simp
  have step: "cbb_buffer_add_u malloc v n b =
      (if unat v < 256 ^ n then (True, write_at (cb_len b) (be_bytes n (unat v)) b1)
       else (False, write_at (cb_len b) (be_bytes n (unat v)) b1 \<lparr> cb_error := True \<rparr>))"
    "wf_buffer (write_at (cb_len b) (be_bytes n (unat v)) b1)"
    "written (write_at (cb_len b) (be_bytes n (unat v)) b1) = written b @ be_bytes n (unat v)"
    "cb_error b1 = cb_error b"
    if "cbb_buffer_add malloc n b = (True, b1)" for b1
  proof -
    from cbb_buffer_add_ok [OF wf n' that] obtain junk where
      b1: "wf_buffer b1" "cb_len b1 = cb_len b + n" "length junk = n" "written b1 = written b @ junk @ []"
        "cb_error b1 = cb_error b" by auto
    have "cb_len b + n \<le> length (buf_bytes b1)" using b1 wf_bufferD(1,2) [OF b1(1)] by simp
    from store_be_loop_eq [OF this, of v]
    have "store_be_loop n (cb_len b) v b1 =
      (drop_bit (8 * n) v, write_at (cb_len b) (be_bytes n (unat v)) b1)" .
    moreover have "drop_bit (8 * n) v = 0 \<longleftrightarrow> unat v < 256 ^ n"
      unfolding drop_bit_0_iff_unat by (simp add: power_mult)
    ultimately show "cbb_buffer_add_u malloc v n b =
      (if unat v < 256 ^ n then (True, write_at (cb_len b) (be_bytes n (unat v)) b1)
       else (False, write_at (cb_len b) (be_bytes n (unat v)) b1 \<lparr> cb_error := True \<rparr>))"
      using that n by (simp add: cbb_buffer_add_u_def)
    show "wf_buffer (write_at (cb_len b) (be_bytes n (unat v)) b1)"
      "written (write_at (cb_len b) (be_bytes n (unat v)) b1) = written b @ be_bytes n (unat v)"
      using written_write_at [OF b1(1,4), of "be_bytes n (unat v)" "cb_len b"] b1(3) wf_bufferD(5) [OF wf]
      by simp_all
    show "cb_error b1 = cb_error b" by (rule b1)
  qed
  show "\<exists>d. (if unat v < 256 ^ n then Some (be_bytes n (unat v)) else None) = Some d \<and> wf_buffer b' \<and>
      \<not> cb_error b' \<and> written b' = written b @ d"
    if ok: "cbb_buffer_add_u malloc v n b = (True, b')" for b'
  proof -
    from ok n obtain b1 where b1: "cbb_buffer_add malloc n b = (True, b1)"
      by (auto simp: cbb_buffer_add_u_def split: prod.splits if_splits)
    from step [OF b1] ok e show ?thesis by (auto split: if_splits)
  qed
  show "\<exists>b'. cbb_buffer_add_u malloc v n b = (True, b') \<and> room malloc b' m"
    if d: "(if unat v < 256 ^ n then Some (be_bytes n (unat v)) else None) = Some d"
      and r: "room malloc b m" and m: "cb_len b + length d \<le> m" for d m
  proof -
    have v: "unat v < 256 ^ n" "length d = n" using d by (auto split: if_splits)
    with cbb_buffer_add_room [OF wf r] m obtain b1 where
      b1: "cbb_buffer_add malloc n b = (True, b1)" "room malloc b1 m" by auto
    from step(1) [OF b1(1)] v b1(2) show ?thesis by simp
  qed
qed

lemma refines_put:
  assumes "appends malloc f data"
  shows "refines malloc (cbb_then (CBB_flush malloc d) (on_base f))
    (\<lambda>a. Option.bind data (\<lambda>x. put d x a))"
proof -
  have e: "(\<lambda>a. Option.bind (close_at d a) (\<lambda>a. map_option (\<lambda>x. add_last x a) data)) =
    (\<lambda>a. Option.bind data (\<lambda>x. put d x a))"
    by (auto simp: fun_eq_iff put_def split: bind_splits)
  from refines_then [OF refines_flush [of d] refines_appends [OF assms]] show ?thesis unfolding e .
qed

end

end
