(* ===== verification/Asn1Int.thy ===== *)
theory Asn1Int
  imports Der
begin

text \<open>
  The typed ASN.1 readers of \<open>crypto/bytestring/cbs.c\<close>.  \<open>int_body i\<close> is the shortest two's complement
  encoding of the integer \<open>i\<close>; \<open>CBS_get_asn1_uint64\<close> and \<open>CBS_get_asn1_int64\<close> accept exactly the INTEGER
  elements with that body, for every value of their type.  Also: BOOLEAN, optional elements, and the bits
  of a BIT STRING.
\<close>

section \<open>Minimal two's complement\<close>

definition sval :: "bytes \<Rightarrow> int" where
  "sval bs = (if bs = [] then 0
     else int (be_val bs) - (if uint (hd bs) < 128 then 0 else 256 ^ length bs))"

fun minimal_int :: "bytes \<Rightarrow> bool" where
  "minimal_int [] = False"
| "minimal_int [a] = True"
| "minimal_int (a # b # r) =
     (\<not> (a = 0 \<and> uint b < 128) \<and> \<not> (a = 255 \<and> 128 \<le> uint b))"

function int_body :: "int \<Rightarrow> bytes" where
  "int_body i = (if -128 \<le> i \<and> i < 128 then [of_int i] else int_body (i div 256) @ [of_int i])"
  by pat_completeness auto
termination
  by (relation "measure (\<lambda>i. nat (abs i))") auto

declare int_body.simps [simp del]

lemma uint_u8 [simp]: "uint (b :: u8) < 256"
  using uint_bounded [of b] by simp

lemma uint_255: "uint (255 :: u8) = 255"
  by simp

lemma sval_snoc: "bs \<noteq> [] \<Longrightarrow> sval (bs @ [b]) = 256 * sval bs + uint b"
  by (auto simp: sval_def algebra_simps)

lemma sval_single: "sval [b] = (if uint b < 128 then uint b else uint b - 256)"
  by (simp add: sval_def)

lemma minimal_int_snoc: "bs \<noteq> [] \<Longrightarrow> minimal_int (bs @ [b]) \<Longrightarrow> minimal_int bs"
  by (cases bs rule: minimal_int.cases) auto

lemma uint_of_int_u8: "uint (of_int i :: u8) = i mod 256"
  by (simp add: uint_word_of_int) 

text \<open>The arithmetic of one byte, over plain integers.\<close>

lemma byte_arith:
  fixes x y :: int
  assumes "0 \<le> x" "x < 256" "0 \<le> y" "y < 256"
  shows "256 * (if x < 128 then x else x - 256) + y < -128 \<or>
      128 \<le> 256 * (if x < 128 then x else x - 256) + y \<longleftrightarrow>
      \<not> (x = 0 \<and> y < 128) \<and> \<not> (x = 255 \<and> 128 \<le> y)"
    and "-128 \<le> (if x < 128 then x else x - 256) \<and> (if x < 128 then x else x - 256) < 128"
  using assms by auto

lemma minimal_int_pair:
  "minimal_int [a, b] \<longleftrightarrow> sval [a, b] < -128 \<or> 128 \<le> sval [a, b]"
proof -
  have "minimal_int [a, b] \<longleftrightarrow>
      \<not> (uint a = 0 \<and> uint b < 128) \<and> \<not> (uint a = 255 \<and> 128 \<le> uint b)"
    by (metis minimal_int.simps(3) uint_0_eq uint_255 word_uint_eqI)
  moreover have "sval [a, b] = 256 * (if uint a < 128 then uint a else uint a - 256) + uint b"
    using sval_snoc [of "[a]" b] by (simp only: sval_single) simp
  ultimately show ?thesis
    using byte_arith(1) [OF unsigned_greater_eq uint_u8 unsigned_greater_eq uint_u8, of a b] by simp
qed

lemma minimal_large:
  "minimal_int bs \<Longrightarrow> 2 \<le> length bs \<Longrightarrow> sval bs < -128 \<or> 128 \<le> sval bs"
proof (induction bs rule: rev_induct)
  case (snoc b bs)
  show ?case
  proof (cases "2 \<le> length bs")
    case True
    then have ne: "bs \<noteq> []" by auto
    with True have "sval bs < -128 \<or> 128 \<le> sval bs"
      using snoc.IH minimal_int_snoc [OF ne snoc.prems(1)] by blast
    moreover have "sval (bs @ [b]) = 256 * sval bs + uint b" using ne by (rule sval_snoc)
    moreover have "0 \<le> uint b" "uint b < 256" by simp_all
    ultimately show ?thesis by linarith
  next
    case False
    with snoc.prems obtain a where a: "bs = [a]" by (cases bs) (auto simp: Suc_le_eq)
    with snoc.prems show ?thesis using minimal_int_pair [of a b] by simp
  qed
qed simp

lemma of_int_256: "(of_int (256 * x + uint b) :: u8) = b"
proof -
  have "uint (of_int (256 * x + uint b) :: u8) = uint b"
    by (simp only: uint_of_int_u8) simp
  then show ?thesis by (rule word_uint_eqI)
qed

lemma int_body_step:
  "i < -128 \<or> 128 \<le> i \<Longrightarrow> int_body i = int_body (i div 256) @ [of_int i]"
  by (subst int_body.simps) auto

lemma sval_single_range: "-128 \<le> sval [b] \<and> sval [b] < 128"
  unfolding sval_single by (rule byte_arith(2) [of _ 0]) simp_all

lemma int_body_sval: "minimal_int bs \<Longrightarrow> int_body (sval bs) = bs"
proof (induction bs rule: rev_induct)
  case (snoc b bs)
  show ?case
  proof (cases "bs = []")
    case True
    have "of_int (sval [b]) = b"
      by (simp add: sval_single)
    with True sval_single_range [of b] show ?thesis by (simp add: int_body.simps)
  next
    case False
    then have "2 \<le> length (bs @ [b])" by (cases bs) auto
    from int_body_step [OF minimal_large [OF snoc.prems this]]
    have "int_body (sval (bs @ [b])) = int_body (sval (bs @ [b]) div 256) @ [of_int (sval (bs @ [b]))]" .
    moreover have "sval (bs @ [b]) div 256 = sval bs" "of_int (sval (bs @ [b])) = b"
      using False by (simp_all add: sval_snoc of_int_256 del: of_int_add of_int_mult)
    ultimately show ?thesis using snoc minimal_int_snoc [OF False] by simp
  qed
qed simp

lemma int_body_ne [simp]: "int_body i \<noteq> []"
  by (subst int_body.simps) auto

lemma sval_single_of_int:
  assumes "-128 \<le> i \<and> i < 128"
  shows "sval [of_int i] = i"
proof (cases "0 \<le> i")
  case True
  then have "i mod 256 = i" using assms by simp
  then show ?thesis using assms by (simp only: sval_single uint_of_int_u8) simp
next
  case False
  have "i mod 256 = (i + 256) mod 256" by simp
  also have "\<dots> = i + 256" using False assms by (intro mod_pos_pos_trivial) auto
  finally show ?thesis using False assms by (simp only: sval_single uint_of_int_u8) simp
qed

lemma sval_int_body: "sval (int_body i) = i"
proof (induction i rule: int_body.induct)
  case (1 i)
  show ?case
  proof (cases "-128 \<le> i \<and> i < 128")
    case True
    then show ?thesis by (simp add: int_body.simps sval_single_of_int)
  next
    case False
    then have "sval (int_body i) = 256 * (i div 256) + i mod 256"
      using 1 by (subst int_body_step) (auto simp: sval_snoc uint_of_int_u8 simp del: of_int_of_nat_eq)
    then show ?thesis by simp
  qed
qed

lemma minimal_int_body: "minimal_int (int_body i)"
proof (induction i rule: int_body.induct)
  case (1 i)
  show ?case
  proof (cases "-128 \<le> i \<and> i < 128")
    case False
    let ?b = "of_int i :: u8"
    have e: "int_body i = int_body (i div 256) @ [?b]" using False by (intro int_body_step) auto
    have IH: "minimal_int (int_body (i div 256))" using 1 False by simp
    show ?thesis
    proof (cases "int_body (i div 256)" rule: minimal_int.cases)
      case (2 a)
      then have "sval [a, ?b] = i" using e sval_int_body [of i] by simp
      with False have "minimal_int [a, ?b]" unfolding minimal_int_pair by linarith
      then show ?thesis unfolding e 2 append.simps .
    next
      case (3 a b r)
      with IH e show ?thesis by simp
    qed simp
  qed (simp add: int_body.simps)
qed

theorem minimal_int_iff: "minimal_int bs \<and> sval bs = i \<longleftrightarrow> bs = int_body i"
  by (auto simp: int_body_sval minimal_int_body sval_int_body)


section \<open>The INTEGER readers\<close>

lemma uint_less_128_iff: "uint (b :: u8) < 128 \<longleftrightarrow> unat b < 128"
  using of_nat_less_iff [of "unat b" 128, where 'a = int] by simp

lemma valid_asn1_integer_eq:
  "CBS_is_valid_asn1_integer bs = (minimal_int bs, bs \<noteq> [] \<and> \<not> uint (hd bs) < 128)"
  by (cases bs rule: minimal_int.cases)
    (auto simp: CBS_is_valid_asn1_integer_def Let_def u8_high_bit_iff uint_less_128_iff not_le)

lemma is_unsigned_iff:
  "CBS_is_unsigned_asn1_integer bs \<longleftrightarrow> minimal_int bs \<and> 0 \<le> sval bs"
proof -
  have "int (be_val bs) < 256 ^ length bs"
    using be_val_bound [of bs] by (metis of_nat_less_iff of_nat_numeral of_nat_power)
  then show ?thesis
    by (cases bs) (auto simp: CBS_is_unsigned_asn1_integer_def valid_asn1_integer_eq sval_def)
qed

lemma asn1_uint64_loop_iff:
  "asn1_uint64_loop out bs = Some v \<longleftrightarrow> unat v = unat out * 256 ^ length bs + be_val bs"
proof (induction bs arbitrary: out)
  case Nil
  show ?case by (auto simp: word_unat_eq_iff)
next
  case (Cons b bs)
  have d: "drop_bit 56 out = 0 \<longleftrightarrow> unat out < 2 ^ 56" by (rule drop_bit_0_iff_unat)
  have e: "unat out * 256 ^ length (b # bs) + be_val (b # bs) =
      (unat out * 256 + unat b) * 256 ^ length bs + be_val bs"
    by (simp add: be_val_Cons algebra_simps)
  show ?case
  proof (cases "unat out < 2 ^ 56")
    case True
    then have "unat out * 256 + unat b < 2 ^ 56 * 256"
      by (rule digit_step_less) simp
    then have "unat (push_bit 8 out OR ucast b) = unat out * 256 + unat b"
      by (simp add: unat_shift_or8)
    then show ?thesis using True Cons d e by simp
  next
    case False
    then have "size_lim \<le> unat out * 256 + unat b" by simp
    also have "\<dots> \<le> (unat out * 256 + unat b) * 256 ^ length bs" by simp
    finally have "\<not> unat v = unat out * 256 ^ length (b # bs) + be_val (b # bs)"
      unfolding e using u64_less_lim [of v] by linarith
    then show ?thesis using False d by simp
  qed
qed

lemma length_int_body:
  "- (128 * 256 ^ k) \<le> i \<Longrightarrow> i < 128 * 256 ^ k \<Longrightarrow> length (int_body i) \<le> Suc k"
proof (induction k arbitrary: i)
  case (Suc k)
  show ?case
  proof (cases "-128 \<le> i \<and> i < 128")
    case False
    have "- (128 * 256 ^ k) \<le> i div 256" "i div 256 < 128 * 256 ^ k" using Suc.prems by auto
    from Suc.IH [OF this] show ?thesis using False by (subst int_body_step) auto
  qed (simp add: int_body.simps)
qed (simp add: int_body.simps)

lemma length_uint_body: "length (int_body (uint (v :: u64))) \<le> 9"
proof -
  have "uint v < 2 ^ 64" using uint_bounded [of v] by simp
  then have "uint v < 128 * 256 ^ 8" by simp
  moreover have "- (128 * 256 ^ 8) \<le> uint v"
    using unsigned_greater_eq [of v] by (rule order_trans [rotated]) simp
  ultimately show ?thesis using length_int_body [of 8 "uint v"] by simp
qed

lemma sint_u64_range: "- (2 ^ 63) \<le> sint (v :: u64)" "sint (v :: u64) < 2 ^ 63"
  using sint_ge [of v] sint_less [of v] by simp_all

lemma length_sint_body: "length (int_body (sint (v :: u64))) \<le> 8"
  using length_int_body [of 7 "sint v"] sint_u64_range [of v] by simp

lemma sval_nonneg: "bs \<noteq> [] \<Longrightarrow> uint (hd bs) < 128 \<Longrightarrow> sval bs = int (be_val bs)"
  by (simp add: sval_def)

lemma sval_pos_be_val: "0 \<le> sval bs \<Longrightarrow> bs \<noteq> [] \<Longrightarrow> sval bs = int (be_val bs)"
proof -
  have "int (be_val bs) < 256 ^ length bs"
    using be_val_bound [of bs] by (metis of_nat_less_iff of_nat_numeral of_nat_power)
  then show "0 \<le> sval bs \<Longrightarrow> bs \<noteq> [] \<Longrightarrow> sval bs = int (be_val bs)"
    by (auto simp: sval_def split: if_splits)
qed

lemma CBS_get_asn1_uint64_iff:
  "CBS_get_asn1_uint64 s = (Some v, t) \<longleftrightarrow> s = der CBS_ASN1_INTEGER (int_body (uint v)) @ t"
proof
  assume "CBS_get_asn1_uint64 s = (Some v, t)"
  then obtain bs where bs: "CBS_get_asn1 CBS_ASN1_INTEGER s = (Some bs, t)"
    "CBS_is_unsigned_asn1_integer bs" "asn1_uint64_loop 0 bs = Some v"
    by (auto simp: CBS_get_asn1_uint64_def rd_bind_eq_Some split: if_splits option.splits)
  then have m: "minimal_int bs" "0 \<le> sval bs" by (simp_all add: is_unsigned_iff)
  then have "sval bs = int (be_val bs)" by (intro sval_pos_be_val) auto
  moreover have "unat v = be_val bs" using bs(3) by (simp add: asn1_uint64_loop_iff)
  ultimately have "sval bs = uint v" by (metis of_nat_unat)
  with m have "bs = int_body (uint v)" by (simp flip: minimal_int_iff)
  with get_asn1.canonical [OF bs(1)] show "s = der CBS_ASN1_INTEGER (int_body (uint v)) @ t" by simp
next
  let ?bs = "int_body (uint v)"
  assume s: "s = der CBS_ASN1_INTEGER ?bs @ t"
  have "length ?bs < 2 ^ 32" using length_uint_body [of v] by simp
  from get_asn1.roundtrip [OF this, of CBS_ASN1_INTEGER t]
  have "CBS_get_asn1 CBS_ASN1_INTEGER s = (Some ?bs, t)" using s by simp
  moreover have "int (be_val ?bs) = uint v"
    using sval_pos_be_val [of ?bs] by (simp add: sval_int_body)
  then have "unat v = be_val ?bs" by (metis nat_int unat_eq_nat_uint)
  then have "asn1_uint64_loop 0 ?bs = Some v" by (simp add: asn1_uint64_loop_iff)
  moreover have "CBS_is_unsigned_asn1_integer ?bs"
    by (simp add: is_unsigned_iff minimal_int_body sval_int_body)
  ultimately show "CBS_get_asn1_uint64 s = (Some v, t)"
    by (simp add: CBS_get_asn1_uint64_def)
qed

lemma be_val_replicate_ff: "int (be_val (replicate k 255)) = 256 ^ k - 1"
  by (induction k) (simp_all add: be_val_Cons)

lemma be_val_replicate_0: "be_val (replicate k 0) = 0"
  by (induction k) (simp_all add: be_val_Cons)

text \<open>The sign-extended buffer of \<open>CBS_get_asn1_int64\<close> is the value modulo \<open>2 ^ 64\<close>.\<close>

lemma int64_fill:
  assumes "bs \<noteq> []" "length bs \<le> 8"
  shows "(of_nat (le_val (rev bs @ drop (length bs) (replicate 8
      (if \<not> uint (hd bs) < 128 then 0xff else 0)))) :: u64) = of_int (sval bs)"
proof -
  let ?k = "8 - length bs"
  have le: "le_val (rev bs @ drop (length bs) (replicate 8 c)) = be_val (replicate ?k c @ bs)" for c
    by (simp add: le_val_def)
  have p: "(256 :: int) ^ ?k * 256 ^ length bs = 2 ^ 64"
    using assms(2) by (simp flip: power_add)
  show ?thesis
  proof (cases "uint (hd bs) < 128")
    case True
    then show ?thesis
      unfolding le using assms by (simp add: sval_def be_val_append be_val_replicate_0)
  next
    case False
    have "int (be_val (replicate ?k 255 @ bs)) = (256 ^ ?k - 1) * 256 ^ length bs + int (be_val bs)"
      by (simp add: be_val_append be_val_replicate_ff)
    also have "\<dots> = sval bs + 2 ^ 64"
      using False assms p by (simp add: sval_def algebra_simps)
    finally have "(of_nat (be_val (replicate ?k 255 @ bs)) :: u64) = of_int (sval bs + 2 ^ 64)"
      by (metis of_int_of_nat_eq)
    then show ?thesis unfolding le using False by simp
  qed
qed

lemma sval_range:
  "length bs = Suc k \<Longrightarrow> - (128 * 256 ^ k) \<le> sval bs \<and> sval bs < 128 * 256 ^ k"
proof (induction bs arbitrary: k rule: rev_induct)
  case (snoc b bs)
  show ?case
  proof (cases k)
    case 0
    with snoc.prems show ?thesis using sval_single_range [of b] by simp
  next
    case (Suc j)
    then have l: "length bs = Suc j" using snoc.prems by simp
    then have "sval (bs @ [b]) = 256 * sval bs + uint b" by (intro sval_snoc) auto
    moreover have "0 \<le> uint b" "uint b < 256" by simp_all
    moreover note snoc.IH [OF l]
    moreover have "(256 :: int) ^ k = 256 * 256 ^ j" using Suc by simp
    ultimately show ?thesis by linarith
  qed
qed simp

lemma sval_range_8:
  assumes "bs \<noteq> []" "length bs \<le> 8"
  shows "- (2 ^ 63) \<le> sval bs" "sval bs < 2 ^ 63"
proof -
  obtain k where k: "length bs = Suc k" "k \<le> 7" using assms by (cases bs) auto
  then have "(256 :: int) ^ k \<le> 256 ^ 7" by (intro power_increasing) simp_all
  then show "- (2 ^ 63) \<le> sval bs" "sval bs < 2 ^ 63" using sval_range [OF k(1)] by auto
qed

lemma CBS_get_asn1_int64_iff:
  "CBS_get_asn1_int64 s = (Some v, t) \<longleftrightarrow> s = der CBS_ASN1_INTEGER (int_body (sint v)) @ t"
proof
  assume "CBS_get_asn1_int64 s = (Some v, t)"
  then obtain bs where bs: "CBS_get_asn1 CBS_ASN1_INTEGER s = (Some bs, t)"
    "minimal_int bs" "length bs \<le> 8"
    "v = of_nat (le_val (rev bs @ drop (length bs) (replicate 8
      (if bs \<noteq> [] \<and> \<not> uint (hd bs) < 128 then 0xff else 0))))"
    by (auto simp: CBS_get_asn1_int64_def rd_bind_eq_Some Let_def valid_asn1_integer_eq
        split: if_splits)
  then have ne: "bs \<noteq> []" by auto
  with bs have v: "v = of_int (sval bs)" using int64_fill [of bs] by simp
  have "sint v = sval bs"
    unfolding v using sval_range_8 [OF ne bs(3)]
    by (simp add: signed_of_int signed_take_bit_int_eq_self)
  with bs(2) have "bs = int_body (sint v)" by (simp flip: minimal_int_iff)
  with get_asn1.canonical [OF bs(1)] show "s = der CBS_ASN1_INTEGER (int_body (sint v)) @ t" by simp
next
  let ?bs = "int_body (sint v)"
  assume s: "s = der CBS_ASN1_INTEGER ?bs @ t"
  have "length ?bs < 2 ^ 32" using length_sint_body [of v] by simp
  from get_asn1.roundtrip [OF this, of CBS_ASN1_INTEGER t]
  have g: "CBS_get_asn1 CBS_ASN1_INTEGER s = (Some ?bs, t)" using s by simp
  have "of_int (sval ?bs) = v" by (simp add: sval_int_body)
  then show "CBS_get_asn1_int64 s = (Some v, t)"
    using g length_sint_body [of v] int64_fill [of ?bs]
    by (simp add: CBS_get_asn1_int64_def valid_asn1_integer_eq minimal_int_body not_less)
qed

lemma CBS_get_asn1_suffix: "\<exists>pre. s = pre @ snd (CBS_get_asn1 tag s)"
  by (rule get_asn1.dec_suffix)

interpretation asn1_uint64: canonical_codec "\<lambda>v. der CBS_ASN1_INTEGER (int_body (uint v))"
  CBS_get_asn1_uint64 "\<lambda>_. True"
proof
  show "\<exists>pre. s = pre @ snd (CBS_get_asn1_uint64 s)" for s
    unfolding CBS_get_asn1_uint64_def
    by (rule rd_bind_suffix [OF CBS_get_asn1_suffix]) (auto split: option.splits)
qed (simp_all add: CBS_get_asn1_uint64_iff)

interpretation asn1_int64: canonical_codec "\<lambda>v. der CBS_ASN1_INTEGER (int_body (sint v))"
  CBS_get_asn1_int64 "\<lambda>_. True"
proof
  show "\<exists>pre. s = pre @ snd (CBS_get_asn1_int64 s)" for s
    unfolding CBS_get_asn1_int64_def
    by (rule rd_bind_suffix [OF CBS_get_asn1_suffix]) (auto simp: Let_def split: prod.splits)
qed (simp_all add: CBS_get_asn1_int64_iff)

lemma CBS_get_asn1_bool_iff:
  "CBS_get_asn1_bool s = (Some v, t) \<longleftrightarrow>
   s = der CBS_ASN1_BOOLEAN [if v then 0xff else 0] @ t"
proof
  assume "CBS_get_asn1_bool s = (Some v, t)"
  then obtain bs where bs: "CBS_get_asn1 CBS_ASN1_BOOLEAN s = (Some bs, t)"
    "length bs = 1" "bs ! 0 = 0 \<or> bs ! 0 = 0xff" "v \<longleftrightarrow> bs ! 0 \<noteq> 0"
    by (auto simp: CBS_get_asn1_bool_def rd_bind_eq_Some Let_def CBS_len_def split: if_splits)
  then have "bs = [if v then 0xff else 0]" by (cases bs) auto
  with get_asn1.canonical [OF bs(1)] show "s = der CBS_ASN1_BOOLEAN [if v then 0xff else 0] @ t"
    by simp
next
  let ?bs = "[if v then 0xff else 0] :: bytes"
  assume "s = der CBS_ASN1_BOOLEAN ?bs @ t"
  then have "CBS_get_asn1 CBS_ASN1_BOOLEAN s = (Some ?bs, t)"
    using get_asn1.roundtrip [of ?bs CBS_ASN1_BOOLEAN t] by simp
  then show "CBS_get_asn1_bool s = (Some v, t)"
    by (simp add: CBS_get_asn1_bool_def Let_def CBS_len_def)
qed

interpretation asn1_bool: canonical_codec "\<lambda>v. der CBS_ASN1_BOOLEAN [if v then 0xff else 0]"
  CBS_get_asn1_bool "\<lambda>_. True"
proof
  show "\<exists>pre. s = pre @ snd (CBS_get_asn1_bool s)" for s
    unfolding CBS_get_asn1_bool_def
    by (rule rd_bind_suffix [OF CBS_get_asn1_suffix]) (auto simp: Let_def)
qed (simp_all add: CBS_get_asn1_bool_iff)

section \<open>Optional elements\<close>

lemma CBS_get_optional_asn1_cases:
  "CBS_get_optional_asn1 tag s =
     (if CBS_peek_asn1_tag s tag
      then (case CBS_get_asn1 tag s of (None, t) \<Rightarrow> (None, t) | (Some b, t) \<Rightarrow> (Some (Some b), t))
      else (Some None, s))"
  by (simp add: CBS_get_optional_asn1_def rd_bind_def split: prod.splits option.splits)

lemma optional_uint64_iff:
  "CBS_get_optional_asn1_uint64 tag d s = (Some v, t) \<longleftrightarrow>
   (if CBS_peek_asn1_tag s tag
    then s = der tag (der CBS_ASN1_INTEGER (int_body (uint v))) @ t
    else v = d \<and> t = s)"
proof -
  have len: "length (der CBS_ASN1_INTEGER (int_body (uint v))) < 2 ^ 32"
  proof -
    have "length (int_body (uint v)) < 128" using length_uint_body [of v] by simp
    then show ?thesis using length_der_tag(1) [of CBS_ASN1_INTEGER] by (simp add: der_def der_len_def)
  qed
  have "CBS_get_optional_asn1_uint64 tag d s = (Some v, t) \<longleftrightarrow>
    (\<exists>b. CBS_get_asn1 tag s = (Some b, t) \<and> CBS_get_asn1_uint64 b = (Some v, []))"
    if "CBS_peek_asn1_tag s tag"
    using that
    by (auto simp: CBS_get_optional_asn1_uint64_def rd_bind_eq_Some CBS_get_optional_asn1_cases
        CBS_len_def split: prod.splits option.splits if_splits)
  then show ?thesis
    using len by (auto simp: CBS_get_optional_asn1_uint64_def rd_bind_eq_Some
        CBS_get_optional_asn1_cases CBS_get_asn1_uint64_iff dest!: get_asn1.canonical
        intro!: get_asn1.roundtrip)
qed

section \<open>BIT STRINGs\<close>

definition bitstring_bit :: "bytes \<Rightarrow> nat \<Rightarrow> bool" where
  "bitstring_bit cbs i \<longleftrightarrow> i + unat (cbs ! 0) < 8 * (length cbs - 1) \<and> bit (cbs ! (i div 8 + 1)) (7 - i mod 8)"

lemma and_mask_eq_0_iff: "w AND (2 ^ k - 1) = (0 :: u8) \<longleftrightarrow> (\<forall>j < k. \<not> bit w j)"
proof -
  have "w AND (2 ^ k - 1) = take_bit k w"
    by (simp add: take_bit_eq_mask mask_eq_exp_minus_1 push_bit_eq_mult)
  moreover have "take_bit k w = 0 \<longleftrightarrow> (\<forall>j < k. \<not> bit w j)"
    using bit_imp_le_length [of w] unfolding bit_eq_iff by (simp add: bit_take_bit_iff) fastforce
  ultimately show ?thesis by simp
qed

lemma valid_bitstring_iff:
  "CBS_is_valid_asn1_bitstring cbs \<longleftrightarrow>
   cbs \<noteq> [] \<and> unat (hd cbs) \<le> 7 \<and>
   (hd cbs \<noteq> 0 \<longrightarrow> tl cbs \<noteq> [] \<and> (\<forall>j < unat (hd cbs). \<not> bit (last cbs) j))"
  by (cases cbs)
    (auto simp: CBS_is_valid_asn1_bitstring_def CBS_get_last_u8_def and_mask_eq_0_iff
      word_less_nat_alt not_less split: if_splits)

text \<open>A bit is reported only when it is one of the string's bits, never a padding bit.\<close>

lemma has_bit_iff:
  "CBS_asn1_bitstring_has_bit cbs n \<longleftrightarrow>
   CBS_is_valid_asn1_bitstring cbs \<and> bitstring_bit cbs (unat n)"
proof -
  have n1: "unat (drop_bit 3 n + 1) = unat n div 8 + 1"
  proof -
    have "unat (drop_bit 3 n) = unat n div 8"
      unfolding unat_drop_bit_eq by (simp only: drop_bit_eq_div) simp
    moreover have "unat n div 8 < 2 ^ 29"
      using u32_less_lim [of n] by (intro less_mult_imp_div_less) (simp del: u32_less_lim)
    ultimately show ?thesis by (simp add: unat_word_ariths)
  qed
  have n2: "unat (n AND 7) = unat n mod 8"
  proof -
    have "n AND 7 = take_bit 3 n" by (simp add: take_bit_eq_mask mask_eq_exp_minus_1)
    then have "unat (n AND 7) = take_bit 3 (unat n)" by (simp only: unsigned_take_bit_eq)
    then show ?thesis by (simp add: take_bit_eq_mod)
  qed
  have e: "w AND push_bit k 1 \<noteq> 0 \<longleftrightarrow> bit w k" for w :: u8 and k
    using and_exp_eq_0_iff_not_bit [of w k] by (simp add: push_bit_eq_mult)
  define i where "i = unat n"
  have pad: "i + unat (cbs ! 0) < 8 * (length cbs - 1)"
    if v: "CBS_is_valid_asn1_bitstring cbs" and l: "i div 8 + 1 < length cbs"
      and b: "bit (cbs ! (i div 8 + 1)) (7 - i mod 8)"
  proof (rule ccontr)
    assume a: "\<not> ?thesis"
    have h: "cbs ! 0 = hd cbs" "unat (hd cbs) \<le> 7" using v by (auto simp: valid_bitstring_iff hd_conv_nth)
    have i: "i = 8 * (i div 8) + i mod 8" "i mod 8 < 8" by simp_all
    have r: "8 * (length cbs - 1) \<le> i + unat (hd cbs)" using a h by simp
    have "i div 8 + 1 = length cbs - 1"
      using r l h(2) i by linarith
    moreover from this have "7 - i mod 8 < unat (hd cbs)"
      using r i by linarith
    ultimately have "i div 8 + 1 = length cbs - 1" "7 - i mod 8 < unat (hd cbs)" by auto
    then have "bit (last cbs) (7 - i mod 8)" "cbs ! (i div 8 + 1) = last cbs"
      using b v by (auto simp: last_conv_nth valid_bitstring_iff)
    moreover have "hd cbs \<noteq> 0" using \<open>7 - i mod 8 < unat (hd cbs)\<close> by auto
    ultimately show False using v \<open>7 - i mod 8 < unat (hd cbs)\<close> by (auto simp: valid_bitstring_iff)
  qed
  show ?thesis
    unfolding CBS_asn1_bitstring_has_bit_def bitstring_bit_def Let_def n1 n2 e CBS_len_def
      i_def [symmetric]
    using pad by auto
qed

end
