(* ===== verification/CbbOps.thy ===== *)
theory CbbOps
  imports CbbSpec Asn1Int
begin

text \<open>
  Every operation of \<open>cbb.c\<close> as an instance of the simulation of theory \<open>CbbSpec\<close>: fixed-width
  integers, byte strings, length-prefixed and ASN.1 children, INTEGER, BOOLEAN and OCTET STRING, then
  initialisation and \<open>CBB_finish\<close>, and the error flag.
\<close>

section \<open>The operations\<close>

lemma unat_ucast_u64 [simp]:
  "unat (ucast (v :: u8) :: u64) = unat v" "unat (ucast (x :: u16) :: u64) = unat x"
  "unat (ucast (w :: u32) :: u64) = unat w"
  using u8_less_256 [of v] u16_less_lim [of x] u32_less_lim [of w]
  by (simp_all add: unat_ucast_mod del: u8_less_256 u16_less_lim u32_less_lim)

lemma be_bytes_1 [simp]: "be_bytes (Suc 0) (unat (v :: u8)) = [v]"
  by simp

lemma close_at_closed: "length a = Suc d \<Longrightarrow> close_at d a = Some a"
  by (cases a rule: rev_cases) (auto simp: close_at_def)

lemma length_close_at: "close_at d a = Some a' \<Longrightarrow> length a' = Suc d"
  by (auto simp: close_at_def split: if_splits)

lemma length_put: "put d x a = Some a' \<Longrightarrow> length a' = Suc d"
  by (auto simp: put_def add_last_def dest!: length_close_at)

lemma add_last_add_last: "add_last y (add_last x a) = add_last (x @ y) a"
  by (simp add: add_last_def)

lemma put_put: "Option.bind (put d x a) (put d y) = put d (x @ y) a"
proof (cases "close_at d a")
  case (Some a1)
  then have "length (add_last x a1) = Suc d"
    using length_close_at [OF Some] by (simp add: add_last_def)
  from close_at_closed [OF this] Some show ?thesis by (simp add: put_def add_last_add_last)
qed (simp add: put_def)

lemma bind_close_put: "Option.bind (close_at d a) (put d x) = put d x a"
  using length_close_at [of d a] close_at_closed [of _ d]
  by (cases "close_at d a") (auto simp: put_def)

lemma refines_cong_valid:
  assumes f: "refines al f g" and e: "\<And>a. valid_acbb a \<Longrightarrow> g a = h a"
  shows "refines al f h"
proof (rule refinesI)
  show "valid_acbb a' \<and> length (flat a) \<le> length (flat a')" if "valid_acbb a" "h a = Some a'" for a a'
    using refines_grows [OF f that(1)] that e [OF that(1)] by simp
  show "\<exists>a'. h a = Some a' \<and> represents st' a'" if "represents st a" "f st = (True, st')" for st a st'
    using refines_ok [OF f that] e [OF represents_valid [OF that(1)]] by simp
  show "\<exists>st'. f st = (True, st') \<and> has_room al st' m"
    if "represents st a" "h a = Some a'" "has_room al st m" "length (flat a') \<le> m" for st a a' m
    using refines_room [OF f that(1) _ that(3,4)] that(2) e [OF represents_valid [OF that(1)]] by auto
qed

lemma refines_cong: "refines al f g \<Longrightarrow> (\<And>a. g a = h a) \<Longrightarrow> refines al f h"
  by (rule refines_cong_valid)

lemma refines_op_cong:
  assumes f: "refines al f g" and e: "\<And>st a. represents st a \<Longrightarrow> h st = f st"
  shows "refines al h g"
proof (rule refinesI)
  show "valid_acbb a' \<and> length (flat a) \<le> length (flat a')" if "valid_acbb a" "g a = Some a'" for a a'
    using refines_grows [OF f that] .
  show "\<exists>a'. g a = Some a' \<and> represents st' a'" if "represents st a" "h st = (True, st')" for st a st'
    using refines_ok [OF f that(1)] that(2) e [OF that(1)] by simp
  show "\<exists>st'. h st = (True, st') \<and> has_room al st' m"
    if "represents st a" "g a = Some a'" "has_room al st m" "length (flat a') \<le> m" for st a a' m
    using refines_room [OF f that] e [OF that(1)] by auto
qed

lemma refines_put_put:
  assumes "refines al f (put d x)" "refines al h (put d y)"
  shows "refines al (cbb_then f h) (put d (x @ y))"
  by (rule refines_cong [OF refines_then [OF assms]]) (rule put_put)

context allocator
begin

lemma refines_add_u:
  assumes "0 < n" "n \<le> 8" "unat v < 256 ^ n"
  shows "refines malloc (cbb_then (CBB_flush malloc d) (on_base (cbb_buffer_add_u malloc v n)))
    (put d (be_bytes n (unat v)))"
  using refines_put [OF appends_add_u [OF assms(1,2), of v], of d] assms(3) by simp

lemma refines_add_u8: "refines malloc (CBB_add_u8 malloc v d) (put d [v])"
  using refines_add_u [of 1 "ucast v" d] unfolding CBB_add_u8_def by simp

lemma refines_add_u16: "refines malloc (CBB_add_u16 malloc v d) (put d (be_bytes 2 (unat v)))"
  using refines_add_u [of 2 "ucast v" d] unfolding CBB_add_u16_def by simp

lemma refines_add_u16le: "refines malloc (CBB_add_u16le malloc v d) (put d (le_bytes 2 (unat v)))"
  using refines_add_u16 [of "CRYPTO_bswap2 v" d] unfolding CBB_add_u16le_def be_bytes_bswap2 .

lemma refines_add_u24:
  "refines malloc (CBB_add_u24 malloc v d)
     (\<lambda>a. if unat v < 2 ^ 24 then put d (be_bytes 3 (unat v)) a else None)"
  using refines_put [OF appends_add_u [of 3 "ucast v"], of d]
  unfolding CBB_add_u24_def by (rule refines_cong) simp_all

lemma refines_add_u32: "refines malloc (CBB_add_u32 malloc v d) (put d (be_bytes 4 (unat v)))"
  using refines_add_u [of 4 "ucast v" d] unfolding CBB_add_u32_def by simp

lemma refines_add_u32le: "refines malloc (CBB_add_u32le malloc v d) (put d (le_bytes 4 (unat v)))"
  using refines_add_u32 [of "CRYPTO_bswap4 v" d] unfolding CBB_add_u32le_def be_bytes_bswap4 .

lemma refines_add_u64: "refines malloc (CBB_add_u64 malloc v d) (put d (be_bytes 8 (unat v)))"
  using refines_add_u [of 8 v d] unfolding CBB_add_u64_def by simp

lemma refines_add_u64le: "refines malloc (CBB_add_u64le malloc v d) (put d (le_bytes 8 (unat v)))"
  using refines_add_u64 [of "CRYPTO_bswap8 v" d] unfolding CBB_add_u64le_def be_bytes_bswap8 .

text \<open>\<open>cbb_buffer_add\<close> followed by a copy into the new bytes.\<close>

lemma appends_add_fill:
  assumes "length data < size_lim"
  shows "appends malloc
    (\<lambda>b. case cbb_buffer_add malloc (length data) b of
       (ok, b1) \<Rightarrow> if ok then (True, write_at (cb_len b) data b1) else (False, b1)) (Some data)"
  unfolding appends_def
proof (intro allI impI conjI; elim conjE)
  fix b b' assume wf: "wf_buffer b" and e: "\<not> cb_error b"
    and "(case cbb_buffer_add malloc (length data) b of
       (ok, b1) \<Rightarrow> if ok then (True, write_at (cb_len b) data b1) else (False, b1)) = (True, b')"
  then obtain b1 where b1: "cbb_buffer_add malloc (length data) b = (True, b1)"
    "b' = write_at (cb_len b) data b1" by (auto split: prod.splits if_splits)
  from cbb_buffer_add_ok [OF wf assms b1(1)] obtain junk where
    "wf_buffer b1" "written b1 = written b @ junk @ []" "length data = length junk" "\<not> cb_error b1"
    using e by auto
  from written_write_at [OF this(1,2,3)] b1(2) this(4) wf_bufferD(5) [OF wf]
  show "\<exists>d. Some data = Some d \<and> wf_buffer b' \<and> \<not> cb_error b' \<and> written b' = written b @ d" by simp
next
  fix b d m assume wf: "wf_buffer b" and "Some data = Some d" "room malloc b m" "cb_len b + length d \<le> m"
  with cbb_buffer_add_room [OF wf, of malloc m "length data"] show
    "\<exists>b'. (case cbb_buffer_add malloc (length data) b of
       (ok, b1) \<Rightarrow> if ok then (True, write_at (cb_len b) data b1) else (False, b1)) = (True, b') \<and> room malloc b' m"
    by auto
qed

lemma add_fill_eq:
  "cbb_then (on_base (cbb_buffer_add al n)) (fill_base (base_len st) data) st =
   on_base (\<lambda>b. case cbb_buffer_add al n b of
       (ok, b1) \<Rightarrow> if ok then (True, write_at (cb_len b) data b1) else (False, b1)) st"
  by (auto simp: cbb_then_def on_base_def fill_base_def base_len_def split: option.splits prod.splits)

lemma refines_add_bytes:
  assumes "length data < size_lim"
  shows "refines malloc (CBB_add_bytes malloc data d) (put d data)"
  using refines_put [OF appends_add_fill [OF assms], of d]
  unfolding CBB_add_bytes_def Let_def add_fill_eq by simp

lemma add_last_facts:
  assumes "valid_acbb a"
  shows "flat (add_last x a) = flat a @ x" "frames_at p (add_last x a) = frames_at p a"
    "length (add_last x a) = length a"
proof -
  obtain pre k c where "a = pre @ [(k, c)]"
    using assms by (cases a rule: rev_cases) (auto simp: valid_acbb_def)
  then show "flat (add_last x a) = flat a @ x" "frames_at p (add_last x a) = frames_at p a"
    "length (add_last x a) = length a"
    by (simp_all add: add_last_def flat_append frames_at_append)
qed

lemma open_last_facts:
  assumes "valid_acbb a" "k \<noteq> Root" "0 < pfx_len k" "pfx_len k \<le> 8"
  shows "flat (open_last k a) = flat a @ replicate (pfx_len k) 0"
    "frames_at 0 (open_last k a) = frames_at 0 a @ [frame_of (length (flat a)) k]"
    "valid_acbb (open_last k a)"
  using assms by (auto simp: open_last_def flat_append frames_at_append valid_acbb_def)

lemma set_child_represents:
  assumes s1: "represents s1 a1" and l: "length a1 = Suc d"
    and s2: "represents s2 (add_last (replicate (pfx_len k) 0) a1)"
    and k: "k \<noteq> Root" "0 < pfx_len k" "pfx_len k \<le> 8"
  shows "\<exists>st'. set_child d (frame_of (base_len s1) k) s2 = (True, st') \<and> represents st' (open_last k a1) \<and>
    cbb_base st' = cbb_base s2"
proof -
  have v: "valid_acbb a1" using s1 by (rule represents_valid)
  obtain b1 where "cbb_base s1 = Some b1" "wf_buffer b1" "written b1 = flat a1"
    using s1 by (auto simp: represents_def)
  then have "base_len s1 = length (flat a1)"
    using wf_bufferD(5) [of b1] by (simp add: base_len_def)
  then show ?thesis
    using s2 l add_last_facts [OF v] open_last_facts [OF v k]
    by (auto simp: set_child_def represents_def)
qed

lemma refines_open:
  assumes k: "k \<noteq> Root" "0 < pfx_len k" "pfx_len k \<le> 8"
    and p: "refines malloc p g" and l: "\<And>a a'. g a = Some a' \<Longrightarrow> length a' = Suc d"
    and f: "refines malloc f h" and h: "\<And>a. length a = Suc d \<Longrightarrow> h a = Some (add_last (replicate (pfx_len k) 0) a)"
  shows "refines malloc (cbb_then p (\<lambda>st. cbb_then f (set_child d (frame_of (base_len st) k)) st))
    (\<lambda>a. map_option (open_last k) (g a))"
proof (rule refinesI)
  show "valid_acbb a' \<and> length (flat a) \<le> length (flat a')"
    if v: "valid_acbb a" and o: "map_option (open_last k) (g a) = Some a'" for a a'
  proof -
    obtain a1 where "g a = Some a1" "a' = open_last k a1" using o by auto
    with refines_grows [OF p v, of a1] open_last_facts [of a1, OF _ k] show ?thesis by auto
  qed
next
  fix st a st' assume r: "represents st a"
    and "cbb_then p (\<lambda>st. cbb_then f (set_child d (frame_of (base_len st) k)) st) st = (True, st')"
  then obtain s1 s2 where s: "p st = (True, s1)" "f s1 = (True, s2)"
      "set_child d (frame_of (base_len s1) k) s2 = (True, st')"
    by (auto simp: cbb_then_def split: prod.splits if_splits)
  obtain a1 where a1: "g a = Some a1" "represents s1 a1" using refines_ok [OF p r s(1)] by blast
  have l1: "length a1 = Suc d" using l [OF a1(1)] .
  from refines_ok [OF f a1(2) s(2)] h [OF l1]
  have "represents s2 (add_last (replicate (pfx_len k) 0) a1)" by auto
  from set_child_represents [OF a1(2) l1 this k] s(3) a1(1)
  show "\<exists>a'. map_option (open_last k) (g a) = Some a' \<and> represents st' a'" by auto
next
  fix st a a' m assume r: "represents st a" and o: "map_option (open_last k) (g a) = Some a'"
    and m: "has_room malloc st m" "length (flat a') \<le> m"
  obtain a1 where a1: "g a = Some a1" "a' = open_last k a1" using o by auto
  have v: "valid_acbb a1" using refines_grows [OF p represents_valid [OF r] a1(1)] by blast
  note oa = open_last_facts [OF v k]
  have l1: "length a1 = Suc d" using l [OF a1(1)] .
  have m1: "length (flat a1) \<le> m" "length (flat (add_last (replicate (pfx_len k) 0) a1)) \<le> m"
    using m(2) a1(2) oa add_last_facts [OF v] by simp_all
  obtain s1 where s1: "p st = (True, s1)" "has_room malloc s1 m" "represents s1 a1"
    using refines_room [OF p r a1(1) m(1) m1(1)] by blast
  obtain s2 where s2: "f s1 = (True, s2)" "has_room malloc s2 m"
      "represents s2 (add_last (replicate (pfx_len k) 0) a1)"
    using refines_room [OF f s1(3) h [OF l1] s1(2) m1(2)] by blast
  from set_child_represents [OF s1(3) l1 s2(3) k] s1(1) s2(1,2)
  show "\<exists>st'. cbb_then p (\<lambda>st. cbb_then f (set_child d (frame_of (base_len st) k)) st) st = (True, st') \<and>
      has_room malloc st' m"
    by (auto simp: cbb_then_def has_room_def)
qed

lemma refines_length_prefixed:
  assumes "0 < n" "n \<le> 8"
  shows "refines malloc (cbb_add_length_prefixed malloc n d)
    (\<lambda>a. map_option (open_last (Len_pfx n)) (close_at d a))"
proof -
  let ?f = "on_base (\<lambda>b. case cbb_buffer_add malloc (length (replicate n (0::u8))) b of
       (ok, b1) \<Rightarrow> if ok then (True, write_at (cb_len b) (replicate n 0) b1) else (False, b1))"
  have "refines malloc (cbb_then (CBB_flush malloc d)
      (\<lambda>st. cbb_then ?f (set_child d (frame_of (base_len st) (Len_pfx n))) st))
    (\<lambda>a. map_option (open_last (Len_pfx n)) (close_at d a))"
    using assms
    by (intro refines_open [OF _ _ _ refines_flush length_close_at refines_appends [OF appends_add_fill]]) auto
  moreover have "cbb_add_length_prefixed malloc n d = cbb_then (CBB_flush malloc d)
      (\<lambda>st. cbb_then ?f (set_child d (frame_of (base_len st) (Len_pfx n))) st)"
    by (auto simp: cbb_add_length_prefixed_def fun_eq_iff Let_def cbb_then_def fill_base_def on_base_def base_len_def
        frame_of_def new_child_def split: prod.splits option.splits if_splits)
  ultimately show ?thesis by simp
qed

end

section \<open>Tags and base-128 integers\<close>

definition base128_byte :: "nat \<Rightarrow> nat \<Rightarrow> u8" where
  "base128_byte n i = of_nat (n div 128 ^ i mod 128 + (if i \<noteq> 0 then 128 else 0))"

lemma base128_byte_eq:
  "(let byte = ucast (drop_bit (7 * i) v AND 0x7f) :: u8 in if i \<noteq> 0 then byte OR 0x80 else byte) =
   base128_byte (unat v) i"
proof -
  let ?byte = "ucast (drop_bit (7 * i) v AND 0x7f) :: u8"
  have "drop_bit (7 * i) v AND 0x7f = take_bit 7 (drop_bit (7 * i) v)"
    by (simp add: take_bit_eq_mask mask_eq_exp_minus_1)
  then have "unat (drop_bit (7 * i) v AND 0x7f) = take_bit 7 (unat (drop_bit (7 * i) v))"
    by (simp only: unsigned_take_bit_eq)
  also have "\<dots> = unat v div 128 ^ i mod 128"
    unfolding unat_drop_bit take_bit_eq_mod by (simp add: power_mult)
  finally have b: "unat ?byte = unat v div 128 ^ i mod 128"
    by (simp only: unat_ucast_mod) simp
  then have lt: "unat ?byte < 128" by simp
  have o: "unat (of_nat k :: u8) = k" if "k < 256" for k
    using that by (simp only: unat_of_nat) simp
  show ?thesis
  proof (cases "i = 0")
    case True
    then show ?thesis
      using b o [of "unat v mod 128"] by (simp add: base128_byte_def Let_def word_unat_eq_iff)
  next
    case False
    have "unat v div 128 ^ i mod 128 + 128 < 256" using b lt by linarith
    from o [OF this] False b unat_or_80 [OF lt] show ?thesis
      by (simp add: base128_byte_def Let_def word_unat_eq_iff)
  qed
qed

fun b128_digits :: "nat \<Rightarrow> nat \<Rightarrow> bytes" where
  "b128_digits 0 n = []"
| "b128_digits (Suc k) n = b128_digits k (n div 128) @ [of_nat (128 + n mod 128)]"

lemma b128_digits_eq:
  "map (base128_byte n) (rev [1..<Suc k]) = b128_digits k (n div 128)"
proof (induction k arbitrary: n)
  case (Suc k)
  have "map (base128_byte n) (rev [1..<Suc (Suc k)]) =
      map (\<lambda>i. base128_byte n (Suc i)) (rev [1..<Suc k]) @ [base128_byte n 1]"
  proof -
    have "[1..<Suc (Suc k)] = 1 # map Suc [1..<Suc k]"
      unfolding map_Suc_upt by (simp add: upt_conv_Cons del: upt_Suc)
    then show ?thesis by (simp add: rev_map comp_def del: upt_Suc)
  qed
  also have "map (\<lambda>i. base128_byte n (Suc i)) (rev [1..<Suc k]) =
      map (base128_byte (n div 128)) (rev [1..<Suc k])"
    by (auto simp: base128_byte_def div_mult2_eq)
  also have "\<dots> = b128_digits k (n div 128 div 128)" by (rule Suc.IH)
  finally show ?case by (simp add: base128_byte_def add.commute)
qed simp

lemma b128_digits_hi:
  assumes "k = base128_count v"
  shows "b128_digits k (unat v) = b128_hi (unat v)"
  using assms
proof (induction v arbitrary: k rule: base128_count.induct)
  case (1 v)
  show ?case
  proof (cases "v > 0")
    case True
    have "unat (drop_bit 7 v) = unat v div 128" using unat_drop_bit [of 7 v] by simp
    with True 1 show ?thesis
      by (simp add: base128_count.simps [of v] b128_hi.simps [of "unat v"] unat_gt_0)
  next
    case False
    with 1 show ?thesis by (simp add: base128_count.simps [of v] word_gt_0)
  qed
qed

lemma base128_bytes:
  assumes "n = (if base128_count v = 0 then 1 else base128_count v)"
  shows "0 < n" "map (base128_byte (unat v)) (rev [0..<n]) = b128 (unat v)"
proof -
  show "0 < n" using assms by simp
  obtain k where n: "n = Suc k" using \<open>0 < n\<close> by (cases n) auto
  have "unat (drop_bit 7 v) = unat v div 128" using unat_drop_bit [of 7 v] by simp
  moreover have "k = base128_count (drop_bit 7 v)"
    using assms n by (auto simp: base128_count.simps [of v] split: if_splits)
      (simp add: base128_count.simps word_gt_0)
  ultimately have "b128_digits k (unat v div 128) = b128_hi (unat v div 128)"
    using b128_digits_hi [of k "drop_bit 7 v"] by simp
  moreover have "[0..<n] = 0 # [1..<n]" using n by (simp add: upt_conv_Cons del: upt_Suc)
  ultimately show "map (base128_byte (unat v)) (rev [0..<n]) = b128 (unat v)"
    using b128_digits_eq [of "unat v" k] n by (simp add: b128_def base128_byte_def del: upt_Suc)
qed

context allocator
begin

lemma add_base128_loop_Suc:
  "add_base128_loop al v (Suc i) d = cbb_then (CBB_add_u8 al (base128_byte (unat v) i) d) (add_base128_loop al v i d)"
  using base128_byte_eq [of i v] by (auto simp: fun_eq_iff Let_def)

lemma refines_base128_loop:
  "0 < n \<Longrightarrow> refines malloc (add_base128_loop malloc v n d) (put d (map (base128_byte (unat v)) (rev [0..<n])))"
proof (induction n)
  case (Suc n)
  show ?case
  proof (cases "n = 0")
    case True
    have "cbb_then (CBB_add_u8 malloc (base128_byte (unat v) 0) d) (add_base128_loop malloc v 0 d) =
        CBB_add_u8 malloc (base128_byte (unat v) 0) d"
      by (auto simp: cbb_then_def fun_eq_iff split: prod.splits)
    then show ?thesis
      using True refines_add_u8 [of "base128_byte (unat v) 0" d]
      unfolding add_base128_loop_Suc by simp
  next
    case False
    then have "refines malloc (add_base128_loop malloc v n d) (put d (map (base128_byte (unat v)) (rev [0..<n])))"
      using Suc.IH by simp
    from refines_put_put [OF refines_add_u8 this, of "base128_byte (unat v) n"]
    show ?thesis unfolding add_base128_loop_Suc by simp
  qed
qed simp

lemma refines_base128: "refines malloc (add_base128_integer malloc v d) (put d (b128 (unat v)))"
  using base128_bytes [OF refl, of v] refines_base128_loop
  unfolding add_base128_integer_def Let_def by metis

lemma refines_then_flush:
  assumes "refines malloc f (put d x)"
  shows "refines malloc (cbb_then (CBB_flush malloc d) f) (put d x)"
  by (rule refines_cong [OF refines_then [OF refines_flush assms]]) (rule bind_close_put)

lemma refines_add_asn1:
  "refines malloc (CBB_add_asn1 malloc tag d) (\<lambda>a. map_option (open_last Asn1_pfx) (put d (der_tag tag) a))"
proof -
  let ?bits = "ucast (drop_bit CBS_ASN1_TAG_SHIFT tag AND 0xe0) :: u8"
  let ?num = "tag AND CBS_ASN1_TAG_NUMBER_MASK"
  let ?t = "if ?num \<ge> 0x1f then
      cbb_then (CBB_add_u8 malloc (?bits OR 0x1f) d) (add_base128_integer malloc (ucast ?num) d)
    else CBB_add_u8 malloc (?bits OR ucast ?num) d"
  have t: "refines malloc ?t (put d (der_tag tag))"
  proof (cases "?num \<ge> 0x1f")
    case True
    then have "\<not> ?num < 0x1f" by (simp only: not_less)
    then have e: "der_tag tag = [?bits OR 0x1f] @ b128 (unat (ucast ?num :: u64))"
      by (simp only: der_tag_def Let_def if_False unat_ucast_u64) simp
    from refines_put_put [OF refines_add_u8 refines_base128, of "?bits OR 0x1f" d "ucast ?num"] True
    show ?thesis unfolding e by (simp only: if_True)
  next
    case False
    then show ?thesis using refines_add_u8 [of "?bits OR ucast ?num" d] by (simp add: der_tag_def Let_def not_less)
  qed
  have "refines malloc (cbb_then (cbb_then (CBB_flush malloc d) ?t)
      (\<lambda>st. cbb_then (CBB_add_u8 malloc 0 d) (set_child d (frame_of (base_len st) Asn1_pfx)) st))
    (\<lambda>a. map_option (open_last Asn1_pfx) (put d (der_tag tag) a))"
    by (rule refines_open [OF _ _ _ refines_then_flush [OF t] length_put refines_add_u8])
      (auto simp: put_def close_at_closed)
  moreover have "CBB_add_asn1 malloc tag d = cbb_then (cbb_then (CBB_flush malloc d) ?t)
      (\<lambda>st. cbb_then (CBB_add_u8 malloc 0 d) (set_child d (frame_of (base_len st) Asn1_pfx)) st)"
    by (auto simp: CBB_add_asn1_def fun_eq_iff Let_def cbb_then_def frame_of_def new_child_def
        split: prod.splits)
  ultimately show ?thesis by simp
qed

end

section \<open>Elements\<close>

lemma close_open:
  assumes "length a = Suc d" "valid_acbb a"
  shows "Option.bind (put (Suc d) body (open_last k a)) (close_at d) = map_option (\<lambda>s. add_last s a) (seal k body)"
proof -
  obtain pre k0 c0 where a: "a = pre @ [(k0, c0)]" "length pre = d"
    using assms(1) by (cases a rule: rev_cases) auto
  have "put (Suc d) body (open_last k a) = Some (pre @ [(k0, c0), (k, body)])"
    using assms(1) close_at_closed [of "open_last k a" "Suc d"] a
    by (simp add: put_def open_last_def add_last_def butlast_append)
  then show ?thesis
    using a(2) by (cases "seal k body") (simp_all add: close_at_def a(1) add_last_def)
qed

lemma refines_element:
  assumes p: "refines al p (\<lambda>a. map_option (open_last k) (put d x a))"
    and f: "refines al f (put (Suc d) body)" and fl: "refines al fl (close_at d)"
  shows "refines al (cbb_then p (cbb_then f fl))
    (\<lambda>a. Option.bind (seal k body) (\<lambda>s. put d (x @ s) a))"
proof -
  have e: "Option.bind (map_option (open_last k) (put d x a)) (\<lambda>a. Option.bind (put (Suc d) body a) (close_at d)) =
      Option.bind (seal k body) (\<lambda>s. put d (x @ s) a)" if v: "valid_acbb a" for a
  proof (cases "put d x a")
    case None
    then show ?thesis by (auto simp: put_def split: bind_splits option.splits)
  next
    case (Some a1)
    then obtain a2 where a2: "close_at d a = Some a2" "a1 = add_last x a2" by (auto simp: put_def)
    have v1: "valid_acbb a1" using valid_add_last close_at_valid [OF v a2(1)] a2(2) by blast
    from close_open [OF length_put [OF Some] v1, of body k] Some a2 show ?thesis
      by (cases "seal k body") (simp_all add: put_def add_last_add_last)
  qed
  from refines_then [OF p refines_then [OF f fl]]
  show ?thesis by (rule refines_cong_valid) (rule e)
qed

definition put_der :: "nat \<Rightarrow> u32 \<Rightarrow> bytes \<Rightarrow> acbb \<Rightarrow> acbb option" where
  "put_der d tag body a = (if length body \<le> 0xfffffffe then put d (der tag body) a else None)"

context allocator
begin

lemma refines_asn1_element:
  assumes "refines malloc f (put (Suc d) body)"
  shows "refines malloc (cbb_then (CBB_add_asn1 malloc tag d) (cbb_then f (CBB_flush malloc d)))
    (put_der d tag body)"
  by (rule refines_cong [OF refines_element [OF refines_add_asn1 assms refines_flush]])
    (simp add: put_der_def der_def)

lemma refines_octet_string:
  assumes "length data < size_lim"
  shows "refines malloc (CBB_add_asn1_octet_string malloc data d) (put_der d CBS_ASN1_OCTETSTRING data)"
  unfolding CBB_add_asn1_octet_string_def by (intro refines_asn1_element refines_add_bytes assms)

lemma refines_bool:
  "refines malloc (CBB_add_asn1_bool malloc v d) (put d (der CBS_ASN1_BOOLEAN [if v then 0xff else 0]))"
  unfolding CBB_add_asn1_bool_def
  by (rule refines_cong [OF refines_asn1_element [OF refines_add_u8]]) (simp add: put_der_def)

end

section \<open>INTEGER\<close>

text \<open>The contents that the byte loop of \<open>CBB_add_asn1_uint64\<close> writes.\<close>

fun uint64_contents :: "bool \<Rightarrow> bytes \<Rightarrow> bytes" where
  "uint64_contents started [] = (if started then [] else [0])"
| "uint64_contents started (b # bs) =
     (if \<not> started \<and> b = 0 then uint64_contents started bs
      else (if \<not> started \<and> 128 \<le> unat b then [0] else []) @ b # uint64_contents True bs)"

lemma uint64_contents_started: "uint64_contents True bs = bs"
  by (induction bs) auto

lemma uint64_contents_int_body: "uint64_contents False bs = int_body (int (be_val bs))"
proof -
  let ?c = "uint64_contents False bs"
  have "minimal_int ?c \<and> sval ?c = int (be_val bs)"
  proof (induction bs)
    case Nil
    then show ?case by (simp add: sval_def)
  next
    case (Cons b bs)
    show ?case
    proof (cases "b = 0")
      case True
      with Cons show ?thesis by (simp add: be_val_Cons)
    next
      case False
      then have p: "0 < unat b" by (simp add: unat_gt_0)
      show ?thesis
      proof (cases "128 \<le> unat b")
        case True
        then have "\<not> uint b < 128" by (simp add: uint_less_128_iff)
        then show ?thesis using False True by (simp add: uint64_contents_started sval_def be_val_Cons)
      next
        case small: False
        then have lt: "uint b < 128" by (simp add: uint_less_128_iff)
        then have "b \<noteq> 255" by auto
        with False small lt show ?thesis
          by (cases bs) (simp_all add: uint64_contents_started sval_def be_val_Cons)
      qed
    qed
  qed
  then show ?thesis by (simp add: minimal_int_iff)
qed

definition put_some :: "nat \<Rightarrow> bytes \<Rightarrow> acbb \<Rightarrow> acbb option" where
  "put_some d x a = (if x = [] then Some a else put d x a)"

lemma refines_put_some:
  assumes f: "refines al f (put_some d x)" and h: "refines al h (put_some d y)"
  shows "refines al (cbb_then f h) (put_some d (x @ y))"
proof (rule refines_cong [OF refines_then [OF f h]])
  have y: "put_some d y = (if y = [] then Some else put d y)" by (simp add: put_some_def fun_eq_iff)
  show "Option.bind (put_some d x a) (put_some d y) = put_some d (x @ y) a" for a
    unfolding y by (auto simp: put_some_def put_put)
qed

lemma refines_ok_put_some: "refines al cbb_ok (put_some d [])"
  by (rule refinesI) (auto simp: cbb_ok_def put_some_def)

lemma refines_put_some_ne: "x \<noteq> [] \<Longrightarrow> refines al f (put_some d x) \<longleftrightarrow> refines al f (put d x)"
proof -
  assume "x \<noteq> []"
  then have "put_some d x = put d x" by (simp add: put_some_def fun_eq_iff)
  then show ?thesis by simp
qed

text \<open>The loop, followed by what the caller does with \<open>started\<close>.\<close>

definition uint64_loop_op :: "allocator \<Rightarrow> nat \<Rightarrow> bool \<Rightarrow> bytes \<Rightarrow> cbb_op" where
  "uint64_loop_op al d started bs st =
     (case asn1_uint64_bytes al d started bs st of
        (ok, started, st) \<Rightarrow>
          if \<not> ok then (False, st) else (if \<not> started then CBB_add_u8 al 0 d else cbb_ok) st)"

context allocator
begin

lemma refines_add_u8_some: "refines malloc (CBB_add_u8 malloc v d) (put_some d [v])"
  using refines_add_u8 [of v d] by (simp add: refines_put_some_ne)

lemma uint64_loop_op_Nil:
  "uint64_loop_op malloc d started [] = (if \<not> started then CBB_add_u8 malloc 0 d else cbb_ok)"
  by (simp add: uint64_loop_op_def fun_eq_iff)

lemma uint64_loop_op_Cons:
  "uint64_loop_op malloc d started (b # bs) =
     (if \<not> started \<and> b = 0 then uint64_loop_op malloc d started bs
      else cbb_then (if \<not> started \<and> 128 \<le> unat b then CBB_add_u8 malloc 0 d else cbb_ok)
             (cbb_then (CBB_add_u8 malloc b d) (uint64_loop_op malloc d True bs)))"
proof -
  have h: "(128 \<le> unat b) = (b AND 0x80 \<noteq> 0)" using u8_high_bit_iff [of b] by linarith
  show ?thesis
    unfolding h by (auto simp: uint64_loop_op_def fun_eq_iff cbb_then_def cbb_ok_def split: prod.splits)
qed

lemma refines_uint64_loop: "refines malloc (uint64_loop_op malloc d started bs) (put_some d (uint64_contents started bs))"
proof (induction bs arbitrary: started)
  case Nil
  then show ?case by (simp add: uint64_loop_op_Nil refines_add_u8_some refines_ok_put_some)
next
  case (Cons b bs)
  show ?case
  proof (cases "\<not> started \<and> b = 0")
    case True
    then show ?thesis using Cons.IH [of started] by (simp add: uint64_loop_op_Cons)
  next
    case False
    have "refines malloc (if \<not> started \<and> 128 \<le> unat b then CBB_add_u8 malloc 0 d else cbb_ok)
      (put_some d (if \<not> started \<and> 128 \<le> unat b then [0] else []))"
      by (simp add: refines_add_u8_some refines_ok_put_some)
    from refines_put_some [OF this refines_put_some [OF refines_add_u8_some Cons.IH], of b True]
    show ?thesis
      unfolding uint64_loop_op_Cons uint64_contents.simps if_not_P [OF False] uint64_contents_started by simp
  qed
qed

lemma value_bytes:
  "map (\<lambda>i. ucast (drop_bit (8 * (7 - i)) (v :: u64) AND 0xff)) [0..<8] = be_bytes 8 (unat v)"
proof -
  have f: "ucast (w AND 0xff) = (ucast w :: u8)" for w :: u64
  proof -
    have "w AND 0xff = take_bit 8 w" by (simp add: take_bit_eq_mask mask_eq_exp_minus_1)
    then have "unat (w AND 0xff) = take_bit 8 (unat w)" by (simp only: unsigned_take_bit_eq)
    then show ?thesis by (simp add: word_unat_eq_iff unat_ucast_mod take_bit_eq_mod)
  qed
  show ?thesis unfolding f be_bytes_word by (simp add: eval_nat_numeral upt_rec)
qed

lemma refines_asn1_uint64:
  "refines malloc (CBB_add_asn1_uint64 malloc v d) (put d (der CBS_ASN1_INTEGER (int_body (uint v))))"
proof -
  have op: "CBB_add_asn1_uint64 malloc v d = cbb_then (CBB_add_asn1 malloc CBS_ASN1_INTEGER d)
      (cbb_then (uint64_loop_op malloc (Suc d) False (be_bytes 8 (unat v))) (CBB_flush malloc d))"
    unfolding CBB_add_asn1_uint64_def value_bytes
    by (auto simp: fun_eq_iff cbb_then_def uint64_loop_op_def split: prod.splits intro!: arg_cong [where f = "case_prod _"])
  have c: "uint64_contents False (be_bytes 8 (unat v)) = int_body (uint v)"
    using u64_less_lim [of v] by (simp add: uint64_contents_int_body be_val_be_bytes del: u64_less_lim)
  have "refines malloc (uint64_loop_op malloc (Suc d) False (be_bytes 8 (unat v))) (put (Suc d) (int_body (uint v)))"
    using refines_uint64_loop [of "Suc d" False "be_bytes 8 (unat v)"] unfolding c
    by (simp add: refines_put_some_ne)
  from refines_asn1_element [OF this, of CBS_ASN1_INTEGER]
  show ?thesis unfolding op
    by (rule refines_cong) (use length_uint_body [of v] in \<open>simp add: put_der_def\<close>)
qed

end

text \<open>Negative values: redundant sign bytes are skipped.\<close>

fun trim_ff :: "bytes \<Rightarrow> bytes" where
  "trim_ff (a # b # r) = (if a = 0xff \<and> 128 \<le> unat b then trim_ff (b # r) else a # b # r)"
| "trim_ff bs = bs"

lemma sval_Cons:
  "sval (a # r) = (if uint a < 128 then uint a else uint a - 256) * 256 ^ length r + int (be_val r)"
  by (simp add: sval_def be_val_Cons algebra_simps)

lemma trim_ff_int_body:
  "bs \<noteq> [] \<Longrightarrow> 128 \<le> unat (hd bs) \<Longrightarrow> trim_ff bs = int_body (sval bs)"
proof (induction bs rule: trim_ff.induct)
  case (1 a b r)
  show ?case
  proof (cases "a = 0xff \<and> 128 \<le> unat b")
    case True
    then have "uint a = 255" "\<not> uint b < 128" using uint_255 by (metis, simp add: uint_less_128_iff)
    then have "sval (a # b # r) = sval (b # r)"
      by (simp add: sval_Cons be_val_Cons algebra_simps)
    then show ?thesis using 1 True by simp
  next
    case False
    have "a \<noteq> 0" using "1.prems" by auto
    then have "minimal_int (a # b # r)"
      using False by (simp add: uint_less_128_iff not_le flip: not_less)
    from int_body_sval [OF this] show ?thesis unfolding trim_ff.simps(1) if_not_P [OF False] ..
  qed
qed (auto simp: int_body_sval)

lemma int64_start_trim:
  "k < length u \<Longrightarrow> rev (take (Suc (int64_start u k)) u) = trim_ff (rev (take (Suc k) u))"
proof (induction k)
  case (Suc k)
  have "rev (take (Suc (Suc k)) u) = u ! Suc k # u ! k # rev (take k u)"
    using Suc.prems by (simp add: take_Suc_conv_app_nth)
  moreover have "rev (take (Suc k) u) = u ! k # rev (take k u)"
    using Suc.prems by (simp add: take_Suc_conv_app_nth)
  moreover have "u ! k AND 0x80 \<noteq> 0 \<longleftrightarrow> 128 \<le> unat (u ! k)"
    using u8_high_bit_iff [of "u ! k"] by linarith
  ultimately show ?case using Suc by simp
qed (simp add: take_Suc_conv_app_nth)

lemma sval_be_bytes_8: "sval (be_bytes 8 (unat (v :: u64))) = sint v"
proof -
  let ?bs = "be_bytes 8 (unat v)"
  have ne: "?bs \<noteq> []" by (metis length_0_conv length_be_bytes zero_neq_numeral)
  have "of_int (sval ?bs) = v"
    using int64_fill [OF ne] by (simp add: le_val_def be_val_be_bytes)
  moreover have "sint (of_int (sval ?bs) :: u64) = sval ?bs"
    using sval_range_8 [OF ne] by (simp add: signed_of_int signed_take_bit_int_eq_self)
  ultimately show ?thesis by metis
qed

lemma negative_top_byte:
  assumes "sint (v :: u64) < 0"
  shows "128 \<le> unat (hd (be_bytes 8 (unat v)))"
proof (rule ccontr)
  assume "\<not> ?thesis"
  then have "uint (hd (be_bytes 8 (unat v))) < 128" by (simp add: uint_less_128_iff)
  then have "0 \<le> sval (be_bytes 8 (unat v))" by (simp add: sval_def)
  with assms show False by (simp add: sval_be_bytes_8)
qed

context allocator
begin

lemma refines_add_bytes_down:
  "n \<le> length u \<Longrightarrow> refines malloc (add_bytes_down malloc d u n) (put_some d (rev (take n u)))"
proof (induction n)
  case 0
  then show ?case by (simp add: refines_ok_put_some)
next
  case (Suc n)
  then have "refines malloc (add_bytes_down malloc d u n) (put_some d (rev (take n u)))" by simp
  from refines_put_some [OF refines_add_u8_some this, of "u ! n"] Suc.prems
  show ?case by (simp add: take_Suc_conv_app_nth)
qed

lemma refines_asn1_int64:
  "refines malloc (CBB_add_asn1_int64 malloc v d) (put d (der CBS_ASN1_INTEGER (int_body (sint v))))"
proof (cases "0 \<le> sint v")
  case True
  then have "uint v = sint v"
    using sint_u64_range(2) [of v] by (simp add: uint_sint take_bit_int_eq_self)
  with True refines_asn1_uint64 [of v d] show ?thesis by (simp add: CBB_add_asn1_int64_def)
next
  case False
  let ?u = "le_bytes 8 (unat v)"
  let ?n = "Suc (int64_start ?u 7)"
  have l: "length ?u = 8" "rev ?u = be_bytes 8 (unat v)" by (simp_all add: le_bytes_def)
  have "rev (take ?n ?u) = trim_ff (be_bytes 8 (unat v))"
    using int64_start_trim [of 7 ?u] l by simp
  also have "\<dots> = int_body (sint v)"
    using trim_ff_int_body [OF _ negative_top_byte, of v] False l(1)
    by (metis length_0_conv length_be_bytes linorder_not_le sval_be_bytes_8 zero_neq_numeral)
  finally have c: "rev (take ?n ?u) = int_body (sint v)" .
  have "int64_start w k \<le> k" for w k by (induction k) auto
  from this [of ?u 7] have "?n \<le> length ?u" using l by simp
  from refines_add_bytes_down [OF this, of "Suc d"]
  have "refines malloc (add_bytes_down malloc (Suc d) ?u ?n) (put (Suc d) (int_body (sint v)))"
    unfolding c by (simp add: refines_put_some_ne)
  from refines_asn1_element [OF this, of CBS_ASN1_INTEGER] False length_sint_body [of v]
  show ?thesis unfolding CBB_add_asn1_int64_def Let_def
    by (simp del: add_bytes_down.simps, elim refines_cong) (simp add: put_der_def)
qed

end

section \<open>Zeros, reserved space and discarded children\<close>

context allocator
begin

text \<open>Space that the caller fills at once is bytes that are added; zeros are such bytes.\<close>

lemma refines_add_space_filled:
  assumes "length bs < size_lim"
  shows "refines malloc (cbb_then (CBB_add_space malloc (length bs) d) (\<lambda>st. fill_base (base_len st - length bs) bs st)) (put d bs)"
    (is "refines malloc ?op _")
proof -
  have "?op st = CBB_add_bytes malloc bs d st" if "represents st a" for st a
  proof -
    have "fill_base (base_len s2 - length bs) data s2 = fill_base (base_len s1) data s2"
      if s: "CBB_flush malloc d st = (True, s1)" "on_base (cbb_buffer_add malloc (length bs)) s1 = (True, s2)" for s1 s2 data
    proof -
      obtain a1 where "represents s1 a1" using refines_ok [OF refines_flush \<open>represents st a\<close> s(1)] by blast
      then obtain b where b: "cbb_base s1 = Some b" "wf_buffer b" by (auto simp: represents_def)
      with s(2) obtain b' where "cbb_buffer_add malloc (length bs) b = (True, b')" "cbb_base s2 = Some b'"
        by (auto simp: on_base_def split: prod.splits)
      with cbb_buffer_add_ok [OF b(2) assms] b(1) show ?thesis by (auto simp: base_len_def)
    qed
    then show ?thesis
      by (auto simp: CBB_add_space_def CBB_add_bytes_def cbb_then_def Let_def split: prod.splits)
  qed
  then show ?thesis
    by (rule refines_op_cong [OF refines_add_bytes, rotated]) (use assms in simp_all)
qed

lemma refines_add_zeros:
  assumes "n < size_lim"
  shows "refines malloc (CBB_add_zeros malloc n d) (put d (replicate n 0))"
  using refines_add_space_filled [of "replicate n 0" d] assms by (simp add: CBB_add_zeros_def)

lemma CBB_add_space_ok:
  assumes r: "represents st a" and n: "n < size_lim" and ok: "CBB_add_space malloc n d st = (True, st')"
  shows "\<exists>junk a'. length junk = n \<and> put d junk a = Some a' \<and> represents st' a'"
proof -
  obtain s1 where s1: "CBB_flush malloc d st = (True, s1)" "on_base (cbb_buffer_add malloc n) s1 = (True, st')"
    using ok by (auto simp: CBB_add_space_def cbb_then_def split: prod.splits if_splits)
  obtain a1 where a1: "close_at d a = Some a1" "represents s1 a1" using refines_ok [OF refines_flush r s1(1)] by blast
  then obtain b where b: "cbb_base s1 = Some b" "wf_buffer b" "\<not> cb_error b" "written b = flat a1"
    "cbb_chain s1 = frames_at 0 a1" "valid_acbb a1"
    by (auto simp: represents_def)
  with s1(2) obtain b' where b': "cbb_buffer_add malloc n b = (True, b')" "st' = s1 \<lparr> cbb_base := Some b' \<rparr>"
    by (auto simp: on_base_def split: prod.splits)
  from cbb_buffer_add_ok [OF b(2) n b'(1)] obtain junk where
    j: "length junk = n" "wf_buffer b'" "written b' = written b @ junk" "\<not> cb_error b'" using b(3) by auto
  have "represents st' (add_last junk a1)"
    using j b b'(2) add_last_facts [OF b(6)] valid_add_last [OF b(6)] by (simp add: represents_def)
  with a1(1) j(1) show ?thesis by (auto simp: put_def)
qed

lemma CBB_reserve_ok:
  assumes r: "represents st a" and n: "n < size_lim" and ok: "CBB_reserve malloc n d st = (True, st')"
  shows "\<exists>a'. close_at d a = Some a' \<and> represents st' a' \<and>
    (\<exists>b. cbb_base st' = Some b \<and> length (flat a') + n \<le> length (buf_bytes b))"
proof -
  obtain s1 where s1: "CBB_flush malloc d st = (True, s1)" "on_base (cbb_buffer_reserve malloc n) s1 = (True, st')"
    using ok by (auto simp: CBB_reserve_def cbb_then_def split: prod.splits if_splits)
  obtain a1 where a1: "close_at d a = Some a1" "represents s1 a1" using refines_ok [OF refines_flush r s1(1)] by blast
  then obtain b where b: "cbb_base s1 = Some b" "wf_buffer b" "\<not> cb_error b" "written b = flat a1"
    by (auto simp: represents_def)
  with s1(2) obtain b' where b': "cbb_buffer_reserve malloc n b = (True, b')" "st' = s1 \<lparr> cbb_base := Some b' \<rparr>"
    by (auto simp: on_base_def split: prod.splits)
  from cbb_buffer_reserve_ok [OF b(2) n b'(1)] b' a1 b wf_bufferD(1) [of b'] wf_bufferD(5) [OF b(2)]
  show ?thesis by (auto simp: represents_def)
qed

end

lemma CBB_discard_child_represents:
  assumes r: "represents st a"
  shows "represents (CBB_discard_child d st) (take (Suc d) a)"
proof (cases "Suc d < length a")
  case False
  then show ?thesis using r by (simp add: CBB_discard_child_def represents_def)
next
  case True
  obtain b where b: "cbb_base st = Some b" "wf_buffer b" "\<not> cb_error b" "written b = flat a"
    and ch: "cbb_chain st = frames_at 0 a" "valid_acbb a"
    using r by (auto simp: represents_def)
  define p where "p = take (Suc d) a"
  define q where "q = drop (Suc d) a"
  have a: "a = p @ q" by (simp add: p_def q_def)
  have l: "length p = Suc d" "q \<noteq> []" using True by (simp_all add: p_def q_def)
  then obtain k c r where q: "q = (k, c) # r" by (cases q) auto
  have off: "fr_offset (cbb_chain st ! Suc d) = length (flat p)"
    unfolding ch(1) a frames_at_append q using l by (simp add: nth_append)
  have len: "length (flat p) \<le> cb_len b" using wf_bufferD(5) [OF b(2)] b(4) a by (simp add: flat_append)
  have "written (b \<lparr> cb_len := length (flat p) \<rparr>) = flat p"
  proof -
    have "take (length (flat p)) (written b) = flat p" using b(4) a by (simp add: flat_append)
    then show ?thesis using len by (simp add: written_def buf_bytes_def min_absorb1)
  qed
  moreover have "wf_buffer (b \<lparr> cb_len := length (flat p) \<rparr>)"
    using b(2) len by (auto simp: wf_buffer_def buf_bytes_def)
  moreover have "take (Suc d) (cbb_chain st) = frames_at 0 p"
    unfolding ch(1) a frames_at_append using l by simp
  moreover have "valid_acbb p" unfolding p_def by (rule valid_acbb_take [OF ch(2)])
  ultimately show ?thesis
    using True b off by (simp add: CBB_discard_child_def ch(1) represents_def p_def)
qed

section \<open>Initialisation and the end\<close>

text \<open>What the caller of \<open>CBB_finish\<close> reads: the first \<open>*out_len\<close> bytes at \<open>*out_data\<close>.\<close>

definition handed_out :: "bytes option \<times> nat \<Rightarrow> bytes" where
  "handed_out r = take (snd r) (case fst r of None \<Rightarrow> [] | Some buf \<Rightarrow> buf)"

context allocator
begin

lemma CBB_init_represents:
  assumes "n < size_lim" "CBB_init malloc n = (True, st)"
  shows "represents st [(Root, [])]"
    and "2 * m + 8 < size_lim \<Longrightarrow> \<forall>k \<le> 2 * m + 8. malloc k \<noteq> None \<Longrightarrow> has_room malloc st m"
proof -
  have st: "st = CBB_zero \<lparr> cbb_base := Some \<lparr> cb_buf = OPENSSL_malloc malloc n, cb_len = 0, cb_cap = n,
      cb_can_resize = True, cb_error = False \<rparr> \<rparr>"
    and n: "0 < n \<longrightarrow> OPENSSL_malloc malloc n \<noteq> None"
    using assms(2) by (auto simp: CBB_init_def cbb_init_def Let_def split: if_splits option.splits prod.splits)
  have "length (case OPENSSL_malloc malloc n of None \<Rightarrow> [] | Some buf \<Rightarrow> buf) = n"
    using n openssl_malloc_length [OF assms(1)] by (auto split: option.splits)
  then show "represents st [(Root, [])]"
    using assms(1)
    by (simp add: st represents_def wf_buffer_def written_def buf_bytes_def CBB_zero_def zero_frame_def
        frame_of_def valid_acbb_def)
  show "2 * m + 8 < size_lim \<Longrightarrow> \<forall>k \<le> 2 * m + 8. malloc k \<noteq> None \<Longrightarrow> has_room malloc st m"
    by (simp add: st has_room_def room_def)
qed

lemma CBB_init_fixed_represents:
  assumes "length buf < size_lim" "CBB_init_fixed malloc buf = (True, st)"
  shows "represents st [(Root, [])]" "has_room malloc st m \<longleftrightarrow> m \<le> length buf"
  using assms
  by (auto simp: CBB_init_fixed_def cbb_init_def represents_def wf_buffer_def written_def buf_bytes_def
      CBB_zero_def zero_frame_def frame_of_def valid_acbb_def has_room_def room_def split: option.splits prod.splits if_splits)

lemma close_root:
  assumes "valid_acbb a" "close_at 0 a = Some a'"
  shows "\<exists>c. close a = Some (Root, c) \<and> a' = [(Root, c)]"
proof -
  from assms(2) obtain k c where kc: "close a = Some (k, c)" "a' = [(k, c)]"
    by (auto simp: close_at_def split: if_splits)
  moreover have "k = Root" using assms(1) kc(1) close_fst by (auto simp: valid_acbb_def)
  ultimately show ?thesis by simp
qed

lemma CBB_finish_ok:
  assumes r: "represents st a" and f: "CBB_finish malloc has_data has_len 0 st = (Some out, st')"
  shows "close a = Some (Root, handed_out out) \<and> cbb_base st' = None"
proof -
  from f obtain s1 b where s1: "CBB_flush malloc 0 st = (True, s1)" "cbb_base s1 = Some b"
    and res: "out = (cb_buf b, cb_len b)" "st' = CBB_cleanup 0 (s1 \<lparr> cbb_base := Some (b \<lparr> cb_buf := None \<rparr>) \<rparr>)"
    by (auto simp: CBB_finish_def split: if_splits prod.splits option.splits)
  obtain a1 where a1: "close_at 0 a = Some a1" "represents s1 a1" using refines_ok [OF refines_flush r s1(1)] by blast
  obtain c where c: "close a = Some (Root, c)" "a1 = [(Root, c)]"
    using close_root [OF represents_valid [OF r] a1(1)] by blast
  have "\<not> fr_child_at 0 s1" using a1(2) c(2) by (simp add: represents_def fr_child_at_def)
  moreover have "written b = c" using a1(2) c(2) s1(2) by (simp add: represents_def)
  ultimately show ?thesis
    using c res by (simp add: handed_out_def written_def buf_bytes_def CBB_cleanup_def fr_child_at_def)
qed

lemma CBB_finish_room:
  assumes r: "represents st a" and c: "close a = Some (Root, c)" and m: "has_room malloc st (length c)"
  shows "\<exists>out st'. CBB_finish malloc True True 0 st = (Some out, st') \<and> handed_out out = c"
proof -
  have v: "valid_acbb a" using r by (rule represents_valid)
  then have "close_at 0 a = Some [(Root, c)]"
    using c by (auto simp: close_at_def valid_acbb_def)
  from refines_room [OF refines_flush r this m] obtain s1 where
    s1: "CBB_flush malloc 0 st = (True, s1)" "represents s1 [(Root, c)]" by auto
  obtain k r where "a = (Root, k) # r" using v by (auto simp: valid_acbb_def)
  then have "\<not> fr_child_at 0 st" using r by (simp add: represents_def fr_child_at_def)
  moreover obtain b where "cbb_base s1 = Some b" "written b = c" using s1(2) by (auto simp: represents_def)
  ultimately show ?thesis
    using s1 by (simp add: CBB_finish_def handed_out_def written_def buf_bytes_def)
qed

end

section \<open>The error flag\<close>

definition dead :: "cbb \<Rightarrow> bool" where
  "dead st \<longleftrightarrow> (\<exists>b. cbb_base st = Some b \<and> cb_error b)"

definition live :: "nat \<Rightarrow> cbb \<Rightarrow> bool" where
  "live k st \<longleftrightarrow> cbb_base st \<noteq> None \<and> k \<le> length (cbb_chain st)"

text \<open>
  \<open>guarded k f l\<close>: from a state with at least \<open>k\<close> open \<open>CBB\<close>s, \<open>f\<close> either returns 1 and leaves at least
  \<open>l\<close> open, or returns 0 and sets the error flag; a set flag stays set.  \<open>blocked f\<close>: with the flag set,
  \<open>f\<close> returns 0.
\<close>

definition guarded :: "nat \<Rightarrow> cbb_op \<Rightarrow> nat \<Rightarrow> bool" where
  "guarded k f l \<longleftrightarrow>
     (\<forall>st st'. live k st \<and> f st = (True, st') \<longrightarrow> live l st') \<and>
     (\<forall>st st'. live k st \<and> f st = (False, st') \<longrightarrow> dead st') \<and>
     (\<forall>st ok st'. dead st \<and> f st = (ok, st') \<longrightarrow> dead st')"

definition blocked :: "cbb_op \<Rightarrow> bool" where
  "blocked f \<longleftrightarrow> (\<forall>st ok st'. dead st \<and> f st = (ok, st') \<longrightarrow> \<not> ok)"

lemma guardedI:
  assumes "\<And>st st'. live k st \<Longrightarrow> f st = (True, st') \<Longrightarrow> live l st'"
    "\<And>st st'. live k st \<Longrightarrow> f st = (False, st') \<Longrightarrow> dead st'"
    "\<And>st ok st'. dead st \<Longrightarrow> f st = (ok, st') \<Longrightarrow> dead st'"
  shows "guarded k f l"
  using assms unfolding guarded_def by blast

lemma guarded_live: "guarded k f l \<Longrightarrow> live k st \<Longrightarrow> f st = (True, st') \<Longrightarrow> live l st'"
  unfolding guarded_def by blast

lemma guarded_fail: "guarded k f l \<Longrightarrow> live k st \<Longrightarrow> f st = (False, st') \<Longrightarrow> dead st'"
  unfolding guarded_def by blast

lemma guarded_dead: "guarded k f l \<Longrightarrow> dead st \<Longrightarrow> f st = (ok, st') \<Longrightarrow> dead st'"
  unfolding guarded_def by blast

lemma cbb_then_cases:
  assumes "cbb_then f g st = (ok, st')"
  obtains "f st = (False, st')" "\<not> ok" | s1 where "f st = (True, s1)" "g s1 = (ok, st')"
  using assms by (auto simp: cbb_then_def split: prod.splits if_splits)

lemma guarded_then:
  assumes f: "guarded k f l" and g: "guarded l g m"
  shows "guarded k (cbb_then f g) m"
proof (rule guardedI)
  show "live m st'" if "live k st" "cbb_then f g st = (True, st')" for st st'
    using that(2) by (rule cbb_then_cases) (use guarded_live [OF f that(1)] guarded_live [OF g] in blast)+
  show "dead st'" if "live k st" "cbb_then f g st = (False, st')" for st st'
    using that(2) by (rule cbb_then_cases)
      (use guarded_live [OF f that(1)] guarded_fail [OF f that(1)] guarded_fail [OF g] in blast)+
  show "dead st'" if "dead st" "cbb_then f g st = (ok, st')" for st ok st'
    using that(2) by (rule cbb_then_cases) (use guarded_dead [OF f that(1)] guarded_dead [OF g] in blast)+
qed

lemma guarded_then_state:
  assumes f: "guarded k f l" and g: "\<And>s. guarded l (g s) m"
  shows "guarded k (cbb_then f (\<lambda>st. g st st)) m"
proof (rule guardedI)
  show "live m st'" if "live k st" "cbb_then f (\<lambda>st. g st st) st = (True, st')" for st st'
    using that(2) by (rule cbb_then_cases) (use guarded_live [OF f that(1)] guarded_live [OF g] in blast)+
  show "dead st'" if "live k st" "cbb_then f (\<lambda>st. g st st) st = (False, st')" for st st'
    using that(2) by (rule cbb_then_cases)
      (use guarded_live [OF f that(1)] guarded_fail [OF f that(1)] guarded_fail [OF g] in blast)+
  show "dead st'" if "dead st" "cbb_then f (\<lambda>st. g st st) st = (ok, st')" for st ok st'
    using that(2) by (rule cbb_then_cases) (use guarded_dead [OF f that(1)] guarded_dead [OF g] in blast)+
qed

lemma blocked_then: "blocked f \<Longrightarrow> blocked (cbb_then f g)"
  unfolding blocked_def by (auto elim!: cbb_then_cases)

lemma guarded_ok: "guarded k cbb_ok k"
  by (rule guardedI) (auto simp: cbb_ok_def)

lemma flush_chain_ne: "chain \<noteq> [] \<Longrightarrow> cbb_flush_chain al chain b = (ok, chain', b') \<Longrightarrow> chain' \<noteq> []"
  by (induction al chain b rule: cbb_flush_chain.induct) (auto simp: Let_def split: if_splits prod.splits)

lemma flush_chain_error: "cb_error b \<Longrightarrow> cbb_flush_chain al chain b = (False, chain, b)"
  by (cases "(al, chain, b)" rule: cbb_flush_chain.cases) auto

lemma flush_dead: "dead st \<Longrightarrow> fst (CBB_flush al d st) = False \<and> dead (snd (CBB_flush al d st))"
  by (auto simp: dead_def CBB_flush_def flush_chain_error)

lemma blocked_flush: "blocked (CBB_flush al d)"
  unfolding blocked_def using flush_dead [of _ al d] by (metis fst_conv)

lemma guarded_flush: "guarded (Suc d) (CBB_flush al d) (Suc d)"
proof (rule guardedI)
  fix st st' :: cbb assume h: "live (Suc d) st"
  then obtain b where b: "cbb_base st = Some b" by (auto simp: live_def)
  have ne: "drop d (cbb_chain st) \<noteq> []" using h by (simp add: live_def)
  obtain ok ch b' where f: "cbb_flush_chain al (drop d (cbb_chain st)) b = (ok, ch, b')"
    by (cases "cbb_flush_chain al (drop d (cbb_chain st)) b") auto
  have "ch \<noteq> []" by (rule flush_chain_ne [OF ne f])
  then have "Suc 0 \<le> length ch" by (simp add: Suc_le_eq)
  then show "live (Suc d) st'" if "CBB_flush al d st = (True, st')"
    using that h b f by (auto simp: CBB_flush_def live_def)
  show "dead st'" if "CBB_flush al d st = (False, st')"
    using that b f flush_chain_fail [OF ne, of al b ch b'] by (auto simp: CBB_flush_def dead_def)
next
  show "dead st'" if "dead st" "CBB_flush al d st = (ok, st')" for st ok st'
    using flush_dead [OF that(1), of al d] that(2) by simp
qed

lemma guarded_on_base:
  assumes "\<And>b b'. f b = (False, b') \<Longrightarrow> cb_error b'" "\<And>b ok b'. cb_error b \<Longrightarrow> f b = (ok, b') \<Longrightarrow> cb_error b'"
  shows "guarded k (on_base f) k"
proof (rule guardedI)
  fix st st' assume "live k st"
  then obtain b where b: "cbb_base st = Some b" and k: "k \<le> length (cbb_chain st)" by (auto simp: live_def)
  show "live k st'" if "on_base f st = (True, st')"
    using that b k by (auto simp: on_base_def live_def split: prod.splits)
  show "dead st'" if "on_base f st = (False, st')"
    using that b assms(1) [of b] by (auto simp: on_base_def dead_def split: prod.splits)
next
  fix st ok st' assume d: "dead st" and o: "on_base f st = (ok, st')"
  from d obtain b where b: "cbb_base st = Some b" "cb_error b" by (auto simp: dead_def)
  obtain ok2 b' where f: "f b = (ok2, b')" by (cases "f b")
  from assms(2) [OF b(2) f] o b(1) f show "dead st'" by (auto simp: on_base_def dead_def)
qed

lemma reserve_error: "cbb_buffer_reserve al n b = (ok, b') \<Longrightarrow> cb_error b \<Longrightarrow> cb_error b'"
  by (auto simp: cbb_buffer_reserve_def Let_def split: if_splits option.splits)

lemma add_error: "cbb_buffer_add al n b = (ok, b') \<Longrightarrow> cb_error b \<Longrightarrow> cb_error b'"
  by (auto simp: cbb_buffer_add_def split: if_splits prod.splits dest: reserve_error)

lemma store_error: "store_be_loop n off v b = (r, b') \<Longrightarrow> cb_error b' = cb_error b"
  by (induction n off v b rule: store_be_loop.induct) auto

lemma guarded_reserve: "guarded k (on_base (cbb_buffer_reserve al n)) k"
  by (rule guarded_on_base) (auto dest: cbb_buffer_reserve_fail reserve_error)

lemma guarded_add: "guarded k (on_base (cbb_buffer_add al n)) k"
  by (rule guarded_on_base) (auto dest: cbb_buffer_add_fail add_error)

lemma guarded_add_u: "guarded k (on_base (cbb_buffer_add_u al v n)) k"
proof (rule guarded_on_base)
  show "cb_error b'" if "cbb_buffer_add_u al v n b = (False, b')" for b b'
    using that by (auto simp: cbb_buffer_add_u_def split: if_splits prod.splits dest: cbb_buffer_add_fail)
  show "cb_error b'" if "cb_error b" "cbb_buffer_add_u al v n b = (ok, b')" for b ok b'
    using that by (auto simp: cbb_buffer_add_u_def split: if_splits prod.splits dest: add_error store_error)
qed

lemma guarded_fill: "guarded k (fill_base off data) k"
  unfolding fill_base_def by (rule guarded_on_base) auto

lemma guarded_set_child: "guarded (Suc d) (set_child d c) (Suc (Suc d))"
  by (rule guardedI) (auto simp: set_child_def live_def dead_def)

lemma guarded_weaken: "guarded k f l \<Longrightarrow> k \<le> k' \<Longrightarrow> l' \<le> l \<Longrightarrow> guarded k' f l'"
  unfolding guarded_def live_def by (meson order_trans)

lemma guarded_flush_at: "guarded (Suc (Suc d)) (CBB_flush al d) (Suc d)"
  by (rule guarded_weaken [OF guarded_flush]) simp_all

lemma guarded_add_u8: "guarded (Suc d) (CBB_add_u8 al v d) (Suc d)"
  unfolding CBB_add_u8_def by (rule guarded_then [OF guarded_flush guarded_add_u])

lemma guarded_add_bytes: "guarded (Suc d) (CBB_add_bytes al data d) (Suc d)"
  unfolding CBB_add_bytes_def Let_def
  by (rule guarded_then_state [OF guarded_flush]) (rule guarded_then [OF guarded_add guarded_fill])

lemma guarded_add_zeros: "guarded (Suc d) (CBB_add_zeros al n d) (Suc d)"
  unfolding CBB_add_zeros_def CBB_add_space_def
  by (rule guarded_then_state [OF guarded_then [OF guarded_flush guarded_add]]) (rule guarded_fill)

lemma guarded_length_prefixed: "guarded (Suc d) (cbb_add_length_prefixed al n d) (Suc (Suc d))"
  unfolding cbb_add_length_prefixed_def Let_def
  by (rule guarded_then_state [OF guarded_flush])
    (intro guarded_then [OF guarded_add] guarded_then [OF guarded_fill] guarded_set_child)

lemma guarded_base128_loop: "guarded (Suc d) (add_base128_loop al v n d) (Suc d)"
proof (induction n)
  case 0
  have "add_base128_loop al v 0 d = cbb_ok" by (simp add: fun_eq_iff cbb_ok_def)
  then show ?case by (simp add: guarded_ok)
next
  case (Suc n)
  have e: "add_base128_loop al v (Suc n) d = cbb_then (CBB_add_u8 al (base128_byte (unat v) n) d) (add_base128_loop al v n d)"
    using base128_byte_eq [of n v] by (auto simp: fun_eq_iff Let_def)
  show ?case unfolding e by (rule guarded_then [OF guarded_add_u8 Suc.IH])
qed

lemma guarded_add_asn1: "guarded (Suc d) (CBB_add_asn1 al tag d) (Suc (Suc d))"
proof -
  have t: "guarded (Suc d)
     (if tag AND CBS_ASN1_TAG_NUMBER_MASK \<ge> 0x1f then
        cbb_then (CBB_add_u8 al (bits OR 0x1f) d) (add_base128_integer al (ucast (tag AND CBS_ASN1_TAG_NUMBER_MASK)) d)
      else CBB_add_u8 al (bits OR ucast (tag AND CBS_ASN1_TAG_NUMBER_MASK)) d) (Suc d)" for bits
    unfolding add_base128_integer_def Let_def
    by (auto intro: guarded_then guarded_add_u8 guarded_base128_loop)
  show ?thesis
    unfolding CBB_add_asn1_def Let_def
    by (rule guarded_then [OF guarded_flush], rule guarded_then_state [OF t])
      (rule guarded_then [OF guarded_add_u8 guarded_set_child])
qed

lemma guarded_asn1_element:
  assumes "guarded (Suc (Suc d)) f (Suc (Suc d))"
  shows "guarded (Suc d) (cbb_then (CBB_add_asn1 al tag d) (cbb_then f (CBB_flush al d))) (Suc d)"
  by (intro guarded_then [OF guarded_add_asn1] guarded_then [OF assms] guarded_flush_at)

context allocator
begin

lemma guarded_uint64_loop: "guarded (Suc d) (uint64_loop_op malloc d started bs) (Suc d)"
proof (induction bs arbitrary: started)
  case Nil
  then show ?case by (simp add: uint64_loop_op_Nil guarded_add_u8 guarded_ok)
next
  case (Cons b bs)
  then show ?case
    by (auto simp: uint64_loop_op_Cons intro!: guarded_then guarded_add_u8 guarded_ok)
qed

lemma asn1_uint64_eq:
  "CBB_add_asn1_uint64 malloc v d = cbb_then (CBB_add_asn1 malloc CBS_ASN1_INTEGER d)
      (cbb_then (uint64_loop_op malloc (Suc d) False (be_bytes 8 (unat v))) (CBB_flush malloc d))"
  unfolding CBB_add_asn1_uint64_def value_bytes
  by (auto simp: fun_eq_iff cbb_then_def uint64_loop_op_def split: prod.splits intro!: arg_cong [where f = "case_prod _"])

lemma guarded_asn1_uint64: "guarded (Suc d) (CBB_add_asn1_uint64 malloc v d) (Suc d)"
  unfolding asn1_uint64_eq by (rule guarded_asn1_element [OF guarded_uint64_loop])

lemma guarded_bytes_down: "guarded (Suc d) (add_bytes_down al d u n) (Suc d)"
  by (induction n) (auto intro: guarded_ok guarded_then guarded_add_u8)

lemma guarded_asn1_int64: "guarded (Suc d) (CBB_add_asn1_int64 malloc v d) (Suc d)"
proof (cases "0 \<le> sint v")
  case True
  then show ?thesis by (simp add: CBB_add_asn1_int64_def guarded_asn1_uint64)
next
  case False
  then have "CBB_add_asn1_int64 malloc v d =
      (let u = le_bytes 8 (unat v) in cbb_then (CBB_add_asn1 malloc CBS_ASN1_INTEGER d)
        (cbb_then (add_bytes_down malloc (Suc d) u (Suc (int64_start u 7))) (CBB_flush malloc d)))"
    unfolding CBB_add_asn1_int64_def Let_def by (simp only: if_False)
  then show ?thesis
    using guarded_asn1_element [OF guarded_bytes_down] unfolding Let_def by (simp only:)
qed

end

text \<open>An element, when the builder can write its length.\<close>

definition element :: "u32 \<Rightarrow> bytes \<Rightarrow> bytes option" where
  "element tag body = (if length body \<le> 0xfffffffe then Some (der tag body) else None)"

lemma put_Nil: "valid_acbb a \<Longrightarrow> put d [] a = close_at d a"
proof -
  assume v: "valid_acbb a"
  have "add_last [] x = x" if "close_at d a = Some x" for x
    using length_close_at [OF that] by (cases x rule: rev_cases) (auto simp: add_last_def)
  then show ?thesis by (cases "close_at d a") (auto simp: put_def)
qed

end
