(* ===== verification/Oid.thy ===== *)
theory Oid
  imports CbbOps
begin

text \<open>
  Object identifiers in text form: \<open>CBB_add_asn1_oid_from_text\<close> (\<open>cbb.c\<close>) and \<open>CBS_asn1_oid_to_text\<close>
  (\<open>cbs.c\<close>).  The specification is over lists of numbers: their dotted decimal text and their DER
  contents.
\<close>

section \<open>The code\<close>

abbreviation ch_dot :: u8 where "ch_dot \<equiv> 0x2e"
abbreviation ch_0 :: u8 where "ch_0 \<equiv> 0x30"
abbreviation ch_9 :: u8 where "ch_9 \<equiv> 0x39"

fun dotted_decimal_loop :: "u64 \<Rightarrow> bool \<Rightarrow> u64 rd" where
  "dotted_decimal_loop out seen_digit [] = (if seen_digit then (Some out, []) else (None, []))"
| "dotted_decimal_loop out seen_digit (u # cbs) =
     (if u = ch_dot \<and> CBS_len cbs > 0 then
        (if seen_digit then (Some out, cbs) else (None, cbs))
      else if u < ch_0 \<or> u > ch_9 \<or> (seen_digit \<and> out = 0) \<or> out > (- 1) div 10 \<or>
          out * 10 > (- 1) - ucast (u - ch_0) then (None, cbs)
      else dotted_decimal_loop (out * 10 + ucast (u - ch_0)) True cbs)"

definition parse_dotted_decimal :: "u64 rd" where
  "parse_dotted_decimal = dotted_decimal_loop 0 False"

lemma dotted_loop_shorter: "dotted_decimal_loop out seen s = (Some v, t) \<Longrightarrow> s \<noteq> [] \<Longrightarrow> length t < length s"
proof (induction out seen s rule: dotted_decimal_loop.induct)
  case (2 out seen u s)
  show ?case
  proof (cases "s = []")
    case True
    with 2 show ?thesis by (auto simp: CBS_len_def split: if_splits)
  next
    case False
    with 2 show ?thesis by (fastforce split: if_splits)
  qed
qed simp

text \<open>The components after the second: \<open>while (CBS_len(&cbs) > 0)\<close>.\<close>

function oid_components :: "allocator \<Rightarrow> bytes \<Rightarrow> nat \<Rightarrow> cbb_op" where
  "oid_components al cbs d st =
     (if CBS_len cbs > 0 then
        (case parse_dotted_decimal cbs of
           (None, _) \<Rightarrow> (False, st)
         | (Some a, cbs) \<Rightarrow> cbb_then (add_base128_integer al a d) (oid_components al cbs d) st)
      else (True, st))"
  by pat_completeness auto
termination
proof (relation "measure (\<lambda>(al, cbs, d, st). length cbs)")
  fix al d and cbs t :: bytes and st s2 :: cbb and ro v
  assume "0 < CBS_len cbs" "(ro, t) = parse_dotted_decimal cbs" "ro = Some v"
  then have "dotted_decimal_loop 0 False cbs = (Some v, t)" "cbs \<noteq> []"
    by (auto simp: parse_dotted_decimal_def CBS_len_def)
  from dotted_loop_shorter [OF this]
  show "((al, t, d, s2), (al, cbs, d, st)) \<in> measure (\<lambda>(al, cbs, d, st). length cbs)" by simp
qed simp

declare oid_components.simps [simp del]

definition CBB_add_asn1_oid_from_text :: "allocator \<Rightarrow> bytes \<Rightarrow> nat \<Rightarrow> cbb_op" where
  "CBB_add_asn1_oid_from_text al text d =
     cbb_then (CBB_flush al d) (\<lambda>st.
       case parse_dotted_decimal (CBS_init text) of
         (None, _) \<Rightarrow> (False, st)
       | (Some a, cbs) \<Rightarrow>
           (case parse_dotted_decimal cbs of
              (None, _) \<Rightarrow> (False, st)
            | (Some b, cbs) \<Rightarrow>
                if a > 2 \<or> (a < 2 \<and> b > 39) \<or> b > (- 1) - 80 then (False, st)
                else cbb_then (add_base128_integer al (40 * a + b) d) (oid_components al cbs d) st))"

text \<open>\<open>snprintf\<close> with \<open>%llu\<close>.\<close>

fun decimal :: "nat \<Rightarrow> bytes" where
  "decimal n = (if n < 10 then [ch_0 + of_nat n] else decimal (n div 10) @ [ch_0 + of_nat (n mod 10)])"

declare decimal.simps [simp del]

definition add_decimal :: "allocator \<Rightarrow> u64 \<Rightarrow> nat \<Rightarrow> cbb_op" where
  "add_decimal al v d = CBB_add_bytes al (decimal (unat v)) d"

lemma b128_ne [simp]: "b128 n \<noteq> []"
  by (simp add: b128_def)

function oid_text_loop :: "allocator \<Rightarrow> bytes \<Rightarrow> cbb_op" where
  "oid_text_loop al copy st =
     (if CBS_len copy \<noteq> 0 then
        (case parse_base128_integer copy of
           (None, _) \<Rightarrow> (False, st)
         | (Some v, copy) \<Rightarrow>
             cbb_then (CBB_add_u8 al ch_dot 0) (cbb_then (add_decimal al v 0) (oid_text_loop al copy)) st)
      else (True, st))"
  by pat_completeness auto
termination
proof (relation "measure (\<lambda>(al, copy, st). length copy)")
  fix al and copy t :: bytes and st s2 :: cbb and ro v
  assume "CBS_len copy \<noteq> 0" "(ro, t) = parse_base128_integer copy" "ro = Some v"
  then have "copy = b128 (unat v) @ t" using base128.canonical [of copy v t] by simp
  then show "((al, t, s2), (al, copy, st)) \<in> measure (\<lambda>(al, copy, st). length copy)" by simp
qed simp

declare oid_text_loop.simps [simp del]

text \<open>The result is the NUL-terminated buffer that \<open>CBB_finish\<close> hands out.\<close>

definition CBS_asn1_oid_to_text :: "allocator \<Rightarrow> bytes \<Rightarrow> bytes option" where
  "CBS_asn1_oid_to_text al cbs =
     (case CBB_init al 32 of (ok, cbb) \<Rightarrow>
        if \<not> ok then None
        else
          (case parse_base128_integer cbs of
             (None, _) \<Rightarrow> None
           | (Some v, copy) \<Rightarrow>
               (case cbb_then
                      (if v \<ge> 80 then
                         cbb_then (CBB_add_bytes al [0x32, ch_dot] 0) (add_decimal al (v - 80) 0)
                       else
                         cbb_then (add_decimal al (v div 40) 0)
                           (cbb_then (CBB_add_u8 al ch_dot 0) (add_decimal al (v mod 40) 0)))
                      (cbb_then (oid_text_loop al copy) (CBB_add_u8 al 0 0)) cbb of
                  (ok, cbb) \<Rightarrow>
                    if \<not> ok then None
                    else case CBB_finish al True True 0 cbb of
                           (None, _) \<Rightarrow> None
                         | (Some out, _) \<Rightarrow> Some (handed_out out))))"

section \<open>Decimal numbers\<close>

definition digit_val :: "u8 \<Rightarrow> nat" where
  "digit_val c = unat c - 48"

definition is_digit :: "u8 \<Rightarrow> bool" where
  "is_digit c \<longleftrightarrow> 48 \<le> unat c \<and> unat c \<le> 57"

definition dval :: "bytes \<Rightarrow> nat" where
  "dval ds = foldl (\<lambda>a c. a * 10 + digit_val c) 0 ds"

lemma dval_snoc [simp]: "dval (ds @ [c]) = dval ds * 10 + digit_val c"
  by (simp add: dval_def)

lemma dval_Nil [simp]: "dval [] = 0"
  by (simp add: dval_def)

lemma dval_append_le: "dval xs \<le> dval (xs @ ys)"
proof (induction ys rule: rev_induct)
  case (snoc y ys)
  then show ?case using dval_snoc [of "xs @ ys" y] by simp
qed simp

lemma unat_digit: "d < 10 \<Longrightarrow> unat (ch_0 + of_nat d) = 48 + d"
  by (simp add: unat_word_ariths unat_of_nat)

lemma digit_char:
  assumes "is_digit c"
  shows "c = ch_0 + of_nat (digit_val c)" "digit_val c < 10"
proof -
  show "digit_val c < 10" using assms by (auto simp: is_digit_def digit_val_def)
  from unat_digit [OF this] assms show "c = ch_0 + of_nat (digit_val c)"
    by (simp add: word_unat_eq_iff is_digit_def digit_val_def)
qed

lemma digit_new: "d < 10 \<Longrightarrow> is_digit (ch_0 + of_nat d) \<and> digit_val (ch_0 + of_nat d) = d"
  by (simp only: is_digit_def digit_val_def unat_digit) simp

lemma decimal_small: "n < 10 \<Longrightarrow> decimal n = [ch_0 + of_nat n]"
  by (simp add: decimal.simps)

lemma decimal_step: "0 < n \<Longrightarrow> d < 10 \<Longrightarrow> decimal (n * 10 + d) = decimal n @ [ch_0 + of_nat d]"
  by (subst decimal.simps) simp

lemma decimal_big: "10 \<le> n \<Longrightarrow> decimal n = decimal (n div 10) @ [ch_0 + of_nat (n mod 10)]"
  by (subst decimal.simps) simp

lemma decimal_digits: "c \<in> set (decimal n) \<Longrightarrow> is_digit c"
proof (induction n rule: decimal.induct)
  case (1 n)
  show ?case
  proof (cases "n < 10")
    case True
    with 1 show ?thesis using digit_new by (auto simp: decimal_small)
  next
    case False
    with 1 show ?thesis using digit_new [of "n mod 10"] by (auto simp: decimal_big)
  qed
qed

lemma dval_decimal [simp]: "dval (decimal n) = n"
proof (induction n rule: decimal.induct)
  case (1 n)
  show ?case
  proof (cases "n < 10")
    case True
    then show ?thesis using digit_new [of n] by (simp add: decimal_small dval_def)
  next
    case False
    then show ?thesis using 1 digit_new [of "n mod 10"] by (simp add: decimal_big)
  qed
qed

lemma decimal_inject [simp]: "decimal m = decimal n \<longleftrightarrow> m = n"
  by (metis dval_decimal)

lemma decimal_ne [simp]: "decimal n \<noteq> []"
  by (subst decimal.simps) simp

lemma decimal_hd: "0 < n \<Longrightarrow> hd (decimal n) \<noteq> ch_0"
proof (induction n rule: decimal.induct)
  case (1 n)
  show ?case
  proof (cases "n < 10")
    case True
    with 1 unat_digit [of n] show ?thesis by (auto simp: decimal_small)
  next
    case False
    with 1 show ?thesis by (simp add: decimal_big)
  qed
qed

lemma decimal_0: "decimal 0 = [ch_0]"
  by (simp add: decimal_small)

section \<open>Parsing one component\<close>

definition dot_end :: "bytes \<Rightarrow> bytes \<Rightarrow> bool" where
  "dot_end e t \<longleftrightarrow> (e = [] \<and> t = []) \<or> (e = ch_dot # t \<and> t \<noteq> [])"

lemma u64_room_iff:
  fixes out :: u64
  assumes "d < 10"
  shows "out > (- 1) div 10 \<or> out * 10 > (- 1) - of_nat d \<longleftrightarrow> size_lim \<le> unat out * 10 + d"
proof -
  have m: "unat (- 1 :: u64) = size_lim - 1" by (simp add: unsigned_minus_1_eq_mask mask_eq_exp_minus_1)
  have dv: "unat ((- 1 :: u64) div 10) = (size_lim - 1) div 10"
    by (simp add: unat_div_distrib m)
  have du: "unat (of_nat d :: u64) = d" using assms by (simp only: unat_of_nat) simp
  have sub: "unat ((- 1 :: u64) - of_nat d) = size_lim - 1 - d"
    using assms m du by (subst unat_sub) (auto simp: word_le_nat_alt)
  show ?thesis
  proof (cases "unat out \<le> (size_lim - 1) div 10")
    case True
    then have mul: "unat (out * 10) = unat out * 10" by (simp add: unat_word_ariths)
    have "\<not> out > (- 1) div 10" using True by (simp add: word_less_nat_alt dv not_less)
    moreover have "out * 10 > (- 1) - of_nat d \<longleftrightarrow> size_lim - 1 - d < unat out * 10"
      unfolding word_less_nat_alt sub mul ..
    ultimately show ?thesis using assms by auto
  next
    case False
    then have "out > (- 1) div 10" by (simp add: word_less_nat_alt dv)
    moreover have "size_lim \<le> unat out * 10 + d" using False by simp
    ultimately show ?thesis by blast
  qed
qed

lemma is_digit_iff: "\<not> (u < ch_0 \<or> u > ch_9) \<longleftrightarrow> is_digit u"
  by (simp add: is_digit_def word_less_nat_alt not_less)

lemma digit_ucast: "is_digit u \<Longrightarrow> (ucast (u - ch_0) :: u64) = of_nat (digit_val u)"
proof -
  assume "is_digit u"
  then have "unat (u - ch_0) = digit_val u"
    by (subst unat_sub) (auto simp: is_digit_def digit_val_def word_le_nat_alt)
  then show ?thesis by (metis of_nat_unat)
qed

lemma dotted_step_bad:
  assumes "\<not> seen \<longrightarrow> out = 0" "(if seen then decimal (unat out) else []) @ u # ds = decimal (unat (v :: u64))"
  shows "is_digit u \<and> \<not> (seen \<and> out = (0 :: u64)) \<and> unat out * 10 + digit_val u < size_lim"
proof (intro conjI)
  show "is_digit u" using decimal_digits [of u "unat v"] assms(2) [symmetric] by simp
  show "\<not> (seen \<and> out = 0)"
  proof
    assume z: "seen \<and> out = 0"
    then have e: "decimal (unat v) = ch_0 # u # ds" using assms(2) by (simp add: decimal_0)
    have "0 < unat v"
    proof (rule ccontr)
      assume "\<not> 0 < unat v"
      then have "decimal (unat v) = [ch_0]" by (simp add: decimal_0)
      with e show False by simp
    qed
    from decimal_hd [OF this] e show False by simp
  qed
  have "dval ((if seen then decimal (unat out) else []) @ [u]) = unat out * 10 + digit_val u"
    using assms(1) by auto
  then show "unat out * 10 + digit_val u < size_lim"
    using dval_append_le [of "(if seen then decimal (unat out) else []) @ [u]" ds] assms(2)
      le_less_trans [OF _ u64_less_lim [of v]] by simp
qed

lemma dotted_step_good:
  assumes "\<not> seen \<longrightarrow> out = 0" "is_digit u" "\<not> (seen \<and> out = (0 :: u64))" "unat out * 10 + digit_val u < size_lim"
  shows "decimal (unat (out * 10 + ucast (u - ch_0))) = (if seen then decimal (unat out) else []) @ [u]"
proof -
  have "(out * 10 + ucast (u - ch_0)) = of_nat (unat out * 10 + digit_val u)"
    unfolding digit_ucast [OF assms(2)] by simp
  then have n: "unat (out * 10 + ucast (u - ch_0)) = unat out * 10 + digit_val u"
    using assms(4) by (simp only: unat_of_nat) simp
  note d = digit_char [OF assms(2)]
  show ?thesis
  proof (cases seen)
    case True
    then have "0 < unat out" using assms(3) by (simp add: unat_gt_0)
    from decimal_step [OF this d(2)] d(1) n True show ?thesis by simp
  next
    case False
    with assms(1) decimal_small [OF d(2)] d(1) n show ?thesis by simp
  qed
qed

lemma dotted_loop_iff:
  assumes "\<not> seen \<longrightarrow> out = 0"
  shows "dotted_decimal_loop out seen s = (Some v, t) \<longleftrightarrow>
    (\<exists>ds e. s = ds @ e \<and> dot_end e t \<and> (if seen then decimal (unat out) else []) @ ds = decimal (unat v))"
  using assms
proof (induction out seen s rule: dotted_decimal_loop.induct)
  case (1 out seen)
  show ?case using decimal_ne [of "unat v", symmetric] by (auto simp: dot_end_def word_unat_eq_iff)
next
  case (2 out seen u s)
  define p where "p = (if seen then decimal (unat out) else [])"
  show ?case
  proof (cases "u = ch_dot \<and> s \<noteq> []")
    case True
    have "ch_dot # s = ds @ e \<and> dot_end e t \<and> p @ ds = decimal (unat v) \<longleftrightarrow>
        ds = [] \<and> e = ch_dot # s \<and> t = s \<and> p = decimal (unat v)" for ds e
    proof (cases ds)
      case (Cons c ds')
      have "p @ ds \<noteq> decimal (unat v)" if "c = ch_dot"
      proof
        assume "p @ ds = decimal (unat v)"
        then have "c \<in> set (decimal (unat v))" using Cons by (metis in_set_conv_decomp)
        from decimal_digits [OF this] that show False by (simp add: is_digit_def)
      qed
      with Cons show ?thesis by auto
    qed (use True in \<open>auto simp: dot_end_def\<close>)
    moreover have "p = decimal (unat v) \<longleftrightarrow> seen \<and> out = v"
      using decimal_ne [of "unat v", symmetric] by (simp add: p_def word_unat_eq_iff)
    moreover have "dotted_decimal_loop out seen (u # s) = (if seen then (Some out, s) else (None, s))"
      using True by (simp add: CBS_len_def)
    ultimately show ?thesis using True unfolding p_def [symmetric] by auto
  next
    case False
    have rhs: "(\<exists>ds e. u # s = ds @ e \<and> dot_end e t \<and> p @ ds = decimal (unat v)) \<longleftrightarrow>
        (\<exists>ds e. s = ds @ e \<and> dot_end e t \<and> p @ u # ds = decimal (unat v))"
      using False by (auto simp: dot_end_def Cons_eq_append_conv)
    have c: "\<not> (u = ch_dot \<and> CBS_len s > 0)" using False by (simp add: CBS_len_def)
    show ?thesis
    proof (cases "is_digit u \<and> \<not> (seen \<and> out = 0) \<and> unat out * 10 + digit_val u < size_lim")
      case True
      note good = dotted_step_good [OF "2.prems", of u]
      have g: "\<not> (u < ch_0 \<or> u > ch_9 \<or> (seen \<and> out = 0) \<or> out > (- 1) div 10 \<or>
          out * 10 > (- 1) - ucast (u - ch_0))"
        using True u64_room_iff [OF digit_char(2), of u out] is_digit_iff [of u]
        unfolding digit_ucast [OF conjunct1 [OF True]] by auto
      have "dotted_decimal_loop out seen (u # s) = dotted_decimal_loop (out * 10 + ucast (u - ch_0)) True s"
        unfolding dotted_decimal_loop.simps if_not_P [OF c] if_not_P [OF g] ..
      with "2.IH" [OF c g] good True show ?thesis
        unfolding rhs [unfolded p_def] by simp
    next
      case bad: False
      then have "u < ch_0 \<or> u > ch_9 \<or> (seen \<and> out = 0) \<or> out > (- 1) div 10 \<or>
          out * 10 > (- 1) - ucast (u - ch_0)"
        using u64_room_iff [OF digit_char(2), of u out] is_digit_iff [of u] digit_ucast [of u] by auto
      then have "dotted_decimal_loop out seen (u # s) = (None, s)"
        unfolding dotted_decimal_loop.simps if_not_P [OF c] by (rule if_P)
      then show ?thesis
        using bad dotted_step_bad [OF "2.prems", of u _ v] unfolding rhs [unfolded p_def] by auto
    qed
  qed
qed

lemma parse_dotted_decimal_iff:
  "parse_dotted_decimal s = (Some v, t) \<longleftrightarrow> (\<exists>e. s = decimal (unat v) @ e \<and> dot_end e t)"
  unfolding parse_dotted_decimal_def by (subst dotted_loop_iff) auto

section \<open>Text and contents of an object identifier\<close>

fun dotted :: "nat list \<Rightarrow> bytes" where
  "dotted [] = []"
| "dotted [n] = decimal n"
| "dotted (n # ns) = decimal n @ ch_dot # dotted ns"

definition oid_valid :: "nat list \<Rightarrow> bool" where
  "oid_valid ns \<longleftrightarrow>
     (\<exists>a b r. ns = a # b # r \<and> a \<le> 2 \<and> (a < 2 \<longrightarrow> b \<le> 39) \<and> 40 * a + b < 2 ^ 64 \<and> (\<forall>n \<in> set r. n < 2 ^ 64))"

fun oid_body :: "nat list \<Rightarrow> bytes" where
  "oid_body (a # b # r) = b128 (40 * a + b) @ concat (map b128 r)"
| "oid_body _ = []"

lemma dotted_Cons: "ns \<noteq> [] \<Longrightarrow> dotted (n # ns) = decimal n @ ch_dot # dotted ns"
  by (cases ns) auto

lemma dotted_ne [simp]: "dotted ns = [] \<longleftrightarrow> ns = []"
  by (induction ns rule: dotted.induct) auto

lemma dot_end_dotted: "dot_end (case ns of [] \<Rightarrow> [] | _ \<Rightarrow> ch_dot # dotted ns) (dotted ns)"
  by (cases ns) (auto simp: dot_end_def)

lemma dotted_Cons_eq: "dotted (n # ns) = decimal n @ (case ns of [] \<Rightarrow> [] | _ \<Rightarrow> ch_dot # dotted ns)"
  by (cases ns) auto

lemma unat_of_nat_u64: "n < 2 ^ 64 \<Longrightarrow> unat (of_nat n :: u64) = n"
  by (simp only: unat_of_nat) simp

lemma parse_dotted_Cons:
  "n < 2 ^ 64 \<Longrightarrow> parse_dotted_decimal (dotted (n # ns)) = (Some (of_nat n), dotted ns)"
  unfolding parse_dotted_decimal_iff dotted_Cons_eq using dot_end_dotted [of ns]
  by (intro exI conjI) (simp_all add: unat_of_nat_u64)

text \<open>What was parsed, put back in front of text that is again dotted decimal.\<close>

lemma dotted_parsed:
  "parse_dotted_decimal s = (Some v, dotted ns) \<Longrightarrow> s = dotted (unat v # ns)"
  by (cases ns) (auto simp: parse_dotted_decimal_iff dot_end_def)

lemma oid_components_text:
  "oid_components al s d st = (True, st') \<Longrightarrow> \<exists>ns. s = dotted ns \<and> (\<forall>n \<in> set ns. n < 2 ^ 64)"
proof (induction al s d st arbitrary: st' rule: oid_components.induct)
  case (1 al s d st)
  show ?case
  proof (cases "s = []")
    case False
    with "1.prems" obtain a t where a: "parse_dotted_decimal s = (Some a, t)"
      and c: "cbb_then (add_base128_integer al a d) (oid_components al t d) st = (True, st')"
      by (subst (asm) oid_components.simps) (auto simp: CBS_len_def split: prod.splits option.splits)
    from c obtain s1 where "oid_components al t d s1 = (True, st')" by (rule cbb_then_cases) auto
    moreover have "CBS_len s > 0" using False by (simp add: CBS_len_def)
    ultimately obtain ns where ns: "t = dotted ns" "\<forall>n \<in> set ns. n < 2 ^ 64"
      using "1.IH" [OF _ a [symmetric] refl] by auto
    from dotted_parsed [of s a ns] a ns show ?thesis by (intro exI [of _ "unat a # ns"]) simp
  qed (auto intro: exI [of _ "[]"])
qed

context allocator
begin

lemma refines_oid_components:
  "\<forall>n \<in> set ns. n < 2 ^ 64 \<Longrightarrow>
   refines malloc (oid_components malloc (dotted ns) d) (put_some d (concat (map b128 ns)))"
proof (induction ns)
  case Nil
  have "oid_components malloc [] d = cbb_ok" by (simp add: fun_eq_iff oid_components.simps CBS_len_def cbb_ok_def)
  then show ?case by (simp add: refines_ok_put_some)
next
  case (Cons n ns)
  have "oid_components malloc (dotted (n # ns)) d =
      cbb_then (add_base128_integer malloc (of_nat n) d) (oid_components malloc (dotted ns) d)"
    using parse_dotted_Cons [of n ns] Cons.prems
    by (auto simp: fun_eq_iff oid_components.simps [of _ "dotted (n # ns)"] CBS_len_def)
  moreover have "refines malloc (add_base128_integer malloc (of_nat n) d) (put_some d (b128 n))"
    using refines_base128 [of "of_nat n" d] Cons.prems by (simp add: refines_put_some_ne unat_of_nat_u64)
  ultimately show ?case using refines_put_some [of malloc _ d "b128 n"] Cons by simp
qed

lemma oid_first_word:
  assumes "a \<le> 2" "a < 2 \<longrightarrow> b \<le> 39" "40 * a + b < 2 ^ 64"
  shows "unat (40 * of_nat a + of_nat b :: u64) = 40 * a + b"
proof -
  have "40 * of_nat a + of_nat b = (of_nat (40 * a + b) :: u64)" by simp
  then show ?thesis using assms unat_of_nat_u64 by metis
qed

lemma refines_oid_from_text:
  assumes v: "oid_valid ns"
  shows "refines malloc (CBB_add_asn1_oid_from_text malloc (dotted ns) d) (put d (oid_body ns))"
proof -
  obtain a b r where ns: "ns = a # b # r" and ok: "a \<le> 2" "a < 2 \<longrightarrow> b \<le> 39" "40 * a + b < 2 ^ 64"
    "\<forall>n \<in> set r. n < 2 ^ 64"
    using v by (auto simp: oid_valid_def)
  have lt: "a < 2 ^ 64" "b < 2 ^ 64" using ok by auto
  have w: "unat (of_nat a :: u64) = a" "unat (of_nat b :: u64) = b"
    using lt by (simp_all only: unat_of_nat_u64)
  have m: "unat ((- 1 :: u64) - 80) = size_lim - 81"
    by (subst unat_sub) (simp_all add: unsigned_minus_1_eq_mask mask_eq_exp_minus_1 word_le_nat_alt)
  have "unat (2 :: u64) = 2" "unat (39 :: u64) = 39" by simp_all
  then have g: "\<not> (of_nat a > (2 :: u64) \<or> (of_nat a < (2 :: u64) \<and> of_nat b > (39 :: u64)) \<or> of_nat b > (- 1 :: u64) - 80)"
    using ok unfolding word_less_nat_alt w m by auto
  have "CBB_add_asn1_oid_from_text malloc (dotted ns) d = cbb_then (CBB_flush malloc d)
      (cbb_then (add_base128_integer malloc (40 * of_nat a + of_nat b) d) (oid_components malloc (dotted r) d))"
    unfolding CBB_add_asn1_oid_from_text_def CBS_init_def ns parse_dotted_Cons [OF lt(1), of "b # r"]
      option.case prod.case parse_dotted_Cons [OF lt(2), of r] if_not_P [OF g] ..
  moreover have "refines malloc (add_base128_integer malloc (40 * of_nat a + of_nat b) d) (put_some d (b128 (40 * a + b)))"
    using refines_base128 [of "40 * of_nat a + of_nat b" d] oid_first_word [OF ok(1-3)]
    by (simp add: refines_put_some_ne)
  from refines_put_some [OF this refines_oid_components [OF ok(4)]]
  have "refines malloc (cbb_then (add_base128_integer malloc (40 * of_nat a + of_nat b) d) (oid_components malloc (dotted r) d))
      (put d (oid_body ns))"
    by (simp add: ns refines_put_some_ne)
  ultimately show ?thesis using refines_then_flush by simp
qed

end

lemma oid_from_text_accepts:
  assumes "CBB_add_asn1_oid_from_text al text d st = (True, st')"
  shows "\<exists>ns. oid_valid ns \<and> text = dotted ns"
proof -
  from assms obtain s1 a t1 b t2 where
    p: "parse_dotted_decimal text = (Some a, t1)" "parse_dotted_decimal t1 = (Some b, t2)"
    and g: "\<not> (a > 2 \<or> (a < 2 \<and> b > 39) \<or> b > (- 1) - 80)"
    and c: "cbb_then (add_base128_integer al (40 * a + b) d) (oid_components al t2 d) s1 = (True, st')"
    unfolding CBB_add_asn1_oid_from_text_def
    by (elim cbb_then_cases) (auto simp: CBS_init_def split: prod.splits option.splits if_splits)
  from c obtain s2 where "oid_components al t2 d s2 = (True, st')" by (rule cbb_then_cases) auto
  from oid_components_text [OF this] obtain r where r: "t2 = dotted r" "\<forall>n \<in> set r. n < 2 ^ 64" by blast
  have m: "unat ((- 1 :: u64) - 80) = size_lim - 81"
    by (subst unat_sub) (simp_all add: unsigned_minus_1_eq_mask mask_eq_exp_minus_1 word_le_nat_alt)
  have "unat (2 :: u64) = 2" "unat (39 :: u64) = 39" by simp_all
  then have "unat a \<le> 2" "unat a < 2 \<longrightarrow> unat b \<le> 39" "unat b \<le> size_lim - 81"
    using g unfolding word_less_nat_alt m by auto
  then have "oid_valid (unat a # unat b # r)" using r(2) by (auto simp: oid_valid_def)
  moreover have "text = dotted (unat a # unat b # r)"
    using dotted_parsed [of "text" a "unat b # r"] dotted_parsed [of t1 b r] p r(1) by simp
  ultimately show ?thesis by blast
qed

section \<open>Back to text\<close>

lemma length_decimal: "n < 10 ^ k \<Longrightarrow> 0 < k \<Longrightarrow> length (decimal n) \<le> k"
proof (induction k arbitrary: n)
  case (Suc k)
  show ?case
  proof (cases "n < 10")
    case False
    then have "0 < k" using Suc.prems by (cases k) auto
    moreover have "n div 10 < 10 ^ k" using Suc.prems by (simp add: div_less_iff_less_mult mult.commute)
    ultimately show ?thesis using Suc.IH [of "n div 10"] False by (simp add: decimal_big)
  qed (simp add: decimal_small)
qed simp

lemma length_decimal_u64: "length (decimal (unat (v :: u64))) \<le> 20"
  using u64_less_lim [of v] by (intro length_decimal) (simp_all del: u64_less_lim)

lemma dotted_concat: "dotted (n # ns) = decimal n @ concat (map (\<lambda>m. ch_dot # decimal m) ns)"
proof (induction ns arbitrary: n)
  case (Cons m ns)
  then show ?case by (simp add: dotted_Cons)
qed simp

lemma oid_text_loop_bytes:
  "oid_text_loop al s st = (True, st') \<Longrightarrow> \<exists>ns. s = concat (map b128 ns) \<and> (\<forall>n \<in> set ns. n < 2 ^ 64)"
proof (induction al s st arbitrary: st' rule: oid_text_loop.induct)
  case (1 al s st)
  show ?case
  proof (cases "s = []")
    case False
    with "1.prems" obtain v t where v: "parse_base128_integer s = (Some v, t)"
      and c: "cbb_then (CBB_add_u8 al ch_dot 0) (cbb_then (add_decimal al v 0) (oid_text_loop al t)) st = (True, st')"
      by (subst (asm) oid_text_loop.simps) (auto simp: CBS_len_def split: prod.splits option.splits)
    from c obtain s1 where "oid_text_loop al t s1 = (True, st')" by (elim cbb_then_cases) auto
    moreover have "CBS_len s \<noteq> 0" using False by (simp add: CBS_len_def)
    ultimately obtain ns where "t = concat (map b128 ns)" "\<forall>n \<in> set ns. n < 2 ^ 64"
      using "1.IH" [OF _ v [symmetric] refl] by auto
    with base128.canonical [OF v] show ?thesis by (intro exI [of _ "unat v # ns"]) simp
  qed (auto intro: exI [of _ "[]"])
qed

definition oid_first_text :: "allocator \<Rightarrow> u64 \<Rightarrow> cbb_op" where
  "oid_first_text al v =
     (if v \<ge> 80 then cbb_then (CBB_add_bytes al [0x32, ch_dot] 0) (add_decimal al (v - 80) 0)
      else cbb_then (add_decimal al (v div 40) 0)
             (cbb_then (CBB_add_u8 al ch_dot 0) (add_decimal al (v mod 40) 0)))"

definition oid_first :: "nat \<Rightarrow> nat list" where
  "oid_first v = (if 80 \<le> v then [2, v - 80] else [v div 40, v mod 40])"

lemma decimal_2: "decimal 2 = [0x32]"
  by (simp add: decimal_small)

lemma oid_first_valid:
  "v < 2 ^ 64 \<Longrightarrow> \<forall>n \<in> set ns. n < 2 ^ 64 \<Longrightarrow>
   oid_valid (oid_first v @ ns) \<and> oid_body (oid_first v @ ns) = b128 v @ concat (map b128 ns)"
  by (auto simp: oid_valid_def oid_first_def)

lemma oid_first_eq:
  "a \<le> 2 \<Longrightarrow> a < 2 \<longrightarrow> b \<le> 39 \<Longrightarrow> oid_first (40 * a + b) = [a, b]"
  by (cases "a = 2") (auto simp: oid_first_def)

context allocator
begin

lemma refines_add_decimal: "refines malloc (add_decimal malloc v d) (put d (decimal (unat v)))"
  unfolding add_decimal_def using length_decimal_u64 [of v] by (intro refines_add_bytes) simp

lemma refines_oid_text_loop:
  "\<forall>n \<in> set ns. n < 2 ^ 64 \<Longrightarrow>
   refines malloc (oid_text_loop malloc (concat (map b128 ns))) (put_some 0 (concat (map (\<lambda>m. ch_dot # decimal m) ns)))"
proof (induction ns)
  case Nil
  have "oid_text_loop malloc [] = cbb_ok" by (simp add: fun_eq_iff oid_text_loop.simps CBS_len_def cbb_ok_def)
  then show ?case by (simp add: refines_ok_put_some)
next
  case (Cons n ns)
  have n: "unat (of_nat n :: u64) = n" using Cons.prems by (simp add: unat_of_nat_u64)
  then have "parse_base128_integer (concat (map b128 (n # ns))) = (Some (of_nat n), concat (map b128 ns))"
    using base128.roundtrip [of "of_nat n" "concat (map b128 ns)"] by simp
  then have "oid_text_loop malloc (concat (map b128 (n # ns))) =
      cbb_then (CBB_add_u8 malloc ch_dot 0) (cbb_then (add_decimal malloc (of_nat n) 0) (oid_text_loop malloc (concat (map b128 ns))))"
    by (intro ext, subst oid_text_loop.simps) (simp add: CBS_len_def)
  moreover have "refines malloc (add_decimal malloc (of_nat n) 0) (put_some 0 (decimal n))"
    using refines_add_decimal [of "of_nat n" 0] n by (simp add: refines_put_some_ne)
  ultimately show ?case
    using refines_put_some [OF refines_add_u8_some [of ch_dot 0] refines_put_some [of malloc _ 0 "decimal n"]] Cons by simp
qed

lemma refines_oid_first: "refines malloc (oid_first_text malloc v) (put 0 (dotted (oid_first (unat v))))"
proof (cases "v \<ge> 80")
  case True
  then have u: "80 \<le> unat v" by (simp add: word_le_nat_alt)
  then have "unat (v - 80) = unat v - 80" using True by (subst unat_sub) simp_all
  with refines_put_put [OF refines_add_bytes refines_add_decimal, of "[0x32, ch_dot]" 0 "v - 80"] True u
  show ?thesis by (simp add: oid_first_text_def oid_first_def decimal_2)
next
  case False
  then have u: "\<not> 80 \<le> unat v" by (simp add: word_le_nat_alt)
  have "unat (v div 40) = unat v div 40" "unat (v mod 40) = unat v mod 40"
    by (simp_all add: unat_div_distrib unat_mod_distrib)
  with refines_put_put [OF refines_add_decimal refines_put_put [OF refines_add_u8 refines_add_decimal],
      of "v div 40" 0 ch_dot "v mod 40"] False u
  show ?thesis by (simp add: oid_first_text_def oid_first_def)
qed

end

definition oid_to_text_op :: "allocator \<Rightarrow> u64 \<Rightarrow> bytes \<Rightarrow> cbb_op" where
  "oid_to_text_op al v copy = cbb_then (oid_first_text al v) (cbb_then (oid_text_loop al copy) (CBB_add_u8 al 0 0))"

context allocator
begin

lemma refines_oid_to_text:
  assumes "\<forall>n \<in> set ns. n < 2 ^ 64"
  shows "refines malloc (oid_to_text_op malloc v (concat (map b128 ns)))
    (put 0 (dotted (oid_first (unat v) @ ns) @ [0]))"
proof -
  have d: "dotted (xs @ ns) = dotted xs @ concat (map (\<lambda>m. ch_dot # decimal m) ns)" if "xs \<noteq> []" for xs
    using that by (cases xs) (simp_all add: dotted_concat)
  have ne: "oid_first (unat v) \<noteq> []" by (simp add: oid_first_def)
  have "refines malloc (oid_first_text malloc v) (put_some 0 (dotted (oid_first (unat v))))"
    using refines_oid_first [of v] ne by (simp add: refines_put_some_ne)
  from refines_put_some [OF this refines_put_some [OF refines_oid_text_loop [OF assms] refines_add_u8_some], of 0]
  show ?thesis unfolding oid_to_text_op_def d [OF ne] by (simp add: refines_put_some_ne)
qed

lemma oid_to_text_eq:
  "CBS_asn1_oid_to_text al cbs =
     (case CBB_init al 32 of (ok, cbb) \<Rightarrow>
        if \<not> ok then None
        else
          (case parse_base128_integer cbs of
             (None, _) \<Rightarrow> None
           | (Some v, copy) \<Rightarrow>
               (case oid_to_text_op al v copy cbb of
                  (ok, cbb) \<Rightarrow>
                    if \<not> ok then None
                    else case CBB_finish al True True 0 cbb of
                           (None, _) \<Rightarrow> None
                         | (Some out, _) \<Rightarrow> Some (handed_out out))))"
  unfolding CBS_asn1_oid_to_text_def oid_to_text_op_def oid_first_text_def ..

lemma put_root: "put 0 x [(Root, [])] = Some [(Root, x)]"
  by (simp add: put_def close_at_def add_last_def)

lemma oid_to_text_sound:
  assumes t: "CBS_asn1_oid_to_text malloc cbs = Some txt"
  shows "\<exists>ns. oid_valid ns \<and> cbs = oid_body ns \<and> txt = dotted ns @ [0]"
proof -
  from t obtain s0 v copy s1 out st' where s0: "CBB_init malloc 32 = (True, s0)"
    and v: "parse_base128_integer cbs = (Some v, copy)" and op: "oid_to_text_op malloc v copy s0 = (True, s1)"
    and f: "CBB_finish malloc True True 0 s1 = (Some out, st')" "txt = handed_out out"
    unfolding oid_to_text_eq by (auto split: prod.splits option.splits if_splits)
  from op obtain s2 s3 where "oid_text_loop malloc copy s2 = (True, s3)"
    unfolding oid_to_text_op_def by (elim cbb_then_cases) auto
  from oid_text_loop_bytes [OF this] obtain ns where ns: "copy = concat (map b128 ns)" "\<forall>n \<in> set ns. n < 2 ^ 64" by blast
  let ?ns = "oid_first (unat v) @ ns"
  have init: "represents s0 [(Root, [])]" using CBB_init_represents(1) [OF _ s0] by simp
  from refines_ok [OF refines_oid_to_text [OF ns(2)] init] op
  have "represents s1 [(Root, dotted ?ns @ [0])]" unfolding ns(1) put_root by auto
  from CBB_finish_ok [OF this f(1)] have "txt = dotted ?ns @ [0]" using f(2) by simp
  moreover have "oid_valid ?ns" "cbs = oid_body ?ns"
    using oid_first_valid [OF _ ns(2), of "unat v"] base128.canonical [OF v] ns(1) u64_less_lim [of v] by simp_all
  ultimately show ?thesis by blast
qed

lemma oid_to_text_complete:
  assumes v: "oid_valid ns" and al: "\<forall>k \<le> 2 * length (dotted ns) + 128. malloc k \<noteq> None"
    and len: "2 * length (dotted ns) + 128 < size_lim"
  shows "CBS_asn1_oid_to_text malloc (oid_body ns) = Some (dotted ns @ [0])"
proof -
  obtain a b r where ns: "ns = a # b # r" and ok: "a \<le> 2" "a < 2 \<longrightarrow> b \<le> 39" "40 * a + b < 2 ^ 64"
    "\<forall>n \<in> set r. n < 2 ^ 64"
    using v by (auto simp: oid_valid_def)
  let ?v = "of_nat (40 * a + b) :: u64"
  have u: "unat ?v = 40 * a + b" using ok(3) by (rule unat_of_nat_u64)
  have p: "parse_base128_integer (oid_body ns) = (Some ?v, concat (map b128 r))"
    using base128.roundtrip [of ?v "concat (map b128 r)"] by (simp only: u ns oid_body.simps)
  have nsf: "oid_first (unat ?v) @ r = ns" unfolding u oid_first_eq [OF ok(1,2)] by (simp add: ns)
  have "malloc 40 \<noteq> None" using al by simp
  then obtain s0 where s0: "CBB_init malloc 32 = (True, s0)"
    by (auto simp: CBB_init_def cbb_init_def OPENSSL_malloc_def size_add_exact Let_def)
  let ?m = "length (dotted ns @ [0])"
  have init: "represents s0 [(Root, [])]" "has_room malloc s0 ?m"
    using CBB_init_represents(1) [OF _ s0] CBB_init_represents(2) [OF _ s0, of ?m] al len by simp_all
  from refines_room [OF refines_oid_to_text [OF ok(4)] init(1), of ?v, unfolded nsf put_root, OF refl init(2)]
  obtain s1 where s1: "oid_to_text_op malloc ?v (concat (map b128 r)) s0 = (True, s1)" "has_room malloc s1 ?m"
    "represents s1 [(Root, dotted ns @ [0])]" by auto
  from CBB_finish_room [OF s1(3) _ s1(2)] obtain out st' where
    "CBB_finish malloc True True 0 s1 = (Some out, st')" "handed_out out = dotted ns @ [0]" by auto
  with s0 p s1(1) show ?thesis by (simp add: oid_to_text_eq)
qed

end

end
