(* ===== verification/CbbCalls.thy ===== *)
theory CbbCalls
  imports Oid
begin

text \<open>
  Clients of the builder: sequences of the calls of \<open>cbb.c\<close>, what a sequence means, and that running it yields that.
\<close>

section \<open>Sequences of calls\<close>

text \<open>
  The calls a client makes between \<open>CBB_init\<close> and \<open>CBB_finish\<close>, each on the \<open>CBB\<close> at some depth: every
  \<open>CBB_add_*\<close> function, where space from \<open>CBB_add_space\<close> is filled at once, and \<open>CBB_flush\<close>.
\<close>

datatype cbb_call =
    Flush
  | Add_u8 u8 | Add_u16 u16 | Add_u24 u32 | Add_u32 u32 | Add_u64 u64
  | Add_u16le u16 | Add_u32le u32 | Add_u64le u64
  | Add_bytes bytes | Add_zeros nat
  | Open_u8 | Open_u16 | Open_u24 | Open_asn1 u32
  | Add_uint64 u64 | Add_int64 u64 | Add_octets bytes | Add_bool bool
  | Add_space bytes | Add_oid bytes

fun do_call :: "allocator \<Rightarrow> cbb_call \<Rightarrow> nat \<Rightarrow> cbb_op" where
  "do_call al Flush d = CBB_flush al d"
| "do_call al (Add_u8 v) d = CBB_add_u8 al v d"
| "do_call al (Add_u16 v) d = CBB_add_u16 al v d"
| "do_call al (Add_u24 v) d = CBB_add_u24 al v d"
| "do_call al (Add_u32 v) d = CBB_add_u32 al v d"
| "do_call al (Add_u64 v) d = CBB_add_u64 al v d"
| "do_call al (Add_u16le v) d = CBB_add_u16le al v d"
| "do_call al (Add_u32le v) d = CBB_add_u32le al v d"
| "do_call al (Add_u64le v) d = CBB_add_u64le al v d"
| "do_call al (Add_bytes bs) d = CBB_add_bytes al bs d"
| "do_call al (Add_zeros n) d = CBB_add_zeros al n d"
| "do_call al Open_u8 d = CBB_add_u8_length_prefixed al d"
| "do_call al Open_u16 d = CBB_add_u16_length_prefixed al d"
| "do_call al Open_u24 d = CBB_add_u24_length_prefixed al d"
| "do_call al (Open_asn1 tag) d = CBB_add_asn1 al tag d"
| "do_call al (Add_uint64 v) d = CBB_add_asn1_uint64 al v d"
| "do_call al (Add_int64 v) d = CBB_add_asn1_int64 al v d"
| "do_call al (Add_octets bs) d = CBB_add_asn1_octet_string al bs d"
| "do_call al (Add_bool v) d = CBB_add_asn1_bool al v d"
| "do_call al (Add_space bs) d = cbb_then (CBB_add_space al (length bs) d) (\<lambda>st. fill_base (base_len st - length bs) bs st)"
| "do_call al (Add_oid text) d = CBB_add_asn1_oid_from_text al text d"

text \<open>
  The components that \<open>CBB_add_asn1_oid_from_text\<close> writes for a text: all of them when the text is well formed, and
  those in front of the first malformed one when it is not.  The call then returns 0, but what it has written stays,
  and the error flag is not set.
\<close>

function component_values :: "bytes \<Rightarrow> u64 list" where
  "component_values s =
     (if s = [] then []
      else case parse_dotted_decimal s of (None, _) \<Rightarrow> [] | (Some v, t) \<Rightarrow> v # component_values t)"
  by pat_completeness auto
termination
  by (relation "measure length") (auto simp: parse_dotted_decimal_def dest!: sym [of "(Some _, _)"] dotted_loop_shorter)

declare component_values.simps [simp del]

definition oid_values :: "bytes \<Rightarrow> u64 list" where
  "oid_values s =
     (case parse_dotted_decimal s of
        (None, _) \<Rightarrow> []
      | (Some a, t) \<Rightarrow>
          (case parse_dotted_decimal t of
             (None, _) \<Rightarrow> []
           | (Some b, t) \<Rightarrow>
               if a > 2 \<or> (a < 2 \<and> b > 39) \<or> b > (- 1) - 80 then [] else (40 * a + b) # component_values t))"

definition values_body :: "u64 list \<Rightarrow> bytes" where
  "values_body vs = concat (map (\<lambda>v. b128 (unat v)) vs)"

text \<open>The bytes a call adds, or the child it opens.\<close>

fun call_bytes :: "cbb_call \<Rightarrow> bytes option" where
  "call_bytes (Add_u8 v) = Some [v]"
| "call_bytes (Add_u16 v) = Some (be_bytes 2 (unat v))"
| "call_bytes (Add_u24 v) = (if unat v < 2 ^ 24 then Some (be_bytes 3 (unat v)) else None)"
| "call_bytes (Add_u32 v) = Some (be_bytes 4 (unat v))"
| "call_bytes (Add_u64 v) = Some (be_bytes 8 (unat v))"
| "call_bytes (Add_u16le v) = Some (le_bytes 2 (unat v))"
| "call_bytes (Add_u32le v) = Some (le_bytes 4 (unat v))"
| "call_bytes (Add_u64le v) = Some (le_bytes 8 (unat v))"
| "call_bytes (Add_bytes bs) = Some bs"
| "call_bytes (Add_zeros n) = Some (replicate n 0)"
| "call_bytes (Open_asn1 tag) = Some (der_tag tag)"
| "call_bytes (Add_uint64 v) = Some (der CBS_ASN1_INTEGER (int_body (uint v)))"
| "call_bytes (Add_int64 v) = Some (der CBS_ASN1_INTEGER (int_body (sint v)))"
| "call_bytes (Add_octets bs) = element CBS_ASN1_OCTETSTRING bs"
| "call_bytes (Add_bool v) = Some (der CBS_ASN1_BOOLEAN [if v then 0xff else 0])"
| "call_bytes (Add_space bs) = Some bs"
| "call_bytes (Add_oid text) = Some (values_body (oid_values text))"
| "call_bytes _ = Some []"

fun call_child :: "cbb_call \<Rightarrow> pfx option" where
  "call_child Open_u8 = Some (Len_pfx 1)"
| "call_child Open_u16 = Some (Len_pfx 2)"
| "call_child Open_u24 = Some (Len_pfx 3)"
| "call_child (Open_asn1 tag) = Some Asn1_pfx"
| "call_child _ = None"

definition spec_call :: "cbb_call \<Rightarrow> nat \<Rightarrow> acbb \<Rightarrow> acbb option" where
  "spec_call c d a =
     (case call_bytes c of
        None \<Rightarrow> None
      | Some bs \<Rightarrow> map_option (case call_child c of None \<Rightarrow> id | Some k \<Rightarrow> open_last k) (put d bs a))"

fun call_args_ok :: "cbb_call \<Rightarrow> bool" where
  "call_args_ok (Add_bytes bs) = (length bs < size_lim)"
| "call_args_ok (Add_octets bs) = (length bs < size_lim)"
| "call_args_ok (Add_zeros n) = (n < size_lim)"
| "call_args_ok (Add_space bs) = (length bs < size_lim)"
| "call_args_ok _ = True"

lemma spec_call_plain:
  "call_child c = None \<Longrightarrow> call_bytes c = Some bs \<Longrightarrow> spec_call c d a = put d bs a"
  by (simp add: spec_call_def option.map_id)

lemma spec_call_open:
  "call_child c = Some k \<Longrightarrow> call_bytes c = Some bs \<Longrightarrow> spec_call c d a = map_option (open_last k) (put d bs a)"
  by (simp add: spec_call_def)

text \<open>
  What a call does to the state: \<open>CBB_add_asn1_oid_from_text\<close> appends the components, and whether it then returns 1
  or 0 does not matter to the state.
\<close>

fun add_values :: "allocator \<Rightarrow> u64 list \<Rightarrow> nat \<Rightarrow> cbb_op" where
  "add_values al [] d = cbb_ok"
| "add_values al (v # vs) d = cbb_then (add_base128_integer al v d) (add_values al vs d)"

definition effect :: "allocator \<Rightarrow> cbb_call \<Rightarrow> nat \<Rightarrow> cbb_op" where
  "effect al c d =
     (case c of Add_oid text \<Rightarrow> cbb_then (CBB_flush al d) (add_values al (oid_values text) d) | _ \<Rightarrow> do_call al c d)"

lemma then_state: "(\<And>st. snd (g st) = snd (h st)) \<Longrightarrow> snd (cbb_then f g st) = snd (cbb_then f h st)"
  by (auto simp: cbb_then_def split: prod.split)

lemma components_state: "snd (oid_components al s d st) = snd (add_values al (component_values s) d st)"
proof (induction al s d st rule: oid_components.induct)
  case (1 al s d st)
  show ?case
  proof (cases "s = []")
    case False
    obtain r t where p: "parse_dotted_decimal s = (r, t)" by fastforce
    show ?thesis
    proof (cases r)
      case (Some v)
      have "snd (oid_components al t d st') = snd (add_values al (component_values t) d st')" for st'
        using "1.IH" [OF _ p [symmetric] Some] False by (simp add: CBS_len_def)
      then have "snd (cbb_then (add_base128_integer al v d) (oid_components al t d) st) =
          snd (cbb_then (add_base128_integer al v d) (add_values al (component_values t) d) st)"
        by (rule then_state)
      then show ?thesis
        using False p Some by (subst oid_components.simps, subst component_values.simps) (simp add: CBS_len_def)
    qed (use False p in \<open>subst oid_components.simps, subst component_values.simps, simp add: CBS_len_def cbb_ok_def\<close>)
  qed (simp add: oid_components.simps component_values.simps CBS_len_def cbb_ok_def)
qed

lemma effect_state: "snd (do_call al c d st) = snd (effect al c d st)"
proof (cases c)
  case (Add_oid s)
  obtain r t where p: "parse_dotted_decimal s = (r, t)" by fastforce
  obtain r' t' where p': "parse_dotted_decimal t = (r', t')" by fastforce
  have "snd (cbb_then f (oid_components al t' d) st) = snd (cbb_then f (add_values al (component_values t') d) st)" for f st
    by (rule then_state) (rule components_state)
  then show ?thesis
    unfolding Add_oid effect_def cbb_call.case do_call.simps CBB_add_asn1_oid_from_text_def
    by (intro then_state) (simp add: CBS_init_def oid_values_def p p' cbb_ok_def split: option.split)
qed (simp_all add: effect_def)

context allocator
begin

lemma refines_length_prefixed_open:
  "0 < n \<Longrightarrow> n \<le> 8 \<Longrightarrow> refines malloc (cbb_add_length_prefixed malloc n d)
    (\<lambda>a. map_option (open_last (Len_pfx n)) (put d [] a))"
  by (rule refines_cong_valid [OF refines_length_prefixed]) (simp_all add: put_Nil)

lemma refines_add_values: "refines malloc (add_values malloc vs d) (put_some d (values_body vs))"
proof (induction vs)
  case Nil
  then show ?case by (simp add: values_body_def refines_ok_put_some)
next
  case (Cons v vs)
  have "refines malloc (add_base128_integer malloc v d) (put_some d (b128 (unat v)))"
    using refines_base128 [of v d] by (simp add: refines_put_some_ne)
  from refines_put_some [OF this Cons.IH] show ?case by (simp add: values_body_def)
qed

lemma refines_flush_values:
  "refines malloc (cbb_then (CBB_flush malloc d) (add_values malloc vs d)) (put d (values_body vs))"
proof (cases "vs = []")
  case True
  have "cbb_then (CBB_flush malloc d) cbb_ok = CBB_flush malloc d"
    by (auto simp: fun_eq_iff cbb_then_def cbb_ok_def split: prod.split)
  then show ?thesis
    using True refines_cong_valid [OF refines_flush [of d], where h = "put d []"] by (simp add: values_body_def put_Nil)
next
  case False
  then have "values_body vs \<noteq> []" by (cases vs) (simp_all add: values_body_def)
  then show ?thesis
    using refines_then_flush refines_add_values [of vs d] by (simp add: refines_put_some_ne)
qed

lemma effect_refines:
  assumes c: "call_args_ok c"
  shows "refines malloc (effect malloc c d) (spec_call c d)"
proof (cases c)
  case (Add_oid s)
  then show ?thesis
    using refines_cong [OF refines_flush_values, where h = "spec_call c d"] by (simp add: effect_def spec_call_plain)
next
  case Flush
  then show ?thesis
    using refines_cong_valid [OF refines_flush [of d], where h = "spec_call c d"] by (simp add: effect_def spec_call_plain put_Nil)
next
  case (Add_u24 v)
  then show ?thesis
    using refines_cong [OF refines_add_u24 [of v d], where h = "spec_call c d"]
    by (auto simp: effect_def spec_call_def option.map_id)
next
  case Open_u8
  then show ?thesis
    using refines_cong [OF refines_length_prefixed_open [of 1 d], where h = "spec_call c d"]
    by (simp add: effect_def spec_call_open CBB_add_u8_length_prefixed_def)
next
  case Open_u16
  then show ?thesis
    using refines_cong [OF refines_length_prefixed_open [of 2 d], where h = "spec_call c d"]
    by (simp add: effect_def spec_call_open CBB_add_u16_length_prefixed_def)
next
  case Open_u24
  then show ?thesis
    using refines_cong [OF refines_length_prefixed_open [of 3 d], where h = "spec_call c d"]
    by (simp add: effect_def spec_call_open CBB_add_u24_length_prefixed_def)
next
  case (Open_asn1 tag)
  then show ?thesis
    using refines_cong [OF refines_add_asn1 [of tag d], where h = "spec_call c d"] by (simp add: effect_def spec_call_open)
next
  case (Add_octets bs)
  then show ?thesis
    using refines_cong [OF refines_octet_string [where data = bs and d = d], where h = "spec_call c d"] c
    by (auto simp: effect_def spec_call_def element_def put_der_def option.map_id)
qed (use c in \<open>auto intro!: refines_cong [OF refines_add_u8] refines_cong [OF refines_add_u16]
    refines_cong [OF refines_add_u32] refines_cong [OF refines_add_u64] refines_cong [OF refines_add_u16le]
    refines_cong [OF refines_add_u32le] refines_cong [OF refines_add_u64le] refines_cong [OF refines_add_bytes]
    refines_cong [OF refines_add_zeros] refines_cong [OF refines_asn1_uint64] refines_cong [OF refines_asn1_int64]
    refines_cong [OF refines_bool] refines_cong [OF refines_add_space_filled] simp: effect_def spec_call_plain\<close>)

lemma guarded_add_values: "guarded (Suc d) (add_values malloc vs d) (Suc d)"
  by (induction vs) (auto simp: add_base128_integer_def Let_def intro!: guarded_ok guarded_then guarded_base128_loop)

lemma guarded_add_space_filled:
  "guarded (Suc d) (cbb_then (CBB_add_space malloc (length bs) d) (\<lambda>st. fill_base (base_len st - length bs) bs st)) (Suc d)"
  unfolding CBB_add_space_def
  by (rule guarded_then_state [OF guarded_then [OF guarded_flush guarded_add]]) (rule guarded_fill)

lemma effect_guarded: "guarded (Suc d) (effect malloc c d) (if call_child c = None then Suc d else Suc (Suc d))"
  by (cases c)
    (auto simp: effect_def CBB_add_u16_def CBB_add_u24_def CBB_add_u32_def CBB_add_u64_def CBB_add_u16le_def
      CBB_add_u32le_def CBB_add_u64le_def CBB_add_u8_length_prefixed_def CBB_add_u16_length_prefixed_def
      CBB_add_u24_length_prefixed_def CBB_add_asn1_octet_string_def CBB_add_asn1_bool_def
      intro!: guarded_flush guarded_add_u8 guarded_then guarded_add_u guarded_add_bytes guarded_add_zeros
      guarded_length_prefixed guarded_add_asn1 guarded_asn1_uint64 guarded_asn1_int64 guarded_asn1_element guarded_add_values guarded_add_space_filled
      intro: guarded_then [OF guarded_flush guarded_add_u])

end

text \<open>A client that makes the calls and never looks at their results.\<close>

fun run_calls :: "allocator \<Rightarrow> (cbb_call \<times> nat) list \<Rightarrow> cbb \<Rightarrow> cbb" where
  "run_calls al [] st = st"
| "run_calls al ((c, d) # cs) st = run_calls al cs (snd (do_call al c d st))"

fun spec_calls :: "(cbb_call \<times> nat) list \<Rightarrow> acbb \<Rightarrow> acbb option" where
  "spec_calls [] a = Some a"
| "spec_calls ((c, d) # cs) a = Option.bind (spec_call c d a) (spec_calls cs)"

text \<open>The calls use \<open>CBB\<close>s that are open: \<open>n\<close> is the number of open \<open>CBB\<close>s.\<close>

fun depths_ok :: "nat \<Rightarrow> (cbb_call \<times> nat) list \<Rightarrow> bool" where
  "depths_ok n [] = True"
| "depths_ok n ((c, d) # cs) \<longleftrightarrow>
     d < n \<and> call_args_ok c \<and> depths_ok (if call_child c = None then Suc d else Suc (Suc d)) cs"

lemma run_calls_effect: "run_calls al ((c, d) # cs) st = run_calls al cs (snd (effect al c d st))"
  by (simp add: effect_state)

declare run_calls.simps(2) [simp del] run_calls_effect [simp]

context allocator
begin

lemma length_spec_call:
  "spec_call c d a = Some a' \<Longrightarrow> length a' = (if call_child c = None then Suc d else Suc (Suc d))"
  by (auto simp: spec_call_def open_last_def split: option.splits dest!: length_put)

lemma represents_live: "represents st a \<Longrightarrow> d < length a \<Longrightarrow> live (Suc d) st"
  by (auto simp: represents_def live_def)

lemma run_dead: "dead st \<Longrightarrow> dead (run_calls malloc cs st)"
proof (induction cs arbitrary: st)
  case (Cons cd cs)
  obtain c d where "cd = (c, d)" by (cases cd)
  moreover obtain ok s1 where "effect malloc c d st = (ok, s1)" by (cases "effect malloc c d st")
  ultimately show ?case using Cons guarded_dead [OF effect_guarded Cons.prems] by simp
qed simp

lemma run_calls_spec:
  "represents st a \<Longrightarrow> depths_ok (length a) cs \<Longrightarrow>
   dead (run_calls malloc cs st) \<or> (\<exists>a'. spec_calls cs a = Some a' \<and> represents (run_calls malloc cs st) a')"
proof (induction cs arbitrary: st a)
  case (Cons cd cs)
  obtain c d where cd: "cd = (c, d)" by (cases cd)
  obtain ok s1 where op: "effect malloc c d st = (ok, s1)" by (cases "effect malloc c d st")
  have d: "d < length a" "call_args_ok c" using Cons.prems(2) cd by simp_all
  show ?case
  proof (cases ok)
    case True
    with refines_ok [OF effect_refines [OF d(2), of d] Cons.prems(1), of s1] op
    obtain a1 where a1: "spec_call c d a = Some a1" "represents s1 a1" by auto
    have "depths_ok (length a1) cs" using Cons.prems(2) cd length_spec_call [OF a1(1)] by simp
    from Cons.IH [OF a1(2) this] a1(1) cd op show ?thesis by simp
  next
    case False
    then have "dead s1"
      using guarded_fail [OF effect_guarded represents_live [OF Cons.prems(1) d(1)]] op by simp
    then show ?thesis using run_dead cd op by simp
  qed
qed simp

lemma spec_calls_grows:
  "valid_acbb a \<Longrightarrow> depths_ok n cs \<Longrightarrow> spec_calls cs a = Some a' \<Longrightarrow> length (flat a) \<le> length (flat a')"
proof (induction cs arbitrary: a n)
  case (Cons cd cs)
  obtain c d where cd: "cd = (c, d)" by (cases cd)
  then obtain a1 where a1: "spec_call c d a = Some a1" "spec_calls cs a1 = Some a'"
    using Cons.prems(3) by (auto simp: Option.bind_eq_Some_conv)
  have "call_args_ok c" using Cons.prems(2) cd by simp
  from refines_grows [OF effect_refines [OF this] Cons.prems(1) a1(1)] Cons.prems(2) cd
    Cons.IH [OF _ _ a1(2), of "if call_child c = None then Suc d else Suc (Suc d)"]
  show ?case by simp
qed simp

lemma run_calls_room:
  "represents st a \<Longrightarrow> depths_ok (length a) cs \<Longrightarrow> spec_calls cs a = Some a' \<Longrightarrow>
   has_room malloc st m \<Longrightarrow> length (flat a') \<le> m \<Longrightarrow>
   represents (run_calls malloc cs st) a' \<and> has_room malloc (run_calls malloc cs st) m"
proof (induction cs arbitrary: st a)
  case (Cons cd cs)
  obtain c d where cd: "cd = (c, d)" by (cases cd)
  have d: "d < length a" "call_args_ok c" using Cons.prems(2) cd by simp_all
  obtain a1 where a1: "spec_call c d a = Some a1" "spec_calls cs a1 = Some a'"
    using Cons.prems(3) cd by (auto simp: Option.bind_eq_Some_conv)
  have dk: "depths_ok (length a1) cs" using Cons.prems(2) cd length_spec_call [OF a1(1)] by simp
  have v: "valid_acbb a1"
    using refines_grows [OF effect_refines [OF d(2)] represents_valid [OF Cons.prems(1)] a1(1)] by blast
  have "length (flat a1) \<le> m" using spec_calls_grows [OF v dk a1(2)] Cons.prems(5) by simp
  from refines_room [OF effect_refines [OF d(2)] Cons.prems(1) a1(1) Cons.prems(4) this]
  obtain s1 where "effect malloc c d st = (True, s1)" "has_room malloc s1 m" "represents s1 a1" by blast
  with Cons.IH [OF _ dk a1(2) _ Cons.prems(5)] cd show ?case by simp
qed simp

lemma finish_dead: "dead st \<Longrightarrow> fst (CBB_finish malloc h1 h2 d st) = None"
proof -
  assume "dead st"
  then have "\<not> fst (CBB_flush malloc d st)" using flush_dead by blast
  then show ?thesis by (auto simp: CBB_finish_def split: prod.splits)
qed

text \<open>
  The client may ignore every return value: if \<open>CBB_finish\<close> succeeds, the bytes are those of the
  abstract builder; and it succeeds whenever the abstract builder does and memory suffices.
\<close>

lemma builder_sound:
  assumes "n < size_lim" "CBB_init malloc n = (True, st0)" "depths_ok 1 cs"
    and f: "CBB_finish malloc True True 0 (run_calls malloc cs st0) = (Some out, st')"
  shows "\<exists>a. spec_calls cs [(Root, [])] = Some a \<and> close a = Some (Root, handed_out out)"
proof -
  have "\<not> dead (run_calls malloc cs st0)" using finish_dead f by (metis fst_conv option.distinct(1))
  with run_calls_spec [OF CBB_init_represents(1) [OF assms(1,2)], of cs] assms(3)
  obtain a where "spec_calls cs [(Root, [])] = Some a" "represents (run_calls malloc cs st0) a" by auto
  with CBB_finish_ok [OF _ f] show ?thesis by blast
qed

lemma builder_complete:
  assumes n: "n < size_lim" "CBB_init malloc n = (True, st0)" and d: "depths_ok 1 cs"
    and a: "spec_calls cs [(Root, [])] = Some a" "close a = Some (Root, c)"
    and m: "2 * length c + 8 < size_lim" "\<forall>k \<le> 2 * length c + 8. malloc k \<noteq> None"
  shows "\<exists>out st'. CBB_finish malloc True True 0 (run_calls malloc cs st0) = (Some out, st') \<and> handed_out out = c"
proof -
  have "length (flat a) \<le> length c" using length_close [OF a(2)] by simp
  with run_calls_room [OF CBB_init_represents(1) [OF n] _ a(1) CBB_init_represents(2) [OF n m]] d
  have "represents (run_calls malloc cs st0) a" "has_room malloc (run_calls malloc cs st0) (length c)" by auto
  from CBB_finish_room [OF this(1) a(2) this(2)] show ?thesis .
qed

end

end
