(* ===== verification/CbbProps.thy ===== *)
theory CbbProps
  imports CbbCalls "HOL-Library.Code_Target_Numeral"
begin

text \<open>
  The properties of the builder, for clients that make any sequence of calls and look at the result of \<open>CBB_finish\<close>
  only.
\<close>

section \<open>Properties\<close>

definition sample_calls :: "(cbb_call \<times> nat) list" where
  "sample_calls = [(Open_asn1 0x20000010, 0), (Open_u16, 1), (Add_bytes [1, 2, 3], 2), (Add_bool True, 1)]"

definition sample_start :: cbb where
  "sample_start = snd (CBB_init (arena 1000) 4)"

lemma sample_init: "CBB_init (arena 1000) 4 = (True, sample_start)"
  by (simp add: sample_start_def CBB_init_def cbb_init_def OPENSSL_malloc_def arena_def size_add_def)

lemma sample_depths: "depths_ok 1 sample_calls"
  by (simp add: sample_calls_def)

text \<open>
  C1. A client that makes any sequence of \<open>CBB_add_*\<close> calls and ignores what they return: when
  \<open>CBB_finish\<close> hands out bytes, every length prefix fits, and the bytes are the serialisation of the calls (each
  child closed by its length prefix or DER length, in place).  Space from \<open>CBB_add_space\<close> is filled at once, and
  \<open>CBB_add_asn1_oid_from_text\<close> stands for the components in front of the first malformed one: it is the one call
  that can fail without spoiling the builder.
\<close>

theorem builder_finish_sound:
  assumes "allocator al" "n < size_lim" "CBB_init al n = (True, st0)" "depths_ok 1 calls"
    and "fst (CBB_finish al True True 0 (run_calls al calls st0)) = Some out"
  shows "\<exists>a. spec_calls calls [(Root, [])] = Some a \<and> close a = Some (Root, handed_out out)"
  using assms allocator.builder_sound [of al n st0 calls out]
  by (metis prod.collapse)

definition sample_oid_calls :: "(cbb_call \<times> nat) list" where
  "sample_oid_calls = [(Open_asn1 0x6, 0), (Add_oid [0x31, 0x2e, 0x32, 0x2e, 0x78], 1), (Add_space [7], 0)]"

definition sample_oid_result :: "(bytes option \<times> nat) option" where
  "sample_oid_result = fst (CBB_finish (arena 1000) True True 0 (run_calls (arena 1000) sample_oid_calls sample_start))"

lemma sample_oid_ok: "sample_oid_result = Some (the sample_oid_result)" "handed_out (the sample_oid_result) = [6, 1, 0x2a, 7]"
  by code_simp+

theorem builder_finish_sound_witness:
  "\<exists>a. spec_calls sample_oid_calls [(Root, [])] = Some a \<and> close a = Some (Root, [6, 1, 0x2a, 7])"
proof -
  have "fst (CBB_finish (arena 1000) True True 0 (run_calls (arena 1000) sample_oid_calls sample_start)) = Some (the sample_oid_result)"
    using sample_oid_ok(1) by (simp only: sample_oid_result_def)
  from builder_finish_sound [OF arena.allocator_axioms _ sample_init _ this] show ?thesis
    unfolding sample_oid_ok(2) by (simp add: sample_oid_calls_def)
qed

text \<open>The text \<open>1.2.x\<close> is refused, and the component in front of the malformed one is handed out all the same.\<close>

lemma oid_error_lost:
  "\<not> fst (do_call (arena 1000) (Add_oid [0x31, 0x2e, 0x32, 0x2e, 0x78]) 0 sample_start) \<and>
   map_option handed_out (fst (CBB_finish (arena 1000) True True 0
     (snd (do_call (arena 1000) (Add_oid [0x31, 0x2e, 0x32, 0x2e, 0x78]) 0 sample_start)))) = Some [0x2a]"
  by code_simp

text \<open>
  C2. The builder loses nothing: when the abstract serialisation of the calls exists and the allocator
  serves requests up to twice its size, \<open>CBB_finish\<close> hands out exactly these bytes, whatever the
  initial capacity.
\<close>

theorem builder_finish_complete:
  assumes "allocator al" "n < size_lim" "CBB_init al n = (True, st0)" "depths_ok 1 calls"
    and "spec_calls calls [(Root, [])] = Some a" "close a = Some (Root, c)"
    and "2 * length c + 8 < size_lim" "\<forall>k \<le> 2 * length c + 8. al k \<noteq> None"
  shows "map_option handed_out (fst (CBB_finish al True True 0 (run_calls al calls st0))) = Some c"
  using allocator.builder_complete [OF assms] by auto

lemma sample_spec:
  "spec_calls sample_calls [(Root, [])] = Some [(Root, [0x30]), (Asn1_pfx, [0, 3, 1, 2, 3, 1, 1, 0xff])]"
  by code_simp

lemma sample_close:
  "close [(Root, [0x30]), (Asn1_pfx, [0, 3, 1, 2, 3, 1, 1, 0xff])] = Some (Root, [0x30, 8, 0, 3, 1, 2, 3, 1, 1, 0xff])"
  by code_simp

theorem builder_finish_complete_witness:
  "map_option handed_out (fst (CBB_finish (arena 1000) True True 0 (run_calls (arena 1000) sample_calls sample_start))) =
   Some [0x30, 8, 0, 3, 1, 2, 3, 1, 1, 0xff]"
  by (rule builder_finish_complete [OF arena.allocator_axioms _ sample_init sample_depths sample_spec sample_close])
    (auto simp: arena_def)

lemma do_call_blocked: "blocked (do_call al c d)"
  by (cases c)
    (auto simp: CBB_add_asn1_oid_from_text_def CBB_add_u8_def CBB_add_u16_def CBB_add_u24_def CBB_add_u32_def CBB_add_u64_def CBB_add_u16le_def
      CBB_add_u32le_def CBB_add_u64le_def CBB_add_u8_length_prefixed_def CBB_add_u16_length_prefixed_def
      CBB_add_u24_length_prefixed_def CBB_add_asn1_octet_string_def CBB_add_asn1_bool_def CBB_add_bytes_def
      CBB_add_zeros_def CBB_add_space_def cbb_add_length_prefixed_def CBB_add_asn1_def CBB_add_asn1_uint64_def
      CBB_add_asn1_int64_def Let_def
      intro!: blocked_then blocked_flush)

text \<open>
  C3. Once a call has set the error flag, every later \<open>CBB_add_*\<close> call returns 0 and leaves it set, and
  \<open>CBB_finish\<close> hands out nothing: an error can not be lost.
\<close>

theorem builder_error_sticks:
  assumes "allocator al" "dead st"
  shows "\<not> fst (do_call al c d st) \<and> dead (snd (do_call al c d st)) \<and> fst (CBB_finish al h1 h2 e st) = None"
  using assms do_call_blocked [of al c d] allocator.effect_guarded [OF assms(1), of d c]
    allocator.finish_dead [OF assms] guarded_dead [of _ "effect al c d" _ st] effect_state [of al c d st]
  unfolding blocked_def by (metis prod.collapse)

definition sample_dead :: cbb where
  "sample_dead = snd (do_call (arena 48) (Add_u24 0x1000000) 0 (snd (CBB_init (arena 48) 4)))"

theorem builder_error_sticks_witness:
  "\<not> fst (do_call (arena 48) (Add_u8 7) 0 sample_dead) \<and> dead (snd (do_call (arena 48) (Add_u8 7) 0 sample_dead)) \<and>
   fst (CBB_finish (arena 48) True True 0 sample_dead) = None"
proof (rule builder_error_sticks [OF arena.allocator_axioms])
  have "map_option cb_error (cbb_base sample_dead) = Some True" by code_simp
  then show "dead sample_dead" by (auto simp: dead_def)
qed

lemma frames_at_bounds:
  "f \<in> set (frames_at p a) \<Longrightarrow>
   p \<le> fr_offset f \<and> fr_offset f + fr_pending_len_len f \<le> p + length (flat a)"
  by (induction p a rule: frames_at.induct) auto

lemma frames_at_order:
  "sorted_wrt (\<lambda>f g. fr_offset f + fr_pending_len_len f \<le> fr_offset g) (frames_at p a)"
  by (induction p a rule: frames_at.induct) (auto dest: frames_at_bounds)

text \<open>
  C4. Every successful call keeps the buffer's invariant, whatever the sequence: the length is within the
  capacity, the capacity is the size of the allocation, and the open children lie inside the written
  bytes, each prefix reserved before its contents and children after their parents.
\<close>

theorem builder_invariant:
  assumes "allocator al" "n < size_lim" "CBB_init al n = (True, st0)" "depths_ok 1 calls"
    and "\<not> dead (run_calls al calls st0)"
  shows "\<exists>b. cbb_base (run_calls al calls st0) = Some b \<and> cb_len b \<le> cb_cap b \<and> length (buf_bytes b) = cb_cap b \<and>
    cb_cap b < size_lim \<and>
    sorted_wrt (\<lambda>f g. fr_offset f + fr_pending_len_len f \<le> fr_offset g) (cbb_chain (run_calls al calls st0)) \<and>
    (\<forall>f \<in> set (cbb_chain (run_calls al calls st0)). fr_offset f + fr_pending_len_len f \<le> cb_len b)"
proof -
  obtain a where r: "represents (run_calls al calls st0) a"
    using allocator.run_calls_spec [OF assms(1) allocator.CBB_init_represents(1) [OF assms(1-3)], of calls] assms(4,5)
    by auto
  then obtain b where b: "cbb_base (run_calls al calls st0) = Some b" "wf_buffer b" "written b = flat a"
    "cbb_chain (run_calls al calls st0) = frames_at 0 a" by (auto simp: represents_def)
  with wf_bufferD [OF b(2)] frames_at_order [of 0 a] frames_at_bounds [of _ 0 a] show ?thesis by auto
qed

theorem builder_invariant_witness:
  "\<exists>b. cbb_base (run_calls (arena 1000) sample_calls sample_start) = Some b \<and> cb_len b \<le> cb_cap b \<and>
    length (buf_bytes b) = cb_cap b \<and> cb_cap b < size_lim \<and>
    sorted_wrt (\<lambda>f g. fr_offset f + fr_pending_len_len f \<le> fr_offset g)
      (cbb_chain (run_calls (arena 1000) sample_calls sample_start)) \<and>
    (\<forall>f \<in> set (cbb_chain (run_calls (arena 1000) sample_calls sample_start)).
      fr_offset f + fr_pending_len_len f \<le> cb_len b)"
proof (rule builder_invariant [OF arena.allocator_axioms _ sample_init sample_depths])
  have "map_option cb_error (cbb_base (run_calls (arena 1000) sample_calls sample_start)) = Some False" by code_simp
  then show "\<not> dead (run_calls (arena 1000) sample_calls sample_start)" by (auto simp: dead_def)
qed simp

text \<open>A fixed buffer keeps its size: no operation resizes it, failing ones included.\<close>

definition fixed_buffer :: "nat \<Rightarrow> cbb_buffer \<Rightarrow> bool" where
  "fixed_buffer k b \<longleftrightarrow> \<not> cb_can_resize b \<and> cb_cap b = k"

definition fixed_cbb :: "nat \<Rightarrow> cbb \<Rightarrow> bool" where
  "fixed_cbb k st \<longleftrightarrow> (\<exists>b. cbb_base st = Some b \<and> fixed_buffer k b)"

definition keeps_fixed :: "nat \<Rightarrow> cbb_op \<Rightarrow> bool" where
  "keeps_fixed k f \<longleftrightarrow> (\<forall>st ok st'. fixed_cbb k st \<and> f st = (ok, st') \<longrightarrow> fixed_cbb k st')"

lemma fixed_buffer_simps [simp]:
  "fixed_buffer k (write_at off d b) = fixed_buffer k b" "fixed_buffer k (cbb_err b) = fixed_buffer k b"
  "fixed_buffer k (b \<lparr> cb_error := e \<rparr>) = fixed_buffer k b" "fixed_buffer k (b \<lparr> cb_len := n \<rparr>) = fixed_buffer k b"
  by (simp_all add: fixed_buffer_def cbb_err_def)

lemma fixed_reserve: "cbb_buffer_reserve al n b = (ok, b') \<Longrightarrow> fixed_buffer k b \<Longrightarrow> fixed_buffer k b'"
  by (auto simp: cbb_buffer_reserve_def Let_def fixed_buffer_def split: if_splits option.splits)

lemma fixed_add: "cbb_buffer_add al n b = (ok, b') \<Longrightarrow> fixed_buffer k b \<Longrightarrow> fixed_buffer k b'"
  by (auto simp: cbb_buffer_add_def split: if_splits prod.splits dest: fixed_reserve)

lemma fixed_store: "store_be_loop n off v b = (r, b') \<Longrightarrow> fixed_buffer k b \<Longrightarrow> fixed_buffer k b'"
  by (induction n off v b rule: store_be_loop.induct) auto

lemma fixed_add_u: "cbb_buffer_add_u al v n b = (ok, b') \<Longrightarrow> fixed_buffer k b \<Longrightarrow> fixed_buffer k b'"
  by (auto simp: cbb_buffer_add_u_def split: if_splits prod.splits dest: fixed_add fixed_store)

lemma fixed_store_eq: "fixed_buffer k (snd (store_be_loop n off v b)) = fixed_buffer k b"
  by (induction n off v b rule: store_be_loop.induct) auto

lemma fixed_prefix: "cbb_write_prefix al off n a len b = (ok, b') \<Longrightarrow> fixed_buffer k b \<Longrightarrow> fixed_buffer k b'"
proof -
  assume w: "cbb_write_prefix al off n a len b = (ok, b')" and b: "fixed_buffer k b"
  have add: "fixed_buffer k b1" if "cbb_buffer_add al m b = (t, b1)" for m t b1
    using fixed_add [OF that b] .
  have store: "fixed_buffer k b2" if "store_be_loop m off' v b1 = (r, b2)" "fixed_buffer k b1" for m off' v b1 b2 r
    using fixed_store [OF that] .
  show ?thesis
    using w b
    by (auto simp: cbb_write_prefix_def Let_def split: prod.splits if_splits option.splits
        dest!: add) (auto dest!: store)
qed

lemma fixed_flush: "fixed_buffer k b \<Longrightarrow> fixed_buffer k (snd (snd (cbb_flush_chain al ch b)))"
proof (induction al ch b rule: cbb_flush_chain.induct)
  case (3 al f child rest b)
  show ?case
  proof (cases "cb_error b \<or> fr_pending_len_len child = 0")
    case False
    obtain ok ch1 b1 where rec: "cbb_flush_chain al (child # rest) b = (ok, ch1, b1)"
      by (cases "cbb_flush_chain al (child # rest) b") auto
    have b1: "fixed_buffer k b1" using "3.IH" "3.prems" False rec by auto
    obtain ok2 b2 where p: "cbb_write_prefix al (fr_offset child) (fr_pending_len_len child)
        (fr_pending_is_asn1 child) (cb_len b1 - size_add (fr_offset child) (fr_pending_len_len child)) b1 = (ok2, b2)"
      by (cases "cbb_write_prefix al (fr_offset child) (fr_pending_len_len child)
        (fr_pending_is_asn1 child) (cb_len b1 - size_add (fr_offset child) (fr_pending_len_len child)) b1")
    show ?thesis using False rec b1 p fixed_prefix [OF p b1] by (simp add: Let_def)
  qed (use 3 in auto)
qed auto

lemma keeps_flush: "keeps_fixed k (CBB_flush al d)"
  unfolding keeps_fixed_def fixed_cbb_def
proof (intro allI impI, elim conjE exE)
  fix st ok st' b assume b: "cbb_base st = Some b" "fixed_buffer k b" and f: "CBB_flush al d st = (ok, st')"
  then show "\<exists>b. cbb_base st' = Some b \<and> fixed_buffer k b"
    using fixed_flush [OF b(2), of al "drop d (cbb_chain st)"] by (auto simp: CBB_flush_def split: prod.splits)
qed

lemma keeps_on_base: "(\<And>b ok b'. f b = (ok, b') \<Longrightarrow> fixed_buffer k b \<Longrightarrow> fixed_buffer k b') \<Longrightarrow> keeps_fixed k (on_base f)"
  by (fastforce simp: keeps_fixed_def fixed_cbb_def on_base_def split: prod.splits)

lemma keeps_then: "keeps_fixed k f \<Longrightarrow> keeps_fixed k g \<Longrightarrow> keeps_fixed k (cbb_then f g)"
  unfolding keeps_fixed_def by (metis cbb_then_cases)

lemma keeps_then_state: "keeps_fixed k f \<Longrightarrow> (\<And>s. keeps_fixed k (g s)) \<Longrightarrow> keeps_fixed k (cbb_then f (\<lambda>st. g st st))"
  unfolding keeps_fixed_def by (metis (no_types, lifting) cbb_then_cases)

lemma keeps_basic:
  "keeps_fixed k cbb_ok" "keeps_fixed k (set_child d c)" "keeps_fixed k (fill_base off data)"
  "keeps_fixed k (on_base (cbb_buffer_add al n))" "keeps_fixed k (on_base (cbb_buffer_add_u al v n))"
  by (auto simp: keeps_fixed_def fixed_cbb_def cbb_ok_def set_child_def fill_base_def on_base_def
      split: option.splits prod.splits dest: fixed_add fixed_add_u)

lemma keeps_add_u8: "keeps_fixed k (CBB_add_u8 al v d)"
  unfolding CBB_add_u8_def by (intro keeps_then keeps_flush keeps_basic)

lemma keeps_add_bytes: "keeps_fixed k (CBB_add_bytes al bs d)"
  unfolding CBB_add_bytes_def Let_def by (rule keeps_then_state [OF keeps_flush]) (intro keeps_then keeps_basic)

lemma keeps_add_space_filled:
  "keeps_fixed k (cbb_then (CBB_add_space al n d) (\<lambda>st. fill_base (base_len st - n) bs st))"
  unfolding CBB_add_space_def
  by (rule keeps_then_state) (intro keeps_then keeps_flush keeps_basic)+

lemma keeps_add_zeros: "keeps_fixed k (CBB_add_zeros al n d)"
  unfolding CBB_add_zeros_def by (rule keeps_add_space_filled)

lemma keeps_length_prefixed: "keeps_fixed k (cbb_add_length_prefixed al n d)"
  unfolding cbb_add_length_prefixed_def Let_def
  by (rule keeps_then_state [OF keeps_flush]) (intro keeps_then keeps_basic)

lemma keeps_base128_loop: "keeps_fixed k (add_base128_loop al v n d)"
proof (induction n)
  case 0
  have "add_base128_loop al v 0 d = cbb_ok" by (simp add: fun_eq_iff cbb_ok_def)
  then show ?case by (simp add: keeps_basic)
next
  case (Suc n)
  have e: "add_base128_loop al v (Suc n) d = cbb_then (CBB_add_u8 al (base128_byte (unat v) n) d) (add_base128_loop al v n d)"
    using base128_byte_eq [of n v] by (auto simp: fun_eq_iff Let_def)
  show ?case unfolding e by (rule keeps_then [OF keeps_add_u8 Suc.IH])
qed

lemma keeps_add_asn1: "keeps_fixed k (CBB_add_asn1 al tag d)"
proof -
  have t: "keeps_fixed k
     (if tag AND CBS_ASN1_TAG_NUMBER_MASK \<ge> 0x1f then
        cbb_then (CBB_add_u8 al (bits OR 0x1f) d) (add_base128_integer al (ucast (tag AND CBS_ASN1_TAG_NUMBER_MASK)) d)
      else CBB_add_u8 al (bits OR ucast (tag AND CBS_ASN1_TAG_NUMBER_MASK)) d)" for bits
    unfolding add_base128_integer_def Let_def by (auto intro: keeps_then keeps_add_u8 keeps_base128_loop)
  show ?thesis
    unfolding CBB_add_asn1_def Let_def
    by (rule keeps_then [OF keeps_flush], rule keeps_then_state [OF t]) (intro keeps_then keeps_add_u8 keeps_basic)
qed

lemma keeps_uint64_loop:
  assumes "allocator al"
  shows "keeps_fixed k (uint64_loop_op al d started bs)"
proof (induction bs arbitrary: started)
  case Nil
  then show ?case by (simp add: allocator.uint64_loop_op_Nil [OF assms] keeps_add_u8 keeps_basic)
next
  case (Cons b bs)
  then show ?case
    by (auto simp: allocator.uint64_loop_op_Cons [OF assms] intro!: keeps_then keeps_add_u8 keeps_basic)
qed

lemma keeps_add_values: "keeps_fixed k (add_values al vs d)"
  by (induction vs) (auto simp: add_base128_integer_def Let_def intro!: keeps_basic keeps_then keeps_base128_loop)

lemma keeps_asn1_element:
  "keeps_fixed k f \<Longrightarrow> keeps_fixed k (cbb_then (CBB_add_asn1 al tag d) (cbb_then f (CBB_flush al d)))"
  by (intro keeps_then keeps_add_asn1 keeps_flush)

lemma keeps_bytes_down: "keeps_fixed k (add_bytes_down al d u n)"
  by (induction n) (auto intro: keeps_basic keeps_then keeps_add_u8)

lemma keeps_asn1_uint64: "allocator al \<Longrightarrow> keeps_fixed k (CBB_add_asn1_uint64 al v d)"
  by (simp add: allocator.asn1_uint64_eq keeps_asn1_element keeps_uint64_loop)

lemma keeps_asn1_int64:
  assumes "allocator al"
  shows "keeps_fixed k (CBB_add_asn1_int64 al v d)"
proof (cases "0 \<le> sint v")
  case True
  then show ?thesis using keeps_asn1_uint64 [OF assms] by (simp only: CBB_add_asn1_int64_def if_True)
next
  case False
  show ?thesis
    unfolding CBB_add_asn1_int64_def Let_def if_not_P [OF False]
    by (intro keeps_then keeps_add_asn1 keeps_bytes_down keeps_flush)
qed

lemmas keeps_intros = keeps_then keeps_flush keeps_add_u8 keeps_basic keeps_add_bytes keeps_add_zeros
  keeps_length_prefixed keeps_add_asn1 keeps_add_space_filled keeps_add_values

lemma keeps_effect: "allocator al \<Longrightarrow> keeps_fixed k (effect al c d)"
  by (cases c)
    (simp_all only: effect_def cbb_call.case do_call.simps CBB_add_u16_def CBB_add_u24_def CBB_add_u32_def CBB_add_u64_def CBB_add_u16le_def
      CBB_add_u32le_def CBB_add_u64le_def CBB_add_u8_length_prefixed_def CBB_add_u16_length_prefixed_def
      CBB_add_u24_length_prefixed_def CBB_add_asn1_octet_string_def CBB_add_asn1_bool_def keeps_asn1_uint64
      keeps_asn1_int64 keeps_intros)

lemma keeps_run: "allocator al \<Longrightarrow> fixed_cbb k st \<Longrightarrow> fixed_cbb k (run_calls al calls st)"
proof (induction calls arbitrary: st)
  case (Cons cd calls)
  obtain c d where "cd = (c, d)" by (cases cd)
  moreover have "fixed_cbb k (snd (effect al c d st))"
    using keeps_effect [OF Cons.prems(1), of k c d] Cons.prems(2) unfolding keeps_fixed_def
    by (metis prod.collapse)
  ultimately show ?case using Cons.IH [OF Cons.prems(1)] by simp
qed simp

lemma finish_fixed:
  assumes "allocator al" "fixed_cbb k st" "represents st a" "CBB_finish al h1 h2 0 st = (Some out, st')"
  shows "length (handed_out out) \<le> k"
proof -
  from assms(4) obtain s1 b where s1: "CBB_flush al 0 st = (True, s1)" "cbb_base s1 = Some b"
    and res: "out = (cb_buf b, cb_len b)"
    by (auto simp: CBB_finish_def split: if_splits prod.splits option.splits)
  have "fixed_cbb k s1" using keeps_flush assms(2) s1(1) unfolding keeps_fixed_def by blast
  moreover obtain a1 where "represents s1 a1"
    using refines_ok [OF allocator.refines_flush [OF assms(1)] assms(3) s1(1)] by blast
  ultimately have "cb_len b \<le> k" using s1(2) by (auto simp: fixed_cbb_def fixed_buffer_def represents_def wf_buffer_def)
  then show ?thesis by (simp add: res handed_out_def)
qed

text \<open>
  C5. A builder over a caller's buffer (\<open>CBB_init_fixed\<close>) never grows it: what \<open>CBB_finish\<close> hands out fits
  in the buffer, and it succeeds exactly when the abstract serialisation exists and fits.
\<close>

theorem builder_fixed_capacity:
  assumes "allocator al" "length buf < size_lim" "CBB_init_fixed al buf = (True, st0)" "depths_ok 1 calls"
  shows "map_option handed_out (fst (CBB_finish al True True 0 (run_calls al calls st0))) = Some c \<longleftrightarrow>
    (\<exists>a. spec_calls calls [(Root, [])] = Some a \<and> close a = Some (Root, c)) \<and> length c \<le> length buf"
    (is "?L \<longleftrightarrow> ?R")
proof
  note init = allocator.CBB_init_fixed_represents [OF assms(1-3)]
  have fx: "fixed_cbb (length buf) st0"
    using assms(3) by (auto simp: CBB_init_fixed_def cbb_init_def fixed_cbb_def fixed_buffer_def split: option.splits prod.splits if_splits)
  show ?R if ?L
  proof -
    obtain res st' where r: "CBB_finish al True True 0 (run_calls al calls st0) = (res, st')" by fastforce
    with that obtain out where o: "res = Some out" "c = handed_out out" by auto
    note f = r [unfolded o(1)] o(2)
    have "\<not> dead (run_calls al calls st0)"
      using allocator.finish_dead [OF assms(1), of "run_calls al calls st0" True True 0] f(1) by auto
    with allocator.run_calls_spec [OF assms(1) init(1), of calls] assms(4)
    obtain a where a: "spec_calls calls [(Root, [])] = Some a" "represents (run_calls al calls st0) a" by auto
    from allocator.CBB_finish_ok [OF assms(1) a(2) f(1)] finish_fixed [OF assms(1) keeps_run [OF assms(1) fx] a(2) f(1)] f(2) a(1)
    show ?thesis by blast
  qed
  show ?L if R: ?R
  proof -
    obtain a where a: "spec_calls calls [(Root, [])] = Some a" "close a = Some (Root, c)" "length c \<le> length buf"
      using R by blast
    have "length (flat a) \<le> length c" using length_close [OF a(2)] by simp
    with allocator.run_calls_room [OF assms(1) init(1) _ a(1), of "length c"] init(2) [of "length c"] a(3) assms(4)
    have "represents (run_calls al calls st0) a" "has_room al (run_calls al calls st0) (length c)" by auto
    from allocator.CBB_finish_room [OF assms(1) this(1) a(2) this(2)] show ?thesis by auto
  qed
qed

theorem builder_fixed_capacity_witness:
  "map_option handed_out (fst (CBB_finish (arena 48) True True 0
     (run_calls (arena 48) sample_calls (snd (CBB_init_fixed (arena 48) (replicate 10 0)))))) =
   Some [0x30, 8, 0, 3, 1, 2, 3, 1, 1, 0xff]"
proof -
  have i: "CBB_init_fixed (arena 48) (replicate 10 0) = (True, snd (CBB_init_fixed (arena 48) (replicate 10 0)))"
    by (simp add: CBB_init_fixed_def cbb_init_def OPENSSL_malloc_def arena_def size_add_def)
  show ?thesis
    by (subst builder_fixed_capacity [OF arena.allocator_axioms _ i sample_depths])
      (use sample_spec sample_close in \<open>simp_all del: close.simps spec_calls.simps\<close>)
qed

end
