(* ===== verification/SetOf.thy ===== *)
theory SetOf
  imports CbbOps "HOL-Library.List_Lexorder" "HOL-Library.Multiset"
begin

text \<open>
  \<open>CBB_flush_asn1_set_of\<close> (\<open>cbb.c\<close>): the elements of a SET OF are put into the order of their
  encodings.  \<open>qsort\<close> with \<open>compare_set_of_element\<close> is the library's \<open>sort\<close> at a type whose order
  \<^emph>\<open>is\<close> the comparator; that the comparator is a linear order is proved here.
\<close>

section \<open>The code\<close>

text \<open>\<open>OPENSSL_memcmp\<close> (\<open>crypto/internal.h\<close>): the sign of the first difference.\<close>

fun OPENSSL_memcmp :: "bytes \<Rightarrow> bytes \<Rightarrow> nat \<Rightarrow> int" where
  "OPENSSL_memcmp (x # xs) (y # ys) (Suc n) =
     (if x = y then OPENSSL_memcmp xs ys n else if x < y then -1 else 1)"
| "OPENSSL_memcmp _ _ _ = 0"

lemma OPENSSL_memcmp_code [code]:
  "OPENSSL_memcmp [] ys n = 0"
  "OPENSSL_memcmp (x # xs) [] n = 0"
  "OPENSSL_memcmp (x # xs) (y # ys) n =
     (if n = 0 then 0 else if x = y then OPENSSL_memcmp xs ys (n - 1) else if x < y then -1 else 1)"
  by (cases n; simp)+

definition compare_set_of_element :: "bytes \<Rightarrow> bytes \<Rightarrow> int" where
  "compare_set_of_element a b =
     (let a_len = CBS_len a; b_len = CBS_len b;
          min_len = (if a_len < b_len then a_len else b_len);
          ret = OPENSSL_memcmp a b min_len
      in if ret \<noteq> 0 then ret
         else if a_len = b_len then 0
         else if a_len < b_len then -1 else 1)"

datatype set_of_elem = Elem (elem_bytes: bytes)

lemma compare_lex: "compare_set_of_element a b \<le> 0 \<longleftrightarrow> a \<le> b"
proof (induction a arbitrary: b)
  case Nil
  then show ?case by (simp add: compare_set_of_element_def CBS_len_def)
next
  case (Cons x a)
  show ?case
  proof (cases b)
    case (Cons y b')
    have "compare_set_of_element (x # a) (y # b') =
        (if x = y then compare_set_of_element a b' else if x < y then -1 else 1)"
      by (simp add: compare_set_of_element_def CBS_len_def Let_def)
    then show ?thesis using Cons Cons.IH [of b'] by auto
  qed (simp add: compare_set_of_element_def CBS_len_def)
qed

instantiation set_of_elem :: linorder
begin

definition less_eq_set_of_elem :: "set_of_elem \<Rightarrow> set_of_elem \<Rightarrow> bool" where
  "less_eq_set_of_elem x y = (compare_set_of_element (elem_bytes x) (elem_bytes y) \<le> 0)"

definition less_set_of_elem :: "set_of_elem \<Rightarrow> set_of_elem \<Rightarrow> bool" where
  "less_set_of_elem x y = (x \<le> y \<and> \<not> y \<le> x)"

instance
  by standard
    (auto simp: less_eq_set_of_elem_def less_set_of_elem_def compare_lex set_of_elem.expand)

end

definition qsort_elements :: "bytes list \<Rightarrow> bytes list" where
  "qsort_elements xs = map elem_bytes (sort (map Elem xs))"

function count_elements :: "bytes \<Rightarrow> nat option" where
  "count_elements cbs =
     (if CBS_len cbs \<noteq> 0 then
        (case CBS_get_any_asn1_element cbs of
           (None, _) \<Rightarrow> None
         | (Some _, cbs) \<Rightarrow> map_option Suc (count_elements cbs))
      else Some 0)"
  by pat_completeness auto
termination
proof (relation "measure length")
  fix cbs t :: bytes and r v
  assume "CBS_len cbs \<noteq> 0" "(r, t) = CBS_get_any_asn1_element cbs" "r = Some v"
  then obtain out tag hl where "CBS_get_any_asn1_element cbs = (Some (out, tag, hl), t)"
    by (metis prod_cases3)
  then have "cbs = out @ t" "out \<noteq> []"
    by (auto simp: CBS_get_any_asn1_element_iff der_def der_len_def split: if_splits)
  then show "(t, cbs) \<in> measure length" by simp
qed simp

declare count_elements.simps [simp del]

fun add_each :: "allocator \<Rightarrow> bytes list \<Rightarrow> nat \<Rightarrow> cbb_op" where
  "add_each al [] d = cbb_ok"
| "add_each al (c # cs) d = cbb_then (CBB_add_bytes al c d) (add_each al cs d)"

definition rewind :: "nat \<Rightarrow> cbb_op" where
  "rewind d st =
     on_base (\<lambda>base. (True, base \<lparr> cb_len :=
       fr_offset (cbb_chain st ! d) + fr_pending_len_len (cbb_chain st ! d) \<rparr>)) st"

definition CBB_flush_asn1_set_of :: "allocator \<Rightarrow> nat \<Rightarrow> cbb_op" where
  "CBB_flush_asn1_set_of al d =
     cbb_then (CBB_flush al d) (\<lambda>st.
       let cbs = take (CBB_len d st) (CBB_data d st) in
       case count_elements cbs of
         None \<Rightarrow> (False, st)
       | Some num_children \<Rightarrow>
           if num_children < 2 then (True, st)
           else if num_children > (size_lim - 1) div 16 then (False, st)
           else
             case (OPENSSL_memdup al cbs, OPENSSL_malloc al (num_children * 16)) of
               (Some buf, Some _) \<Rightarrow>
                 (case rd_many num_children
                         (rd_bind CBS_get_any_asn1_element (\<lambda>(out, _, _). rd_return out)) buf of
                    (None, _) \<Rightarrow> (False, st)
                  | (Some children, _) \<Rightarrow>
                      cbb_then (rewind d) (add_each al (qsort_elements children) d) st)
             | _ \<Rightarrow> (False, st))"

section \<open>Correctness\<close>

definition is_element :: "bytes \<Rightarrow> bool" where
  "is_element e \<longleftrightarrow> (\<exists>tag body. length body < 2 ^ 32 \<and> e = der tag body)"

lemma is_element_ne: "is_element e \<Longrightarrow> e \<noteq> []"
  by (auto simp: is_element_def der_def der_len_def split: if_splits)

interpretation element: canonical_codec "\<lambda>e. e"
  "rd_bind CBS_get_any_asn1_element (\<lambda>(out, _, _). rd_return out)" is_element
proof
  show "rd_bind CBS_get_any_asn1_element (\<lambda>(out, _, _). rd_return out) (e @ t) = (Some e, t)"
    if el: "is_element e" for e t
  proof -
    from el obtain tag body where "length body < 2 ^ 32" "e = der tag body" by (auto simp: is_element_def)
    then have "CBS_get_any_asn1_element (e @ t) = (Some (e, tag, der_header_len tag (length body)), t)"
      by (subst CBS_get_any_asn1_element_iff) auto
    then show ?thesis by simp
  qed
  show "is_element e \<and> s = e @ t"
    if "rd_bind CBS_get_any_asn1_element (\<lambda>(out, _, _). rd_return out) s = (Some e, t)" for s e t
    using that by (auto simp: rd_bind_eq_Some CBS_get_any_asn1_element_iff is_element_def)
  show "\<exists>pre. s = pre @ snd (rd_bind CBS_get_any_asn1_element (\<lambda>(out, _, _). rd_return out) s)" for s
    by (rule rd_bind_suffix) (auto simp: CBS_get_any_asn1_element_snd any_element_suffix split: prod.splits)
qed

lemma count_elements_Nil [simp]: "count_elements [] = Some 0"
  by (subst count_elements.simps) (simp add: CBS_len_def)

lemma elem_le: "(\<lambda>x y. compare_set_of_element (elem_bytes x) (elem_bytes y) \<le> 0) = (\<le>)"
  by (simp add: fun_eq_iff less_eq_set_of_elem_def)

lemma count_elements_Some:
  "count_elements s = Some n \<Longrightarrow> \<exists>es. s = concat es \<and> length es = n \<and> (\<forall>e \<in> set es. is_element e)"
proof (induction s arbitrary: n rule: count_elements.induct)
  case (1 s)
  show ?case
  proof (cases "s = []")
    case True
    with 1 show ?thesis by simp
  next
    case False
    with "1.prems" obtain out tag hl t m where e: "CBS_get_any_asn1_element s = (Some (out, tag, hl), t)"
      and m: "count_elements t = Some m" "n = Suc m"
      by (auto simp: count_elements.simps [of s] CBS_len_def split: prod.splits option.splits)
    have "CBS_len s \<noteq> 0" using False by (simp add: CBS_len_def)
    from "1.IH" [OF this e [symmetric] refl m(1)] obtain es where
      "t = concat es" "length es = m" "\<forall>e \<in> set es. is_element e" by blast
    moreover have "is_element out" "s = out @ t"
      using e by (auto simp: CBS_get_any_asn1_element_iff is_element_def)
    ultimately show ?thesis using m(2) by (intro exI [of _ "out # es"]) simp
  qed
qed

lemma qsort_elements_props:
  "mset (qsort_elements es) = mset es"
  "sorted_wrt (\<lambda>a b. compare_set_of_element a b \<le> 0) (qsort_elements es)"
proof -
  have "mset (qsort_elements es) = image_mset elem_bytes (mset (map Elem es))"
    unfolding qsort_elements_def mset_map mset_sort ..
  then show "mset (qsort_elements es) = mset es" by (simp add: multiset.map_comp comp_def)
  have "sorted (sort (map Elem es))" by simp
  then show "sorted_wrt (\<lambda>a b. compare_set_of_element a b \<le> 0) (qsort_elements es)"
    unfolding qsort_elements_def sorted_wrt_map elem_le .
qed

lemma sorted_elements_unique:
  assumes "sorted_wrt (\<lambda>a b. compare_set_of_element a b \<le> 0) xs" "mset xs = mset es"
  shows "xs = qsort_elements es"
proof -
  have "sorted (map Elem xs)"
    using assms(1) by (simp add: sorted_wrt_map less_eq_set_of_elem_def)
  moreover have "mset (map Elem xs) = mset (map Elem es)" using assms(2) by simp
  ultimately have "sort (map Elem es) = map Elem xs" by (metis properties_for_sort)
  then show ?thesis by (simp add: qsort_elements_def comp_def)
qed

lemma qsort_elements_short: "length es < 2 \<Longrightarrow> qsort_elements es = es"
  by (cases es rule: remdups_adj.cases) (auto simp: qsort_elements_def)

lemma rewind_represents:
  assumes r: "represents st (pre @ [(k, c)])" and l: "length pre = d"
  shows "\<exists>st'. rewind d st = (True, st') \<and> represents st' (pre @ [(k, [])])"
proof -
  obtain b where b: "cbb_base st = Some b" "wf_buffer b" "\<not> cb_error b"
    "written b = flat pre @ replicate (pfx_len k) 0 @ c"
    and ch: "cbb_chain st = frames_at 0 (pre @ [(k, c)])" and v: "valid_acbb (pre @ [(k, c)])"
    using r by (auto simp: represents_def flat_append)
  let ?n = "length (flat pre) + pfx_len k"
  have fr: "cbb_chain st ! d = frame_of (length (flat pre)) k"
    unfolding ch frames_at_append using l by (simp add: nth_append)
  have len: "?n \<le> cb_len b" using wf_bufferD(5) [OF b(2)] b(4) by simp
  have "take ?n (written b) = flat pre @ replicate (pfx_len k) 0" using b(4) by simp
  then have "written (b \<lparr> cb_len := ?n \<rparr>) = flat pre @ replicate (pfx_len k) 0"
    using len by (simp add: written_def buf_bytes_def min_absorb1)
  moreover have "wf_buffer (b \<lparr> cb_len := ?n \<rparr>)"
    using b(2) len by (auto simp: wf_buffer_def buf_bytes_def)
  moreover have "rewind d st = (True, st \<lparr> cbb_base := Some (b \<lparr> cb_len := ?n \<rparr>) \<rparr>)"
    using b(1) by (simp add: rewind_def on_base_def fr)
  ultimately show ?thesis
    using b ch v valid_acbb_snoc_cong [of pre k c "[]"]
    by (simp add: represents_def flat_append frames_at_append)
qed

lemma represents_contents:
  assumes r: "represents st (pre @ [(k, c)])" and l: "length pre = d"
  shows "take (CBB_len d st) (CBB_data d st) = c" "length c < size_lim"
proof -
  obtain b where b: "cbb_base st = Some b" "wf_buffer b"
    "written b = flat pre @ replicate (pfx_len k) 0 @ c"
    and ch: "cbb_chain st = frames_at 0 (pre @ [(k, c)])"
    using r by (auto simp: represents_def flat_append)
  have fr: "cbb_chain st ! d = frame_of (length (flat pre)) k"
    unfolding ch frames_at_append using l by (simp add: nth_append)
  obtain rest where "buf_bytes b = written b @ rest"
    unfolding written_def by (metis append_take_drop_id)
  then show "take (CBB_len d st) (CBB_data d st) = c"
    using wf_bufferD(5) [OF b(2)] b by (simp add: CBB_len_def CBB_data_def fr)
  show "length c < size_lim" using wf_bufferD(4,5) [OF b(2)] b(3) by simp
qed

context allocator
begin

lemma refines_add_each:
  "\<forall>e \<in> set es. e \<noteq> [] \<and> length e < size_lim \<Longrightarrow> refines malloc (add_each malloc es d) (put_some d (concat es))"
proof (induction es)
  case Nil
  then show ?case by (simp add: refines_ok_put_some)
next
  case (Cons e es)
  then have "refines malloc (CBB_add_bytes malloc e d) (put_some d e)"
    using refines_add_bytes [of e d] by (simp add: refines_put_some_ne)
  from refines_put_some [OF this, of _ "concat es"] Cons show ?case by simp
qed

lemma flush_set_of_sorts:
  assumes r: "represents st a" and ok: "CBB_flush_asn1_set_of malloc d st = (True, st')"
  shows "\<exists>pre k es. close_at d a = Some (pre @ [(k, concat es)]) \<and> length pre = d \<and> (\<forall>e \<in> set es. is_element e) \<and>
    represents st' (pre @ [(k, concat (qsort_elements es))])"
proof -
  from ok obtain s1 where s1: "CBB_flush malloc d st = (True, s1)"
    and body: "(let cbs = take (CBB_len d s1) (CBB_data d s1) in
       case count_elements cbs of
         None \<Rightarrow> (False, s1)
       | Some num_children \<Rightarrow>
           if num_children < 2 then (True, s1)
           else if num_children > (size_lim - 1) div 16 then (False, s1)
           else
             case (OPENSSL_memdup malloc cbs, OPENSSL_malloc malloc (num_children * 16)) of
               (Some buf, Some _) \<Rightarrow>
                 (case rd_many num_children
                         (rd_bind CBS_get_any_asn1_element (\<lambda>(out, _, _). rd_return out)) buf of
                    (None, _) \<Rightarrow> (False, s1)
                  | (Some children, _) \<Rightarrow>
                      cbb_then (rewind d) (add_each malloc (qsort_elements children) d) s1)
             | _ \<Rightarrow> (False, s1)) = (True, st')"
    unfolding CBB_flush_asn1_set_of_def by (rule cbb_then_cases) simp_all
  obtain a1 where a1: "close_at d a = Some a1" "represents s1 a1" using refines_ok [OF refines_flush r s1] by blast
  obtain pre k c where a1': "a1 = pre @ [(k, c)]" "length pre = d"
    using length_close_at [OF a1(1)] by (cases a1 rule: rev_cases) auto
  note c = represents_contents [OF a1(2) [unfolded a1'(1)] a1'(2)]
  from body c(1) obtain n where n: "count_elements c = Some n" by (auto simp: Let_def split: option.splits)
  then obtain es where es: "c = concat es" "length es = n" "\<forall>e \<in> set es. is_element e"
    using count_elements_Some by blast
  show ?thesis
  proof (cases "n < 2")
    case True
    then have "st' = s1" using body c(1) n by (simp add: Let_def)
    then show ?thesis using True es qsort_elements_short [of es] a1 a1' by auto
  next
    case False
    from body c(1) n False obtain buf children rest where
      buf: "OPENSSL_memdup malloc c = Some buf"
      and ch: "rd_many n (rd_bind CBS_get_any_asn1_element (\<lambda>(out, _, _). rd_return out)) buf = (Some children, rest)"
      and add: "cbb_then (rewind d) (add_each malloc (qsort_elements children) d) s1 = (True, st')"
      by (auto simp: Let_def split: option.splits prod.splits if_splits)
    have "buf = c" using openssl_memdup_length [OF c(2) buf] .
    moreover have "rd_many (length es) (rd_bind CBS_get_any_asn1_element (\<lambda>(out, _, _). rd_return out)) (concat es) = (Some es, [])"
      using element.many_roundtrip [of es "[]"] es(3) by simp
    ultimately have ces: "children = es" using ch es by simp
    from rewind_represents [OF a1(2) [unfolded a1'(1)] a1'(2)] add obtain s2 where
      s2: "represents s2 (pre @ [(k, [])])" "add_each malloc (qsort_elements es) d s2 = (True, st')"
      unfolding ces by (auto simp: cbb_then_def)
    have mem: "set (qsort_elements es) = set es" using qsort_elements_props(1) [of es] by (metis set_mset_mset)
    have "\<forall>e \<in> set es. e \<noteq> [] \<and> length e < size_lim"
    proof
      fix e assume e: "e \<in> set es"
      then have "length e \<le> length (concat es)" by (simp add: length_concat member_le_sum_list)
      with c(2) es(1) is_element_ne es(3) e show "e \<noteq> [] \<and> length e < size_lim" by auto
    qed
    then have "refines malloc (add_each malloc (qsort_elements es) d) (put_some d (concat (qsort_elements es)))"
      by (intro refines_add_each) (simp add: mem)
    from refines_ok [OF this s2] obtain a2 where
      "put_some d (concat (qsort_elements es)) (pre @ [(k, [])]) = Some a2" "represents st' a2" by blast
    moreover have "put_some d x (pre @ [(k, [])]) = Some (pre @ [(k, x)])" for x
      using a1'(2) close_at_closed [of "pre @ [(k, [])]" d]
      by (simp add: put_some_def put_def add_last_def)
    ultimately have "represents st' (pre @ [(k, concat (qsort_elements es))])" by simp
    then show ?thesis using a1(1) a1' es by blast
  qed
qed

end

end
