(* ===== verification/Unicode.thy ===== *)
theory Unicode
  imports CbbOps
begin

text \<open>
  \<open>crypto/bytestring/unicode.c\<close>: reading and writing code points as UTF-8, Latin-1, UCS-2 and
  UTF-32.  The main result is that \<open>cbs_get_utf8\<close> accepts exactly the shortest UTF-8 forms of the
  code points \<open>is_valid_code_point\<close> allows, and that \<open>cbb_add_utf8\<close> writes those.
\<close>

section \<open>The code\<close>

definition is_valid_code_point :: "u32 \<Rightarrow> bool" where
  "is_valid_code_point v =
     (if v > 0x10ffff \<or> v AND 0xfffe = 0xfffe \<or> (v \<ge> 0xfdd0 \<and> v \<le> 0xfdef) \<or>
         (v \<ge> 0xd800 \<and> v \<le> 0xdfff)
      then False else True)"

definition BOTTOM_BITS :: "nat \<Rightarrow> u8" where
  "BOTTOM_BITS n = ucast (push_bit n 1 - 1 :: u32)"

definition TOP_BITS :: "nat \<Rightarrow> u8" where
  "TOP_BITS n = NOT (BOTTOM_BITS (8 - n))"

text \<open>The loop over the continuation bytes.\<close>

fun utf8_continue :: "nat \<Rightarrow> u32 \<Rightarrow> u32 rd" where
  "utf8_continue 0 v cbs = (Some v, cbs)"
| "utf8_continue (Suc n) v cbs =
     (case CBS_get_u8 cbs of
        (None, cbs) \<Rightarrow> (None, cbs)
      | (Some c, cbs) \<Rightarrow>
          if c AND TOP_BITS 2 \<noteq> TOP_BITS 1 then (None, cbs)
          else utf8_continue n (push_bit 6 v OR ucast (c AND BOTTOM_BITS 6)) cbs)"

definition cbs_get_utf8 :: "u32 rd" where
  "cbs_get_utf8 = rd_bind CBS_get_u8 (\<lambda>c.
     if c \<le> 0x7f then rd_return (ucast c)
     else
       let start =
         (if c AND TOP_BITS 3 = TOP_BITS 2 then Some (c AND BOTTOM_BITS 5, 1, 0x80)
          else if c AND TOP_BITS 4 = TOP_BITS 3 then Some (c AND BOTTOM_BITS 4, 2, 0x800)
          else if c AND TOP_BITS 5 = TOP_BITS 4 then Some (c AND BOTTOM_BITS 3, 3, 0x10000)
          else None)
       in case start of
            None \<Rightarrow> rd_fail
          | Some (v, len, lower_bound) \<Rightarrow>
              rd_bind (utf8_continue len (ucast v)) (\<lambda>v.
                if \<not> is_valid_code_point v \<or> v < lower_bound then rd_fail else rd_return v))"

definition cbs_get_latin1 :: "u32 rd" where
  "cbs_get_latin1 = rd_bind CBS_get_u8 (\<lambda>c. rd_return (ucast c))"

definition cbs_get_ucs2_be :: "u32 rd" where
  "cbs_get_ucs2_be = rd_bind CBS_get_u16 (\<lambda>c.
     if \<not> is_valid_code_point (ucast c) then rd_fail else rd_return (ucast c))"

definition cbs_get_utf32_be :: "u32 rd" where
  "cbs_get_utf32_be = rd_bind CBS_get_u32 (\<lambda>v.
     if is_valid_code_point v then rd_return v else rd_fail)"

definition cbb_get_utf8_len :: "u32 \<Rightarrow> nat" where
  "cbb_get_utf8_len u = (if u \<le> 0x7f then 1 else if u \<le> 0x7ff then 2 else if u \<le> 0xffff then 3 else 4)"

definition cbb_add_utf8 :: "allocator \<Rightarrow> u32 \<Rightarrow> nat \<Rightarrow> cbb_op" where
  "cbb_add_utf8 al u d =
     (if \<not> is_valid_code_point u then cbb_fail
      else if u \<le> 0x7f then CBB_add_u8 al (ucast u) d
      else if u \<le> 0x7ff then
        cbb_then (CBB_add_u8 al (TOP_BITS 2 OR ucast (drop_bit 6 u)) d)
          (CBB_add_u8 al (TOP_BITS 1 OR (ucast u AND BOTTOM_BITS 6)) d)
      else if u \<le> 0xffff then
        cbb_then (CBB_add_u8 al (TOP_BITS 3 OR ucast (drop_bit 12 u)) d)
          (cbb_then (CBB_add_u8 al (TOP_BITS 1 OR (ucast (drop_bit 6 u) AND BOTTOM_BITS 6)) d)
            (CBB_add_u8 al (TOP_BITS 1 OR (ucast u AND BOTTOM_BITS 6)) d))
      else if u \<le> 0x10ffff then
        cbb_then (CBB_add_u8 al (TOP_BITS 4 OR ucast (drop_bit 18 u)) d)
          (cbb_then (CBB_add_u8 al (TOP_BITS 1 OR (ucast (drop_bit 12 u) AND BOTTOM_BITS 6)) d)
            (cbb_then (CBB_add_u8 al (TOP_BITS 1 OR (ucast (drop_bit 6 u) AND BOTTOM_BITS 6)) d)
              (CBB_add_u8 al (TOP_BITS 1 OR (ucast u AND BOTTOM_BITS 6)) d)))
      else cbb_fail)"

definition cbb_add_latin1 :: "allocator \<Rightarrow> u32 \<Rightarrow> nat \<Rightarrow> cbb_op" where
  "cbb_add_latin1 al u d = (if u \<le> 0xff then CBB_add_u8 al (ucast u) d else cbb_fail)"

definition cbb_add_ucs2_be :: "allocator \<Rightarrow> u32 \<Rightarrow> nat \<Rightarrow> cbb_op" where
  "cbb_add_ucs2_be al u d =
     (if u \<le> 0xffff \<and> is_valid_code_point u then CBB_add_u16 al (ucast u) d else cbb_fail)"

definition cbb_add_utf32_be :: "allocator \<Rightarrow> u32 \<Rightarrow> nat \<Rightarrow> cbb_op" where
  "cbb_add_utf32_be al u d = (if is_valid_code_point u then CBB_add_u32 al u d else cbb_fail)"

section \<open>The UTF-8 form\<close>

fun continuation :: "nat \<Rightarrow> nat \<Rightarrow> bytes" where
  "continuation 0 x = []"
| "continuation (Suc n) x = continuation n (x div 64) @ [of_nat (0x80 + x mod 64)]"

definition utf8 :: "nat \<Rightarrow> bytes" where
  "utf8 x =
     (if x < 0x80 then [of_nat x]
      else if x < 0x800 then of_nat (0xc0 + x div 64) # continuation 1 x
      else if x < 0x10000 then of_nat (0xe0 + x div 64 ^ 2) # continuation 2 x
      else of_nat (0xf0 + x div 64 ^ 3) # continuation 3 x)"

lemma BOTTOM_BITS_mask: "n \<le> 8 \<Longrightarrow> BOTTOM_BITS n = mask n"
proof -
  assume n: "n \<le> 8"
  have "(push_bit n 1 - 1 :: u32) = mask n" by (simp add: mask_eq_exp_minus_1 push_bit_eq_mult)
  then show ?thesis unfolding BOTTOM_BITS_def
    using n by (simp only:) (intro bit_word_eqI, auto simp: bit_simps)
qed

lemma unat_and_bottom: "n \<le> 8 \<Longrightarrow> unat (c AND BOTTOM_BITS n) = unat c mod 2 ^ n"
proof -
  assume n: "n \<le> 8"
  have "c AND BOTTOM_BITS n = take_bit n c" by (simp add: BOTTOM_BITS_mask [OF n] take_bit_eq_mask)
  then have "unat (c AND BOTTOM_BITS n) = take_bit n (unat c)" by (simp only: unsigned_take_bit_eq)
  then show ?thesis by (simp add: take_bit_eq_mod)
qed

lemma unat_and_top:
  assumes "n \<le> 8"
  shows "unat (c AND TOP_BITS n) = unat c div 2 ^ (8 - n) * 2 ^ (8 - n)"
proof -
  have "c AND TOP_BITS n = push_bit (8 - n) (drop_bit (8 - n) c)"
    unfolding TOP_BITS_def using BOTTOM_BITS_mask [of "8 - n"]
    by (intro bit_word_eqI) (auto simp: bit_simps)
  then have "unat (c AND TOP_BITS n) = unat c div 2 ^ (8 - n) * 2 ^ (8 - n) mod 256"
    by (simp only: unsigned_push_bit_eq unat_drop_bit) (simp add: take_bit_eq_mod push_bit_eq_mult)
  moreover have "unat c div 2 ^ (8 - n) * 2 ^ (8 - n) < 256"
    using div_times_less_eq_dividend [of "unat c" "2 ^ (8 - n)"] u8_less_256 [of c] by linarith
  ultimately show ?thesis by simp
qed

lemma top_const: "TOP_BITS 1 = 0x80" "TOP_BITS 2 = 0xc0" "TOP_BITS 3 = 0xe0" "TOP_BITS 4 = 0xf0"
  by code_simp+

lemma byte_class:
  "c AND TOP_BITS 2 = TOP_BITS 1 \<longleftrightarrow> unat c div 64 = 2"
  "c AND TOP_BITS 3 = TOP_BITS 2 \<longleftrightarrow> unat c div 32 = 6"
  "c AND TOP_BITS 4 = TOP_BITS 3 \<longleftrightarrow> unat c div 16 = 14"
  "c AND TOP_BITS 5 = TOP_BITS 4 \<longleftrightarrow> unat c div 8 = 30"
proof -
  have t: "unat (c AND TOP_BITS 2) = unat c div 64 * 64" "unat (c AND TOP_BITS 3) = unat c div 32 * 32"
    "unat (c AND TOP_BITS 4) = unat c div 16 * 16" "unat (c AND TOP_BITS 5) = unat c div 8 * 8"
    using unat_and_top [of 2 c] unat_and_top [of 3 c] unat_and_top [of 4 c] unat_and_top [of 5 c] by simp_all
  have k: "unat (TOP_BITS 1) = 2 * 64" "unat (TOP_BITS 2) = 6 * 32" "unat (TOP_BITS 3) = 14 * 16"
    "unat (TOP_BITS 4) = 30 * 8"
    by (simp_all only: top_const) simp_all
  show "c AND TOP_BITS 2 = TOP_BITS 1 \<longleftrightarrow> unat c div 64 = 2"
    "c AND TOP_BITS 3 = TOP_BITS 2 \<longleftrightarrow> unat c div 32 = 6"
    "c AND TOP_BITS 4 = TOP_BITS 3 \<longleftrightarrow> unat c div 16 = 14"
    "c AND TOP_BITS 5 = TOP_BITS 4 \<longleftrightarrow> unat c div 8 = 30"
    unfolding word_unat_eq_iff t k by simp_all
qed

lemma continuation_Cons:
  "continuation (Suc n) x = of_nat (0x80 + x div 64 ^ n mod 64) # continuation n x"
  by (induction n arbitrary: x) (auto simp: div_mult2_eq)

lemma length_continuation [simp]: "length (continuation n x) = n"
  by (induction n arbitrary: x) auto

lemma continuation_byte:
  "unat (of_nat (0x80 + y mod 64) :: u8) = 0x80 + y mod 64"
proof -
  have "0x80 + y mod 64 < (256 :: nat)" using mod_less_divisor [of 64 y] by simp
  then show ?thesis by (simp only: unat_of_nat) simp
qed

lemma utf8_continue_step:
  assumes "unat v * 64 < 2 ^ 32"
  shows "unat (push_bit 6 v OR ucast (c AND BOTTOM_BITS 6) :: u32) = unat v * 64 + unat c mod 64"
  using unat_push_or [of "c AND BOTTOM_BITS 6" 6 v] assms unat_and_bottom [of 6 c] by simp

lemma continuation_arith:
  fixes y c v :: nat
  shows "y div 64 = v \<and> c = 0x80 + y mod 64 \<longleftrightarrow> c div 64 = 2 \<and> y = v * 64 + c mod 64"
proof
  assume a: "y div 64 = v \<and> c = 0x80 + y mod 64"
  have "(2 * 64 + y mod 64) div 64 = 2" "(2 * 64 + y mod 64) mod 64 = y mod 64"
    by (simp_all only: div_mult_self3 mod_mult_self3) simp_all
  moreover have "c = 2 * 64 + y mod 64" using a by simp
  ultimately have "c div 64 = 2" "c mod 64 = y mod 64" by simp_all
  with a div_mult_mod_eq [of y 64] show "c div 64 = 2 \<and> y = v * 64 + c mod 64" by simp
next
  assume a: "c div 64 = 2 \<and> y = v * 64 + c mod 64"
  then have "c = 2 * 64 + c mod 64" using div_mult_mod_eq [of c 64] by simp
  moreover have "y div 64 = v" "y mod 64 = c mod 64" using a by simp_all
  ultimately show "y div 64 = v \<and> c = 0x80 + y mod 64" by simp
qed

lemma utf8_continue_iff:
  "Suc (unat v) * 64 ^ n \<le> 2 ^ 32 \<Longrightarrow>
   utf8_continue n v s = (Some w, t) \<longleftrightarrow> s = continuation n (unat w) @ t \<and> unat w div 64 ^ n = unat v"
proof (induction n arbitrary: v s)
  case 0
  show ?case by (auto simp: word_unat_eq_iff)
next
  case (Suc n)
  have "Suc (unat v) * 64 \<le> Suc (unat v) * 64 ^ Suc n" by (intro mult_le_mono2) simp
  then have b': "Suc (unat v) * 64 \<le> 2 ^ 32" using Suc.prems by (rule order_trans)
  then have b: "unat v * 64 < 2 ^ 32" by simp
  show ?case
  proof (cases s)
    case (Cons c r)
    let ?v = "push_bit 6 v OR ucast (c AND BOTTOM_BITS 6) :: u32"
    note v = utf8_continue_step [OF b, of c]
    have w: "unat w div 64 ^ Suc n = unat v \<and> c = of_nat (0x80 + unat w div 64 ^ n mod 64) \<longleftrightarrow>
        unat c div 64 = 2 \<and> unat w div 64 ^ n = unat ?v"
    proof -
      define y where "y = unat w div 64 ^ n"
      have y: "unat w div 64 ^ Suc n = y div 64" unfolding y_def div_mult2_eq [symmetric] by (simp add: mult.commute)
      have "c = of_nat (0x80 + y mod 64) \<longleftrightarrow> unat c = 0x80 + y mod 64"
        unfolding word_unat_eq_iff continuation_byte ..
      then show ?thesis unfolding v y y_def [symmetric] using continuation_arith by blast
    qed
    have "Suc (unat ?v) \<le> Suc (unat v) * 64" unfolding v by simp
    then have "Suc (unat ?v) * 64 ^ n \<le> Suc (unat v) * 64 * 64 ^ n" by (rule mult_le_mono1)
    also have "Suc (unat v) * 64 * 64 ^ n \<le> 2 ^ 32" using Suc.prems by (simp add: algebra_simps)
    finally have lim: "Suc (unat ?v) * 64 ^ n \<le> 2 ^ 32" .
    have "utf8_continue (Suc n) v (c # r) = (Some w, t) \<longleftrightarrow> unat c div 64 = 2 \<and> utf8_continue n ?v r = (Some w, t)"
      unfolding utf8_continue.simps CBS_get_u8_simps prod.case option.case byte_class by simp
    moreover have "c # r = continuation (Suc n) (unat w) @ t \<longleftrightarrow>
        c = of_nat (0x80 + unat w div 64 ^ n mod 64) \<and> r = continuation n (unat w) @ t"
      unfolding continuation_Cons append.simps list.inject ..
    ultimately show ?thesis using Suc.IH [OF lim, of r] w unfolding Cons by blast
  qed (simp add: continuation_Cons)
qed

lemma valid_code_point_bound: "is_valid_code_point v \<Longrightarrow> unat v \<le> 0x10ffff"
proof -
  assume "is_valid_code_point v"
  then have "v \<le> 0x10ffff" by (auto simp: is_valid_code_point_def split: if_splits)
  then show ?thesis by (simp add: word_le_nat_alt)
qed

lemma utf8_lead:
  "c \<le> 0x7f \<longleftrightarrow> unat c < 0x80" for c :: u8
  by (auto simp: word_le_nat_alt)

lemma rd_bind_u8: "rd_bind CBS_get_u8 f (c # s) = f c s"
  by (simp add: rd_bind_def)

lemma cbs_get_utf8_lead:
  fixes c :: u8
  shows "cbs_get_utf8 (c # s) =
    (if unat c < 0x80 then (Some (ucast c), s)
     else if unat c div 32 = 6 then
       rd_bind (utf8_continue 1 (ucast (c AND BOTTOM_BITS 5)))
         (\<lambda>v. if \<not> is_valid_code_point v \<or> unat v < 0x80 then rd_fail else rd_return v) s
     else if unat c div 16 = 14 then
       rd_bind (utf8_continue 2 (ucast (c AND BOTTOM_BITS 4)))
         (\<lambda>v. if \<not> is_valid_code_point v \<or> unat v < 0x800 then rd_fail else rd_return v) s
     else if unat c div 8 = 30 then
       rd_bind (utf8_continue 3 (ucast (c AND BOTTOM_BITS 3)))
         (\<lambda>v. if \<not> is_valid_code_point v \<or> unat v < 0x10000 then rd_fail else rd_return v) s
     else (None, s))"
proof -
  have lt: "(v :: u32) < 0x80 \<longleftrightarrow> unat v < 0x80" "v < 0x800 \<longleftrightarrow> unat v < 0x800"
    "v < 0x10000 \<longleftrightarrow> unat v < 0x10000" for v
    by (simp_all add: word_less_nat_alt)
  show ?thesis
    unfolding cbs_get_utf8_def rd_bind_u8 utf8_lead byte_class Let_def
    by (simp add: lt)
qed

lemma continue_lead:
  assumes "n \<le> 8" "2 ^ n * 64 ^ k \<le> (2 ^ 32 :: nat)"
  shows "utf8_continue k (ucast (c AND BOTTOM_BITS n)) s = (Some w, t) \<longleftrightarrow>
    s = continuation k (unat w) @ t \<and> unat w div 64 ^ k = unat c mod 2 ^ n"
proof -
  have u: "unat (ucast (c AND BOTTOM_BITS n) :: u32) = unat c mod 2 ^ n"
    using unat_and_bottom [OF assms(1), of c] u8_less_256 [of "c AND BOTTOM_BITS n"]
    by (simp add: unat_ucast_mod del: u8_less_256)
  have "Suc (unat c mod 2 ^ n) * 64 ^ k \<le> 2 ^ n * 64 ^ k" by (intro mult_le_mono1) (simp add: Suc_le_eq)
  then have "Suc (unat (ucast (c AND BOTTOM_BITS n) :: u32)) * 64 ^ k \<le> 2 ^ 32" unfolding u using assms(2) by (rule order_trans)
  from utf8_continue_iff [OF this, of s w t] show ?thesis unfolding u .
qed

lemma lead_byte:
  assumes "y < 2 ^ n" "n \<le> 8" "k * 2 ^ n + 2 ^ n \<le> 256"
  shows "c = of_nat (k * 2 ^ n + y) \<longleftrightarrow> unat (c :: u8) div 2 ^ n = k \<and> unat c mod 2 ^ n = y"
proof -
  have "k * 2 ^ n + y < 256" using assms by linarith
  then have "c = of_nat (k * 2 ^ n + y) \<longleftrightarrow> unat c = k * 2 ^ n + y"
    by (simp only: word_unat_eq_iff unat_of_nat) simp
  also have "\<dots> \<longleftrightarrow> unat c div 2 ^ n = k \<and> unat c mod 2 ^ n = y"
    using assms(1) div_mult_mod_eq [of "unat c" "2 ^ n"] by auto
  finally show ?thesis .
qed

lemma utf8_Cons_iff:
  assumes "x \<le> 0x10ffff"
  shows "c # r = utf8 x @ t \<longleftrightarrow>
    (if x < 0x80 then unat c = x \<and> r = t
     else if x < 0x800 then unat c div 32 = 6 \<and> unat c mod 32 = x div 64 \<and> r = continuation 1 x @ t
     else if x < 0x10000 then unat c div 16 = 14 \<and> unat c mod 16 = x div 64 ^ 2 \<and> r = continuation 2 x @ t
     else unat c div 8 = 30 \<and> unat c mod 8 = x div 64 ^ 3 \<and> r = continuation 3 x @ t)"
proof -
  have 1: "x < 0x80 \<Longrightarrow> c = of_nat x \<longleftrightarrow> unat c = x"
    by (simp only: word_unat_eq_iff unat_of_nat) simp
  have 2: "x < 0x800 \<Longrightarrow> c = of_nat (0xc0 + x div 64) \<longleftrightarrow> unat c div 32 = 6 \<and> unat c mod 32 = x div 64"
    using lead_byte [of "x div 64" 5 6 c] by (simp add: div_less_iff_less_mult)
  have 3: "x < 0x10000 \<Longrightarrow> c = of_nat (0xe0 + x div 64 ^ 2) \<longleftrightarrow> unat c div 16 = 14 \<and> unat c mod 16 = x div 64 ^ 2"
    using lead_byte [of "x div 64 ^ 2" 4 14 c] by (simp add: div_less_iff_less_mult)
  have 4: "c = of_nat (0xf0 + x div 64 ^ 3) \<longleftrightarrow> unat c div 8 = 30 \<and> unat c mod 8 = x div 64 ^ 3"
    using lead_byte [of "x div 64 ^ 3" 3 30 c] assms by (simp add: div_less_iff_less_mult)
  show ?thesis
    using 1 2 3 4 by (auto simp: utf8_def simp del: of_nat_add of_nat_numeral)
qed

lemma valid_ascii: "unat v < 0x80 \<Longrightarrow> is_valid_code_point v"
proof -
  assume a: "unat v < 0x80"
  then have "v AND 0xfffe \<noteq> 0xfffe"
    using word_and_le2 [of v "0xfffe"] by (auto simp: word_le_nat_alt)
  moreover have "\<not> v > 0x10ffff" "\<not> v \<ge> 0xfdd0" "\<not> v \<ge> 0xd800"
    using a by (simp_all add: word_less_nat_alt word_le_nat_alt)
  ultimately show ?thesis by (simp add: is_valid_code_point_def)
qed

lemma continue_then_iff:
  assumes "n \<le> 8" "2 ^ n * 64 ^ k \<le> (2 ^ 32 :: nat)"
  shows "rd_bind (utf8_continue k (ucast (c AND BOTTOM_BITS n)))
      (\<lambda>v. if \<not> is_valid_code_point v \<or> unat v < low then rd_fail else rd_return v) s = (Some w, t) \<longleftrightarrow>
    is_valid_code_point w \<and> low \<le> unat w \<and> s = continuation k (unat w) @ t \<and> unat w div 64 ^ k = unat c mod 2 ^ n"
  by (auto simp: rd_bind_eq_Some continue_lead [OF assms] split: if_splits)

lemma cbs_get_utf8_iff:
  "cbs_get_utf8 s = (Some v, t) \<longleftrightarrow> is_valid_code_point v \<and> s = utf8 (unat v) @ t"
proof (cases s)
  case Nil
  then show ?thesis by (simp add: cbs_get_utf8_def rd_bind_def utf8_def)
next
  case (Cons c r)
  define x where "x = unat v"
  define y where "y = unat c"
  have cl: "rd_bind (utf8_continue 1 (ucast (c AND BOTTOM_BITS 5)))
         (\<lambda>v. if \<not> is_valid_code_point v \<or> unat v < 0x80 then rd_fail else rd_return v) r = (Some v, t) \<longleftrightarrow>
      is_valid_code_point v \<and> 0x80 \<le> x \<and> r = continuation 1 x @ t \<and> x div 64 = y mod 32"
    "rd_bind (utf8_continue 2 (ucast (c AND BOTTOM_BITS 4)))
         (\<lambda>v. if \<not> is_valid_code_point v \<or> unat v < 0x800 then rd_fail else rd_return v) r = (Some v, t) \<longleftrightarrow>
      is_valid_code_point v \<and> 0x800 \<le> x \<and> r = continuation 2 x @ t \<and> x div 64 ^ 2 = y mod 16"
    "rd_bind (utf8_continue 3 (ucast (c AND BOTTOM_BITS 3)))
         (\<lambda>v. if \<not> is_valid_code_point v \<or> unat v < 0x10000 then rd_fail else rd_return v) r = (Some v, t) \<longleftrightarrow>
      is_valid_code_point v \<and> 0x10000 \<le> x \<and> r = continuation 3 x @ t \<and> x div 64 ^ 3 = y mod 8"
    using continue_then_iff [where n = 5 and k = 1 and c = c and low = "0x80" and s = r and w = v and t = t]
      continue_then_iff [where n = 4 and k = 2 and c = c and low = "0x800" and s = r and w = v and t = t]
      continue_then_iff [where n = 3 and k = 3 and c = c and low = "0x10000" and s = r and w = v and t = t]
    by (simp_all add: x_def y_def)
  have sm: "x div 64 = y mod 32 \<Longrightarrow> x < 0x800" "x div 64 ^ 2 = y mod 16 \<Longrightarrow> x < 0x10000"
    using div_less_iff_less_mult [of 64 x 32] div_less_iff_less_mult [of 4096 x 16] by auto
  have ex: "y < 0x80 \<Longrightarrow> y div 32 \<noteq> 6 \<and> y div 16 \<noteq> 14 \<and> y div 8 \<noteq> 30" "y div 32 = 6 \<Longrightarrow> y div 16 \<noteq> 14 \<and> y div 8 \<noteq> 30"
    "y div 16 = 14 \<Longrightarrow> y div 8 \<noteq> 30"
    by linarith+
  have a: "(ucast c :: u32) = v \<longleftrightarrow> y = x"
    using u8_less_256 [of c] by (simp add: word_unat_eq_iff unat_ucast_mod x_def y_def del: u8_less_256)
  have lhs: "cbs_get_utf8 s = (Some v, t) \<longleftrightarrow>
    (if y < 0x80 then y = x \<and> r = t
     else if y div 32 = 6 then is_valid_code_point v \<and> 0x80 \<le> x \<and> r = continuation 1 x @ t \<and> x div 64 = y mod 32
     else if y div 16 = 14 then is_valid_code_point v \<and> 0x800 \<le> x \<and> r = continuation 2 x @ t \<and> x div 64 ^ 2 = y mod 16
     else if y div 8 = 30 then is_valid_code_point v \<and> 0x10000 \<le> x \<and> r = continuation 3 x @ t \<and> x div 64 ^ 3 = y mod 8
     else False)"
    unfolding Cons cbs_get_utf8_lead y_def [symmetric] using cl a by simp
  show ?thesis
  proof (cases "is_valid_code_point v")
    case True
    have bound: "x \<le> 0x10ffff" using valid_code_point_bound [OF True] by (simp add: x_def)
    show ?thesis
      unfolding lhs unfolding Cons x_def [symmetric] utf8_Cons_iff [OF bound] y_def [symmetric]
      using True sm ex by auto
  next
    case False
    then have "\<not> x < 0x80" using valid_ascii [of v] by (auto simp: x_def)
    then show ?thesis unfolding lhs using False by auto
  qed
qed

interpretation utf8: canonical_codec "\<lambda>v. utf8 (unat v)" cbs_get_utf8 is_valid_code_point
proof
  have cont: "\<exists>pre. s = pre @ snd (utf8_continue n v s)" for n v s
  proof (induction n v s rule: utf8_continue.induct)
    case (2 n v s)
    show ?case
    proof (cases s)
      case (Cons c r)
      show ?thesis
      proof (cases "c AND TOP_BITS 2 = TOP_BITS 1")
        case True
        with 2 Cons obtain pre where "r = pre @ snd (utf8_continue n (push_bit 6 v OR ucast (c AND BOTTOM_BITS 6)) r)"
          by fastforce
        then show ?thesis using True Cons by (intro exI [of _ "c # pre"]) simp
      qed (use Cons in auto)
    qed simp
  qed simp
  show "\<exists>pre. s = pre @ snd (cbs_get_utf8 s)" for s
    unfolding cbs_get_utf8_def Let_def
    by (rule rd_bind_suffix [OF u8.dec_suffix])
      (auto split: option.splits intro!: rd_bind_suffix cont)
qed (simp_all add: cbs_get_utf8_iff)

section \<open>Writing\<close>

lemma or_lead:
  assumes "unat w < 2 ^ n" "unat (m :: u8) = k * 2 ^ n"
  shows "m OR w = of_nat (k * 2 ^ n + unat w)"
proof -
  have "unat (m OR w) = k * 2 ^ n + unat w"
    using or_add_disjoint [OF assms(1), of k] assms(2) by (simp add: unsigned_or_eq)
  then show ?thesis by (metis of_nat_unat ucast_id)
qed

lemma cont_byte:
  "TOP_BITS 1 OR (ucast (w :: u32) AND BOTTOM_BITS 6) = of_nat (0x80 + unat w mod 64)"
proof -
  have m: "unat (ucast w AND BOTTOM_BITS 6 :: u8) = unat w mod 64"
    using unat_and_bottom [of 6 "ucast w"] mod_mod_cancel [of 64 256 "unat w"]
    by (simp add: unat_ucast_mod)
  have "unat (TOP_BITS 1) = 2 * 2 ^ 6" by (simp only: top_const) simp
  with or_lead [of "ucast w AND BOTTOM_BITS 6" 6 "TOP_BITS 1" 2] m show ?thesis by simp
qed

lemma lead_byte_word:
  fixes u :: u32 and m :: u8
  assumes "unat u div 2 ^ j < 2 ^ n" "n \<le> 8" "unat m = k * 2 ^ n"
  shows "m OR ucast (drop_bit j u) = of_nat (k * 2 ^ n + unat u div 2 ^ j)"
proof -
  have "(2 :: nat) ^ n \<le> 2 ^ 8" using assms(2) by (intro power_increasing) simp_all
  then have "unat (ucast (drop_bit j u) :: u8) = unat u div 2 ^ j"
    using assms(1) by (simp only: unat_ucast_mod unat_drop_bit) simp
  with or_lead [of "ucast (drop_bit j u)" n m k] assms show ?thesis by simp
qed

lemma utf8_simps:
  "x < 0x80 \<Longrightarrow> utf8 x = [of_nat x]"
  "0x80 \<le> x \<Longrightarrow> x < 0x800 \<Longrightarrow> utf8 x = [of_nat (0xc0 + x div 64), of_nat (0x80 + x mod 64)]"
  "0x800 \<le> x \<Longrightarrow> x < 0x10000 \<Longrightarrow>
     utf8 x = [of_nat (0xe0 + x div 4096), of_nat (0x80 + x div 64 mod 64), of_nat (0x80 + x mod 64)]"
  "0x10000 \<le> x \<Longrightarrow>
     utf8 x = [of_nat (0xf0 + x div 262144), of_nat (0x80 + x div 4096 mod 64), of_nat (0x80 + x div 64 mod 64),
       of_nat (0x80 + x mod 64)]"
  by (simp_all add: utf8_def eval_nat_numeral(3) numeral_2_eq_2 numeral_3_eq_3 del: of_nat_add)
    (simp_all add: div_mult2_eq [symmetric])

lemma cbb_get_utf8_len_eq: "cbb_get_utf8_len u = length (utf8 (unat u))"
  by (simp add: cbb_get_utf8_len_def utf8_def word_le_nat_alt)

context allocator
begin

lemma refines_fail: "refines malloc cbb_fail (\<lambda>a. None)"
  by (rule refinesI) (auto simp: cbb_fail_def)

lemma refines_add_utf8:
  "refines malloc (cbb_add_utf8 malloc u d) (\<lambda>a. if is_valid_code_point u then put d (utf8 (unat u)) a else None)"
proof (cases "is_valid_code_point u")
  case False
  then show ?thesis using refines_fail by (simp add: cbb_add_utf8_def)
next
  case True
  define x where "x = unat u"
  have b: "x \<le> 0x10ffff" using valid_code_point_bound [OF True] by (simp add: x_def)
  have le: "u \<le> 0x7f \<longleftrightarrow> x < 0x80" "u \<le> 0x7ff \<longleftrightarrow> x < 0x800" "u \<le> 0xffff \<longleftrightarrow> x < 0x10000" "u \<le> 0x10ffff"
    using b by (auto simp: word_le_nat_alt x_def)
  have k: "unat (TOP_BITS 2) = 6 * 2 ^ 5" "unat (TOP_BITS 3) = 14 * 2 ^ 4" "unat (TOP_BITS 4) = 30 * 2 ^ 3"
    by (simp_all only: top_const) simp_all
  have db: "unat (drop_bit 6 u) = x div 64" "unat (drop_bit 12 u) = x div 4096" "unat (drop_bit 18 u) = x div 262144"
    by (simp_all only: unat_drop_bit x_def) simp_all
  note c = cont_byte [of u, folded x_def] cont_byte [of "drop_bit 6 u", unfolded db] cont_byte [of "drop_bit 12 u", unfolded db]
  consider "x < 0x80" | "0x80 \<le> x" "x < 0x800" | "0x800 \<le> x" "x < 0x10000" | "0x10000 \<le> x" by linarith
  then have "refines malloc (cbb_add_utf8 malloc u d) (put d (utf8 x))"
  proof cases
    case 1
    have "(ucast u :: u8) = of_nat x" by (simp add: word_unat_eq_iff unat_ucast_mod x_def unat_of_nat)
    with 1 True le refines_add_u8 [of "of_nat x" d] show ?thesis
      by (simp add: cbb_add_utf8_def utf8_simps(1))
  next
    case 2
    have l: "TOP_BITS 2 OR ucast (drop_bit 6 u) = of_nat (0xc0 + x div 64)"
      using lead_byte_word [OF _ _ k(1), of u 6] 2 by (simp add: x_def div_less_iff_less_mult)
    from refines_put_put [OF refines_add_u8 refines_add_u8, of "of_nat (0xc0 + x div 64)" d "of_nat (0x80 + x mod 64)"]
    show ?thesis unfolding cbb_add_utf8_def c l using 2 True le by (simp add: utf8_simps(2) del: of_nat_add)
  next
    case 3
    have l: "TOP_BITS 3 OR ucast (drop_bit 12 u) = of_nat (0xe0 + x div 4096)"
      using lead_byte_word [OF _ _ k(2), of u 12] 3 by (simp add: x_def div_less_iff_less_mult)
    from refines_put_put [OF refines_add_u8 refines_put_put [OF refines_add_u8 refines_add_u8],
        of "of_nat (0xe0 + x div 4096)" d "of_nat (0x80 + x div 64 mod 64)" "of_nat (0x80 + x mod 64)"]
    show ?thesis unfolding cbb_add_utf8_def c l using 3 True le by (simp add: utf8_simps(3) del: of_nat_add)
  next
    case 4
    have l: "TOP_BITS 4 OR ucast (drop_bit 18 u) = of_nat (0xf0 + x div 262144)"
      using lead_byte_word [OF _ _ k(3), of u 18] b by (simp add: x_def div_less_iff_less_mult)
    from refines_put_put [OF refines_add_u8 refines_put_put [OF refines_add_u8 refines_put_put [OF refines_add_u8 refines_add_u8]],
        of "of_nat (0xf0 + x div 262144)" d "of_nat (0x80 + x div 4096 mod 64)" "of_nat (0x80 + x div 64 mod 64)" "of_nat (0x80 + x mod 64)"]
    show ?thesis unfolding cbb_add_utf8_def c l using 4 True le by (simp add: utf8_simps(4) del: of_nat_add)
  qed
  with True show ?thesis by (simp add: x_def)
qed

end

lemma cbs_get_ucs2_be_iff:
  "cbs_get_ucs2_be s = (Some v, t) \<longleftrightarrow>
   is_valid_code_point v \<and> unat v < 2 ^ 16 \<and> s = be_bytes 2 (unat v) @ t"
proof
  assume "cbs_get_ucs2_be s = (Some v, t)"
  then obtain c where c: "CBS_get_u16 s = (Some c, t)" "v = ucast c" "is_valid_code_point v"
    by (auto simp: cbs_get_ucs2_be_def rd_bind_eq_Some split: if_splits)
  then have "unat v = unat c" using u16_less_lim [of c] by (simp add: unat_ucast_mod del: u16_less_lim)
  with c u16.canonical [OF c(1)] u16_less_lim [of c]
  show "is_valid_code_point v \<and> unat v < 2 ^ 16 \<and> s = be_bytes 2 (unat v) @ t" by simp
next
  assume a: "is_valid_code_point v \<and> unat v < 2 ^ 16 \<and> s = be_bytes 2 (unat v) @ t"
  then have u: "unat (ucast v :: u16) = unat v" by (simp add: unat_ucast_mod)
  then have "(ucast (ucast v :: u16) :: u32) = v" by (simp add: word_unat_eq_iff unat_ucast_mod)
  moreover have "CBS_get_u16 s = (Some (ucast v), t)"
    using u16.roundtrip [of "ucast v" t] u a by simp
  ultimately show "cbs_get_ucs2_be s = (Some v, t)"
    using a by (simp add: cbs_get_ucs2_be_def)
qed

lemma cbs_get_utf32_be_iff:
  "cbs_get_utf32_be s = (Some v, t) \<longleftrightarrow> is_valid_code_point v \<and> s = be_bytes 4 (unat v) @ t"
proof
  assume "cbs_get_utf32_be s = (Some v, t)"
  then have "CBS_get_u32 s = (Some v, t)" "is_valid_code_point v"
    by (auto simp: cbs_get_utf32_be_def rd_bind_eq_Some split: if_splits)
  with u32.canonical show "is_valid_code_point v \<and> s = be_bytes 4 (unat v) @ t" by blast
next
  assume "is_valid_code_point v \<and> s = be_bytes 4 (unat v) @ t"
  then show "cbs_get_utf32_be s = (Some v, t)"
    using u32.roundtrip [of v t] by (simp add: cbs_get_utf32_be_def)
qed

end
