(* ===== verification/DerProps.thy ===== *)
theory DerProps
  imports CbbProps Oid SetOf Unicode
begin

text \<open>
  The properties of the readers, and the round trips between what the builder of theory \<open>Cbb\<close> writes
  and what the readers of theory \<open>Cbs\<close> accept.
\<close>

section \<open>One operation between init and finish\<close>

context allocator
begin

lemma one_op_sound:
  assumes "refines malloc f (put 0 x)" "n < size_lim" "CBB_init malloc n = (True, st0)" "f st0 = (True, st1)"
    and "fst (CBB_finish malloc True True 0 st1) = Some out"
  shows "handed_out out = x"
proof -
  obtain a where "put 0 x [(Root, [])] = Some a" "represents st1 a"
    using refines_ok [OF assms(1) CBB_init_represents(1) [OF assms(2,3)] assms(4)] by blast
  then have "represents st1 [(Root, x)]" by (simp add: put_root)
  moreover obtain st' where "CBB_finish malloc True True 0 st1 = (Some out, st')"
    using assms(5) by (cases "CBB_finish malloc True True 0 st1") auto
  ultimately show ?thesis using CBB_finish_ok by fastforce
qed

lemma one_op_complete:
  assumes "refines malloc f (put 0 x)" "n < size_lim" "CBB_init malloc n = (True, st0)"
    and "2 * length x + 8 < size_lim" "\<forall>k \<le> 2 * length x + 8. malloc k \<noteq> None"
  shows "\<exists>st1. f st0 = (True, st1) \<and> map_option handed_out (fst (CBB_finish malloc True True 0 st1)) = Some x"
proof -
  note init = CBB_init_represents(1) [OF assms(2,3)] CBB_init_represents(2) [OF assms(2-5)]
  obtain st1 where st1: "f st0 = (True, st1)" "has_room malloc st1 (length x)" "represents st1 [(Root, x)]"
    using refines_room [OF assms(1) init(1) put_root init(2)] by auto
  from CBB_finish_room [OF st1(3) _ st1(2)] st1(1) show ?thesis by fastforce
qed

end

section \<open>Elements\<close>

text \<open>
  C6. The DER parser accepts exactly the canonical encodings: it returns an element, a tag and a header
  length if and only if the input starts with identifier octets in their shortest form, the shortest
  length octets, and that many bytes of contents, fewer than 2 to the 32.
\<close>

theorem der_parser_exact:
  "CBS_get_any_asn1_element s = (Some (out, tag, hl), t) \<longleftrightarrow>
   (\<exists>body. length body < 2 ^ 32 \<and> out = der tag body \<and> hl = der_header_len tag (length body) \<and> s = out @ t)"
  by (rule CBS_get_any_asn1_element_iff)

text \<open>
  C7. What the builder writes for an element with any tag and contents, the parser reads back: the same
  contents, and exactly what followed the element is left.
\<close>

theorem tlv_roundtrip:
  assumes "allocator al" "n < size_lim" "CBB_init al n = (True, st0)" "length body < 2 ^ 32"
    and "fst (CBB_finish al True True 0 (run_calls al [(Open_asn1 tag, 0), (Add_bytes body, 1)] st0)) = Some out"
  shows "CBS_get_asn1 tag (handed_out out @ rest) = (Some body, rest)"
proof -
  have "size_lim > (2 :: nat) ^ 32" by simp
  then have dk: "depths_ok 1 [(Open_asn1 tag, 0), (Add_bytes body, 1)]" using assms(4) by simp
  obtain st' where f: "CBB_finish al True True 0 (run_calls al [(Open_asn1 tag, 0), (Add_bytes body, 1)] st0) = (Some out, st')"
    using assms(5) by (cases "CBB_finish al True True 0 (run_calls al [(Open_asn1 tag, 0), (Add_bytes body, 1)] st0)") auto
  from allocator.builder_sound [OF assms(1-3) dk f]
  obtain a where a: "spec_calls [(Open_asn1 tag, 0), (Add_bytes body, 1)] [(Root, [])] = Some a"
    "close a = Some (Root, handed_out out)" by blast
  have "a = [(Root, der_tag tag), (Asn1_pfx, body)]"
    using a(1) by (simp add: spec_call_def allocator.put_root [OF assms(1)] open_last_def)
      (simp add: put_def close_at_def add_last_def)
  with a(2) have "handed_out out = der tag body"
    by (auto simp: der_def split: option.splits if_splits)
  then show ?thesis using get_asn1.roundtrip [of body tag rest] assms(4) by simp
qed

definition sample_tlv :: "(bytes option \<times> nat) option" where
  "sample_tlv = fst (CBB_finish (arena 1000) True True 0
     (run_calls (arena 1000) [(Open_asn1 0xa0000123, 0), (Add_bytes [5, 6], 1)] sample_start))"

lemma sample_tlv_Some: "sample_tlv = Some (the sample_tlv)"
  by code_simp

theorem tlv_roundtrip_witness:
  "CBS_get_asn1 0xa0000123 (handed_out (the sample_tlv) @ [9]) = (Some [5, 6], [9])"
  by (rule tlv_roundtrip [of "arena 1000" 4 sample_start])
    (use sample_init sample_tlv_Some in \<open>simp_all add: arena.allocator_axioms sample_tlv_def\<close>)

section \<open>Integers\<close>

text \<open>
  C9. \<open>CBS_is_valid_asn1_integer\<close> holds of exactly the shortest two's complement encodings, one per
  integer, and reports the sign; \<open>CBS_is_unsigned_asn1_integer\<close> of those of the naturals.
\<close>

theorem asn1_integer_canonical:
  "(fst (CBS_is_valid_asn1_integer bs) \<longleftrightarrow> (\<exists>i. bs = int_body i)) \<and>
   (CBS_is_valid_asn1_integer bs = (True, True) \<longleftrightarrow> (\<exists>i. i < 0 \<and> bs = int_body i)) \<and>
   (CBS_is_unsigned_asn1_integer bs \<longleftrightarrow> (\<exists>n :: nat. bs = int_body (int n)))"
proof -
  have m: "minimal_int bs \<longleftrightarrow> (\<exists>i. bs = int_body i)" using minimal_int_iff by blast
  have neg: "(bs \<noteq> [] \<and> \<not> uint (hd bs) < 128) \<longleftrightarrow> sval bs < 0"
  proof -
    have "int (be_val bs) < 256 ^ length bs"
      using be_val_bound [of bs] by (metis of_nat_less_iff of_nat_numeral of_nat_power)
    then show ?thesis by (auto simp: sval_def)
  qed
  have "(\<exists>i. i < 0 \<and> bs = int_body i) \<longleftrightarrow> minimal_int bs \<and> sval bs < 0"
    using minimal_int_iff [of bs] by (metis sval_int_body)
  moreover have "(\<exists>n :: nat. bs = int_body (int n)) \<longleftrightarrow> minimal_int bs \<and> 0 \<le> sval bs"
    using minimal_int_iff [of bs] by (metis sval_int_body zero_le_imp_eq_int of_nat_0_le_iff)
  ultimately show ?thesis using m neg by (auto simp: valid_asn1_integer_eq is_unsigned_iff)
qed

text \<open>
  C8. \<open>CBS_get_asn1_uint64\<close> and \<open>CBS_get_asn1_int64\<close> accept exactly the INTEGER elements of their type,
  in the one canonical form, and return the value: at the bounds of the type and below zero included.
\<close>

theorem asn1_int64_exact:
  "(CBS_get_asn1_uint64 s = (Some u, t) \<longleftrightarrow> s = der CBS_ASN1_INTEGER (int_body (uint u)) @ t) \<and>
   (CBS_get_asn1_int64 s = (Some v, t) \<longleftrightarrow> s = der CBS_ASN1_INTEGER (int_body (sint v)) @ t)"
  by (simp add: CBS_get_asn1_uint64_iff CBS_get_asn1_int64_iff)

text \<open>
  A signed integer survives the builder and the parser: what \<open>CBB_add_asn1_int64\<close> writes,
  \<open>CBS_get_asn1_int64\<close> reads back, for every 64-bit value.
\<close>

theorem int64_roundtrip:
  assumes "allocator al" "n < size_lim" "CBB_init al n = (True, st0)" "CBB_add_asn1_int64 al v 0 st0 = (True, st1)"
    and "fst (CBB_finish al True True 0 st1) = Some out"
  shows "CBS_get_asn1_int64 (handed_out out @ rest) = (Some v, rest)"
  using allocator.one_op_sound [OF assms(1) allocator.refines_asn1_int64 [OF assms(1)] assms(2-5)]
  by (simp add: CBS_get_asn1_int64_iff)

definition sample_int64 :: cbb where
  "sample_int64 = snd (CBB_add_asn1_int64 (arena 1000) (- 129) 0 sample_start)"

lemma sample_int64_ok:
  "fst (CBB_add_asn1_int64 (arena 1000) (- 129) 0 sample_start)"
  "fst (CBB_finish (arena 1000) True True 0 sample_int64) =
   Some (the (fst (CBB_finish (arena 1000) True True 0 sample_int64)))"
  by code_simp+

theorem int64_roundtrip_witness:
  "CBS_get_asn1_int64 (handed_out (the (fst (CBB_finish (arena 1000) True True 0 sample_int64))) @ [7]) = (Some (- 129), [7])"
  by (rule int64_roundtrip [OF arena.allocator_axioms _ sample_init _ sample_int64_ok(2)])
    (use sample_int64_ok(1) in \<open>simp_all add: sample_int64_def prod_eq_iff\<close>)

text \<open>
  \<open>CBS_get_optional_asn1_uint64\<close> returns the default and consumes nothing when the tag is absent, and
  otherwise accepts only one canonical INTEGER wrapped in the tag, with nothing after it inside.
\<close>

theorem optional_uint64_exact:
  "CBS_get_optional_asn1_uint64 tag d s = (Some v, t) \<longleftrightarrow>
   (if \<exists>r. s = der_tag tag @ r
    then s = der tag (der CBS_ASN1_INTEGER (int_body (uint v))) @ t
    else v = d \<and> t = s)"
  by (simp add: optional_uint64_iff CBS_peek_asn1_tag_iff)

section \<open>Bit strings\<close>

lemma low_bits_zero_iff: "(\<forall>j < k. \<not> bit w j) \<longleftrightarrow> unat (w :: u8) mod 2 ^ k = 0"
proof -
  have "unat w mod 2 ^ k = unat (take_bit k w)" by (simp only: unsigned_take_bit_eq) (simp only: take_bit_eq_mod)
  moreover have "(unat (take_bit k w) = 0) = (w AND (2 ^ k - 1) = 0)"
    unfolding take_bit_eq_mask mask_eq_exp_minus_1 by (simp only: unsigned_0 word_unat_eq_iff)
  ultimately show ?thesis by (simp add: and_mask_eq_0_iff)
qed

text \<open>
  \<open>CBS_asn1_bitstring_has_bit\<close> reports a bit only if the contents are a valid BIT STRING (a byte of at
  most seven padding bits, all of them zero, none when the string is empty) and the bit is one of the
  string's own, counted from the most significant bit of the first byte.
\<close>

theorem bitstring_bits_exact:
  "(CBS_asn1_bitstring_has_bit cbs n \<longleftrightarrow>
      CBS_is_valid_asn1_bitstring cbs \<and> unat n + unat (hd cbs) < 8 * (length cbs - 1) \<and>
      bit (cbs ! (unat n div 8 + 1)) (7 - unat n mod 8)) \<and>
   (CBS_is_valid_asn1_bitstring cbs \<longleftrightarrow>
      cbs \<noteq> [] \<and> unat (hd cbs) \<le> 7 \<and>
      (hd cbs = 0 \<or> (tl cbs \<noteq> [] \<and> unat (last cbs) mod 2 ^ unat (hd cbs) = 0)))"
proof
  show "CBS_asn1_bitstring_has_bit cbs n \<longleftrightarrow>
      CBS_is_valid_asn1_bitstring cbs \<and> unat n + unat (hd cbs) < 8 * (length cbs - 1) \<and>
      bit (cbs ! (unat n div 8 + 1)) (7 - unat n mod 8)"
    by (cases "cbs = []") (auto simp: has_bit_iff bitstring_bit_def hd_conv_nth valid_bitstring_iff)
qed (auto simp: valid_bitstring_iff low_bits_zero_iff)

section \<open>Object identifiers\<close>

text \<open>
  C10. Printing an object identifier and parsing the text gives back its contents octets: the text that
  \<open>CBS_asn1_oid_to_text\<close> returns (before its NUL) makes \<open>CBB_add_asn1_oid_from_text\<close> append exactly the bytes
  it was printed from, given memory.
\<close>

theorem oid_text_roundtrip:
  assumes "allocator al" "CBS_asn1_oid_to_text al cbs = Some txt" "n < size_lim" "CBB_init al n = (True, st0)"
    and "2 * length cbs + 8 < size_lim" "\<forall>k \<le> 2 * length cbs + 8. al k \<noteq> None"
  shows "\<exists>st1. CBB_add_asn1_oid_from_text al (butlast txt) 0 st0 = (True, st1) \<and>
    map_option handed_out (fst (CBB_finish al True True 0 st1)) = Some cbs"
proof -
  obtain ns where ns: "oid_valid ns" "cbs = oid_body ns" "txt = dotted ns @ [0]"
    using allocator.oid_to_text_sound [OF assms(1,2)] by blast
  from allocator.one_op_complete [OF assms(1) allocator.refines_oid_from_text [OF assms(1) ns(1)] assms(3,4)]
    assms(5,6) show ?thesis by (simp add: ns)
qed

lemma sample_oid: "CBS_asn1_oid_to_text (arena 1000) [0x2a, 0x86, 0x48] = Some [49, 46, 50, 46, 56, 52, 48, 0]"
  by code_simp

theorem oid_text_roundtrip_witness:
  "\<exists>st1. CBB_add_asn1_oid_from_text (arena 1000) [49, 46, 50, 46, 56, 52, 48] 0 sample_start = (True, st1) \<and>
    map_option handed_out (fst (CBB_finish (arena 1000) True True 0 st1)) = Some [0x2a, 0x86, 0x48]"
  using oid_text_roundtrip [OF arena.allocator_axioms sample_oid _ sample_init] by (simp add: arena_def)

text \<open>
  \<open>CBB_add_asn1_oid_from_text\<close> accepts only dotted decimal text of a valid object identifier: at least
  two components, the first at most 2, the second at most 39 under the first two arcs, no component
  above 64 bits, no leading zeros and no stray dots.
\<close>

theorem oid_text_checked:
  assumes "CBB_add_asn1_oid_from_text al txt d st = (True, st')"
  shows "\<exists>ns. oid_valid ns \<and> txt = dotted ns"
  by (rule oid_from_text_accepts [OF assms])

theorem oid_text_checked_witness:
  "\<exists>ns. oid_valid ns \<and> [49, 46, 50, 46, 56, 52, 48] = dotted ns"
proof (rule oid_text_checked)
  have "fst (CBB_add_asn1_oid_from_text (arena 1000) [49, 46, 50, 46, 56, 52, 48] 0 sample_start)" by code_simp
  then show "CBB_add_asn1_oid_from_text (arena 1000) [49, 46, 50, 46, 56, 52, 48] 0 sample_start =
    (True, snd (CBB_add_asn1_oid_from_text (arena 1000) [49, 46, 50, 46, 56, 52, 48] 0 sample_start))"
    by (simp add: prod_eq_iff)
qed

section \<open>SET OF\<close>

text \<open>
  C11. \<open>CBB_flush_asn1_set_of\<close> reorders and never loses an element: the contents were a sequence of DER
  elements, and the bytes afterwards are the same elements, as often each, in ascending lexicographic order of
  their encodings, bytes compared as unsigned numbers and a prefix before the longer element: \<open>sorted\<close> is over the
  library's order of lists, not over the comparison of the code.
\<close>

theorem set_of_sorted:
  assumes "allocator al" "n < size_lim" "CBB_init al n = (True, st0)" "length data < size_lim"
    and "CBB_add_bytes al data 0 st0 = (True, st1)" "CBB_flush_asn1_set_of al 0 st1 = (True, st2)"
    and "fst (CBB_finish al True True 0 st2) = Some out"
  shows "\<exists>es ss. data = concat es \<and> (\<forall>e \<in> set es. is_element e) \<and> handed_out out = concat ss \<and>
    mset ss = mset es \<and> sorted ss"
proof -
  have r1: "represents st1 [(Root, data)]"
    using refines_ok [OF allocator.refines_add_bytes [OF assms(1,4)] allocator.CBB_init_represents(1) [OF assms(1-3)] assms(5)]
    by (simp add: allocator.put_root [OF assms(1)])
  from allocator.flush_set_of_sorts [OF assms(1) r1 assms(6)]
  obtain pre k es where es: "close_at 0 [(Root, data)] = Some (pre @ [(k, concat es)])" "length pre = 0"
    "\<forall>e \<in> set es. is_element e" "represents st2 (pre @ [(k, concat (qsort_elements es))])" by blast
  then have "data = concat es" "represents st2 [(Root, concat (qsort_elements es))]" by (auto simp: close_at_def)
  moreover obtain st' where "CBB_finish al True True 0 st2 = (Some out, st')"
    using assms(7) by (cases "CBB_finish al True True 0 st2") auto
  ultimately have "handed_out out = concat (qsort_elements es)"
    using allocator.CBB_finish_ok [OF assms(1)] by fastforce
  with \<open>data = concat es\<close> es(3) qsort_elements_props(1) qsort_elements_props(2) [unfolded compare_lex] show ?thesis by blast
qed

definition sample_set :: "bytes" where
  "sample_set = [4, 1, 9, 1, 1, 255, 4, 1, 3]"

definition sample_set1 :: cbb where
  "sample_set1 = snd (CBB_add_bytes (arena 1000) sample_set 0 sample_start)"

definition sample_set2 :: cbb where
  "sample_set2 = snd (CBB_flush_asn1_set_of (arena 1000) 0 sample_set1)"

lemma sample_set_ok:
  "fst (CBB_add_bytes (arena 1000) sample_set 0 sample_start)"
  "fst (CBB_flush_asn1_set_of (arena 1000) 0 sample_set1)"
  "map_option handed_out (fst (CBB_finish (arena 1000) True True 0 sample_set2)) = Some [1, 1, 255, 4, 1, 3, 4, 1, 9]"
  by code_simp+

theorem set_of_sorted_witness:
  "\<exists>es ss. sample_set = concat es \<and> (\<forall>e \<in> set es. is_element e) \<and> [1, 1, 255, 4, 1, 3, 4, 1, 9] = concat ss \<and>
    mset ss = mset es \<and> sorted ss"
proof -
  obtain out where "fst (CBB_finish (arena 1000) True True 0 sample_set2) = Some out"
    "handed_out out = [1, 1, 255, 4, 1, 3, 4, 1, 9]" using sample_set_ok(3) by auto
  with set_of_sorted [OF arena.allocator_axioms _ sample_init, of sample_set sample_set1 sample_set2 out] sample_set_ok
  show ?thesis by (simp add: sample_set1_def sample_set2_def prod_eq_iff sample_set_def)
qed

section \<open>Unicode\<close>

text \<open>
  C12. \<open>cbs_get_utf8\<close> accepts exactly the shortest UTF-8 encodings of valid code points (no surrogates, no
  noncharacters, nothing above 0x10ffff, no overlong forms), and \<open>cbb_add_utf8\<close> with the length
  \<open>cbb_get_utf8_len\<close> announces writes that encoding.
\<close>

theorem utf8_exact:
  "(cbs_get_utf8 s = (Some v, t) \<longleftrightarrow> is_valid_code_point v \<and> s = utf8 (unat v) @ t) \<and>
   cbb_get_utf8_len v = length (utf8 (unat v))"
  by (simp add: cbs_get_utf8_iff cbb_get_utf8_len_eq)

text \<open>
  A code point written by \<open>cbb_add_utf8\<close> is read back by \<open>cbs_get_utf8\<close>, whatever follows it, and an
  invalid code point is refused.
\<close>

theorem utf8_roundtrip:
  assumes "allocator al" "n < size_lim" "CBB_init al n = (True, st0)" "cbb_add_utf8 al u 0 st0 = (True, st1)"
    and "fst (CBB_finish al True True 0 st1) = Some out"
  shows "is_valid_code_point u \<and> cbs_get_utf8 (handed_out out @ rest) = (Some u, rest)"
proof -
  have v: "is_valid_code_point u" using assms(4) by (auto simp: cbb_add_utf8_def cbb_fail_def split: if_splits)
  have "refines al (cbb_add_utf8 al u 0) (put 0 (utf8 (unat u)))"
    using allocator.refines_add_utf8 [OF assms(1), of u 0] v by simp
  from allocator.one_op_sound [OF assms(1) this assms(2-5)] v show ?thesis by (simp add: cbs_get_utf8_iff)
qed

definition sample_utf8 :: cbb where
  "sample_utf8 = snd (cbb_add_utf8 (arena 1000) 0x20ac 0 sample_start)"

lemma sample_utf8_ok:
  "fst (cbb_add_utf8 (arena 1000) 0x20ac 0 sample_start)"
  "map_option handed_out (fst (CBB_finish (arena 1000) True True 0 sample_utf8)) = Some [0xe2, 0x82, 0xac]"
  by code_simp+

theorem utf8_roundtrip_witness:
  "is_valid_code_point 0x20ac \<and> cbs_get_utf8 ([0xe2, 0x82, 0xac] @ [0x41]) = (Some 0x20ac, [0x41])"
proof -
  obtain out where out: "fst (CBB_finish (arena 1000) True True 0 sample_utf8) = Some out"
    "handed_out out = [0xe2, 0x82, 0xac]" using sample_utf8_ok(2) by auto
  have op: "cbb_add_utf8 (arena 1000) 0x20ac 0 sample_start = (True, sample_utf8)"
    using sample_utf8_ok(1) by (simp add: sample_utf8_def prod_eq_iff)
  show ?thesis
    using utf8_roundtrip [OF arena.allocator_axioms _ sample_init op out(1), of "[0x41]"] by (simp add: out(2))
qed

end
