(* ===== verification/Ber.thy ===== *)
theory Ber
  imports CbbOps
begin

text \<open>
  The conversion of BER to DER, \<open>crypto/bytestring/ber.c\<close>: the walk that looks for BER, the recursive conversion from a
  reader into a builder, and implicitly tagged strings.  A recursion has at most \<open>kMaxDepth + 1\<close> levels, the
  first argument counts those left.  A \<open>CBB\<close> is its depth in the chain of open children, as in theory \<open>Cbb\<close>; in
  \<open>CBS_asn1_ber_to_der\<close> it is a local variable.
\<close>

section \<open>Looking for BER\<close>

definition kMaxDepth :: nat where "kMaxDepth = 2048"

definition is_string_type :: "u32 \<Rightarrow> bool" where
  "is_string_type tag = (tag AND NOT CBS_ASN1_CONSTRUCTED \<in> {0x4, 0xc, 0x12, 0x13, 0x14, 0x15, 0x16, 0x19, 0x1a, 0x1b, 0x1c, 0x1e})"

text \<open>The element parser moves the window.\<close>

lemma ber_element_shorter:
  assumes "CBS_get_any_ber_asn1_element s = (Some r, t)"
  shows "length t < length s"
proof -
  have g: "length t < length s" if "rd_bind (cbs_get n) (\<lambda>out. rd_return (f out)) s = (Some r, t)" "0 < n"
    for n and f :: "bytes \<Rightarrow> bytes \<times> u32 \<times> nat \<times> bool"
    using that by (auto simp: rd_bind_eq_Some cbs_get_iff)
  obtain tag h where p: "parse_asn1_tag s = (Some tag, h)"
    using assms by (auto simp: CBS_get_any_ber_asn1_element_def cbs_get_any_asn1_element_def split: prod.splits option.splits)
  have s: "s = der_tag tag @ h" using asn1_tag.canonical [OF p] by simp
  obtain b h' where h: "h = b # h'" using assms p
    by (cases h) (auto simp: CBS_get_any_ber_asn1_element_def cbs_get_any_asn1_element_def)
  have hl: "0 < length s - length h'" "length s - length h' \<le> 7" using length_der_tag [of tag] by (simp_all add: s h)
  have tot: "0 < size_add (size_add x (length s - length h')) k"
    if "\<not> size_add (size_add x (length s - length h')) k < x" "k \<le> 4" for x k
  proof (cases "x = 0")
    case True
    have e: "size_add (size_add 0 (length s - length h')) k = length s - length h' + k"
      using hl(2) that(2) by (subst size_add_exact; subst size_add_exact) simp_all
    show ?thesis using hl(1) unfolding True e by simp
  qed (use that in linarith)
  show ?thesis
    using assms p h hl(1) tot
    by (auto simp: CBS_get_any_ber_asn1_element_def cbs_get_any_asn1_element_def Let_def CBS_len_def CBS_get_bytes_eq
        split: prod.splits option.splits if_splits dest!: g)
qed

text \<open>The loop; \<open>sub\<close> walks the contents of an element, \<open>ber_found\<close> is \<open>*ber_found\<close>.\<close>

function find_ber_loop :: "(bytes \<Rightarrow> bool option) \<Rightarrow> bytes \<Rightarrow> bool \<Rightarrow> bool option" where
  "find_ber_loop sub s ber_found =
     (if CBS_len s = 0 then Some ber_found
      else case CBS_get_any_ber_asn1_element s of
             (None, _) \<Rightarrow> None
           | (Some (contents, tag, header_len, ber_found), s) \<Rightarrow>
               if ber_found then Some True
               else if tag AND CBS_ASN1_CONSTRUCTED \<noteq> 0 then
                 if is_string_type tag then Some True
                 else (case CBS_skip header_len contents of
                         (None, _) \<Rightarrow> None
                       | (Some _, contents) \<Rightarrow>
                           (case sub contents of None \<Rightarrow> None | Some ber_found \<Rightarrow> find_ber_loop sub s ber_found))
               else find_ber_loop sub s ber_found)"
  by pat_completeness auto
termination
  by (relation "measure (\<lambda>(sub, s, ber_found). length s)") (auto dest!: sym [of "(Some _, _)"] ber_element_shorter)

declare find_ber_loop.simps [simp del]

primrec cbs_find_ber :: "nat \<Rightarrow> bytes \<Rightarrow> bool option" where
  "cbs_find_ber 0 = (\<lambda>s. None)"
| "cbs_find_ber (Suc d) = (\<lambda>s. find_ber_loop (cbs_find_ber d) s False)"

section \<open>Conversion\<close>

definition is_eoc :: "nat \<Rightarrow> bytes \<Rightarrow> bool" where
  "is_eoc header_len contents \<longleftrightarrow> header_len = 2 \<and> CBS_len contents = 2 \<and> contents = [0, 0]"

definition is_indefinite :: "nat \<Rightarrow> bytes \<Rightarrow> bool" where
  "is_indefinite header_len contents \<longleftrightarrow>
     CBS_len contents = header_len \<and> header_len > 0 \<and> contents ! (header_len - 1) = 0x80"

text \<open>
  A conversion from a window into the \<open>CBB\<close> at depth \<open>k\<close>; \<^term>\<open>None\<close> only if the fuel of the loop runs out, which
  counts the elements.
\<close>

type_synonym ber_conv = "u32 \<Rightarrow> bool \<Rightarrow> nat \<Rightarrow> bytes \<Rightarrow> cbb \<Rightarrow> (bool \<times> bytes \<times> cbb) option"

primrec convert_ber_loop :: "ber_conv \<Rightarrow> allocator \<Rightarrow> nat \<Rightarrow> ber_conv" where
  "convert_ber_loop sub al 0 string_tag looking_for_eoc k = (\<lambda>s st. None)"
| "convert_ber_loop sub al (Suc n) string_tag looking_for_eoc k = (\<lambda>s st.
     if CBS_len s = 0 then Some (\<not> looking_for_eoc, s, st)
     else
       case CBS_get_any_ber_asn1_element s of
         (None, s) \<Rightarrow> Some (False, s, st)
       | (Some (contents, tag, header_len, ber_found), s) \<Rightarrow>
           if is_eoc header_len contents then Some (looking_for_eoc, s, st)
           else
             let primitive_tag = tag AND NOT CBS_ASN1_CONSTRUCTED;
                 constructed = (tag AND CBS_ASN1_CONSTRUCTED \<noteq> 0);
                 string = (constructed \<and> is_string_type tag);
                 out_tag = (if string then primitive_tag else tag);
                 child_string_tag = (if string_tag = 0 \<and> string then out_tag else string_tag);
                 out_contents = (if string_tag \<noteq> 0 then k else Suc k)
             in if string_tag \<noteq> 0 \<and> primitive_tag \<noteq> string_tag then Some (False, s, st)
                else
                  case (if string_tag \<noteq> 0 then (True, st) else CBB_add_asn1 al out_tag k st) of
                    (False, st) \<Rightarrow> Some (False, s, st)
                  | (True, st) \<Rightarrow>
                      case (if is_indefinite header_len contents then sub child_string_tag True out_contents s st
                            else
                              case CBS_skip header_len contents of
                                (None, _) \<Rightarrow> Some (False, s, st)
                              | (Some _, contents) \<Rightarrow>
                                  if constructed then
                                    map_option (\<lambda>(ok, _, st). (ok, s, st)) (sub child_string_tag False out_contents contents st)
                                  else (case CBB_add_bytes al contents out_contents st of (ok, st) \<Rightarrow> Some (ok, s, st))) of
                        None \<Rightarrow> None
                      | Some (False, s, st) \<Rightarrow> Some (False, s, st)
                      | Some (True, s, st) \<Rightarrow>
                          (case CBB_flush al k st of
                             (False, st) \<Rightarrow> Some (False, s, st)
                           | (True, st) \<Rightarrow> convert_ber_loop sub al n string_tag looking_for_eoc k s st))"

declare convert_ber_loop.simps(2) [simp del]

primrec cbs_convert_ber :: "allocator \<Rightarrow> nat \<Rightarrow> ber_conv" where
  "cbs_convert_ber al 0 = (\<lambda>string_tag looking_for_eoc k s st. Some (False, s, st))"
| "cbs_convert_ber al (Suc d) = (\<lambda>string_tag looking_for_eoc k s st.
     convert_ber_loop (cbs_convert_ber al d) al (length s + 1) string_tag looking_for_eoc k s st)"

text \<open>The results are \<open>out\<close> and \<open>*out_storage\<close>, and the window as the call leaves it.\<close>

definition CBS_asn1_ber_to_der :: "allocator \<Rightarrow> bytes \<Rightarrow> ((bytes \<times> bytes option) option \<times> bytes) option" where
  "CBS_asn1_ber_to_der al s =
     (case cbs_find_ber (Suc kMaxDepth) s of
        None \<Rightarrow> Some (None, s)
      | Some False \<Rightarrow>
          (case CBS_get_any_asn1_element s of
             (None, s) \<Rightarrow> Some (None, s)
           | (Some (out, _), s) \<Rightarrow> Some (Some (out, None), s))
      | Some True \<Rightarrow>
          (case CBB_init al (CBS_len s) of
             (False, st) \<Rightarrow> Some (None, s)
           | (True, st) \<Rightarrow>
               (case cbs_convert_ber al (Suc kMaxDepth) 0 False 0 s st of
                  None \<Rightarrow> None
                | Some (False, s, st) \<Rightarrow> Some (None, s)
                | Some (True, s, st) \<Rightarrow>
                    (case CBB_finish al True True 0 st of
                       (None, st) \<Rightarrow> Some (None, s)
                     | (Some (storage, len), st) \<Rightarrow>
                         Some (Some (CBS_init (case storage of None \<Rightarrow> [] | Some buf \<Rightarrow> take len buf), storage), s)))))"

section \<open>Implicitly tagged strings\<close>

text \<open>The loop over the chunks of a constructed string; each chunk is an element, which moves the window.\<close>

lemma get_asn1_shorter: "CBS_get_asn1 tag s = (Some r, t) \<Longrightarrow> length t < length s"
proof -
  assume "CBS_get_asn1 tag s = (Some r, t)"
  then obtain x hl t' where "CBS_get_any_asn1_element s = (Some (x, tag, hl), t')" "t = t'"
    by (auto simp: CBS_get_asn1_def cbs_get_asn1_def rd_bind_eq_Some split: if_splits prod.splits option.splits)
  then obtain body where "s = der tag body @ t" by (auto simp: CBS_get_any_asn1_element_iff)
  then show ?thesis using length_der_tag(2) [of tag] by (simp add: der_def)
qed

function implicit_chunks :: "allocator \<Rightarrow> u32 \<Rightarrow> bytes \<Rightarrow> cbb_op" where
  "implicit_chunks al inner_tag child = (\<lambda>st.
     if CBS_len child = 0 then (True, st)
     else case CBS_get_asn1 inner_tag child of
            (None, _) \<Rightarrow> (False, st)
          | (Some chunk, child) \<Rightarrow> cbb_then (CBB_add_bytes al chunk 0) (implicit_chunks al inner_tag child) st)"
  by pat_completeness auto
termination
  by (relation "measure (\<lambda>(al, tag, child). length child)") (auto dest!: sym [of "(Some _, _)"] get_asn1_shorter)

declare implicit_chunks.simps [simp del]

definition CBS_get_asn1_implicit_string :: "allocator \<Rightarrow> u32 \<Rightarrow> u32 \<Rightarrow> (bytes \<times> bytes option) rd" where
  "CBS_get_asn1_implicit_string al outer_tag inner_tag = (\<lambda>s.
     if CBS_peek_asn1_tag s outer_tag then
       rd_bind (CBS_get_asn1 outer_tag) (\<lambda>out. rd_return (out, None)) s
     else
       case CBB_init al (CBS_len s) of
         (False, st) \<Rightarrow> (None, s)
       | (True, st) \<Rightarrow>
           rd_bind (CBS_get_asn1 (outer_tag OR CBS_ASN1_CONSTRUCTED)) (\<lambda>child s.
             case implicit_chunks al inner_tag child st of
               (False, st) \<Rightarrow> (None, s)
             | (True, st) \<Rightarrow>
                 (case CBB_finish al True True 0 st of
                    (None, st) \<Rightarrow> (None, s)
                  | (Some (data, len), st) \<Rightarrow>
                      (Some (CBS_init (case data of None \<Rightarrow> [] | Some buf \<Rightarrow> take len buf), data), s))) s)"

end
