(* ===== verification/BerProps.thy ===== *)
theory BerProps
  imports Ber
begin

text \<open>
  What the conversion promises: an abstract syntax of ASN.1 values, their BER encodings as an inductive relation, their
  DER encoding as a function, and that \<open>cbs_convert_ber\<close> maps one to the other.
\<close>

section \<open>Elements as BER has them\<close>

text \<open>The forms of a definite length: short, or up to four bytes, not necessarily the fewest.\<close>

definition ber_len :: "nat \<Rightarrow> bytes \<Rightarrow> bool" where
  "ber_len n lb \<longleftrightarrow>
     n < 128 \<and> lb = [of_nat n] \<or> (\<exists>k. 1 \<le> k \<and> k \<le> 4 \<and> n < 256 ^ k \<and> lb = of_nat (128 + k) # be_bytes k n)"

lemma ber_len_bound: "ber_len n lb \<Longrightarrow> n < 2 ^ 32"
proof -
  assume "ber_len n lb"
  then consider "n < 128" | k where "k \<le> 4" "n < 256 ^ k" by (auto simp: ber_len_def)
  then show ?thesis
  proof cases
    case 2
    then show ?thesis using power_increasing [of k 4 "256 :: nat"] by simp
  qed simp
qed

lemma ber_len_der: "n < 2 ^ 32 \<Longrightarrow> ber_len n (der_len n)"
  using nbytes_bounds [of n] nbytes_le [of n 4] by (auto simp: ber_len_def der_len_def intro!: exI [of _ "nbytes n"])

lemma any_element_ber_long:
  assumes "parse_asn1_tag s = (Some tag, lb # h)" "128 \<le> unat lb"
  shows "CBS_get_any_ber_asn1_element s =
    (let hl = length s - length h; k = unat lb - 128 in
     if tag AND CBS_ASN1_CONSTRUCTED \<noteq> 0 \<and> k = 0 then rd_bind (cbs_get hl) (\<lambda>out. rd_return (out, tag, hl, True)) s
     else if k = 0 \<or> 4 < k then (None, s)
     else case cbs_get_u k h of
       (None, _) \<Rightarrow> (None, s)
     | (Some v, _) \<Rightarrow>
         let total = size_add (size_add (unat v) hl) k in
         if total < unat v then (None, s)
         else rd_bind (cbs_get total) (\<lambda>out. rd_return (out, tag, hl + k, unat v < 128 \<or> unat v < 256 ^ (k - 1))) s)"
proof -
  have k: "unat (lb AND 0x7f) = unat lb - 128"
    using assms(2) by (simp add: unat_and_7f u8_mod_128)
  have h: "lb AND 0x80 \<noteq> 0" using assms(2) by (simp add: u8_high_bit_iff)
  have p: "(2 :: nat) ^ (m * 8) = 256 ^ m" for m
    by (simp add: power_mult mult.commute [of _ 8])
  show ?thesis
  proof (cases "unat lb - 128 = 0 \<or> 4 < unat lb - 128")
    case True
    then show ?thesis
      using assms(1) h
      by (auto simp: CBS_get_any_ber_asn1_element_def cbs_get_any_asn1_element_def Let_def CBS_len_def CBS_get_bytes_eq k)
  next
    case False
    obtain r h' where g: "cbs_get_u (unat lb - 128) h = (r, h')" by (cases "cbs_get_u (unat lb - 128) h")
    show ?thesis
      using assms(1) h False g
      by (cases r) (auto simp add: CBS_get_any_ber_asn1_element_def cbs_get_any_asn1_element_def Let_def CBS_len_def CBS_get_bytes_eq k
          drop_bit_0_iff_unat p word_less_nat_alt)
  qed
qed

lemma ber_element_definite:
  assumes n: "ber_len (length body) lb"
  shows "CBS_get_any_ber_asn1_element (der_tag tag @ lb @ body @ t) =
    (Some (der_tag tag @ lb @ body, tag, length (der_tag tag @ lb), lb \<noteq> der_len (length body)), t)"
proof -
  let ?n = "length body" and ?s = "der_tag tag @ lb @ body @ t"
  from n consider (short) "?n < 128" "lb = [of_nat ?n]"
    | (long) k where "1 \<le> k" "k \<le> 4" "?n < 256 ^ k" "lb = of_nat (128 + k) # be_bytes k ?n"
    unfolding ber_len_def by blast
  then show ?thesis
  proof cases
    case short
    have b: "unat (of_nat ?n :: u8) = ?n" using short(1) by (simp only: unat_of_nat) simp
    have p: "parse_asn1_tag ?s = (Some tag, of_nat ?n # (body @ t))"
      using asn1_tag.roundtrip [of tag "of_nat ?n # (body @ t)"] by (simp add: short(2))
    show ?thesis
      using short b any_element_short [OF p, of True]
      by (simp add: CBS_get_any_ber_asn1_element_def Let_def der_len_def cbs_get_exact [of _ "der_tag tag @ [of_nat (length body)] @ body" t, simplified])
  next
    case (long k)
    let ?hl = "length (der_tag tag) + 1" and ?v = "of_nat ?n :: u64" and ?b = "of_nat (128 + k) :: u8"
    let ?r = "be_bytes k ?n @ (body @ t)"
    have n32: "?n < 2 ^ 32" by (rule ber_len_bound [OF n])
    have b: "unat ?b = 128 + k" using long(2) by (simp only: unat_of_nat) simp
    have v: "unat ?v = ?n" using n32 by (simp only: unat_of_nat) simp
    have p: "parse_asn1_tag ?s = (Some tag, ?b # ?r)"
      using asn1_tag.roundtrip [of tag "?b # ?r"] by (simp add: long(4))
    have g: "cbs_get_u k ?r = (Some ?v, body @ t)"
      using long v by (subst cbs_get_u_iff) simp_all
    have l: "length (der_tag tag @ lb @ body) = ?n + ?hl + k" by (simp add: long(4))
    have tot: "size_add (size_add ?n ?hl) k = ?n + ?hl + k"
      using n32 long(2) length_der_tag(1) [of tag] by (simp add: size_add_exact)
    have lb: "(lb \<noteq> der_len ?n) = (?n < 128 \<or> ?n < 256 ^ (k - 1))"
    proof (cases "?n < 128")
      case True
      moreover have "length lb = Suc k" by (simp add: long(4))
      ultimately show ?thesis using long(1) by (auto simp: der_len_def)
    next
      case False
      have "nbytes ?n = k" if "\<not> ?n < 256 ^ (k - 1)" using nbytes_unique [of k ?n] long that by simp
      moreover have "nbytes ?n \<noteq> k" if "?n < 256 ^ (k - 1)"
        using nbytes_bounds [of ?n] False that by auto
      moreover have "lb = der_len ?n \<longleftrightarrow> nbytes ?n = k"
      proof
        assume "lb = der_len ?n"
        then have "length lb = length (der_len ?n)" by simp
        then show "nbytes ?n = k" using False unfolding long(4) by (simp add: der_len_def)
      qed (use False long(4) in \<open>simp add: der_len_def\<close>)
      ultimately show ?thesis using False by auto
    qed
    have c: "cbs_get (?n + ?hl + k) ?s = (Some (der_tag tag @ lb @ body), t)"
      unfolding l [symmetric] using cbs_get_append [of "der_tag tag @ lb @ body" t] by simp
    have "length ?s - length ?r = ?hl" by (simp add: long(4))
    then show ?thesis
      using any_element_ber_long [OF p] long(1,2) b g v tot lb c
      by (simp add: Let_def long(4))
  qed
qed

lemma ber_element_indefinite:
  assumes "tag AND CBS_ASN1_CONSTRUCTED \<noteq> 0"
  shows "CBS_get_any_ber_asn1_element (der_tag tag @ 0x80 # t) =
    (Some (der_tag tag @ [0x80], tag, length (der_tag tag) + 1, True), t)"
proof -
  have p: "parse_asn1_tag (der_tag tag @ 0x80 # t) = (Some tag, 0x80 # t)" by (rule asn1_tag.roundtrip) simp
  show ?thesis
    using any_element_ber_long [OF p] assms cbs_get_append [of "der_tag tag @ [0x80]" t] by (simp add: Let_def)
qed

lemma ber_element_cases:
  assumes "CBS_get_any_ber_asn1_element s = (Some (out, tag, hl, ber), t)"
  obtains (definite) lb body where "ber_len (length body) lb" "out = der_tag tag @ lb @ body" "hl = length (der_tag tag @ lb)" "s = out @ t"
    "ber = (lb \<noteq> der_len (length body))"
  | (indefinite) "tag AND CBS_ASN1_CONSTRUCTED \<noteq> 0" "out = der_tag tag @ [0x80]" "hl = length (der_tag tag) + 1" "s = out @ t" "ber"
proof -
  note e = assms [unfolded CBS_get_any_ber_asn1_element_def]
  obtain tag' h where pt: "parse_asn1_tag s = (Some tag', h)"
    using e by (auto simp: cbs_get_any_asn1_element_def split: prod.splits option.splits)
  moreover have "h \<noteq> []" using e pt by (auto simp: cbs_get_any_asn1_element_def)
  ultimately obtain b r where p: "parse_asn1_tag s = (Some tag', b # r)" by (cases h) auto
  have s: "s = der_tag tag' @ b # r" using asn1_tag.canonical [OF p] by simp
  let ?hl = "length (der_tag tag') + 1"
  have hl: "length s - length r = ?hl" by (simp add: s)
  show thesis
  proof (cases "unat b < 128")
    case True
    have o: "cbs_get (unat b + ?hl) s = (Some out, t)" "tag = tag'" "hl = ?hl"
      using e any_element_short [OF p True, of True] hl by (auto simp: Let_def rd_bind_eq_Some)
    then have l: "length out = unat b + ?hl" "s = out @ t" by (simp_all add: cbs_get_iff)
    have "(der_tag tag' @ [b]) @ r = out @ t" using s l(2) by simp
    then obtain body where body: "out = (der_tag tag' @ [b]) @ body" "r = body @ t"
      by (rule append_prefixE) (use l(1) in simp)
    then have n: "length body = unat b" using l(1) by simp
    have bl: "ber_len (length body) [b]" using True n by (simp add: ber_len_def)
    have s': "s = der_tag tag @ [b] @ body @ t" using l(2) body(1) o(2) by simp
    have "ber = ([b] \<noteq> der_len (length body))"
      using assms ber_element_definite [OF bl, of tag t] unfolding s' by simp
    then show thesis using body(1) o(2,3) l(2) by (intro definite [OF bl]) simp_all
  next
    case False
    then have b: "128 \<le> unat b" by simp
    define k where "k = unat b - 128"
    note eq = any_element_ber_long [OF p b, folded k_def]
    have bk: "b = of_nat (128 + k)" using b by (simp add: k_def)
    show thesis
    proof (cases "k = 0")
      case True
      have i: "tag' AND CBS_ASN1_CONSTRUCTED \<noteq> 0" using assms eq True by (auto simp: Let_def split: if_splits)
      then have "cbs_get ?hl s = (Some out, t)" "tag = tag'" "hl = ?hl" "ber"
        using assms eq True hl by (auto simp: Let_def rd_bind_eq_Some)
      moreover from this(1) have "out = der_tag tag' @ [0x80]" "s = out @ t"
        using bk True cbs_get_append [of "der_tag tag' @ [0x80]" r] by (simp_all add: s)
      ultimately show thesis using i by (intro indefinite) simp_all
    next
      case False
      have k: "0 < k" "k \<le> 4" using assms eq False by (auto simp: Let_def split: if_splits)
      obtain v h' where g: "cbs_get_u k r = (Some v, h')"
        using assms eq k by (auto simp: Let_def split: if_splits option.splits prod.splits)
      have vk: "unat v < 256 ^ k" and r: "r = be_bytes k (unat v) @ h'"
        using g k cbs_get_u_iff [of k r v h'] by simp_all
      have v4: "unat v < 256 ^ 4" using vk k(2) power_increasing [of k 4 "256 :: nat"] by linarith
      have tot: "size_add (size_add (unat v) ?hl) k = unat v + ?hl + k"
        using v4 k length_der_tag(1) [of tag'] by (simp add: size_add_exact)
      have o: "cbs_get (unat v + ?hl + k) s = (Some out, t)" "tag = tag'" "hl = ?hl + k"
        using assms eq k g tot hl by (auto simp: Let_def rd_bind_eq_Some)
      then have l: "length out = unat v + ?hl + k" "s = out @ t" by (simp_all add: cbs_get_iff)
      let ?lb = "b # be_bytes k (unat v)"
      have "(der_tag tag' @ ?lb) @ h' = out @ t" using s r l(2) by simp
      then obtain body where body: "out = (der_tag tag' @ ?lb) @ body" "h' = body @ t"
        by (rule append_prefixE) (use l(1) in simp)
      then have n: "length body = unat v" using l(1) by simp
      have bl: "ber_len (length body) ?lb" unfolding ber_len_def n by (rule disjI2, rule exI [of _ k]) (use k vk bk in simp)
      have s': "s = der_tag tag @ ?lb @ body @ t" using l(2) body(1) o(2) by simp
      have "ber = (?lb \<noteq> der_len (length body))"
        using assms ber_element_definite [OF bl, of tag t] unfolding s' by simp
      then show thesis using body(1) o(2,3) l(2) by (intro definite [OF bl]) simp_all
    qed
  qed
qed

section \<open>Values and their encodings\<close>

datatype asn1 = Primitive u32 bytes | Constructed u32 "asn1 list"

abbreviation constructed :: "u32 \<Rightarrow> bool" where "constructed tag \<equiv> tag AND CBS_ASN1_CONSTRUCTED \<noteq> 0"

abbreviation primitive_tag :: "u32 \<Rightarrow> u32" where "primitive_tag tag \<equiv> tag AND NOT CBS_ASN1_CONSTRUCTED"

text \<open>
  The BER encodings of a value and of a list of values, nested at most \<open>d\<close> deep: lengths of any form, constructed
  values of definite or indefinite length.  End-of-contents is not a value.
\<close>

inductive ber_elem :: "nat \<Rightarrow> asn1 \<Rightarrow> bytes \<Rightarrow> bool" and ber_elems :: "nat \<Rightarrow> asn1 list \<Rightarrow> bytes \<Rightarrow> bool" where
  primitive: "\<not> constructed t \<Longrightarrow> ber_len (length b) lb \<Longrightarrow> der_tag t @ lb @ b \<noteq> [0, 0] \<Longrightarrow>
    ber_elem (Suc d) (Primitive t b) (der_tag t @ lb @ b)"
| definite: "constructed t \<Longrightarrow> ber_elems d xs body \<Longrightarrow> ber_len (length body) lb \<Longrightarrow>
    ber_elem (Suc d) (Constructed t xs) (der_tag t @ lb @ body)"
| indefinite: "constructed t \<Longrightarrow> ber_elems d xs body \<Longrightarrow>
    ber_elem (Suc d) (Constructed t xs) (der_tag t @ 0x80 # body @ [0, 0])"
| none: "ber_elems (Suc d) [] []"
| one_more: "ber_elem d x s \<Longrightarrow> ber_elems d xs t \<Longrightarrow> ber_elems d (x # xs) (s @ t)"

inductive_cases ber_elemsE: "ber_elems d (x # xs) s"
inductive_cases ber_elems_NilE: "ber_elems d [] s"
inductive_cases ber_primitiveE: "ber_elem d (Primitive t b) s"
inductive_cases ber_constructedE: "ber_elem d (Constructed t xs) s"

text \<open>The DER encoding; a constructed string becomes the primitive string of its fragments.\<close>

fun collect :: "('a \<Rightarrow> 'b list option) \<Rightarrow> 'a list \<Rightarrow> 'b list option" where
  "collect f [] = Some []"
| "collect f (x # xs) = (case f x of None \<Rightarrow> None | Some a \<Rightarrow> map_option ((@) a) (collect f xs))"

lemma collect_cong [fundef_cong]: "xs = ys \<Longrightarrow> (\<And>x. x \<in> set ys \<Longrightarrow> f x = g x) \<Longrightarrow> collect f xs = collect g ys"
  by (induction ys arbitrary: xs) (auto split: option.split)

lemma collect_Cons_Some: "collect f (x # xs) = Some bs \<longleftrightarrow> (\<exists>a as. f x = Some a \<and> collect f xs = Some as \<and> bs = a @ as)"
  by (auto split: option.split)

fun fragments :: "u32 \<Rightarrow> asn1 \<Rightarrow> bytes option" where
  "fragments string_tag (Primitive t b) = (if t = string_tag then Some b else None)"
| "fragments string_tag (Constructed t xs) = (if primitive_tag t = string_tag then collect (fragments string_tag) xs else None)"

fun to_der :: "asn1 \<Rightarrow> bytes option" where
  "to_der (Primitive t b) = element t b"
| "to_der (Constructed t xs) =
     (if is_string_type t then Option.bind (collect (fragments (primitive_tag t)) xs) (element (primitive_tag t))
      else Option.bind (collect to_der xs) (element t))"

definition converted :: "u32 \<Rightarrow> asn1 list \<Rightarrow> bytes option" where
  "converted string_tag xs = (if string_tag = 0 then collect to_der xs else collect (fragments string_tag) xs)"

lemma converted_Nil [simp]: "converted string_tag [] = Some []"
  by (simp add: converted_def)

lemma converted_Cons:
  "converted string_tag (x # xs) = Some bs \<longleftrightarrow>
   (\<exists>a as. (if string_tag = 0 then to_der x else fragments string_tag x) = Some a \<and> converted string_tag xs = Some as \<and> bs = a @ as)"
  by (auto simp: converted_def collect_Cons_Some simp del: collect.simps)

lemma primitive_tag_primitive: "\<not> constructed t \<Longrightarrow> primitive_tag t = t"
proof -
  assume "\<not> constructed t"
  then have "t AND CBS_ASN1_CONSTRUCTED = 0" by blast
  moreover have "t = (t AND CBS_ASN1_CONSTRUCTED) OR (t AND NOT CBS_ASN1_CONSTRUCTED)"
    by (rule bit_word_eqI) (auto simp: bit_simps)
  ultimately show ?thesis by simp
qed

lemma string_type_nonzero: "is_string_type t \<Longrightarrow> primitive_tag t \<noteq> 0"
  by (auto simp: is_string_type_def)

lemma not_constructed_string: "is_string_type (primitive_tag t) = is_string_type t"
  by (simp add: is_string_type_def and.assoc)

section \<open>One step of the conversion\<close>

definition out_tag :: "u32 \<Rightarrow> u32" where
  "out_tag t = (if constructed t \<and> is_string_type t then primitive_tag t else t)"

definition child_tag :: "u32 \<Rightarrow> u32 \<Rightarrow> u32" where
  "child_tag string_tag t = (if string_tag = 0 \<and> constructed t \<and> is_string_type t then primitive_tag t else string_tag)"

definition child_at :: "u32 \<Rightarrow> nat \<Rightarrow> nat" where
  "child_at string_tag k = (if string_tag \<noteq> 0 then k else Suc k)"

definition elem_value :: "u32 \<Rightarrow> asn1 \<Rightarrow> bytes option" where
  "elem_value string_tag x = (if string_tag = 0 then to_der x else fragments string_tag x)"

definition elem_bytes :: "u32 \<Rightarrow> u32 \<Rightarrow> bytes \<Rightarrow> bytes option" where
  "elem_bytes string_tag t bs =
     (if string_tag \<noteq> 0 then if primitive_tag t = string_tag then Some bs else None else element (out_tag t) bs)"

lemma elem_value_primitive: "\<not> constructed t \<Longrightarrow> elem_value string_tag (Primitive t b) = elem_bytes string_tag t b"
  using primitive_tag_primitive [of t] by (simp add: elem_value_def elem_bytes_def out_tag_def)

lemma elem_value_constructed:
  "constructed t \<Longrightarrow> elem_value string_tag (Constructed t xs) =
     Option.bind (converted (child_tag string_tag t) xs) (elem_bytes string_tag t)"
  using string_type_nonzero [of t]
  by (auto simp: elem_value_def elem_bytes_def out_tag_def child_tag_def converted_def split: bind_splits)

lemma converted_Cons_value:
  "converted string_tag (x # xs) = Some bs \<longleftrightarrow>
   (\<exists>a as. elem_value string_tag x = Some a \<and> converted string_tag xs = Some as \<and> bs = a @ as)"
  unfolding converted_Cons elem_value_def by simp

definition open_elem :: "allocator \<Rightarrow> u32 \<Rightarrow> u32 \<Rightarrow> nat \<Rightarrow> cbb_op" where
  "open_elem al string_tag t k = (if string_tag \<noteq> 0 then cbb_ok else CBB_add_asn1 al (out_tag t) k)"

definition conv_step :: "allocator \<Rightarrow> u32 \<Rightarrow> u32 \<Rightarrow> nat \<Rightarrow> (cbb \<Rightarrow> (bool \<times> bytes \<times> cbb) option) \<Rightarrow>
    (bytes \<Rightarrow> cbb \<Rightarrow> (bool \<times> bytes \<times> cbb) option) \<Rightarrow> bytes \<Rightarrow> cbb \<Rightarrow> (bool \<times> bytes \<times> cbb) option" where
  "conv_step al string_tag t k mid rest s st =
     (if string_tag \<noteq> 0 \<and> primitive_tag t \<noteq> string_tag then Some (False, s, st)
      else case open_elem al string_tag t k st of
             (False, st) \<Rightarrow> Some (False, s, st)
           | (True, st) \<Rightarrow>
               case mid st of
                 None \<Rightarrow> None
               | Some (False, s, st) \<Rightarrow> Some (False, s, st)
               | Some (True, s, st) \<Rightarrow>
                   (case CBB_flush al k st of (False, st) \<Rightarrow> Some (False, s, st) | (True, st) \<Rightarrow> rest s st))"

lemma loop_Nil: "convert_ber_loop sub al (Suc n) string_tag e k [] st = Some (\<not> e, [], st)"
  by (simp add: CBS_len_def convert_ber_loop.simps(2))

lemma loop_fail:
  "CBS_get_any_ber_asn1_element s = (None, s') \<Longrightarrow> s \<noteq> [] \<Longrightarrow> convert_ber_loop sub al (Suc n) string_tag e k s st = Some (False, s', st)"
  by (simp add: CBS_len_def convert_ber_loop.simps(2))

lemma der_tag_0: "der_tag 0 = [0]"
  by (simp add: der_tag_def Let_def)

lemma loop_eoc: "convert_ber_loop sub al (Suc n) string_tag e k ([0, 0] @ s) st = Some (e, s, st)"
proof -
  have "CBS_get_any_ber_asn1_element ([0, 0] @ s) = (Some ([0, 0], 0, 2, False), s)"
    using ber_element_definite [of "[]" "[0]" 0 s] by (simp add: ber_len_def der_tag_0 der_len_def)
  then show ?thesis by (simp add: CBS_len_def is_eoc_def convert_ber_loop.simps(2))
qed

lemma ber_len_ne: "ber_len n lb \<Longrightarrow> lb \<noteq> []"
  by (auto simp: ber_len_def)

lemma ber_len_0_last: "ber_len 0 lb \<Longrightarrow> last lb = 0"
proof -
  assume "ber_len 0 lb"
  then consider "lb = [0]" | k where "1 \<le> k" "lb = of_nat (128 + k) # be_bytes k 0" unfolding ber_len_def by auto
  then show ?thesis
  proof cases
    case 2
    then obtain j where "k = Suc j" by (cases k) auto
    with 2 show ?thesis by simp
  qed simp
qed

lemma not_indefinite:
  assumes "ber_len (length body) lb"
  shows "\<not> is_indefinite (length (der_tag t @ lb)) (der_tag t @ lb @ body)"
proof
  assume i: "is_indefinite (length (der_tag t @ lb)) (der_tag t @ lb @ body)"
  then have "body = []" by (auto simp: is_indefinite_def CBS_len_def)
  moreover have "(der_tag t @ lb) ! (length (der_tag t @ lb) - 1) = last lb"
    using ber_len_ne [OF assms] last_conv_nth [of "der_tag t @ lb"] by simp
  ultimately show False using i assms ber_len_0_last [of lb] by (simp add: is_indefinite_def)
qed

lemma eoc_definite:
  "ber_len n lb \<Longrightarrow> is_eoc (length (der_tag t @ lb)) (der_tag t @ lb @ body) \<longleftrightarrow> der_tag t @ lb @ body = [0, 0]"
  using length_der_tag(2) [of t] ber_len_ne [of n lb]
  by (cases "der_tag t"; cases lb) (auto simp: is_eoc_def CBS_len_def append_eq_Cons_conv)

lemma loop_definite:
  assumes "ber_len (length body) lb" "der_tag t @ lb @ body \<noteq> [0, 0]"
  shows "convert_ber_loop sub al (Suc n) string_tag e k (der_tag t @ lb @ body @ s) st =
    conv_step al string_tag t k
      (\<lambda>st. if constructed t then map_option (\<lambda>(ok, _, st). (ok, s, st)) (sub (child_tag string_tag t) False (child_at string_tag k) body st)
            else (case CBB_add_bytes al body (child_at string_tag k) st of (ok, st) \<Rightarrow> Some (ok, s, st)))
      (convert_ber_loop sub al n string_tag e k) s st"
proof -
  have "CBS_skip (length (der_tag t @ lb)) (der_tag t @ lb @ body) = (Some (), body)" by (simp add: CBS_skip_eq)
  then show ?thesis
    using assms ber_len_ne [OF assms(1)] not_indefinite [OF assms(1), of t]
    by (cases "string_tag = 0"; cases "is_string_type t"; cases "constructed t")
      (simp_all add: ber_element_definite [OF assms(1)] eoc_definite [OF assms(1)] CBS_len_def convert_ber_loop.simps(2) conv_step_def open_elem_def cbb_ok_def
        out_tag_def child_tag_def child_at_def Let_def del: length_append split: prod.split bool.split)
qed

lemma loop_indefinite:
  assumes "constructed t"
  shows "convert_ber_loop sub al (Suc n) string_tag e k (der_tag t @ 0x80 # s) st =
    conv_step al string_tag t k (sub (child_tag string_tag t) True (child_at string_tag k) s) (convert_ber_loop sub al n string_tag e k) s st"
proof -
  have "\<not> is_eoc (length (der_tag t) + 1) (der_tag t @ [0x80])"
    using length_der_tag(2) [of t] by (cases "der_tag t") (auto simp: is_eoc_def)
  moreover have "is_indefinite (length (der_tag t) + 1) (der_tag t @ [0x80])"
    by (simp add: is_indefinite_def CBS_len_def nth_append)
  ultimately show ?thesis
    using assms
    by (cases "string_tag = 0"; cases "is_string_type t")
      (simp_all add: ber_element_indefinite CBS_len_def convert_ber_loop.simps(2) conv_step_def open_elem_def cbb_ok_def
        out_tag_def child_tag_def child_at_def Let_def split: prod.split bool.split)
qed

section \<open>The conversion ends\<close>

definition conv_total :: "ber_conv \<Rightarrow> bool" where
  "conv_total f \<longleftrightarrow> (\<forall>string_tag e k s st. \<exists>ok s' st'. f string_tag e k s st = Some (ok, s', st') \<and> length s' \<le> length s)"

text \<open>Every window that is read from has one of three shapes.\<close>

lemma window_cases:
  obtains (fail) s' where "CBS_get_any_ber_asn1_element s = (None, s')" "length s' \<le> length s" "s \<noteq> []"
  | (none) "s = []"
  | (eoc) s' where "s = [0, 0] @ s'"
  | (definite) lb body t s' where "ber_len (length body) lb" "der_tag t @ lb @ body \<noteq> [0, 0]" "s = der_tag t @ lb @ body @ s'"
  | (indefinite) t s' where "constructed t" "s = der_tag t @ 0x80 # s'"
proof (cases "s = []")
  case False
  show thesis
  proof (cases "CBS_get_any_ber_asn1_element s")
    case (Pair r s')
    show thesis
    proof (cases r)
      case None
      obtain pre where "s = pre @ s'"
        using any_element_suffix [of s True] Pair by (auto simp: CBS_get_any_ber_asn1_element_def)
      then show thesis using fail [of s'] Pair None False by simp
    next
      case (Some x)
      obtain out tag hl ber where x: "x = (out, tag, hl, ber)" by (cases x)
      note g = Pair [unfolded Some x]
      show thesis
      proof (cases rule: ber_element_cases [OF g])
        case (1 lb body)
        show thesis
        proof (cases "out = [0, 0]")
          case True
          then show thesis using eoc [of s'] 1(4) by simp
        next
          case False
          then show thesis using definite [OF 1(1), of tag s'] 1(2,4) by simp
        qed
      next
        case 2
        then show thesis using indefinite [of tag s'] by simp
      qed
    qed
  qed
qed (rule none)

lemma conv_step_total:
  assumes "\<And>st. \<exists>ok s' st'. mid st = Some (ok, s', st') \<and> length s' \<le> length s"
    and "\<And>s' st. length s' \<le> length s \<Longrightarrow> \<exists>ok s'' st'. rest s' st = Some (ok, s'', st') \<and> length s'' \<le> length s'"
  shows "\<exists>ok s' st'. conv_step al string_tag t k mid rest s st = Some (ok, s', st') \<and> length s' \<le> length s"
proof -
  obtain ok1 st1 where 1: "open_elem al string_tag t k st = (ok1, st1)" by fastforce
  obtain ok2 s2 st2 where 2: "mid st1 = Some (ok2, s2, st2)" "length s2 \<le> length s" using assms(1) [of st1] by blast
  obtain ok3 st3 where 3: "CBB_flush al k st2 = (ok3, st3)" by fastforce
  obtain ok4 s4 st4 where 4: "rest s2 st3 = Some (ok4, s4, st4)" "length s4 \<le> length s2" using assms(2) [OF 2(2)] by blast
  show ?thesis using 1 2 3 4 by (cases ok1; cases ok2; cases ok3) (auto simp: conv_step_def)
qed

lemma convert_loop_total:
  assumes "conv_total sub"
  shows "length s < n \<Longrightarrow> \<exists>ok s' st'. convert_ber_loop sub al n string_tag e k s st = Some (ok, s', st') \<and> length s' \<le> length s"
proof (induction n arbitrary: s st)
  case (Suc n s st)
  have sub: "\<exists>ok s' st'. sub x y z s st = Some (ok, s', st') \<and> length s' \<le> length s" for x y z s st
    using assms unfolding conv_total_def by blast
  show ?case
  proof (cases rule: window_cases [of s])
    case (definite lb body t s')
    have n: "length s' < n" using Suc.prems definite(3) ber_len_ne [OF definite(1)] by (cases lb) auto
    let ?mid = "\<lambda>st. if constructed t then map_option (\<lambda>(ok, _, st). (ok, s', st)) (sub (child_tag string_tag t) False (child_at string_tag k) body st)
            else (case CBB_add_bytes al body (child_at string_tag k) st of (ok, st) \<Rightarrow> Some (ok, s', st))"
    have "\<exists>ok s'' st'. ?mid st = Some (ok, s'', st') \<and> length s'' \<le> length s'" for st
      using sub [of "child_tag string_tag t" False "child_at string_tag k" body st] by (auto split: prod.split)
    then have "\<exists>ok s'' st'. conv_step al string_tag t k ?mid (convert_ber_loop sub al n string_tag e k) s' st = Some (ok, s'', st') \<and> length s'' \<le> length s'"
      by (rule conv_step_total) (use Suc.IH n in auto)
    then show ?thesis unfolding definite(3) loop_definite [OF definite(1,2)] by (auto intro: le_trans)
  next
    case (indefinite t s')
    have "\<exists>ok s'' st'. conv_step al string_tag t k (sub (child_tag string_tag t) True (child_at string_tag k) s')
        (convert_ber_loop sub al n string_tag e k) s' st = Some (ok, s'', st') \<and> length s'' \<le> length s'"
      by (rule conv_step_total [OF sub]) (use Suc indefinite in auto)
    then show ?thesis unfolding indefinite(2) loop_indefinite [OF indefinite(1)] by (auto intro: le_trans)
  qed (use loop_Nil loop_fail loop_eoc in auto)
qed simp

lemma convert_total: "conv_total (cbs_convert_ber al d)"
proof (induction d)
  case (Suc d)
  then show ?case using convert_loop_total [of "cbs_convert_ber al d"] unfolding conv_total_def by simp
qed (auto simp: conv_total_def intro: exI [of _ False])

section \<open>The conversion is sound and complete\<close>

lemma close_at_of_put: "put k x a = Some a1 \<Longrightarrow> close_at k a1 = Some a1"
  by (rule close_at_closed) (rule length_put)

lemma put_split: "put k (x @ y) a = Some a' \<longleftrightarrow> (\<exists>a1. put k x a = Some a1 \<and> put k y a1 = Some a')"
  using put_put [of k x a y] by (auto simp: Option.bind_eq_Some_conv)

text \<open>Sealing a child is appending the element to its parent.\<close>

lemma sealed_child:
  assumes a1: "put k (der_tag t) a = Some a1" and a2: "put (Suc k) bs (open_last Asn1_pfx a1) = Some a2" and v: "valid_acbb a1"
  shows "close_at k a2 = Option.bind (element t bs) (\<lambda>e. put k e a)"
proof -
  obtain c where c: "close_at k a = Some c" "a1 = add_last (der_tag t) c" using a1 by (auto simp: put_def)
  have "close_at k a2 = map_option (\<lambda>s. add_last s a1) (seal Asn1_pfx bs)"
    using close_open [OF length_put [OF a1] v, of bs Asn1_pfx] a2 by simp
  then show ?thesis
    using c by (simp add: element_def put_def add_last_add_last der_def)
qed

lemma valid_put: "valid_acbb a \<Longrightarrow> put k x a = Some a1 \<Longrightarrow> valid_acbb a1 \<and> length (flat a) \<le> length (flat a1)"
proof -
  assume v: "valid_acbb a" and "put k x a = Some a1"
  then obtain c where c: "close_at k a = Some c" "a1 = add_last x c" by (auto simp: put_def)
  have "valid_acbb c \<and> length (flat a) \<le> length (flat c)" using close_at_valid [OF v c(1)] by blast
  with valid_add_last [of c x] c(2) show ?thesis by auto
qed

context allocator
begin

lemma conv_step_sound:
  assumes r: "conv_step malloc string_tag t k mid rest s st = Some (True, s', st')" and st: "represents st a" "length a = Suc k"
  obtains st1 a1 st2 s2 st3 where "mid st1 = Some (True, s2, st2)" "rest s2 st3 = Some (True, s', st')"
    "represents st1 a1" "length a1 = Suc (child_at string_tag k)"
    "\<And>bs a2. put (child_at string_tag k) bs a1 = Some a2 \<Longrightarrow> represents st2 a2 \<Longrightarrow>
      \<exists>e a3. elem_bytes string_tag t bs = Some e \<and> put k e a = Some a3 \<and> represents st3 a3 \<and> length a3 = Suc k"
proof -
  from r obtain st1 s2 st2 st3 where o: "open_elem malloc string_tag t k st = (True, st1)" and m: "mid st1 = Some (True, s2, st2)"
      and fl: "CBB_flush malloc k st2 = (True, st3)" and n: "rest s2 st3 = Some (True, s', st')"
      and tag: "string_tag \<noteq> 0 \<longrightarrow> primitive_tag t = string_tag"
    unfolding conv_step_def by (auto split: if_splits prod.splits option.splits bool.splits)
  show thesis
  proof (cases "string_tag = 0")
    case False
    then have st1: "st1 = st" using o by (simp add: open_elem_def cbb_ok_def)
    have "\<exists>e a3. elem_bytes string_tag t bs = Some e \<and> put k e a = Some a3 \<and> represents st3 a3 \<and> length a3 = Suc k"
      if c: "put (child_at string_tag k) bs a = Some a2" and r2: "represents st2 a2" for bs a2
    proof -
      have p: "put k bs a = Some a2" using c False by (simp add: child_at_def)
      then show ?thesis
        using refines_ok [OF refines_flush r2 fl] False tag close_at_of_put [OF p] length_put [OF p] by (auto simp: elem_bytes_def)
    qed
    then show thesis using m n st st1 False by (intro that [of st1 s2 st2 st3 a]) (auto simp: child_at_def)
  next
    case True
    then obtain a0 where a0: "put k (der_tag (out_tag t)) a = Some a0" "represents st1 (open_last Asn1_pfx a0)"
      using o refines_ok [OF refines_add_asn1 st(1)] by (fastforce simp: open_elem_def)
    have v: "valid_acbb a0" using valid_put [OF represents_valid [OF st(1)] a0(1)] by blast
    have "\<exists>e a3. elem_bytes string_tag t bs = Some e \<and> put k e a = Some a3 \<and> represents st3 a3 \<and> length a3 = Suc k"
      if c: "put (child_at string_tag k) bs (open_last Asn1_pfx a0) = Some a2" and r2: "represents st2 a2" for bs a2
    proof -
      have p: "put (Suc k) bs (open_last Asn1_pfx a0) = Some a2" using c True by (simp add: child_at_def)
      obtain a3 where a3: "close_at k a2 = Some a3" "represents st3 a3" using refines_ok [OF refines_flush r2 fl] by blast
      then obtain e where "element (out_tag t) bs = Some e" "put k e a = Some a3"
        using sealed_child [OF a0(1) p v] by (auto simp: Option.bind_eq_Some_conv)
      then show ?thesis using True a3 length_put by (auto simp: elem_bytes_def)
    qed
    moreover have "length (open_last Asn1_pfx a0) = Suc (Suc k)" using length_put [OF a0(1)] by (simp add: open_last_def)
    ultimately show thesis using m n a0 True by (intro that [of st1 s2 st2 st3 "open_last Asn1_pfx a0"]) (auto simp: child_at_def)
  qed
qed

lemma conv_step_room:
  assumes e: "elem_bytes string_tag t bs = Some e" "put k e a = Some a3" and st: "represents st a" "length a = Suc k"
    and m: "has_room malloc st m" "length (flat a3) \<le> m"
  obtains st1 a1 a2 where "open_elem malloc string_tag t k st = (True, st1)" "represents st1 a1" "has_room malloc st1 m"
    "length a1 = Suc (child_at string_tag k)" "put (child_at string_tag k) bs a1 = Some a2" "length (flat a2) \<le> m"
    "\<And>st2. represents st2 a2 \<Longrightarrow> has_room malloc st2 m \<Longrightarrow>
      \<exists>st3. CBB_flush malloc k st2 = (True, st3) \<and> represents st3 a3 \<and> has_room malloc st3 m"
proof -
  have v: "valid_acbb a" using represents_valid [OF st(1)] .
  show thesis
  proof (cases "string_tag = 0")
    case False
    then have "e = bs" using e(1) by (auto simp: elem_bytes_def split: if_splits)
    then have p: "put k bs a = Some a3" using e(2) by simp
    show thesis
      using False st m p refines_room [OF refines_flush, of _ a3 k a3 m] close_at_of_put [OF p]
      by (intro that [of st a a3]) (auto simp: open_elem_def cbb_ok_def child_at_def)
  next
    case True
    then have el: "element (out_tag t) bs = Some e" using e(1) by (simp add: elem_bytes_def)
    then obtain s where s: "e = der_tag (out_tag t) @ s" by (auto simp: element_def der_def split: if_splits)
    then obtain a0 where a0: "put k (der_tag (out_tag t)) a = Some a0" using e(2) put_split by metis
    have v0: "valid_acbb a0" using valid_put [OF v a0] by blast
    let ?a1 = "open_last Asn1_pfx a0"
    have g: "map_option (open_last Asn1_pfx) (put k (der_tag (out_tag t)) a) = Some ?a1" using a0 by simp
    have v1: "valid_acbb ?a1" using refines_grows [OF refines_add_asn1 v g] by blast
    have l1: "length ?a1 = Suc (Suc k)" using length_put [OF a0] by (simp add: open_last_def)
    obtain a2 where a2: "put (Suc k) bs ?a1 = Some a2" using close_at_closed [OF l1] by (simp add: put_def)
    have c: "close_at k a2 = Some a3" using sealed_child [OF a0 a2 v0] el e(2) by simp
    have v2: "valid_acbb a2" "length (flat ?a1) \<le> length (flat a2)" using valid_put [OF v1 a2] by blast+
    have l2: "length (flat a2) \<le> m" using close_at_valid [OF v2(1) c] m(2) by linarith
    obtain st1 where "CBB_add_asn1 malloc (out_tag t) k st = (True, st1)" "has_room malloc st1 m" "represents st1 ?a1"
      using refines_room [OF refines_add_asn1 st(1) g m(1)] v2(2) l2 by auto
    then show thesis
      using True a2 l1 l2 refines_room [OF refines_flush _ c] m(2)
      by (intro that [of st1 ?a1 a2]) (auto simp: open_elem_def child_at_def)
  qed
qed

end

definition conv_result :: "nat \<Rightarrow> u32 \<Rightarrow> bool \<Rightarrow> nat \<Rightarrow> acbb \<Rightarrow> bytes \<Rightarrow> bytes \<Rightarrow> acbb \<Rightarrow> bool" where
  "conv_result d string_tag e k a s s' a' \<longleftrightarrow>
     (\<exists>xs body bs. s = body @ (if e then [0, 0] else []) @ s' \<and> (\<not> e \<longrightarrow> s' = []) \<and> ber_elems d xs body \<and>
        converted string_tag xs = Some bs \<and> put k bs a = Some a')"

lemma conv_result_Cons:
  assumes "ber_elem d x b" "elem_value string_tag x = Some v" "put k v a = Some a1" "conv_result d string_tag e k a1 s s' a'"
  shows "conv_result d string_tag e k a (b @ s) s' a'"
proof -
  obtain xs body bs where r: "s = body @ (if e then [0, 0] else []) @ s'" "\<not> e \<longrightarrow> s' = []" "ber_elems d xs body"
      "converted string_tag xs = Some bs" "put k bs a1 = Some a'"
    using assms(4) unfolding conv_result_def by blast
  have "converted string_tag (x # xs) = Some (v @ bs)" using assms(2) r(4) by (auto simp: converted_Cons_value)
  moreover have "put k (v @ bs) a = Some a'" using assms(3) r(5) by (auto simp: put_split)
  ultimately show ?thesis
    unfolding conv_result_def using r(1,2) one_more [OF assms(1) r(3)]
    by (intro exI [of _ "x # xs"] exI [of _ "b @ body"] exI [of _ "v @ bs"]) simp
qed

lemma conv_result_Nil: "length a = Suc k \<Longrightarrow> valid_acbb a \<Longrightarrow> (\<not> e \<longrightarrow> s' = []) \<Longrightarrow> conv_result (Suc d) string_tag e k a ((if e then [0, 0] else []) @ s') s' a"
  unfolding conv_result_def
  by (intro exI [of _ "[]"] conjI) (simp_all add: put_Nil close_at_closed ber_elem_ber_elems.none)

definition conv_sound :: "allocator \<Rightarrow> nat \<Rightarrow> ber_conv \<Rightarrow> bool" where
  "conv_sound al d f \<longleftrightarrow>
     (\<forall>string_tag e k s st a s' st'. length s < size_lim \<and> represents st a \<and> length a = Suc k \<and>
        f string_tag e k s st = Some (True, s', st') \<longrightarrow> (\<exists>a'. conv_result d string_tag e k a s s' a' \<and> represents st' a'))"

lemma conv_soundD:
  "conv_sound al d f \<Longrightarrow> f string_tag e k s st = Some (True, s', st') \<Longrightarrow> length s < size_lim \<Longrightarrow> represents st a \<Longrightarrow> length a = Suc k \<Longrightarrow>
   \<exists>xs body bs a'. s = body @ (if e then [0, 0] else []) @ s' \<and> (\<not> e \<longrightarrow> s' = []) \<and> ber_elems d xs body \<and>
        converted string_tag xs = Some bs \<and> put k bs a = Some a' \<and> represents st' a'"
  unfolding conv_sound_def conv_result_def by blast

context allocator
begin

lemma convert_loop_sound:
  assumes sub: "conv_sound malloc d sub"
  shows "length s < size_lim \<Longrightarrow> represents st a \<Longrightarrow> length a = Suc k \<Longrightarrow>
    convert_ber_loop sub malloc n string_tag e k s st = Some (True, s', st') \<Longrightarrow>
    \<exists>a'. conv_result (Suc d) string_tag e k a s s' a' \<and> represents st' a'"
proof (induction n arbitrary: s st a)
  case (Suc n s st a)
  show ?case
  proof (cases rule: window_cases [of s])
    case fail
    then show ?thesis using Suc.prems(4) loop_fail by simp
  next
    case none
    then show ?thesis
      using Suc.prems conv_result_Nil [OF Suc.prems(3) represents_valid [OF Suc.prems(2)], of e "[]"] by (auto simp: loop_Nil)
  next
    case (eoc s2)
    have "e" "s' = s2" "st' = st" using Suc.prems(4) unfolding eoc loop_eoc by simp_all
    then show ?thesis
      using eoc Suc.prems(2) conv_result_Nil [OF Suc.prems(3) represents_valid [OF Suc.prems(2)], of e s'] by auto
  next
    case (definite lb body t s2)
    obtain st1 a1 st2 s3 st3 where
      mid: "(if constructed t then map_option (\<lambda>(ok, _, st). (ok, s2, st)) (sub (child_tag string_tag t) False (child_at string_tag k) body st1)
            else (case CBB_add_bytes malloc body (child_at string_tag k) st1 of (ok, st) \<Rightarrow> Some (ok, s2, st))) = Some (True, s3, st2)"
      and rest: "convert_ber_loop sub malloc n string_tag e k s3 st3 = Some (True, s', st')"
      and a1: "represents st1 a1" "length a1 = Suc (child_at string_tag k)"
      and close: "\<And>bs a2. put (child_at string_tag k) bs a1 = Some a2 \<Longrightarrow> represents st2 a2 \<Longrightarrow>
        \<exists>v a3. elem_bytes string_tag t bs = Some v \<and> put k v a = Some a3 \<and> represents st3 a3 \<and> length a3 = Suc k"
      using Suc.prems(4) unfolding definite(3) loop_definite [OF definite(1,2)]
      by (rule conv_step_sound [OF _ Suc.prems(2,3)]) blast
    have l: "length body < size_lim" "length s2 < size_lim" using Suc.prems(1) definite(3) by auto
    have "\<exists>x v a3. ber_elem (Suc d) x (der_tag t @ lb @ body) \<and> elem_value string_tag x = Some v \<and> put k v a = Some a3 \<and>
        represents st3 a3 \<and> length a3 = Suc k \<and> s3 = s2"
    proof (cases "constructed t")
      case True
      then obtain r where "sub (child_tag string_tag t) False (child_at string_tag k) body st1 = Some (True, r, st2)" "s3 = s2"
        using mid by auto
      moreover from conv_soundD [OF sub this(1) l(1) a1] obtain xs bs a2 where
        "ber_elems d xs body" "converted (child_tag string_tag t) xs = Some bs" "put (child_at string_tag k) bs a1 = Some a2" "represents st2 a2"
        by auto
      ultimately show ?thesis
        using close [of bs a2] ber_elem_ber_elems.definite [OF True _ definite(1), of d xs]
        by (intro exI [of _ "Constructed t xs"]) (auto simp: elem_value_constructed [OF True])
    next
      case False
      then have m: "CBB_add_bytes malloc body (child_at string_tag k) st1 = (True, st2)" "s3 = s2"
        using mid by (auto split: prod.splits)
      obtain a2 where "put (child_at string_tag k) body a1 = Some a2" "represents st2 a2"
        using refines_ok [OF refines_add_bytes [OF l(1)] a1(1) m(1)] by blast
      then show ?thesis
        using close [of body a2] m(2) ber_elem_ber_elems.primitive [OF False definite(1,2), of d]
        by (intro exI [of _ "Primitive t body"]) (auto simp: elem_value_primitive [OF False])
    qed
    then obtain x v a3 where x: "ber_elem (Suc d) x (der_tag t @ lb @ body)" "elem_value string_tag x = Some v" "put k v a = Some a3"
      and r3: "represents st3 a3" "length a3 = Suc k" "s3 = s2"
      by blast
    from Suc.IH [OF l(2) r3(1,2) rest [unfolded r3(3)]] conv_result_Cons [OF x] show ?thesis
      unfolding definite(3) by fastforce
  next
    case (indefinite t s2)
    obtain st1 a1 st2 s3 st3 where
      mid: "sub (child_tag string_tag t) True (child_at string_tag k) s2 st1 = Some (True, s3, st2)"
      and rest: "convert_ber_loop sub malloc n string_tag e k s3 st3 = Some (True, s', st')"
      and a1: "represents st1 a1" "length a1 = Suc (child_at string_tag k)"
      and close: "\<And>bs a2. put (child_at string_tag k) bs a1 = Some a2 \<Longrightarrow> represents st2 a2 \<Longrightarrow>
        \<exists>v a3. elem_bytes string_tag t bs = Some v \<and> put k v a = Some a3 \<and> represents st3 a3 \<and> length a3 = Suc k"
      using Suc.prems(4) unfolding indefinite(2) loop_indefinite [OF indefinite(1)]
      by (rule conv_step_sound [OF _ Suc.prems(2,3)]) blast
    have l: "length s2 < size_lim" using Suc.prems(1) indefinite(2) by simp
    from conv_soundD [OF sub mid l a1] obtain xs body bs a2 where s2: "s2 = body @ [0, 0] @ s3" and xs: "ber_elems d xs body"
        and bs: "converted (child_tag string_tag t) xs = Some bs" "put (child_at string_tag k) bs a1 = Some a2" "represents st2 a2"
      by auto
    obtain v a3 where v: "elem_value string_tag (Constructed t xs) = Some v" "put k v a = Some a3" "represents st3 a3" "length a3 = Suc k"
      using close [OF bs(2,3)] bs(1) elem_value_constructed [OF indefinite(1)] by auto
    have "length s3 < size_lim" using l s2 by simp
    from Suc.IH [OF this v(3,4) rest] conv_result_Cons [OF ber_elem_ber_elems.indefinite [OF indefinite(1) xs] v(1,2)]
    show ?thesis unfolding indefinite(2) s2 by fastforce
  qed
qed simp

lemma convert_sound: "conv_sound malloc d (cbs_convert_ber malloc d)"
proof (induction d)
  case (Suc d)
  then show ?case
    using convert_loop_sound [of d "cbs_convert_ber malloc d"] unfolding conv_sound_def by (simp only: cbs_convert_ber.simps) blast
qed (simp add: conv_sound_def)

end

definition conv_complete :: "allocator \<Rightarrow> nat \<Rightarrow> ber_conv \<Rightarrow> bool" where
  "conv_complete al d f \<longleftrightarrow>
     (\<forall>string_tag e k st a xs body bs a' m r.
        ber_elems d xs body \<and> converted string_tag xs = Some bs \<and> put k bs a = Some a' \<and> represents st a \<and> length a = Suc k \<and>
        has_room al st m \<and> length (flat a') \<le> m \<and> length body < size_lim \<and> (\<not> e \<longrightarrow> r = []) \<longrightarrow>
        (\<exists>st'. f string_tag e k (body @ (if e then [0, 0] else []) @ r) st = Some (True, r, st') \<and> represents st' a' \<and> has_room al st' m))"

lemma conv_completeD:
  "conv_complete al d f \<Longrightarrow> ber_elems d xs body \<Longrightarrow> converted string_tag xs = Some bs \<Longrightarrow> put k bs a = Some a' \<Longrightarrow> represents st a \<Longrightarrow>
   length a = Suc k \<Longrightarrow> has_room al st m \<Longrightarrow> length (flat a') \<le> m \<Longrightarrow> length body < size_lim \<Longrightarrow> (\<not> e \<longrightarrow> r = []) \<Longrightarrow>
   \<exists>st'. f string_tag e k (body @ (if e then [0, 0] else []) @ r) st = Some (True, r, st') \<and> represents st' a' \<and> has_room al st' m"
  unfolding conv_complete_def by blast

lemma put_closed: "length a = Suc k \<Longrightarrow> valid_acbb a \<Longrightarrow> put k [] a = Some a"
  by (simp add: put_Nil close_at_closed)

context allocator
begin

lemma conv_step_complete:
  assumes e: "elem_bytes string_tag t bs = Some v" "put k v a = Some a3" and st: "represents st a" "length a = Suc k"
    and m: "has_room malloc st m" "length (flat a3) \<le> m"
    and mid: "\<And>st1 a1 a2. represents st1 a1 \<Longrightarrow> has_room malloc st1 m \<Longrightarrow> length a1 = Suc (child_at string_tag k) \<Longrightarrow>
      put (child_at string_tag k) bs a1 = Some a2 \<Longrightarrow> length (flat a2) \<le> m \<Longrightarrow>
      \<exists>st2. mid st1 = Some (True, s', st2) \<and> represents st2 a2 \<and> has_room malloc st2 m"
    and rest: "\<And>st3. represents st3 a3 \<Longrightarrow> length a3 = Suc k \<Longrightarrow> has_room malloc st3 m \<Longrightarrow>
      \<exists>st'. rest s' st3 = Some (True, r, st') \<and> represents st' a' \<and> has_room malloc st' m"
  shows "\<exists>st'. conv_step malloc string_tag t k mid rest s st = Some (True, r, st') \<and> represents st' a' \<and> has_room malloc st' m"
proof -
  obtain st1 a1 a2 where o: "open_elem malloc string_tag t k st = (True, st1)" and a1: "represents st1 a1" "has_room malloc st1 m"
      "length a1 = Suc (child_at string_tag k)" "put (child_at string_tag k) bs a1 = Some a2" "length (flat a2) \<le> m"
    and fl: "\<And>st2. represents st2 a2 \<Longrightarrow> has_room malloc st2 m \<Longrightarrow>
      \<exists>st3. CBB_flush malloc k st2 = (True, st3) \<and> represents st3 a3 \<and> has_room malloc st3 m"
    by (rule conv_step_room [OF e st m]) blast
  obtain st2 where st2: "mid st1 = Some (True, s', st2)" "represents st2 a2" "has_room malloc st2 m" using mid [OF a1] by blast
  obtain st3 where st3: "CBB_flush malloc k st2 = (True, st3)" "represents st3 a3" "has_room malloc st3 m" using fl [OF st2(2,3)] by blast
  have "string_tag \<noteq> 0 \<longrightarrow> primitive_tag t = string_tag" using e(1) by (auto simp: elem_bytes_def split: if_splits)
  then show ?thesis using o st2(1) st3(1) rest [OF st3(2) length_put [OF e(2)] st3(3)] by (auto simp: conv_step_def)
qed

lemma convert_loop_complete:
  assumes sub: "conv_complete malloc d sub" and r: "\<not> e \<longrightarrow> r = []"
  shows "ber_elems (Suc d) xs body \<Longrightarrow> converted string_tag xs = Some bs \<Longrightarrow> put k bs a = Some a' \<Longrightarrow> represents st a \<Longrightarrow>
    length a = Suc k \<Longrightarrow> has_room malloc st m \<Longrightarrow> length (flat a') \<le> m \<Longrightarrow> length body < size_lim \<Longrightarrow> length body < n \<Longrightarrow>
    \<exists>st'. convert_ber_loop sub malloc n string_tag e k (body @ (if e then [0, 0] else []) @ r) st = Some (True, r, st') \<and>
      represents st' a' \<and> has_room malloc st' m"
proof (induction xs arbitrary: body bs a st n)
  case Nil
  obtain n' where n': "n = Suc n'" using Nil.prems(9) by (cases n) auto
  have b: "body = []" "bs = []" using Nil.prems(1,2) by (auto elim: ber_elems_NilE)
  then have "a' = a" using Nil.prems(3) put_closed [OF Nil.prems(5) represents_valid [OF Nil.prems(4)]] by simp
  then show ?case
    using Nil.prems(4,6) r loop_eoc [of sub malloc n' string_tag True k r st] unfolding b(1) n'
    by (cases e) (simp_all add: loop_Nil)
next
  case (Cons x xs body bs a st n)
  obtain n' where n': "n = Suc n'" using Cons.prems(9) by (cases n) auto
  obtain b t where x: "ber_elem (Suc d) x b" "ber_elems (Suc d) xs t" "body = b @ t" by (rule ber_elemsE [OF Cons.prems(1)])
  obtain v as where v: "elem_value string_tag x = Some v" "converted string_tag xs = Some as" "bs = v @ as"
    using Cons.prems(2) by (auto simp: converted_Cons_value)
  obtain a3 where a3: "put k v a = Some a3" "put k as a3 = Some a'" using Cons.prems(3) v(3) by (auto simp: put_split)
  have "valid_acbb a3" using valid_put [OF represents_valid [OF Cons.prems(4)] a3(1)] by blast
  then have l3: "length (flat a3) \<le> m" using valid_put [OF _ a3(2)] Cons.prems(7) by fastforce
  let ?w = "t @ (if e then [0, 0] else []) @ r"
  have rest: "\<exists>st'. convert_ber_loop sub malloc n' string_tag e k ?w st3 = Some (True, r, st') \<and> represents st' a' \<and> has_room malloc st' m"
    if "represents st3 a3" "length a3 = Suc k" "has_room malloc st3 m" "length t < n'" for st3
    using Cons.IH [OF x(2) v(2) a3(2) that(1,2,3) Cons.prems(7) _ that(4)] Cons.prems(8) x(3) by simp
  note step = conv_step_complete [OF _ a3(1) Cons.prems(4,5,6) l3]
  show ?case
  proof (cases x)
    case (Primitive tg c)
    then obtain lb where p: "\<not> constructed tg" "ber_len (length c) lb" "der_tag tg @ lb @ c \<noteq> [0, 0]" "b = der_tag tg @ lb @ c"
      using x(1) by (auto elim: ber_primitiveE)
    have lt: "length t < n'" using Cons.prems(9) ber_len_ne [OF p(2)] by (cases lb) (auto simp: n' x(3) p(4))
    have cl: "length c < size_lim" using Cons.prems(8) by (auto simp: x(3) p(4))
    have w: "body @ (if e then [0, 0] else []) @ r = der_tag tg @ lb @ c @ ?w" by (simp add: x(3) p(4))
    show ?thesis
      unfolding w n' loop_definite [OF p(2,3)]
    proof (rule step)
      show "elem_bytes string_tag tg c = Some v" using v(1) elem_value_primitive [OF p(1)] by (simp add: Primitive)
    next
      fix st1 a1 a2
      assume s: "represents st1 a1" "has_room malloc st1 m" "put (child_at string_tag k) c a1 = Some a2" "length (flat a2) \<le> m"
      show "\<exists>st2. (if constructed tg then map_option (\<lambda>(ok, _, st). (ok, ?w, st)) (sub (child_tag string_tag tg) False (child_at string_tag k) c st1)
            else (case CBB_add_bytes malloc c (child_at string_tag k) st1 of (ok, st) \<Rightarrow> Some (ok, ?w, st))) = Some (True, ?w, st2) \<and>
          represents st2 a2 \<and> has_room malloc st2 m"
        using p(1) refines_room [OF refines_add_bytes [OF cl] s(1,3,2,4)] by auto
    qed (use rest lt in blast)
  next
    case (Constructed tg ys)
    from x(1) [unfolded Constructed] consider (definite) c lb where "constructed tg" "ber_elems d ys c" "ber_len (length c) lb" "b = der_tag tg @ lb @ c"
      | (indefinite) c where "constructed tg" "ber_elems d ys c" "b = der_tag tg @ 0x80 # c @ [0, 0]"
      by (elim ber_constructedE) auto
    then show ?thesis
    proof cases
      case definite
      have ne: "der_tag tg @ lb @ c \<noteq> [0, 0]"
      proof
        assume "der_tag tg @ lb @ c = [0, 0]"
        then have "parse_asn1_tag [0, 0] = (Some tg, lb @ c)" using asn1_tag.roundtrip [of tg "lb @ c"] by simp
        then have "tg = 0" by (simp add: parse_asn1_tag_Cons Let_def)
        then show False using definite(1) by simp
      qed
      obtain cs where cs: "converted (child_tag string_tag tg) ys = Some cs" "elem_bytes string_tag tg cs = Some v"
        using v(1) elem_value_constructed [OF definite(1)] by (auto simp: Constructed Option.bind_eq_Some_conv)
      have lt: "length t < n'" using Cons.prems(9) ber_len_ne [OF definite(3)] by (cases lb) (auto simp: n' x(3) definite(4))
      have cl: "length c < size_lim" using Cons.prems(8) by (auto simp: x(3) definite(4))
      have w: "body @ (if e then [0, 0] else []) @ r = der_tag tg @ lb @ c @ ?w" by (simp add: x(3) definite(4))
      show ?thesis
        unfolding w n' loop_definite [OF definite(3) ne]
      proof (rule step [OF cs(2)])
        fix st1 a1 a2
        assume s: "represents st1 a1" "has_room malloc st1 m" "length a1 = Suc (child_at string_tag k)"
          "put (child_at string_tag k) cs a1 = Some a2" "length (flat a2) \<le> m"
        from conv_completeD [OF sub definite(2) cs(1) s(4,1,3,2,5) cl, of False "[]"]
        show "\<exists>st2. (if constructed tg then map_option (\<lambda>(ok, _, st). (ok, ?w, st)) (sub (child_tag string_tag tg) False (child_at string_tag k) c st1)
            else (case CBB_add_bytes malloc c (child_at string_tag k) st1 of (ok, st) \<Rightarrow> Some (ok, ?w, st))) = Some (True, ?w, st2) \<and>
          represents st2 a2 \<and> has_room malloc st2 m"
          using definite(1) by auto
      qed (use rest lt in blast)
    next
      case indefinite
      obtain cs where cs: "converted (child_tag string_tag tg) ys = Some cs" "elem_bytes string_tag tg cs = Some v"
        using v(1) elem_value_constructed [OF indefinite(1)] by (auto simp: Constructed Option.bind_eq_Some_conv)
      have lt: "length t < n'" using Cons.prems(9) by (auto simp: n' x(3) indefinite(3))
      have cl: "length c < size_lim" using Cons.prems(8) by (auto simp: x(3) indefinite(3))
      have w: "body @ (if e then [0, 0] else []) @ r = der_tag tg @ 0x80 # c @ [0, 0] @ ?w" by (simp add: x(3) indefinite(3))
      show ?thesis
        unfolding w n' loop_indefinite [OF indefinite(1)]
      proof (rule step [OF cs(2)])
        fix st1 a1 a2
        assume s: "represents st1 a1" "has_room malloc st1 m" "length a1 = Suc (child_at string_tag k)"
          "put (child_at string_tag k) cs a1 = Some a2" "length (flat a2) \<le> m"
        from conv_completeD [OF sub indefinite(2) cs(1) s(4,1,3,2,5) cl, of True ?w]
        show "\<exists>st2. sub (child_tag string_tag tg) True (child_at string_tag k) (c @ [0, 0] @ ?w) st1 = Some (True, ?w, st2) \<and>
            represents st2 a2 \<and> has_room malloc st2 m"
          by simp
      qed (use rest lt in blast)
    qed
  qed
qed

lemma ber_elems_0: "\<not> ber_elems 0 xs s"
proof -
  have "(ber_elem d x b \<longrightarrow> d \<noteq> 0) \<and> (ber_elems d' xs s \<longrightarrow> d' \<noteq> 0)" for d x b d'
    by (rule ber_elem_ber_elems.induct [of "\<lambda>d x b. d \<noteq> 0" "\<lambda>d xs s. d \<noteq> 0"]) simp_all
  then show ?thesis by blast
qed

lemma convert_complete: "conv_complete malloc d (cbs_convert_ber malloc d)"
proof (induction d)
  case (Suc d)
  show ?case
    unfolding conv_complete_def
  proof (intro allI impI; elim conjE)
    fix string_tag e k st a xs body bs a' m and r :: bytes
    assume h: "ber_elems (Suc d) xs body" "converted string_tag xs = Some bs" "put k bs a = Some a'" "represents st a" "length a = Suc k"
      "has_room malloc st m" "length (flat a') \<le> m" "length body < size_lim" "\<not> e \<longrightarrow> r = []"
    show "\<exists>st'. cbs_convert_ber malloc (Suc d) string_tag e k (body @ (if e then [0, 0] else []) @ r) st = Some (True, r, st') \<and>
        represents st' a' \<and> has_room malloc st' m"
      unfolding cbs_convert_ber.simps by (rule convert_loop_complete [OF Suc h(9,1-8)]) simp
  qed
qed (simp add: conv_complete_def ber_elems_0)

end

section \<open>What is DER is left alone\<close>

lemma find_loop_Nil [simp]: "find_ber_loop sub [] b = Some b"
  by (simp add: find_ber_loop.simps CBS_len_def)

lemma der_ber_element:
  "length body < 2 ^ 32 \<Longrightarrow> CBS_get_any_ber_asn1_element (der tag body @ t) = (Some (der tag body, tag, der_header_len tag (length body), False), t)"
  using ber_element_definite [OF ber_len_der, of body tag t] by (simp add: der_def der_header_len_def)

lemma find_loop_der:
  assumes "length body < 2 ^ 32"
  shows "find_ber_loop sub (der tag body @ t) b =
    (if constructed tag then
       if is_string_type tag then Some True else (case sub body of None \<Rightarrow> None | Some b \<Rightarrow> find_ber_loop sub t b)
     else find_ber_loop sub t False)"
proof -
  have "der tag body \<noteq> []" using length_der_tag(2) [of tag] by (auto simp: der_def)
  then show ?thesis
    by (subst find_ber_loop.simps) (simp add: CBS_len_def der_ber_element [OF assms] skip_der_header)
qed

lemma to_der_element:
  assumes "element t body = Some e"
  shows "e = der t body" "length body < 2 ^ 32"
  using assms by (auto simp: element_def split: if_splits)

lemma not_constructed_primitive_tag: "\<not> constructed (primitive_tag t)"
  by (simp add: and.assoc)

text \<open>The DER encoding of a value is one element, constructed only of what is DER itself, and never a constructed string.\<close>

lemma find_ber_der_aux:
  "(ber_elem d x b \<longrightarrow> (\<forall>e. to_der x = Some e \<longrightarrow> (\<exists>d' tag body. d = Suc d' \<and> e = der tag body \<and> length body < 2 ^ 32 \<and>
      (constructed tag \<longrightarrow> \<not> is_string_type tag \<and> cbs_find_ber d' body = Some False)))) \<and>
   (ber_elems d xs s \<longrightarrow> (\<forall>out. collect to_der xs = Some out \<longrightarrow> cbs_find_ber d out = Some False))"
proof (rule ber_elem_ber_elems.induct)
  fix t :: u32 and b lb :: bytes and d
  assume "\<not> constructed t"
  then show "\<forall>e. to_der (Primitive t b) = Some e \<longrightarrow> (\<exists>d' tag body. Suc d = Suc d' \<and> e = der tag body \<and> length body < 2 ^ 32 \<and>
      (constructed tag \<longrightarrow> \<not> is_string_type tag \<and> cbs_find_ber d' body = Some False))"
    using to_der_element [of t b] by auto
next
  have con: "\<forall>e. to_der (Constructed t xs) = Some e \<longrightarrow> (\<exists>d' tag body. Suc d = Suc d' \<and> e = der tag body \<and> length body < 2 ^ 32 \<and>
      (constructed tag \<longrightarrow> \<not> is_string_type tag \<and> cbs_find_ber d' body = Some False))"
    if "\<forall>out. collect to_der xs = Some out \<longrightarrow> cbs_find_ber d out = Some False" for t xs d
  proof (intro allI impI)
    fix e assume e: "to_der (Constructed t xs) = Some e"
    show "\<exists>d' tag body. Suc d = Suc d' \<and> e = der tag body \<and> length body < 2 ^ 32 \<and>
      (constructed tag \<longrightarrow> \<not> is_string_type tag \<and> cbs_find_ber d' body = Some False)"
    proof (cases "is_string_type t")
      case True
      then obtain body where "element (primitive_tag t) body = Some e" using e by (auto simp: Option.bind_eq_Some_conv)
      then show ?thesis using to_der_element [of "primitive_tag t" body e] not_constructed_primitive_tag [of t] by blast
    next
      case False
      then obtain body where "collect to_der xs = Some body" "element t body = Some e" using e by (auto simp: Option.bind_eq_Some_conv)
      then show ?thesis using to_der_element [of t body e] that False by blast
    qed
  qed
  fix t :: u32 and d xs and body lb :: bytes
  assume ih: "\<forall>out. collect to_der xs = Some out \<longrightarrow> cbs_find_ber d out = Some False"
  show "\<forall>e. to_der (Constructed t xs) = Some e \<longrightarrow> (\<exists>d' tag body. Suc d = Suc d' \<and> e = der tag body \<and> length body < 2 ^ 32 \<and>
      (constructed tag \<longrightarrow> \<not> is_string_type tag \<and> cbs_find_ber d' body = Some False))"
    "\<forall>e. to_der (Constructed t xs) = Some e \<longrightarrow> (\<exists>d' tag body. Suc d = Suc d' \<and> e = der tag body \<and> length body < 2 ^ 32 \<and>
      (constructed tag \<longrightarrow> \<not> is_string_type tag \<and> cbs_find_ber d' body = Some False))"
    by (rule con [OF ih])+
next
  fix d show "\<forall>out. collect to_der [] = Some out \<longrightarrow> cbs_find_ber (Suc d) out = Some False" by simp
next
  fix d x xs
  assume x: "\<forall>e. to_der x = Some e \<longrightarrow> (\<exists>d' tag body. d = Suc d' \<and> e = der tag body \<and> length body < 2 ^ 32 \<and>
      (constructed tag \<longrightarrow> \<not> is_string_type tag \<and> cbs_find_ber d' body = Some False))"
    and xs: "\<forall>out. collect to_der xs = Some out \<longrightarrow> cbs_find_ber d out = Some False"
  show "\<forall>out. collect to_der (x # xs) = Some out \<longrightarrow> cbs_find_ber d out = Some False"
  proof (intro allI impI)
    fix out assume "collect to_der (x # xs) = Some out"
    then obtain e as where e: "to_der x = Some e" "collect to_der xs = Some as" "out = e @ as"
      unfolding collect_Cons_Some by blast
    with x obtain d' tag body where b: "d = Suc d'" "e = der tag body" "length body < 2 ^ 32"
        "constructed tag \<longrightarrow> \<not> is_string_type tag \<and> cbs_find_ber d' body = Some False" by blast
    have "find_ber_loop (cbs_find_ber d') as False = Some False" using xs e(2) b(1) by simp
    then show "cbs_find_ber d out = Some False" unfolding e(3) b(1,2) using b(4) by (simp add: find_loop_der [OF b(3)])
  qed
qed

lemma find_ber_der: "ber_elems d xs s \<Longrightarrow> collect to_der xs = Some out \<Longrightarrow> cbs_find_ber d out = Some False"
  using find_ber_der_aux by blast

section \<open>The calls\<close>

lemma root_put: "put 0 bs [(Root, [])] = Some [(Root, bs)]"
  by (simp add: put_def close_at_def add_last_def)

context allocator
begin

lemma ber_to_der_total: "\<exists>r. CBS_asn1_ber_to_der malloc s = Some r"
proof -
  obtain ok s' st' where "cbs_convert_ber malloc (Suc kMaxDepth) 0 False 0 s (snd (CBB_init malloc (CBS_len s))) = Some (ok, s', st')"
    using convert_total [of malloc "Suc kMaxDepth"] unfolding conv_total_def by blast
  then show ?thesis
    by (cases "CBB_init malloc (CBS_len s)")
      (auto simp: CBS_asn1_ber_to_der_def simp del: cbs_convert_ber.simps split: option.split bool.split prod.split)
qed

lemma ber_to_der_ok:
  assumes "length s < size_lim" "cbs_find_ber (Suc kMaxDepth) s = Some True" "CBS_asn1_ber_to_der malloc s = Some (Some (out, storage), s')"
  shows "\<exists>xs. ber_elems (Suc kMaxDepth) xs s \<and> collect to_der xs = Some out \<and> s' = []"
proof -
  obtain st0 st1 st2 r where i: "CBB_init malloc (length s) = (True, st0)"
    and c: "cbs_convert_ber malloc (Suc kMaxDepth) 0 False 0 s st0 = Some (True, s', st1)"
    and f: "CBB_finish malloc True True 0 st1 = (Some r, st2)" and out: "out = handed_out r"
    using assms(2,3)
    by (auto simp: CBS_asn1_ber_to_der_def CBS_len_def CBS_init_def handed_out_def simp del: cbs_convert_ber.simps cbs_find_ber.simps
        split: prod.splits bool.splits option.splits)
  have r0: "represents st0 [(Root, [])]" by (rule CBB_init_represents(1) [OF assms(1) i])
  from conv_soundD [OF convert_sound c assms(1) r0] obtain xs bs a' where
    xs: "ber_elems (Suc kMaxDepth) xs s" "s' = []" "converted 0 xs = Some bs" "put 0 bs [(Root, [])] = Some a'" "represents st1 a'"
    by auto
  have "close a' = Some (Root, handed_out r)" using CBB_finish_ok [OF xs(5) f] by blast
  moreover have "a' = [(Root, bs)]" using xs(4) by (simp add: root_put)
  ultimately have "handed_out r = bs" by simp
  then show ?thesis using xs out by (auto simp: converted_def)
qed

lemma ber_to_der_room:
  assumes "length s + 8 < size_lim" "cbs_find_ber (Suc kMaxDepth) s = Some True"
    and xs: "ber_elems (Suc kMaxDepth) xs s" "collect to_der xs = Some out"
    and m: "2 * length out + 8 < size_lim" "\<forall>k \<le> 40 + length s + 2 * length out. malloc k \<noteq> None"
  shows "\<exists>storage. CBS_asn1_ber_to_der malloc s = Some (Some (out, storage), [])"
proof -
  have "OPENSSL_malloc malloc (length s) \<noteq> None" "OPENSSL_malloc malloc 32 \<noteq> None"
    using m(2) assms(1) by (intro openssl_malloc_ok; simp del: not_None_eq)+
  then obtain st0 where i: "CBB_init malloc (length s) = (True, st0)"
    by (auto simp: CBB_init_def cbb_init_def Let_def split: option.splits prod.splits)
  note r0 = CBB_init_represents [OF _ i]
  have "has_room malloc st0 (length out)" using r0(2) [of "length out"] assms(1) m by auto
  then obtain st1 where c: "cbs_convert_ber malloc (Suc kMaxDepth) 0 False 0 s st0 = Some (True, [], st1)" "represents st1 [(Root, out)]"
      "has_room malloc st1 (length out)"
    using conv_completeD [OF convert_complete xs(1), of 0 out 0 "[(Root, [])]" "[(Root, out)]" st0 "length out" False "[]"] r0(1) assms(1) xs(2)
    by (auto simp: converted_def root_put simp del: cbs_convert_ber.simps)
  obtain r st2 where "CBB_finish malloc True True 0 st1 = (Some r, st2)" "handed_out r = out"
    using CBB_finish_room [OF c(2) _ c(3)] by auto
  then show ?thesis
    using i c(1) assms(2)
    by (cases r) (auto simp: CBS_asn1_ber_to_der_def CBS_len_def CBS_init_def handed_out_def simp del: cbs_convert_ber.simps cbs_find_ber.simps
        split: option.split)
qed

end

section \<open>Implicitly tagged strings\<close>

context allocator
begin

lemma implicit_chunks_ok:
  "implicit_chunks malloc tag child st = (True, st') \<Longrightarrow> length child < size_lim \<Longrightarrow> represents st a \<Longrightarrow> length a = Suc 0 \<Longrightarrow>
   \<exists>cs a'. child = concat (map (der tag) cs) \<and> put 0 (concat cs) a = Some a' \<and> represents st' a'"
proof (induction "length child" arbitrary: child st a rule: less_induct)
  case less
  show ?case
  proof (cases "child = []")
    case True
    then have "st' = st" using less.prems(1) by (simp add: implicit_chunks.simps [of _ _ "[]"] CBS_len_def)
    then show ?thesis
      using True less.prems(3) put_closed [OF less.prems(4) represents_valid [OF less.prems(3)]] by (intro exI [of _ "[]"] exI [of _ a]) simp
  next
    case False
    then obtain chunk rest st1 where c: "CBS_get_asn1 tag child = (Some chunk, rest)" "CBB_add_bytes malloc chunk 0 st = (True, st1)"
        "implicit_chunks malloc tag rest st1 = (True, st')"
      using less.prems(1) by (subst (asm) implicit_chunks.simps) (auto simp: CBS_len_def cbb_then_def split: prod.splits option.splits if_splits)
    obtain x hl where g: "CBS_get_any_asn1_element child = (Some (x, tag, hl), rest)" "CBS_skip hl x = (Some (), chunk)"
      using c(1) by (auto simp: CBS_get_asn1_def cbs_get_asn1_def rd_bind_eq_Some split: if_splits prod.splits option.splits)
    obtain body where "x = der tag body" "hl = der_header_len tag (length body)" "child = x @ rest"
      using g(1) unfolding CBS_get_any_asn1_element_iff by blast
    then have child: "child = der tag chunk @ rest" using g(2) skip_der_header [of tag body] by simp
    have l: "length rest < length child" "length chunk < size_lim" "length rest < size_lim"
      using get_asn1_shorter [OF c(1)] less.prems(2) by (auto simp: child der_def)
    obtain a1 where a1: "put 0 chunk a = Some a1" "represents st1 a1"
      using refines_ok [OF refines_add_bytes [OF l(2)] less.prems(3) c(2)] by blast
    obtain cs a' where cs: "rest = concat (map (der tag) cs)" "put 0 (concat cs) a1 = Some a'" "represents st' a'"
      using less.hyps [OF l(1) c(3) l(3) a1(2) length_put [OF a1(1)]] by blast
    have "put 0 (concat (chunk # cs)) a = Some a'" using a1(1) cs(2) by (simp add: put_split)
    then show ?thesis using cs child by (intro exI [of _ "chunk # cs"]) auto
  qed
qed

text \<open>A string comes out as it went in, or put together from its chunks.\<close>

lemma implicit_string_ok:
  assumes "length s < size_lim" "CBS_get_asn1_implicit_string malloc outer_tag inner_tag s = (Some (out, storage), rest)"
  shows "storage = None \<and> s = der outer_tag out @ rest \<or>
    (\<exists>cs. s = der (outer_tag OR CBS_ASN1_CONSTRUCTED) (concat (map (der inner_tag) cs)) @ rest \<and> out = concat cs)"
proof -
  have get: "s = der tag x @ t" if "CBS_get_asn1 tag s = (Some x, t)" for tag x t
  proof -
    from that obtain y hl where g: "CBS_get_any_asn1_element s = (Some (y, tag, hl), t)" "CBS_skip hl y = (Some (), x)"
      by (auto simp: CBS_get_asn1_def cbs_get_asn1_def rd_bind_eq_Some split: if_splits prod.splits option.splits)
    obtain body where "y = der tag body" "hl = der_header_len tag (length body)" "s = y @ t"
      using g(1) unfolding CBS_get_any_asn1_element_iff by blast
    then show ?thesis using g(2) skip_der_header [of tag body] by simp
  qed
  show ?thesis
  proof (cases "CBS_peek_asn1_tag s outer_tag")
    case True
    then show ?thesis using assms(2) get [of outer_tag] by (auto simp: CBS_get_asn1_implicit_string_def rd_bind_eq_Some)
  next
    case False
    note call = assms(2) [unfolded CBS_get_asn1_implicit_string_def CBS_len_def]
    obtain st0 where i: "CBB_init malloc (length s) = (True, st0)"
      using call False by (auto split: prod.split_asm bool.split_asm)
    then obtain child t where c: "CBS_get_asn1 (outer_tag OR CBS_ASN1_CONSTRUCTED) s = (Some child, t)"
      using call False by (auto simp: rd_bind_eq_Some)
    obtain st1 where l: "implicit_chunks malloc inner_tag child st0 = (True, st1)"
      using call False i c by (auto split: prod.split_asm bool.split_asm)
    obtain r st2 where f: "CBB_finish malloc True True 0 st1 = (Some r, st2)"
      using call False i c l by (auto split: prod.split_asm option.split_asm)
    obtain data len where r: "r = (data, len)" by (cases r)
    have t: "t = rest \<and> out = handed_out r"
      using call c by (cases data) (auto simp: False i l f r CBS_init_def handed_out_def)
    note c = c [unfolded conjunct1 [OF t]] and out = conjunct2 [OF t]
    note s = get [OF c]
    have "length child < size_lim" using assms(1) by (simp add: s der_def)
    then obtain cs a' where cs: "child = concat (map (der inner_tag) cs)" "put 0 (concat cs) [(Root, [])] = Some a'" "represents st1 a'"
      using implicit_chunks_ok [OF l _ CBB_init_represents(1) [OF assms(1) i]] by auto
    have "close a' = Some (Root, handed_out r)" using CBB_finish_ok [OF cs(3) f] by blast
    moreover have "a' = [(Root, concat cs)]" using cs(2) by (simp add: root_put)
    ultimately have "out = concat cs" using out by simp
    then show ?thesis using s cs(1) by blast
  qed
qed

end

section \<open>Properties\<close>

text \<open>A SEQUENCE of indefinite length with an OCTET STRING of indefinite length in two fragments.\<close>

definition sample_ber :: bytes where
  "sample_ber = [0x30, 0x80, 0x24, 0x80, 4, 1, 0x41, 4, 1, 0x42, 0, 0, 0, 0]"

definition sample_value :: "asn1 list" where
  "sample_value = [Constructed 0x20000010 [Constructed 0x20000004 [Primitive 4 [0x41], Primitive 4 [0x42]]]]"

lemma sample_tags: "der_tag 4 = [4]" "der_tag 0x20000004 = [0x24]" "der_tag 0x20000010 = [0x30]"
  by code_simp+

lemma sample_constructed: "constructed 0x20000004" "constructed 0x20000010" "\<not> constructed 4"
  by (simp_all add: CBS_ASN1_CONSTRUCTED_def)

lemma sample_elems: "ber_elems (Suc (Suc (Suc d))) sample_value sample_ber"
proof -
  have p: "ber_elem (Suc d) (Primitive 4 [x]) [4, 1, x]" for x
    using primitive [OF sample_constructed(3), of "[x]" "[1]" d] by (simp add: sample_tags ber_len_def)
  have 1: "ber_elems (Suc d) [Primitive 4 [0x41], Primitive 4 [0x42]] [4, 1, 0x41, 4, 1, 0x42]"
    using one_more [OF p one_more [OF p none]] by simp
  have 2: "ber_elems (Suc (Suc d)) [Constructed 0x20000004 [Primitive 4 [0x41], Primitive 4 [0x42]]] [0x24, 0x80, 4, 1, 0x41, 4, 1, 0x42, 0, 0]"
    using one_more [OF indefinite [OF sample_constructed(1) 1] none] by (simp add: sample_tags)
  show ?thesis
    using one_more [OF indefinite [OF sample_constructed(2) 2] none] by (simp add: sample_tags sample_value_def sample_ber_def)
qed

lemma sample_found: "cbs_find_ber (Suc d) sample_ber = Some True"
proof -
  have "CBS_get_any_ber_asn1_element sample_ber = (Some ([0x30, 0x80], 0x20000010, 2, True), drop 2 sample_ber)" by code_simp
  then show ?thesis by (simp add: find_ber_loop.simps [of _ sample_ber] CBS_len_def) (simp add: sample_ber_def)
qed

lemma sample_to_der: "collect to_der sample_value = Some [0x30, 4, 4, 2, 0x41, 0x42]"
  by (simp add: sample_value_def sample_constructed sample_tags element_def der_def der_len_def is_string_type_def CBS_ASN1_CONSTRUCTED_def)

text \<open>
  C38.  Where the walk finds BER, a successful \<open>CBS_asn1_ber_to_der\<close> has read values in BER up to the end of its input,
  lengths in any form and constructed strings included, and its result is their DER encoding, in which there is no BER.
  These are all the values of the input: \<open>internal.h\<close> says that the function reads one BER element and advances over it,
  which is what it does where the walk finds no BER.
\<close>

theorem ber_to_der_sound:
  assumes "allocator al" "length s < size_lim" "cbs_find_ber (Suc kMaxDepth) s = Some True"
    and "CBS_asn1_ber_to_der al s = Some (Some (out, storage), rest)"
  shows "\<exists>xs. ber_elems (Suc kMaxDepth) xs s \<and> collect to_der xs = Some out \<and> rest = [] \<and>
    cbs_find_ber (Suc kMaxDepth) out = Some False"
  using allocator.ber_to_der_ok [OF assms] find_ber_der by blast

text \<open>
  C39.  It always ends; and where the walk finds BER it succeeds on every BER encoding of values nested at most \<open>kMaxDepth\<close>
  deep that have a DER encoding, given the memory for it.  One value is the documented use; of several, as in the witness,
  all are converted and taken from the input.
\<close>

theorem ber_to_der_complete:
  assumes "allocator al" "ber_elems (Suc kMaxDepth) xs s" "collect to_der xs = Some out" "cbs_find_ber (Suc kMaxDepth) s = Some True"
    and "length s + 8 < size_lim" "2 * length out + 8 < size_lim" "\<forall>k \<le> 40 + length s + 2 * length out. al k \<noteq> None"
  shows "\<exists>storage. CBS_asn1_ber_to_der al s = Some (Some (out, storage), [])"
  using allocator.ber_to_der_room [OF assms(1,5,4,2,3,6,7)] .

lemma sample_kMaxDepth: "Suc kMaxDepth = Suc (Suc (Suc 2046))"
  by (simp add: kMaxDepth_def)

lemma sample_depth: "ber_elems (Suc kMaxDepth) sample_value sample_ber"
  unfolding sample_kMaxDepth by (rule sample_elems)

text \<open>An empty SEQUENCE of indefinite length, and a NULL behind it.\<close>

lemma two_elems: "ber_elems (Suc (Suc d)) [Constructed 0x20000010 [], Primitive 5 []] [0x30, 0x80, 0, 0, 5, 0]"
proof -
  have "\<not> constructed 5" "der_tag 5 = [5]" by (simp add: CBS_ASN1_CONSTRUCTED_def) code_simp
  then have 1: "ber_elem (Suc (Suc d)) (Primitive 5 []) [5, 0]" using primitive [of 5 "[]" "[0]" "Suc d"] by (simp add: ber_len_def)
  show ?thesis using one_more [OF indefinite [OF sample_constructed(2) none] one_more [OF 1 none]] by (simp add: sample_tags)
qed

lemma two_found: "cbs_find_ber (Suc d) [0x30, 0x80, 0, 0, 5, 0] = Some True"
proof -
  have "CBS_get_any_ber_asn1_element [0x30, 0x80, 0, 0, 5, 0] = (Some ([0x30, 0x80], 0x20000010, 2, True), [0, 0, 5, 0])" by code_simp
  then show ?thesis by (simp add: find_ber_loop.simps [of _ "[0x30, 0x80, 0, 0, 5, 0]"] CBS_len_def)
qed

lemma two_depth: "ber_elems (Suc kMaxDepth) [Constructed 0x20000010 [], Primitive 5 []] [0x30, 0x80, 0, 0, 5, 0]"
  unfolding sample_kMaxDepth by (rule two_elems)

theorem ber_to_der_complete_witness:
  "\<exists>storage. CBS_asn1_ber_to_der (arena 100) [0x30, 0x80, 0, 0, 5, 0] = Some (Some ([0x30, 0, 5, 0], storage), [])"
proof (rule ber_to_der_complete [OF arena.allocator_axioms two_depth _ two_found])
  have "der_tag 5 = [5]" by code_simp
  then show "collect to_der [Constructed 0x20000010 [], Primitive 5 []] = Some [0x30, 0, 5, 0]"
    by (simp add: sample_constructed sample_tags element_def der_def der_len_def is_string_type_def CBS_ASN1_CONSTRUCTED_def)
qed (simp_all add: arena_def)

lemma sample_converted: "\<exists>storage. CBS_asn1_ber_to_der (arena 100) sample_ber = Some (Some ([0x30, 4, 4, 2, 0x41, 0x42], storage), [])"
  by (rule allocator.ber_to_der_room [OF arena.allocator_axioms _ sample_found sample_depth sample_to_der])
    (simp_all add: sample_ber_def arena_def)

theorem ber_to_der_sound_witness:
  "\<exists>xs. ber_elems (Suc kMaxDepth) xs sample_ber \<and> collect to_der xs = Some [0x30, 4, 4, 2, 0x41, 0x42] \<and>
     cbs_find_ber (Suc kMaxDepth) [0x30, 4, 4, 2, 0x41, 0x42] = Some False"
proof -
  obtain storage where "CBS_asn1_ber_to_der (arena 100) sample_ber = Some (Some ([0x30, 4, 4, 2, 0x41, 0x42], storage), [])"
    using sample_converted by blast
  from ber_to_der_sound [OF arena.allocator_axioms _ sample_found this] show ?thesis by (auto simp: sample_ber_def)
qed

text \<open>
  C40.  The walk misses BER: what it found inside an element is overwritten by the next element.  A SEQUENCE of a SEQUENCE with an
  element of indefinite length, followed by NULL, is handed out unchanged as DER, although the walk finds BER in the inner
  SEQUENCE alone and the DER parser refuses the element in it.
\<close>

theorem ber_to_der_misses:
  "CBS_asn1_ber_to_der al [0x30, 0x08, 0x30, 0x04, 0x30, 0x80, 0, 0, 0x05, 0] =
     Some (Some ([0x30, 0x08, 0x30, 0x04, 0x30, 0x80, 0, 0, 0x05, 0], None), []) \<and>
   cbs_find_ber (Suc kMaxDepth) [0x30, 0x04, 0x30, 0x80, 0, 0] = Some True \<and>
   fst (CBS_get_any_asn1_element [0x30, 0x80, 0, 0]) = None"
proof -
  let ?s = "[0x30, 0x08, 0x30, 0x04, 0x30, 0x80, 0, 0, 0x05, 0] :: bytes"
  have g: "CBS_get_any_ber_asn1_element ?s = (Some (?s, 0x20000010, 2, False), [])"
    "CBS_get_any_ber_asn1_element [0x30, 0x04, 0x30, 0x80, 0, 0, 0x05, 0] = (Some ([0x30, 0x04, 0x30, 0x80, 0, 0], 0x20000010, 2, False), [0x05, 0])"
    "CBS_get_any_ber_asn1_element [0x30, 0x04, 0x30, 0x80, 0, 0] = (Some ([0x30, 0x04, 0x30, 0x80, 0, 0], 0x20000010, 2, False), [])"
    "CBS_get_any_ber_asn1_element [0x30, 0x80, 0, 0] = (Some ([0x30, 0x80], 0x20000010, 2, True), [0, 0])"
    "CBS_get_any_ber_asn1_element [0x05, 0] = (Some ([0x05, 0], 5, 2, False), [])"
    "CBS_get_any_asn1_element ?s = (Some (?s, 0x20000010, 2), [])"
    by code_simp+
  have t: "constructed 0x20000010" "\<not> is_string_type 0x20000010" "\<not> constructed 5"
    by (simp_all add: CBS_ASN1_CONSTRUCTED_def is_string_type_def)
  note loop = find_ber_loop.simps [of _ "_ # _"] CBS_len_def CBS_skip_eq g t
  have "cbs_find_ber (Suc (Suc (Suc d))) ?s = Some False" "cbs_find_ber (Suc (Suc d)) [0x30, 0x04, 0x30, 0x80, 0, 0] = Some True" for d
    by (simp_all add: loop)
  then have "cbs_find_ber (Suc kMaxDepth) ?s = Some False" "cbs_find_ber (Suc kMaxDepth) [0x30, 0x04, 0x30, 0x80, 0, 0] = Some True"
    unfolding sample_kMaxDepth by blast+
  moreover have "fst (CBS_get_any_asn1_element [0x30, 0x80, 0, 0]) = None" by code_simp
  ultimately show ?thesis using g(6) by (simp add: CBS_asn1_ber_to_der_def del: cbs_find_ber.simps)
qed

end
