(* ===== verification/Stack.thy ===== *)
theory Stack
  imports Mem SetOf "HOL-Library.Code_Target_Numeral"
begin

text \<open>
  \<open>crypto/stack/stack.c\<close>: the growable array of pointers behind every \<open>STACK_OF\<close> of the library.  A pointer
  is an \<^typ>\<open>'a option\<close> with \<^term>\<open>None\<close> for \<open>NULL\<close>, a comparison function is its address (the code compares
  addresses in \<open>sk_set_cmp_func\<close>) and \<open>call\<close> says what the function at an address computes, as the
  \<open>call_cmp_func\<close> argument of the code does.  \<open>junk\<close> is what memory fresh from the allocator happens to hold.
  The abstract view of a stack is the list of its first \<open>num\<close> pointers.
\<close>

section \<open>Comparison functions and \<open>qsort\<close>\<close>

definition ascending :: "('a \<Rightarrow> 'a \<Rightarrow> int) \<Rightarrow> 'a list \<Rightarrow> bool" where
  "ascending c xs \<longleftrightarrow> sorted_wrt (\<lambda>x y. c x y \<le> 0) xs"

locale comparator =
  fixes c :: "'a \<Rightarrow> 'a \<Rightarrow> int"
  assumes opposite: "c x y < 0 \<longleftrightarrow> 0 < c y x"
    and le_trans: "c x y \<le> 0 \<Longrightarrow> c y z \<le> 0 \<Longrightarrow> c x z \<le> 0"
begin

lemma refl0: "c x x = 0"
  using opposite [of x x] by linarith

lemma le_or_ge: "c x y \<le> 0 \<or> c y x \<le> 0"
  using opposite [of x y] opposite [of y x] by linarith

lemma less_le_trans: "c x y < 0 \<Longrightarrow> c y z \<le> 0 \<Longrightarrow> c x z < 0"
  using le_trans [of y z x] opposite [of x y] opposite [of x z] opposite [of y x] by linarith

lemma le_less_trans: "c x y \<le> 0 \<Longrightarrow> c y z < 0 \<Longrightarrow> c x z < 0"
  using le_trans [of z x y] opposite [of y z] opposite [of x z] opposite [of z y] by linarith

lemma ascending_nth: "ascending c xs \<Longrightarrow> i \<le> j \<Longrightarrow> j < length xs \<Longrightarrow> c (xs ! i) (xs ! j) \<le> 0"
  using sorted_wrt_nth_less [of "\<lambda>x y. c x y \<le> 0" xs i j] refl0 [of "xs ! i"]
  by (cases "i = j") (auto simp: ascending_def)

end

text \<open>What \<open>qsort\<close> promises: a permutation, in ascending order when the comparison is consistent.\<close>

locale sorter =
  fixes qs :: "('a \<Rightarrow> 'a \<Rightarrow> int) \<Rightarrow> 'a list \<Rightarrow> 'a list"
  assumes permutes: "mset (qs c xs) = mset xs"
    and ordered: "comparator c \<Longrightarrow> ascending c (qs c xs)"
begin

lemma same_length: "length (qs c xs) = length xs"
  using arg_cong [OF permutes, of size c xs] by simp

lemma same_set: "set (qs c xs) = set xs"
  using arg_cong [OF permutes, of set_mset c xs] by simp

end

fun insert_by :: "('a \<Rightarrow> 'a \<Rightarrow> int) \<Rightarrow> 'a \<Rightarrow> 'a list \<Rightarrow> 'a list" where
  "insert_by c x [] = [x]"
| "insert_by c x (y # ys) = (if c x y \<le> 0 then x # y # ys else y # insert_by c x ys)"

definition qsort :: "('a \<Rightarrow> 'a \<Rightarrow> int) \<Rightarrow> 'a list \<Rightarrow> 'a list" where
  "qsort c xs = foldr (insert_by c) xs []"

lemma mset_insert_by [simp]: "mset (insert_by c x ys) = add_mset x (mset ys)"
  by (induction ys) auto

context comparator
begin

lemma insert_by_ascending: "ascending c ys \<Longrightarrow> ascending c (insert_by c x ys)"
proof (induction ys)
  case (Cons y ys)
  then show ?case
  proof (cases "c x y \<le> 0")
    case True
    with Cons.prems show ?thesis using le_trans [OF True] by (auto simp: ascending_def)
  next
    case False
    then have "c y x \<le> 0" using le_or_ge by blast
    moreover have "set (insert_by c x ys) = insert x (set ys)"
      by (simp flip: set_mset_mset)
    ultimately show ?thesis using Cons False by (auto simp: ascending_def)
  qed
qed (simp add: ascending_def)

lemma qsort_ascending: "ascending c (qsort c xs)"
  by (induction xs) (simp_all add: qsort_def insert_by_ascending, simp add: ascending_def)

end

interpretation qsort: sorter qsort
proof
  show "mset (qsort c xs) = mset xs" for c and xs :: "'a list"
    by (induction xs) (simp_all add: qsort_def)
qed (rule comparator.qsort_ascending)

lemma compare_set_of_opposite: "compare_set_of_element a b = - compare_set_of_element b a"
proof (induction a arbitrary: b)
  case Nil
  then show ?case by (simp add: compare_set_of_element_def CBS_len_def)
next
  case (Cons x a)
  show ?case
  proof (cases b)
    case (Cons y b')
    have e: "compare_set_of_element (x # a) (y # b) =
        (if x = y then compare_set_of_element a b else if x < y then -1 else 1)" for x y a b
      by (simp add: compare_set_of_element_def CBS_len_def Let_def)
    show ?thesis using Cons Cons.IH [of b'] by (auto simp: e)
  qed (simp add: compare_set_of_element_def CBS_len_def)
qed

text \<open>The comparator of SET OF elements is one of these.\<close>

interpretation set_of_order: comparator compare_set_of_element
proof
  show "compare_set_of_element x y < 0 \<longleftrightarrow> 0 < compare_set_of_element y x" for x y
    using compare_set_of_opposite [of x y] by linarith
qed (simp add: compare_lex)

section \<open>The code\<close>

type_synonym fptr = nat

record 'a stack =
  st_num :: nat
  st_data :: "'a option list"
  st_sorted :: bool
  st_num_alloc :: nat
  st_comp :: "fptr option"

definition sk_new :: "allocator \<Rightarrow> fptr option \<Rightarrow> 'a stack option" where
  "sk_new al cmp =
     (case OPENSSL_malloc al 40 of
        None \<Rightarrow> None
      | Some _ \<Rightarrow>
          (case OPENSSL_malloc al (8 * 4) of
             None \<Rightarrow> None
           | Some _ \<Rightarrow> Some \<lparr> st_num = 0, st_data = replicate 4 None, st_sorted = False, st_num_alloc = 4, st_comp = cmp \<rparr>))"

definition sk_new_null :: "allocator \<Rightarrow> 'a stack option" where
  "sk_new_null al = sk_new al None"

definition sk_num :: "'a stack option \<Rightarrow> nat" where
  "sk_num sk = (case sk of None \<Rightarrow> 0 | Some sk \<Rightarrow> st_num sk)"

definition sk_zero :: "'a stack option \<Rightarrow> 'a stack option" where
  "sk_zero sk =
     (case sk of
        None \<Rightarrow> None
      | Some sk \<Rightarrow>
          if st_num sk = 0 then Some sk
          else Some (sk \<lparr> st_data := replicate (st_num sk) None @ drop (st_num sk) (st_data sk),
                 st_num := 0, st_sorted := False \<rparr>))"

definition sk_value :: "'a stack option \<Rightarrow> nat \<Rightarrow> 'a option" where
  "sk_value sk i =
     (case sk of None \<Rightarrow> None | Some sk \<Rightarrow> if i \<ge> st_num sk then None else st_data sk ! i)"

definition sk_set :: "'a stack option \<Rightarrow> nat \<Rightarrow> 'a option \<Rightarrow> 'a option \<times> 'a stack option" where
  "sk_set sk i value =
     (case sk of
        None \<Rightarrow> (None, sk)
      | Some s \<Rightarrow> if i \<ge> st_num s then (None, sk) else (value, Some (s \<lparr> st_data := (st_data s)[i := value] \<rparr>)))"

text \<open>\<open>sk_pop_free_ex\<close>: the pointers passed to the free function, in order; the stack itself is gone.\<close>

definition sk_pop_free_ex :: "'a stack option \<Rightarrow> 'a list" where
  "sk_pop_free_ex sk =
     (case sk of None \<Rightarrow> [] | Some sk \<Rightarrow> List.map_filter id (take (st_num sk) (st_data sk)))"

definition sk_pop_free :: "'a stack option \<Rightarrow> 'a list" where
  "sk_pop_free sk = sk_pop_free_ex sk"

text \<open>Growing: the new capacity, \<open>None\<close> when doubling and incrementing both overflow.\<close>

definition sk_grow :: "nat \<Rightarrow> (nat \<times> nat) option" where
  "sk_grow num_alloc =
     (let new_alloc = size_mul num_alloc 2;
          alloc_size = size_mul new_alloc 8;
          (new_alloc, alloc_size) =
            (if new_alloc < num_alloc \<or> alloc_size div 8 \<noteq> new_alloc
             then (let n = size_add num_alloc 1 in (n, size_mul n 8))
             else (new_alloc, alloc_size))
      in if new_alloc < num_alloc \<or> alloc_size div 8 \<noteq> new_alloc then None
         else Some (new_alloc, alloc_size))"

definition sk_ensure :: "allocator \<Rightarrow> 'a option \<Rightarrow> 'a stack \<Rightarrow> 'a stack option" where
  "sk_ensure al junk sk =
     (if st_num_alloc sk \<le> size_add (st_num sk) 1 then
        (case sk_grow (st_num_alloc sk) of
           None \<Rightarrow> None
         | Some (new_alloc, alloc_size) \<Rightarrow>
             (case OPENSSL_malloc al alloc_size of
                None \<Rightarrow> None
              | Some _ \<Rightarrow>
                  Some (sk \<lparr> st_data := take new_alloc (st_data sk) @ replicate (new_alloc - length (st_data sk)) junk,
                    st_num_alloc := new_alloc \<rparr>)))
      else Some sk)"

definition sk_insert ::
  "allocator \<Rightarrow> 'a option \<Rightarrow> 'a stack option \<Rightarrow> 'a option \<Rightarrow> nat \<Rightarrow> nat \<times> 'a stack option" where
  "sk_insert al junk sk p i =
     (case sk of
        None \<Rightarrow> (0, sk)
      | Some s \<Rightarrow>
          (case sk_ensure al junk s of
             None \<Rightarrow> (0, sk)
           | Some s \<Rightarrow>
               (let data = (if i \<ge> st_num s then (st_data s)[st_num s := p]
                            else take i (st_data s) @ p # take (st_num s - i) (drop i (st_data s)) @
                                 drop (st_num s + 1) (st_data s));
                    num = size_add (st_num s) 1
                in (num, Some (s \<lparr> st_data := data, st_num := num, st_sorted := False \<rparr>)))))"

definition sk_delete :: "'a stack option \<Rightarrow> nat \<Rightarrow> 'a option \<times> 'a stack option" where
  "sk_delete sk i =
     (case sk of
        None \<Rightarrow> (None, sk)
      | Some s \<Rightarrow>
          if i \<ge> st_num s then (None, sk)
          else
            (let ret = st_data s ! i;
                 data = (if i \<noteq> st_num s - 1
                         then take i (st_data s) @ take (st_num s - i - 1) (drop (i + 1) (st_data s)) @
                              drop (st_num s - 1) (st_data s)
                         else st_data s)
             in (ret, Some (s \<lparr> st_data := data, st_num := st_num s - 1 \<rparr>))))"

text \<open>The loop \<open>for (i = 0; i < sk->num; i++) if (test) return i\<close>.\<close>

fun find_from :: "('b \<Rightarrow> bool) \<Rightarrow> nat \<Rightarrow> nat \<Rightarrow> 'b list \<Rightarrow> nat option" where
  "find_from test i 0 data = None"
| "find_from test i (Suc n) data = (if test (data ! i) then Some i else find_from test (Suc i) n data)"

definition sk_delete_ptr :: "'a stack option \<Rightarrow> 'a option \<Rightarrow> 'a option \<times> 'a stack option" where
  "sk_delete_ptr sk p =
     (case sk of
        None \<Rightarrow> (None, sk)
      | Some s \<Rightarrow>
          (case find_from (\<lambda>x. x = p) 0 (st_num s) (st_data s) of
             None \<Rightarrow> (None, sk)
           | Some i \<Rightarrow> sk_delete sk i))"

definition sk_is_sorted :: "'a stack option \<Rightarrow> bool" where
  "sk_is_sorted sk = (case sk of None \<Rightarrow> True | Some sk \<Rightarrow> st_sorted sk)"

function find_sorted :: "('b \<Rightarrow> int) \<Rightarrow> 'b list \<Rightarrow> nat \<Rightarrow> nat \<Rightarrow> nat option" where
  "find_sorted cmp data lo hi =
     (if lo < hi then
        (let mid = lo + (hi - lo - 1) div 2;
             r = cmp (data ! mid)
         in if r > 0 then find_sorted cmp data (mid + 1) hi
            else if r < 0 then find_sorted cmp data lo mid
            else if hi - lo = 1 then Some mid
            else find_sorted cmp data lo (mid + 1))
      else None)"
  by pat_completeness auto
termination
  by (relation "measure (\<lambda>(cmp, data, lo, hi). hi - lo)") auto

declare find_sorted.simps [simp del]

definition sk_find ::
  "(fptr \<Rightarrow> 'a option \<Rightarrow> 'a option \<Rightarrow> int) \<Rightarrow> 'a stack option \<Rightarrow> 'a option \<Rightarrow> nat option" where
  "sk_find call sk p =
     (case sk of
        None \<Rightarrow> None
      | Some s \<Rightarrow>
          (case st_comp s of
             None \<Rightarrow> find_from (\<lambda>x. x = p) 0 (st_num s) (st_data s)
           | Some f \<Rightarrow>
               if p = None then None
               else if \<not> sk_is_sorted sk
               then find_from (\<lambda>elem. call f p elem = 0) 0 (st_num s) (st_data s)
               else find_sorted (call f p) (st_data s) 0 (st_num s)))"

definition sk_shift :: "'a stack option \<Rightarrow> 'a option \<times> 'a stack option" where
  "sk_shift sk =
     (case sk of None \<Rightarrow> (None, sk) | Some s \<Rightarrow> if st_num s = 0 then (None, sk) else sk_delete sk 0)"

definition sk_push :: "allocator \<Rightarrow> 'a option \<Rightarrow> 'a stack option \<Rightarrow> 'a option \<Rightarrow> nat \<times> 'a stack option" where
  "sk_push al junk sk p = sk_insert al junk sk p (sk_num sk)"

definition sk_pop :: "'a stack option \<Rightarrow> 'a option \<times> 'a stack option" where
  "sk_pop sk =
     (case sk of None \<Rightarrow> (None, sk) | Some s \<Rightarrow> if st_num s = 0 then (None, sk) else sk_delete sk (st_num s - 1))"

definition sk_dup :: "allocator \<Rightarrow> 'a option \<Rightarrow> 'a stack option \<Rightarrow> 'a stack option" where
  "sk_dup al junk sk =
     (case sk of
        None \<Rightarrow> None
      | Some s \<Rightarrow>
          (case OPENSSL_malloc al 40 of
             None \<Rightarrow> None
           | Some _ \<Rightarrow>
               (case OPENSSL_malloc al (size_mul 8 (st_num_alloc s)) of
                  None \<Rightarrow> None
                | Some _ \<Rightarrow>
                    Some \<lparr> st_num = st_num s,
                      st_data = take (st_num s) (st_data s) @ replicate (st_num_alloc s - st_num s) junk,
                      st_sorted = st_sorted s, st_num_alloc = st_num_alloc s, st_comp = st_comp s \<rparr>)))"

definition sk_sort ::
  "(('a option \<Rightarrow> 'a option \<Rightarrow> int) \<Rightarrow> 'a option list \<Rightarrow> 'a option list) \<Rightarrow>
   (fptr \<Rightarrow> 'a option \<Rightarrow> 'a option \<Rightarrow> int) \<Rightarrow> 'a stack option \<Rightarrow> 'a stack option" where
  "sk_sort qs call sk =
     (case sk of
        None \<Rightarrow> None
      | Some s \<Rightarrow>
          (case st_comp s of
             None \<Rightarrow> Some s
           | Some f \<Rightarrow>
               if st_sorted s then Some s
               else
                 Some (s \<lparr> st_data := (if st_num s \<ge> 2
                         then qs (call f) (take (st_num s) (st_data s)) @ drop (st_num s) (st_data s)
                         else st_data s),
                       st_sorted := True \<rparr>)))"

definition sk_set_cmp_func :: "'a stack \<Rightarrow> fptr option \<Rightarrow> fptr option \<times> 'a stack" where
  "sk_set_cmp_func sk f =
     (st_comp sk, sk \<lparr> st_sorted := (if st_comp sk \<noteq> f then False else st_sorted sk), st_comp := f \<rparr>)"

text \<open>
  The copying loop of \<open>sk_deep_copy\<close> from index \<open>i\<close>: the data so far, the state the copy function threads,
  and the copies freed again when one of them fails.
\<close>

fun deep_copy_loop ::
  "('a \<Rightarrow> 's \<Rightarrow> 'a option \<times> 's) \<Rightarrow> nat \<Rightarrow> nat \<Rightarrow> 'a option list \<Rightarrow> 's \<Rightarrow> ('a option list option \<times> 'a list) \<times> 's" where
  "deep_copy_loop copy i 0 data s = ((Some data, []), s)"
| "deep_copy_loop copy i (Suc n) data s =
     (case data ! i of
        None \<Rightarrow> deep_copy_loop copy (Suc i) n data s
      | Some x \<Rightarrow>
          (case copy x s of
             (None, s) \<Rightarrow> ((None, List.map_filter id (take i data)), s)
           | (Some y, s) \<Rightarrow> deep_copy_loop copy (Suc i) n (data[i := Some y]) s))"

definition sk_deep_copy ::
  "allocator \<Rightarrow> 'a option \<Rightarrow> 'a stack option \<Rightarrow> ('a \<Rightarrow> 's \<Rightarrow> 'a option \<times> 's) \<Rightarrow> 's \<Rightarrow>
   ('a stack option \<times> 'a list) \<times> 's" where
  "sk_deep_copy al junk sk copy s =
     (case sk_dup al junk sk of
        None \<Rightarrow> ((None, []), s)
      | Some ret \<Rightarrow>
          (case deep_copy_loop copy 0 (st_num ret) (st_data ret) s of
             ((None, freed), s) \<Rightarrow> ((None, freed), s)
           | ((Some data, freed), s) \<Rightarrow> ((Some (ret \<lparr> st_data := data \<rparr>), freed), s)))"

section \<open>The abstract stack\<close>

text \<open>
  \<open>sk_elems\<close> is the list a stack stands for.  \<open>wf_stack\<close>: the array has the recorded capacity, there is
  always a free cell, and the byte size of the array is a \<open>size_t\<close>.  \<open>honest\<close> is what the comment on the
  \<open>sorted\<close> field of \<open>struct stack_st\<close> says.
\<close>

definition sk_elems :: "'a stack \<Rightarrow> 'a option list" where
  "sk_elems sk = take (st_num sk) (st_data sk)"

definition wf_stack :: "'a stack \<Rightarrow> bool" where
  "wf_stack sk \<longleftrightarrow> length (st_data sk) = st_num_alloc sk \<and> st_num sk < st_num_alloc sk \<and> 8 * st_num_alloc sk < size_lim"

definition honest :: "(fptr \<Rightarrow> 'a option \<Rightarrow> 'a option \<Rightarrow> int) \<Rightarrow> 'a stack \<Rightarrow> bool" where
  "honest call sk \<longleftrightarrow> (st_sorted sk \<longrightarrow> (case st_comp sk of None \<Rightarrow> True | Some f \<Rightarrow> ascending (call f) (sk_elems sk)))"

lemma length_sk_elems: "wf_stack sk \<Longrightarrow> length (sk_elems sk) = st_num sk"
  by (simp add: wf_stack_def sk_elems_def)

lemma sk_elems_nth: "i < st_num sk \<Longrightarrow> sk_elems sk ! i = st_data sk ! i"
  by (simp add: sk_elems_def)

lemma sk_new_ok: "sk_new al f = Some sk \<Longrightarrow> wf_stack sk \<and> sk_elems sk = [] \<and> honest call sk"
  by (auto simp: sk_new_def wf_stack_def sk_elems_def honest_def split: option.splits)

lemma sk_grow_Some:
  assumes "sk_grow n = Some (m, s)" "0 < n" "8 * n < size_lim"
  shows "n < m \<and> s = 8 * m \<and> 8 * m < size_lim"
proof -
  have d: "size_mul n 2 = 2 * n" "size_add n 1 = n + 1" "size_add n (Suc 0) = Suc n"
    using assms(3) by (simp_all add: size_mul_exact size_add_exact)
  have w: "m' * 8 < size_lim" if "size_mul m' 8 div 8 = m'" for m'
  proof -
    have "size_mul m' 8 < size_lim" by (simp add: size_mul_def)
    then have "8 * (size_mul m' 8 div 8) < size_lim" by linarith
    with that show ?thesis by linarith
  qed
  from assms(1) have m: "m = 2 * n \<or> m = n + 1" "size_mul m 8 div 8 = m" "s = size_mul m 8"
    by (auto simp: sk_grow_def Let_def d split: if_splits)
  then have "m * 8 < size_lim" using w by blast
  then show ?thesis using m assms(2) by (auto simp: size_mul_exact)
qed

lemma sk_ensure_ok:
  assumes w: "wf_stack sk" and e: "sk_ensure al junk sk = Some sk'"
  shows "wf_stack sk' \<and> st_num sk' + 1 < st_num_alloc sk' \<and> st_num sk' = st_num sk \<and> sk_elems sk' = sk_elems sk \<and>
    st_comp sk' = st_comp sk"
proof (cases "st_num_alloc sk \<le> st_num sk + 1")
  case False
  then show ?thesis using e w by (auto simp: sk_ensure_def wf_stack_def size_add_exact)
next
  case True
  have n: "0 < st_num_alloc sk" "8 * st_num_alloc sk < size_lim" "size_add (st_num sk) 1 = st_num sk + 1"
    using w by (auto simp: wf_stack_def size_add_exact)
  with e True obtain m s where g: "sk_grow (st_num_alloc sk) = Some (m, s)" and sk':
    "sk' = sk \<lparr> st_data := take m (st_data sk) @ replicate (m - length (st_data sk)) junk, st_num_alloc := m \<rparr>"
    by (auto simp: sk_ensure_def split: option.splits)
  from sk_grow_Some [OF g n(1,2)] w show ?thesis by (auto simp: sk' wf_stack_def sk_elems_def)
qed

lemma sk_insert_refines:
  assumes w: "wf_stack sk" and i: "sk_insert al junk (Some sk) p k = (n, Some sk')" "0 < n"
  shows "wf_stack sk' \<and> sk_elems sk' = take k (sk_elems sk) @ p # drop k (sk_elems sk) \<and> n = st_num sk + 1 \<and>
    st_comp sk' = st_comp sk \<and> \<not> st_sorted sk'"
proof -
  from i obtain s where e: "sk_ensure al junk sk = Some s" by (auto simp: sk_insert_def split: option.splits)
  note s = sk_ensure_ok [OF w e]
  then have a: "size_add (st_num s) 1 = st_num s + 1" "st_num s + 1 < length (st_data s)"
    by (auto simp: wf_stack_def size_add_exact)
  have el: "sk_elems sk = take (st_num s) (st_data s)" using s by (auto simp: sk_elems_def)
  show ?thesis
  proof (cases "k \<ge> st_num s")
    case True
    then have "take (st_num s + 1) ((st_data s)[st_num s := p]) = take (st_num s) (st_data s) @ [p]"
      using a(2) by (simp add: take_Suc_conv_app_nth)
    then show ?thesis using i e s a True el by (auto simp: sk_insert_def wf_stack_def sk_elems_def Let_def)
  next
    case False
    then have "take (Suc (st_num s) - k) (p # drop k (take (st_num s) (st_data s)) @ r) =
        p # drop k (take (st_num s) (st_data s))" for r
      using a(2) by (simp add: Suc_diff_le)
    then show ?thesis using False i e s a el
      by (auto simp: sk_insert_def wf_stack_def sk_elems_def Let_def take_drop min_def)
  qed
qed

lemma sk_insert_fails:
  assumes "wf_stack s" "sk_insert al junk (Some s) p k = (0, sk')"
  shows "sk' = Some s"
proof (cases "sk_ensure al junk s")
  case (Some t)
  with sk_ensure_ok [OF assms(1) Some] have "size_add (st_num t) 1 \<noteq> 0" by (auto simp: wf_stack_def size_add_exact)
  then show ?thesis using assms(2) Some by (auto simp: sk_insert_def Let_def)
qed (use assms in \<open>simp add: sk_insert_def\<close>)

lemma sk_delete_refines:
  assumes w: "wf_stack sk" and k: "k < st_num sk"
  shows "\<exists>sk'. sk_delete (Some sk) k = (sk_elems sk ! k, Some sk') \<and> wf_stack sk' \<and>
    sk_elems sk' = take k (sk_elems sk) @ drop (k + 1) (sk_elems sk) \<and> st_sorted sk' = st_sorted sk \<and> st_comp sk' = st_comp sk"
proof -
  have "take (st_num sk - Suc k) (drop (Suc k) (st_data sk)) = drop (Suc k) (take (st_num sk) (st_data sk))"
    by (simp add: drop_take)
  moreover have "take k (st_data sk) = take (st_num sk - Suc 0) (st_data sk)" "drop (Suc k) (take (st_num sk) (st_data sk)) = []"
    if "k = st_num sk - Suc 0" using that k by simp_all
  ultimately show ?thesis
    using w k by (cases "k = st_num sk - Suc 0") (auto simp: sk_delete_def wf_stack_def sk_elems_def Let_def min_def)
qed

lemma sk_set_refines:
  "wf_stack sk \<Longrightarrow> k < st_num sk \<Longrightarrow>
   \<exists>sk'. sk_set (Some sk) k v = (v, Some sk') \<and> wf_stack sk' \<and> sk_elems sk' = (sk_elems sk)[k := v] \<and>
     st_sorted sk' = st_sorted sk \<and> st_comp sk' = st_comp sk"
  by (simp add: sk_set_def wf_stack_def sk_elems_def take_update_swap)

lemma sk_zero_refines:
  "wf_stack sk \<Longrightarrow> \<exists>sk'. sk_zero (Some sk) = Some sk' \<and> wf_stack sk' \<and> sk_elems sk' = [] \<and> honest call sk'"
  by (auto simp: sk_zero_def wf_stack_def sk_elems_def honest_def ascending_def split: option.splits)

lemma sk_dup_refines:
  "wf_stack sk \<Longrightarrow> sk_dup al junk (Some sk) = Some sk' \<Longrightarrow>
   wf_stack sk' \<and> sk_elems sk' = sk_elems sk \<and> st_num sk' = st_num sk \<and> st_sorted sk' = st_sorted sk \<and> st_comp sk' = st_comp sk"
  by (auto simp: sk_dup_def wf_stack_def sk_elems_def split: option.splits)

lemma sk_sort_refines:
  assumes q: "sorter qs" and w: "wf_stack sk"
  shows "\<exists>sk'. sk_sort qs call (Some sk) = Some sk' \<and> wf_stack sk' \<and> mset (sk_elems sk') = mset (sk_elems sk) \<and>
    st_num sk' = st_num sk \<and> st_comp sk' = st_comp sk \<and> st_sorted sk' = (st_sorted sk \<or> st_comp sk \<noteq> None)"
    and "honest call sk \<Longrightarrow> st_comp sk = Some f \<Longrightarrow> comparator (call f) \<Longrightarrow>
      ascending (call f) (sk_elems (the (sk_sort qs call (Some sk))))"
proof -
  have l: "length (qs (call f) (take (st_num sk) (st_data sk))) = st_num sk" for f
    using w by (simp add: sorter.same_length [OF q] wf_stack_def)
  then show "\<exists>sk'. sk_sort qs call (Some sk) = Some sk' \<and> wf_stack sk' \<and> mset (sk_elems sk') = mset (sk_elems sk) \<and>
    st_num sk' = st_num sk \<and> st_comp sk' = st_comp sk \<and> st_sorted sk' = (st_sorted sk \<or> st_comp sk \<noteq> None)"
    using w by (auto simp: sk_sort_def wf_stack_def sk_elems_def sorter.permutes [OF q] split: option.splits)
  have short: "ascending c (take (st_num sk) (st_data sk))" if "\<not> 2 \<le> st_num sk" for c
  proof -
    have "st_num sk = 0 \<or> st_num sk = 1" using that by linarith
    then show ?thesis by (cases "st_data sk") (auto simp: ascending_def)
  qed
  show "ascending (call f) (sk_elems (the (sk_sort qs call (Some sk))))"
    if "honest call sk" "st_comp sk = Some f" "comparator (call f)"
    using that l [of f] short sorter.ordered [OF q that(3)]
    by (auto simp: sk_sort_def honest_def sk_elems_def)
qed

section \<open>Searching\<close>

lemma range_Suc: "(\<forall>j. i \<le> j \<and> j < i + Suc n \<longrightarrow> P j) \<longleftrightarrow> P i \<and> (\<forall>j. Suc i \<le> j \<and> j < Suc i + n \<longrightarrow> P j)"
proof -
  have e: "i \<le> j \<and> j < i + Suc n \<longleftrightarrow> j = i \<or> (Suc i \<le> j \<and> j < Suc i + n)" for j by linarith
  show ?thesis by (simp only: e imp_disjL all_conj_distrib simp_thms)
qed

lemma find_from_None: "find_from t i n data = None \<longleftrightarrow> (\<forall>j. i \<le> j \<and> j < i + n \<longrightarrow> \<not> t (data ! j))"
  by (induction n arbitrary: i) (simp_all only: find_from.simps range_Suc, auto)

lemma find_from_SomeD:
  "find_from t i n data = Some k \<Longrightarrow> i \<le> k \<and> k < i + n \<and> t (data ! k) \<and> (\<forall>j. i \<le> j \<and> j < k \<longrightarrow> \<not> t (data ! j))"
proof (induction n arbitrary: i)
  case (Suc n)
  show ?case
  proof (cases "t (data ! i)")
    case False
    then have "find_from t (Suc i) n data = Some k" using Suc.prems by simp
    from Suc.IH [OF this] have "Suc i \<le> k \<and> k < Suc i + n \<and> t (data ! k) \<and> (\<forall>j. Suc i \<le> j \<and> j < k \<longrightarrow> \<not> t (data ! j))" .
    moreover have "i \<le> j \<and> j < k \<Longrightarrow> j = i \<or> (Suc i \<le> j \<and> j < k)" for j by linarith
    ultimately show ?thesis using False by auto
  qed (use Suc.prems in auto)
qed simp

text \<open>The binary search finds what the linear search finds: the first match.\<close>

lemma find_sorted_sound:
  "find_sorted cmp data lo hi = Some i \<Longrightarrow> lo \<le> i \<and> i < hi \<and> cmp (data ! i) = 0"
proof (induction cmp data lo hi rule: find_sorted.induct)
  case (1 cmp data lo hi)
  from "1.prems" have l: "lo < hi" by (subst (asm) find_sorted.simps) (auto split: if_splits)
  define mid where "mid = lo + (hi - lo - 1) div 2"
  have mid: "lo \<le> mid" "mid < hi" using l unfolding mid_def by linarith+
  note IH = "1.IH" [OF l mid_def refl]
  have unf: "find_sorted cmp data lo hi =
    (if cmp (data ! mid) > 0 then find_sorted cmp data (mid + 1) hi
     else if cmp (data ! mid) < 0 then find_sorted cmp data lo mid
     else if hi - lo = 1 then Some mid else find_sorted cmp data lo (mid + 1))"
    using l by (subst find_sorted.simps) (simp add: mid_def Let_def)
  from "1.prems" [unfolded unf] IH mid l show ?case
    by (force split: if_splits)
qed

context comparator
begin

lemma before_first:
  assumes "ascending c (take n data)" "n \<le> length data" "k < n" "c p (data ! k) = 0"
  shows "k \<le> j \<Longrightarrow> j < n \<Longrightarrow> c p (data ! j) \<le> 0" "j < k \<Longrightarrow> c p (data ! j) \<noteq> 0 \<Longrightarrow> 0 < c p (data ! j)"
proof -
  have asc: "c (data ! i) (data ! j) \<le> 0" if "i \<le> j" "j < n" for i j
    using ascending_nth [OF assms(1) that(1)] that assms(2) by simp
  show "c p (data ! j) \<le> 0" if "k \<le> j" "j < n" using le_trans [of p "data ! k" "data ! j"] asc [OF that] assms(4) by simp
  show "0 < c p (data ! j)" if "j < k" "c p (data ! j) \<noteq> 0"
  proof -
    have "c (data ! j) (data ! k) \<le> 0" using asc that assms(3) by simp
    moreover have "c (data ! k) p \<le> 0" using opposite [of p "data ! k"] assms(4) le_or_ge [of p "data ! k"]
      by (metis linorder_not_less order_refl opposite)
    ultimately have "c (data ! j) p \<le> 0" by (rule le_trans)
    then show ?thesis using that(2) opposite [of "data ! j" p] opposite [of p "data ! j"] by linarith
  qed
qed

lemma find_sorted_complete:
  assumes asc: "ascending c (take n data)" "n \<le> length data"
    and k: "k < n" "c p (data ! k) = 0" "\<And>j. j < k \<Longrightarrow> c p (data ! j) \<noteq> 0"
  shows "lo \<le> k \<Longrightarrow> k < hi \<Longrightarrow> hi \<le> n \<Longrightarrow> find_sorted (c p) data lo hi = Some k"
proof (induction "hi - lo" arbitrary: lo hi rule: less_induct)
  case less
  have l: "lo < hi" using less.prems by simp
  define mid where "mid = lo + (hi - lo - 1) div 2"
  have mid: "lo \<le> mid" "mid < hi" "hi - lo = 1 \<Longrightarrow> mid = lo" "hi - lo \<noteq> 1 \<Longrightarrow> mid + 1 < hi"
    using l unfolding mid_def by linarith+
  have unf: "find_sorted (c p) data lo hi =
    (if c p (data ! mid) > 0 then find_sorted (c p) data (mid + 1) hi
     else if c p (data ! mid) < 0 then find_sorted (c p) data lo mid
     else if hi - lo = 1 then Some mid else find_sorted (c p) data lo (mid + 1))"
    using l by (subst find_sorted.simps) (simp add: mid_def Let_def)
  note first = before_first [OF asc k(1,2)]
  consider "c p (data ! mid) > 0" | "c p (data ! mid) < 0" | "c p (data ! mid) = 0" by linarith
  then show ?case
  proof cases
    case 1
    then have "mid < k" using first(1) [of mid] mid(2) less.prems(3) by (cases "k \<le> mid") auto
    then show ?thesis using less.hyps [of hi "mid + 1"] less.prems mid unf 1 by simp
  next
    case 2
    then have "k < mid" using first(2) [of mid] k(2) by (metis less_asym linorder_neqE_nat order_less_irrefl)
    then show ?thesis using less.hyps [of mid lo] less.prems mid unf 2 by simp
  next
    case 3
    then have "k \<le> mid" using k(3) [of mid] by (meson linorder_not_less)
    then show ?thesis using less.hyps [of "mid + 1" lo] less.prems mid unf 3 by (cases "hi - lo = 1") auto
  qed
qed

lemma find_sorted_eq:
  assumes asc: "ascending c (take n data)" "n \<le> length data"
  shows "find_sorted (c p) data 0 n = find_from (\<lambda>x. c p x = 0) 0 n data"
proof (cases "find_from (\<lambda>x. c p x = 0) 0 n data")
  case None
  then have "find_sorted (c p) data 0 n \<noteq> Some i" for i using find_sorted_sound [of "c p" data 0 n i] by (auto simp: find_from_None)
  with None show ?thesis by (metis not_None_eq)
next
  case (Some k)
  then have "k < n" "c p (data ! k) = 0" "\<And>j. j < k \<Longrightarrow> c p (data ! j) \<noteq> 0" using find_from_SomeD [OF Some] by auto
  then have "find_sorted (c p) data 0 n = Some k" by (intro find_sorted_complete [OF asc]) auto
  with Some show ?thesis by simp
qed

end

section \<open>Sequences of operations\<close>

text \<open>
  The operations of a client on one stack.  \<open>Sk_dup\<close> goes on with the duplicate; \<open>sk_deep_copy\<close>, which calls back for
  every pointer, is treated below.
\<close>

datatype 'a sk_call =
    Sk_push "'a option" | Sk_insert "'a option" nat | Sk_delete nat | Sk_delete_ptr "'a option"
  | Sk_pop | Sk_shift | Sk_set nat "'a option" | Sk_zero | Sk_value nat | Sk_num
  | Sk_find "'a option" | Sk_sort | Sk_is_sorted | Sk_set_cmp_func "fptr option" | Sk_dup

datatype 'a sk_result = Num nat | Ptr "'a option" | Done | Index "nat option" | Flag bool | Func "fptr option"

type_synonym 'a sk_calls = "fptr \<Rightarrow> 'a option \<Rightarrow> 'a option \<Rightarrow> int"
type_synonym 'a sk_qsort = "('a option \<Rightarrow> 'a option \<Rightarrow> int) \<Rightarrow> 'a option list \<Rightarrow> 'a option list"

fun sk_do :: "allocator \<Rightarrow> 'a option \<Rightarrow> 'a sk_qsort \<Rightarrow> 'a sk_calls \<Rightarrow> 'a sk_call \<Rightarrow> 'a stack option \<Rightarrow> 'a sk_result \<times> 'a stack option" where
  "sk_do al junk qs call (Sk_push p) sk = map_prod Num id (sk_push al junk sk p)"
| "sk_do al junk qs call (Sk_insert p i) sk = map_prod Num id (sk_insert al junk sk p i)"
| "sk_do al junk qs call (Sk_delete i) sk = map_prod Ptr id (sk_delete sk i)"
| "sk_do al junk qs call (Sk_delete_ptr p) sk = map_prod Ptr id (sk_delete_ptr sk p)"
| "sk_do al junk qs call Sk_pop sk = map_prod Ptr id (sk_pop sk)"
| "sk_do al junk qs call Sk_shift sk = map_prod Ptr id (sk_shift sk)"
| "sk_do al junk qs call (Sk_set i v) sk = map_prod Ptr id (sk_set sk i v)"
| "sk_do al junk qs call Sk_zero sk = (Done, sk_zero sk)"
| "sk_do al junk qs call (Sk_value i) sk = (Ptr (sk_value sk i), sk)"
| "sk_do al junk qs call Sk_num sk = (Num (sk_num sk), sk)"
| "sk_do al junk qs call (Sk_find p) sk = (Index (sk_find call sk p), sk)"
| "sk_do al junk qs call Sk_sort sk = (Done, sk_sort qs call sk)"
| "sk_do al junk qs call Sk_is_sorted sk = (Flag (sk_is_sorted sk), sk)"
| "sk_do al junk qs call (Sk_set_cmp_func f) sk =
     (case sk of None \<Rightarrow> (Func None, None) | Some s \<Rightarrow> map_prod Func Some (sk_set_cmp_func s f))"
| "sk_do al junk qs call Sk_dup sk = (case sk_dup al junk sk of None \<Rightarrow> (Flag False, sk) | Some d \<Rightarrow> (Flag True, Some d))"

fun sk_run ::
  "allocator \<Rightarrow> 'a option \<Rightarrow> 'a sk_qsort \<Rightarrow> 'a sk_calls \<Rightarrow> 'a sk_call list \<Rightarrow> 'a stack option \<Rightarrow> 'a sk_result list \<times> 'a stack option" where
  "sk_run al junk qs call [] sk = ([], sk)"
| "sk_run al junk qs call (c # cs) sk =
     (case sk_do al junk qs call c sk of (r, sk) \<Rightarrow> (case sk_run al junk qs call cs sk of (rs, sk) \<Rightarrow> (r # rs, sk)))"

text \<open>
  The same calls on a list with a comparison and a mark.  An insertion and a duplication may be refused and then do
  nothing.  What a search returns on a list that is marked and not in order, as an update can leave it, is open.
\<close>

record 'a seq =
  sq_elems :: "'a option list"
  sq_comp :: "fptr option"
  sq_marked :: bool

fun first_index :: "('b \<Rightarrow> bool) \<Rightarrow> 'b list \<Rightarrow> nat option" where
  "first_index t [] = None"
| "first_index t (x # xs) = (if t x then Some 0 else map_option Suc (first_index t xs))"

fun list_delete :: "nat \<Rightarrow> 'a seq \<Rightarrow> 'a sk_result \<times> 'a seq" where
  "list_delete i q =
     (if i < length (sq_elems q) then (Ptr (sq_elems q ! i), q \<lparr> sq_elems := take i (sq_elems q) @ drop (i + 1) (sq_elems q) \<rparr>)
      else (Ptr None, q))"

fun list_do :: "'a sk_qsort \<Rightarrow> 'a sk_calls \<Rightarrow> 'a sk_call \<Rightarrow> 'a seq \<Rightarrow> 'a sk_result \<times> 'a seq" where
  "list_do qs call (Sk_push p) q =
     (Num (length (sq_elems q) + 1), q \<lparr> sq_elems := sq_elems q @ [p], sq_marked := False \<rparr>)"
| "list_do qs call (Sk_insert p i) q =
     (Num (length (sq_elems q) + 1), q \<lparr> sq_elems := take i (sq_elems q) @ p # drop i (sq_elems q), sq_marked := False \<rparr>)"
| "list_do qs call (Sk_delete i) q = list_delete i q"
| "list_do qs call (Sk_delete_ptr p) q =
     (if p \<in> set (sq_elems q) then (Ptr p, q \<lparr> sq_elems := remove1 p (sq_elems q) \<rparr>) else (Ptr None, q))"
| "list_do qs call Sk_pop q =
     (if sq_elems q = [] then (Ptr None, q) else (Ptr (last (sq_elems q)), q \<lparr> sq_elems := butlast (sq_elems q) \<rparr>))"
| "list_do qs call Sk_shift q =
     (if sq_elems q = [] then (Ptr None, q) else (Ptr (hd (sq_elems q)), q \<lparr> sq_elems := tl (sq_elems q) \<rparr>))"
| "list_do qs call (Sk_set i v) q =
     (if i < length (sq_elems q) then (Ptr v, q \<lparr> sq_elems := (sq_elems q)[i := v] \<rparr>) else (Ptr None, q))"
| "list_do qs call Sk_zero q = (Done, if sq_elems q = [] then q else q \<lparr> sq_elems := [], sq_marked := False \<rparr>)"
| "list_do qs call (Sk_value i) q = (Ptr (if i < length (sq_elems q) then sq_elems q ! i else None), q)"
| "list_do qs call Sk_num q = (Num (length (sq_elems q)), q)"
| "list_do qs call (Sk_find p) q =
     (Index (case sq_comp q of
               None \<Rightarrow> first_index (\<lambda>x. x = p) (sq_elems q)
             | Some f \<Rightarrow> if p = None then None else first_index (\<lambda>x. call f p x = 0) (sq_elems q)), q)"
| "list_do qs call Sk_sort q =
     (Done, case sq_comp q of
              None \<Rightarrow> q
            | Some f \<Rightarrow> if sq_marked q then q else q \<lparr> sq_elems := qs (call f) (sq_elems q), sq_marked := True \<rparr>)"
| "list_do qs call Sk_is_sorted q = (Flag (sq_marked q), q)"
| "list_do qs call (Sk_set_cmp_func f) q =
     (Func (sq_comp q), q \<lparr> sq_comp := f, sq_marked := (sq_marked q \<and> f = sq_comp q) \<rparr>)"
| "list_do qs call Sk_dup q = (Flag True, q)"

fun refusal :: "'a sk_call \<Rightarrow> 'a sk_result \<Rightarrow> bool" where
  "refusal (Sk_push p) r = (r = Num 0)"
| "refusal (Sk_insert p i) r = (r = Num 0)"
| "refusal Sk_dup r = (r = Flag False)"
| "refusal _ r = False"

fun unspecified :: "'a sk_calls \<Rightarrow> 'a sk_call \<Rightarrow> 'a seq \<Rightarrow> bool" where
  "unspecified call (Sk_find p) q =
     (sq_marked q \<and> (case sq_comp q of None \<Rightarrow> False | Some f \<Rightarrow> \<not> ascending (call f) (sq_elems q)))"
| "unspecified call _ q = False"

fun list_replay :: "'a sk_qsort \<Rightarrow> 'a sk_calls \<Rightarrow> ('a sk_call \<times> 'a sk_result) list \<Rightarrow> 'a seq \<Rightarrow> 'a seq option" where
  "list_replay qs call [] q = Some q"
| "list_replay qs call ((c, r) # crs) q =
     (if refusal c r then list_replay qs call crs q
      else if r = fst (list_do qs call c q) \<or> unspecified call c q then list_replay qs call crs (snd (list_do qs call c q)) else None)"

definition seq_of :: "'a stack \<Rightarrow> 'a seq" where
  "seq_of sk = \<lparr> sq_elems = sk_elems sk, sq_comp = st_comp sk, sq_marked = st_sorted sk \<rparr>"

lemma find_from_first: "find_from t i (length xs - i) xs = map_option ((+) i) (first_index t (drop i xs))"
proof (induction "length xs - i" arbitrary: i)
  case (Suc n)
  then have i: "i < length xs" "length xs - i = Suc n" "length xs - Suc i = n" by linarith+
  have d: "drop i xs = xs ! i # drop (Suc i) xs" using i(1) by (simp add: Cons_nth_drop_Suc)
  show ?case
    using Suc.hyps(1) [of "Suc i"] i unfolding i(2) d by (cases "first_index t (drop (Suc i) xs)") simp_all
qed simp

lemma find_from_eq_first: "find_from t 0 (length xs) xs = first_index t xs"
  using find_from_first [of t 0 xs] by (cases "first_index t xs") simp_all

lemma sk_insert_step:
  assumes w: "wf_stack sk"
  shows "\<exists>n sk'. sk_insert al junk (Some sk) p k = (n, Some sk') \<and> wf_stack sk' \<and>
    (if n = 0 then sk' = sk else n = length (sk_elems sk) + 1 \<and>
      seq_of sk' = seq_of sk \<lparr> sq_elems := take k (sk_elems sk) @ p # drop k (sk_elems sk), sq_marked := False \<rparr>)"
proof -
  have "snd (sk_insert al junk (Some sk) p k) \<noteq> None"
    by (simp add: sk_insert_def Let_def split: option.splits)
  then obtain n sk' where i: "sk_insert al junk (Some sk) p k = (n, Some sk')"
    by (cases "sk_insert al junk (Some sk) p k") auto
  show ?thesis
  proof (cases "n = 0")
    case True
    then have "sk' = sk" using sk_insert_fails [OF w, of al junk p k "Some sk'"] i by simp
    with True i w show ?thesis by auto
  next
    case False
    with sk_insert_refines [OF w i] i length_sk_elems [OF w] show ?thesis by (simp add: seq_of_def)
  qed
qed

lemma find_from_eq_remove1:
  assumes "find_from (\<lambda>x. x = p) 0 (length xs) xs = Some i"
  shows "p = xs ! i" "i < length xs" "p \<in> set xs" "remove1 p xs = take i xs @ drop (Suc i) xs"
proof -
  from find_from_SomeD [OF assms] have i: "i < length xs" "xs ! i = p" "\<forall>j < i. xs ! j \<noteq> p" by auto
  then show "p = xs ! i" "i < length xs" "p \<in> set xs" by auto
  have "p \<notin> set (take i xs)" using i by (auto simp: in_set_conv_nth)
  moreover have "xs = take i xs @ p # drop (Suc i) xs" using id_take_nth_drop [OF i(1)] i(2) by simp
  ultimately show "remove1 p xs = take i xs @ drop (Suc i) xs"
    by (metis remove1.simps(2) remove1_append)
qed

lemma find_from_cong: "(\<And>j. i \<le> j \<Longrightarrow> j < i + n \<Longrightarrow> xs ! j = ys ! j) \<Longrightarrow> find_from t i n xs = find_from t i n ys"
  by (induction n arbitrary: i) simp_all

lemma sk_find_from_elems:
  "wf_stack sk \<Longrightarrow> find_from t 0 (st_num sk) (st_data sk) = find_from t 0 (length (sk_elems sk)) (sk_elems sk)"
  by (simp add: length_sk_elems) (rule find_from_cong, simp add: sk_elems_nth)

lemma sk_delete_step:
  assumes w: "wf_stack sk"
  shows "\<exists>r sk'. sk_delete (Some sk) k = (r, Some sk') \<and> wf_stack sk' \<and> (Ptr r, seq_of sk') = list_delete k (seq_of sk)"
proof (cases "k < st_num sk")
  case True
  with sk_delete_refines [OF w True] length_sk_elems [OF w] show ?thesis by (auto simp: seq_of_def)
next
  case False
  then show ?thesis using w length_sk_elems [OF w] by (simp add: sk_delete_def seq_of_def)
qed

text \<open>A search that the order of the list answers.\<close>

lemma sk_find_eq_linear:
  assumes "wf_stack sk" "honest call sk" "st_comp sk = Some f" "comparator (call f)"
  shows "sk_find call (Some sk) (Some x) =
    find_from (\<lambda>y. call f (Some x) y = 0) 0 (length (sk_elems sk)) (sk_elems sk)"
proof (cases "st_sorted sk")
  case True
  have "ascending (call f) (take (st_num sk) (st_data sk))"
    using True assms(2,3) by (simp add: honest_def sk_elems_def)
  from comparator.find_sorted_eq [OF assms(4) this, of "Some x"] True assms(1,3) show ?thesis
    by (simp add: sk_find_def sk_is_sorted_def sk_find_from_elems wf_stack_def)
next
  case False
  then show ?thesis using assms by (simp add: sk_find_def sk_is_sorted_def sk_find_from_elems)
qed

lemma sk_find_step:
  assumes w: "wf_stack sk" and c: "\<And>f. comparator (call f)" and u: "\<not> unspecified call (Sk_find p) (seq_of sk)"
  shows "Index (sk_find call (Some sk) p) = fst (list_do qs call (Sk_find p) (seq_of sk))"
proof (cases "st_comp sk")
  case None
  then show ?thesis
    by (simp add: sk_find_def seq_of_def sk_find_from_elems [OF w] find_from_eq_first)
next
  case (Some f)
  then have h: "honest call sk" using u by (auto simp: honest_def seq_of_def)
  show ?thesis
  proof (cases p)
    case (Some x)
    then show ?thesis
      using sk_find_eq_linear [OF w h \<open>st_comp sk = Some f\<close> c, of x] \<open>st_comp sk = Some f\<close>
      by (simp add: seq_of_def find_from_eq_first)
  qed (simp add: sk_find_def seq_of_def Some)
qed

lemma sorter_short: "sorter qs \<Longrightarrow> length xs < 2 \<Longrightarrow> qs c xs = xs"
  using sorter.permutes [of qs c xs] by (cases xs) auto

lemma sk_sort_step:
  assumes q: "sorter qs" and w: "wf_stack sk"
  shows "\<exists>sk'. sk_sort qs call (Some sk) = Some sk' \<and> wf_stack sk' \<and> seq_of sk' = snd (list_do qs call Sk_sort (seq_of sk))"
proof (cases "st_comp sk")
  case None
  then show ?thesis using w by (simp add: sk_sort_def seq_of_def)
next
  case (Some f)
  obtain sk' where s: "sk_sort qs call (Some sk) = Some sk'" "wf_stack sk'" using sk_sort_refines(1) [OF q w, of call] by blast
  have l: "length (qs (call f) (take (st_num sk) (st_data sk))) = st_num sk"
    using w by (simp add: sorter.same_length [OF q] wf_stack_def)
  have "qs (call f) (take (st_num sk) (st_data sk)) = take (st_num sk) (st_data sk)" if "\<not> 2 \<le> st_num sk"
    using that by (intro sorter_short [OF q]) simp
  then have "seq_of sk' = snd (list_do qs call Sk_sort (seq_of sk))"
    using s(1) Some l by (auto simp: sk_sort_def seq_of_def sk_elems_def)
  with s show ?thesis by blast
qed

lemma sk_do_step:
  assumes w: "wf_stack sk" and q: "sorter qs" and c: "\<And>f. comparator (call f)"
  shows "\<exists>r sk'. sk_do al junk qs call c (Some sk) = (r, Some sk') \<and> wf_stack sk' \<and>
    (if refusal c r then sk' = sk
     else (r = fst (list_do qs call c (seq_of sk)) \<or> unspecified call c (seq_of sk)) \<and> seq_of sk' = snd (list_do qs call c (seq_of sk)))"
proof -
  note l = length_sk_elems [OF w]
  have num: "st_num sk = length (sk_elems sk)" using l by simp
  have del: "\<exists>r sk'. sk_delete (Some sk) k = (r, Some sk') \<and> wf_stack sk' \<and>
      Ptr r = fst (list_delete k (seq_of sk)) \<and> seq_of sk' = snd (list_delete k (seq_of sk))" for k
    using sk_delete_step [OF w, of k] by (metis fst_conv snd_conv)
  have ins: "\<exists>n sk'. sk_insert al junk (Some sk) p k = (n, Some sk') \<and> wf_stack sk' \<and>
      (if n = 0 then sk' = sk else n = length (sk_elems sk) + 1 \<and>
        seq_of sk' = seq_of sk \<lparr> sq_elems := take k (sk_elems sk) @ p # drop k (sk_elems sk), sq_marked := False \<rparr>)" for p k
    by (rule sk_insert_step [OF w])
  have elems: "sq_elems (seq_of sk) = sk_elems sk" by (simp add: seq_of_def)
  show ?thesis
  proof (cases c)
    case (Sk_push p)
    obtain n sk' where "sk_insert al junk (Some sk) p (st_num sk) = (n, Some sk')" "wf_stack sk'"
      "if n = 0 then sk' = sk else n = length (sk_elems sk) + 1 \<and>
        seq_of sk' = seq_of sk \<lparr> sq_elems := take (st_num sk) (sk_elems sk) @ p # drop (st_num sk) (sk_elems sk), sq_marked := False \<rparr>"
      using ins by blast
    then show ?thesis using Sk_push l by (cases "n = 0") (auto simp: sk_push_def sk_num_def elems)
  next
    case (Sk_insert p i)
    obtain n sk' where "sk_insert al junk (Some sk) p i = (n, Some sk')" "wf_stack sk'"
      "if n = 0 then sk' = sk else n = length (sk_elems sk) + 1 \<and>
        seq_of sk' = seq_of sk \<lparr> sq_elems := take i (sk_elems sk) @ p # drop i (sk_elems sk), sq_marked := False \<rparr>"
      using ins by blast
    then show ?thesis using Sk_insert by (cases "n = 0") (auto simp: elems)
  next
    case (Sk_delete i)
    then show ?thesis using del [of i] by auto
  next
    case (Sk_delete_ptr p)
    show ?thesis
    proof (cases "find_from (\<lambda>x. x = p) 0 (st_num sk) (st_data sk)")
      case None
      then have "p \<notin> set (sk_elems sk)"
        unfolding sk_find_from_elems [OF w] by (auto simp: find_from_None in_set_conv_nth)
      then show ?thesis using Sk_delete_ptr None w by (simp add: sk_delete_ptr_def elems)
    next
      case (Some i)
      note f = find_from_eq_remove1 [OF Some [unfolded sk_find_from_elems [OF w]]]
      then show ?thesis using Sk_delete_ptr Some del [of i] by (auto simp: sk_delete_ptr_def elems)
    qed
  next
    case Sk_pop
    have "0 < st_num sk" if "sk_elems sk \<noteq> []" using that unfolding l [symmetric] by simp
    then show ?thesis
      using Sk_pop del [of "st_num sk - 1"] l w
      by (cases "sk_elems sk = []") (auto simp: sk_pop_def last_conv_nth butlast_conv_take elems)
  next
    case Sk_shift
    then show ?thesis
      using del [of 0] l w
      by (cases "sk_elems sk = []") (auto simp: sk_shift_def hd_conv_nth drop_Suc elems)
  next
    case (Sk_set i v)
    then show ?thesis using sk_set_refines [OF w, of i v] l w by (cases "i < st_num sk") (auto simp: sk_set_def seq_of_def)
  next
    case Sk_zero
    have "sk_elems sk = [] \<longleftrightarrow> st_num sk = 0" using l by auto
    then show ?thesis using Sk_zero w by (auto simp: sk_zero_def wf_stack_def seq_of_def) (simp_all add: sk_elems_def)
  next
    case (Sk_value i)
    then show ?thesis using w l by (auto simp: sk_value_def sk_elems_nth elems)
  next
    case Sk_num
    then show ?thesis using w l by (auto simp: sk_num_def elems)
  next
    case (Sk_find p)
    then show ?thesis using sk_find_step [where p = p and qs = qs and call = call, OF w c] w by auto
  next
    case Sk_sort
    then show ?thesis using sk_sort_step [OF q w, of call] by auto
  next
    case Sk_is_sorted
    then show ?thesis using w by (simp add: sk_is_sorted_def seq_of_def)
  next
    case (Sk_set_cmp_func f)
    then show ?thesis using w by (auto simp: sk_set_cmp_func_def wf_stack_def seq_of_def sk_elems_def)
  next
    case Sk_dup
    show ?thesis
    proof (cases "sk_dup al junk (Some sk)")
      case None
      then show ?thesis using Sk_dup w by simp
    next
      case (Some d)
      then show ?thesis using Sk_dup sk_dup_refines [OF w Some] by (simp add: seq_of_def)
    qed
  qed
qed

lemma sk_run_replay:
  assumes "sorter qs" "\<And>f. comparator (call f)"
  shows "wf_stack sk \<Longrightarrow> \<exists>rs sk'. sk_run al junk qs call cs (Some sk) = (rs, Some sk') \<and> wf_stack sk' \<and> length rs = length cs \<and>
    list_replay qs call (zip cs rs) (seq_of sk) = Some (seq_of sk')"
proof (induction cs arbitrary: sk)
  case (Cons c cs)
  obtain r sk1 where s: "sk_do al junk qs call c (Some sk) = (r, Some sk1)" "wf_stack sk1"
    "if refusal c r then sk1 = sk
     else (r = fst (list_do qs call c (seq_of sk)) \<or> unspecified call c (seq_of sk)) \<and> seq_of sk1 = snd (list_do qs call c (seq_of sk))"
    using sk_do_step [where al = al and junk = junk and c = c and call = call, OF Cons.prems assms] by blast
  obtain rs sk' where i: "sk_run al junk qs call cs (Some sk1) = (rs, Some sk')" "wf_stack sk'" "length rs = length cs"
    "list_replay qs call (zip cs rs) (seq_of sk1) = Some (seq_of sk')"
    using Cons.IH [OF s(2)] by blast
  have "list_replay qs call (zip (c # cs) (r # rs)) (seq_of sk) = Some (seq_of sk')"
    using s(3) i(4) by (cases "refusal c r") auto
  with s(1) i(1-3) show ?case by (intro exI [of _ "r # rs"] exI [of _ sk']) simp
qed simp

text \<open>
  C17. A stack is a list with a comparison and a mark: from \<open>sk_new\<close> on, any sequence of pushes, insertions,
  deletions, pops, shifts, updates, reads, searches, sorts, duplications and changes of the comparison returns what the
  same calls return on such a list, and leaves the same list.  An insertion or a duplication may be refused and then
  changes nothing; the result of a search is left open on a list that is marked but not in order.  The array always has
  a free cell and a size that is a \<open>size_t\<close>.
\<close>

theorem stack_refines_list:
  assumes "sorter qs" "\<And>f. comparator (call f)" "sk_new al f = Some sk"
  shows "\<exists>rs sk'. sk_run al junk qs call cs (Some sk) = (rs, Some sk') \<and> length rs = length cs \<and>
    list_replay qs call (zip cs rs) \<lparr> sq_elems = [], sq_comp = f, sq_marked = False \<rparr> = Some (seq_of sk') \<and> wf_stack sk'"
proof -
  have "seq_of sk = \<lparr> sq_elems = [], sq_comp = f, sq_marked = False \<rparr>"
    using assms(3) by (auto simp: sk_new_def seq_of_def sk_elems_def split: option.splits)
  then show ?thesis
    using sk_run_replay [of qs call sk al junk cs, OF assms(1,2)] sk_new_ok [OF assms(3)] by metis
qed

lemma find_from_iff:
  "find_from t 0 n xs = Some i \<longleftrightarrow> i < n \<and> t (xs ! i) \<and> (\<forall>j. j < i \<longrightarrow> \<not> t (xs ! j))"
proof
  assume "find_from t 0 n xs = Some i"
  from find_from_SomeD [OF this] show "i < n \<and> t (xs ! i) \<and> (\<forall>j. j < i \<longrightarrow> \<not> t (xs ! j))" by simp
next
  assume i: "i < n \<and> t (xs ! i) \<and> (\<forall>j. j < i \<longrightarrow> \<not> t (xs ! j))"
  then obtain k where k: "find_from t 0 n xs = Some k"
    by (cases "find_from t 0 n xs") (auto simp: find_from_None)
  from find_from_SomeD [OF k] i have "k = i" by (metis linorder_neqE_nat zero_le)
  with k show "find_from t 0 n xs = Some i" by simp
qed

text \<open>
  C18. With a consistent comparison, \<open>sk_find\<close> returns the index of the first pointer that compares equal,
  by binary search when the stack is marked sorted (and is) and by linear search when not.
\<close>

theorem sk_find_first:
  assumes "wf_stack sk" "honest call sk" "st_comp sk = Some f" "comparator (call f)"
  shows "sk_find call (Some sk) (Some x) = Some i \<longleftrightarrow>
    i < length (sk_elems sk) \<and> call f (Some x) (sk_elems sk ! i) = 0 \<and>
    (\<forall>j. j < i \<longrightarrow> call f (Some x) (sk_elems sk ! j) \<noteq> 0)"
  unfolding sk_find_eq_linear [OF assms] find_from_iff ..

definition int_order :: "fptr \<Rightarrow> int option \<Rightarrow> int option \<Rightarrow> int" where
  "int_order f x y = (case (x, y) of (Some a, Some b) \<Rightarrow> a - b | (None, None) \<Rightarrow> 0 | (None, _) \<Rightarrow> -1 | _ \<Rightarrow> 1)"

lemma comparator_int_order: "comparator (int_order f)"
  by unfold_locales (auto simp: int_order_def split: option.splits)

definition sample_sorted :: "int stack" where
  "sample_sorted = \<lparr> st_num = 3, st_data = [Some 2, Some 5, Some 5, None], st_sorted = True, st_num_alloc = 4, st_comp = Some 0 \<rparr>"

lemma sample_sorted_ok: "wf_stack sample_sorted" "honest int_order sample_sorted" "st_comp sample_sorted = Some 0"
  by (simp_all add: sample_sorted_def wf_stack_def honest_def sk_elems_def ascending_def int_order_def)

theorem sk_find_first_witness: "sk_find int_order (Some sample_sorted) (Some 5) = Some 1"
  by (subst sk_find_first [OF sample_sorted_ok comparator_int_order])
    (simp add: sample_sorted_def sk_elems_def int_order_def less_Suc_eq)

definition sample_stack :: "int stack" where
  "sample_stack = the (sk_new (arena 100) (Some 0))"

definition sample_sk_calls :: "int sk_call list" where
  "sample_sk_calls = [Sk_push (Some 5), Sk_insert (Some 2) 0, Sk_sort, Sk_find (Some 5), Sk_dup, Sk_delete_ptr (Some 2)]"

theorem stack_refines_list_witness:
  "\<exists>rs sk'. sk_run (arena 100) None qsort int_order sample_sk_calls (Some sample_stack) = (rs, Some sk') \<and>
    length rs = length sample_sk_calls \<and>
    list_replay qsort int_order (zip sample_sk_calls rs) \<lparr> sq_elems = [], sq_comp = Some 0, sq_marked = False \<rparr> = Some (seq_of sk') \<and>
    wf_stack sk'"
  by (rule stack_refines_list [OF qsort.sorter_axioms comparator_int_order, of "arena 100"])
    (simp add: sample_stack_def sk_new_def OPENSSL_malloc_def arena_def size_add_def)

text \<open>
  \<open>sk_sort\<close> with a consistent comparison keeps the pointers and puts them in ascending order, keeps
  the invariant, and afterwards \<open>sk_find\<close> finds a pointer exactly when one that compares equal is there.
\<close>

theorem sk_sort_then_find:
  assumes "sorter qs" "wf_stack sk" "honest call sk" "st_comp sk = Some f" "comparator (call f)"
    and "sk_sort qs call (Some sk) = Some sk'"
  shows "mset (sk_elems sk') = mset (sk_elems sk) \<and> ascending (call f) (sk_elems sk') \<and> wf_stack sk' \<and>
    (sk_find call (Some sk') (Some x) \<noteq> None \<longleftrightarrow> (\<exists>y. y \<in> set (sk_elems sk) \<and> call f (Some x) y = 0))"
proof -
  from sk_sort_refines(1) [OF assms(1,2), of call] assms(6)
  have s: "wf_stack sk'" "mset (sk_elems sk') = mset (sk_elems sk)" "st_comp sk' = st_comp sk" by auto
  have asc: "ascending (call f) (sk_elems sk')" using sk_sort_refines(2) [OF assms(1-5)] assms(6) by simp
  then have h: "honest call sk'" using s(3) assms(4) by (simp add: honest_def)
  have "sk_find call (Some sk') (Some x) \<noteq> None \<longleftrightarrow> (\<exists>y. y \<in> set (sk_elems sk') \<and> call f (Some x) y = 0)"
    unfolding sk_find_eq_linear [OF s(1) h s(3) [unfolded assms(4)] assms(5)]
    by (auto simp: find_from_None in_set_conv_nth)
  with s asc mset_eq_setD [OF s(2)] show ?thesis by simp
qed

definition sample_unsorted :: "int stack" where
  "sample_unsorted = \<lparr> st_num = 3, st_data = [Some 5, Some 2, Some 5, None], st_sorted = False, st_num_alloc = 4, st_comp = Some 0 \<rparr>"

theorem sk_sort_then_find_witness:
  "mset (sk_elems sample_sorted) = mset (sk_elems sample_unsorted) \<and> ascending (int_order 0) (sk_elems sample_sorted) \<and>
   wf_stack sample_sorted \<and> (sk_find int_order (Some sample_sorted) (Some 5) \<noteq> None \<longleftrightarrow>
     (\<exists>y. y \<in> set (sk_elems sample_unsorted) \<and> int_order 0 (Some 5) y = 0))"
proof (rule sk_sort_then_find [OF qsort.sorter_axioms _ _ _ comparator_int_order])
  show "wf_stack sample_unsorted" "honest int_order sample_unsorted" "st_comp sample_unsorted = Some 0"
    by (simp_all add: sample_unsorted_def wf_stack_def honest_def)
  show "sk_sort qsort int_order (Some sample_unsorted) = Some sample_sorted"
    by (simp add: sk_sort_def sample_unsorted_def sample_sorted_def qsort_def int_order_def eval_nat_numeral)
qed

text \<open>
  C21. \<open>sk_set\<close> does not clear the \<open>sorted\<close> flag: on a stack that is marked sorted and is, it can leave one
  that is marked sorted and is not, on which \<open>sk_find\<close> misses a pointer that is there and \<open>sk_sort\<close> does
  nothing, against the comment on the field.
\<close>

theorem sk_set_breaks_sorted:
  "\<exists>sk sk' (x :: int option). wf_stack sk \<and> honest int_order sk \<and> sk_set (Some sk) 0 x = (x, Some sk') \<and>
    \<not> honest int_order sk' \<and> sk_sort qsort int_order (Some sk') = Some sk' \<and>
    x \<in> set (sk_elems sk') \<and> sk_find int_order (Some sk') x = None"
proof (intro exI conjI)
  let ?sk' = "sample_sorted \<lparr> st_data := [Some 9, Some 5, Some 5, None] \<rparr>"
  show "wf_stack sample_sorted" "honest int_order sample_sorted" by (fact sample_sorted_ok)+
  show "sk_set (Some sample_sorted) 0 (Some 9) = (Some 9, Some ?sk')"
    by (simp add: sk_set_def sample_sorted_def)
  show "\<not> honest int_order ?sk'" "sk_sort qsort int_order (Some ?sk') = Some ?sk'" "Some 9 \<in> set (sk_elems ?sk')"
    by (simp_all add: honest_def sample_sorted_def sk_elems_def ascending_def int_order_def sk_sort_def)
  show "sk_find int_order (Some ?sk') (Some 9) = None"
    by (simp add: sk_find_def sk_is_sorted_def sample_sorted_def int_order_def find_sorted.simps)
qed

section \<open>Deep copies\<close>

text \<open>The copies \<open>copy\<close> makes of a list of pointers, until one fails, and the state it leaves.\<close>

fun copies :: "('a \<Rightarrow> 's \<Rightarrow> 'a option \<times> 's) \<Rightarrow> 'a option list \<Rightarrow> 's \<Rightarrow> ('a option list \<times> bool) \<times> 's" where
  "copies copy [] s = (([], True), s)"
| "copies copy (None # xs) s = (case copies copy xs s of ((ys, ok), s) \<Rightarrow> ((None # ys, ok), s))"
| "copies copy (Some x # xs) s =
     (case copy x s of
        (None, s) \<Rightarrow> (([], False), s)
      | (Some y, s) \<Rightarrow> (case copies copy xs s of ((ys, ok), s) \<Rightarrow> ((Some y # ys, ok), s)))"

lemma length_copies: "copies copy xs s = ((ys, True), s2) \<Longrightarrow> length ys = length xs"
  by (induction copy xs s arbitrary: ys rule: copies.induct) (auto split: prod.splits option.splits)

lemma deep_copy_loop_eq:
  "i + n \<le> length data \<Longrightarrow>
   deep_copy_loop copy i n data s =
     (case copies copy (take n (drop i data)) s of
        ((ys, True), s) \<Rightarrow> ((Some (take i data @ ys @ drop (i + n) data), []), s)
      | ((ys, False), s) \<Rightarrow> ((None, List.map_filter id (take i data @ ys)), s))"
proof (induction n arbitrary: i data s)
  case (Suc n)
  have e: "take (Suc n) (drop i data) = data ! i # take n (drop (Suc i) data)"
    using Suc.prems by (simp add: take_Suc_conv_app_nth Cons_nth_drop_Suc [symmetric])
  have t: "take (Suc i) data = take i data @ [data ! i]" using Suc.prems by (simp add: take_Suc_conv_app_nth)
  show ?case
  proof (cases "data ! i")
    case None
    have "deep_copy_loop copy (Suc i) n data s =
      (case copies copy (take n (drop (Suc i) data)) s of
        ((ys, True), s) \<Rightarrow> ((Some (take (Suc i) data @ ys @ drop (Suc i + n) data), []), s)
      | ((ys, False), s) \<Rightarrow> ((None, List.map_filter id (take (Suc i) data @ ys)), s))"
      using Suc.prems by (intro Suc.IH) simp
    then show ?thesis unfolding e t by (simp add: None split: prod.splits bool.splits)
  next
    case (Some x)
    obtain r s1 where c: "copy x s = (r, s1)" by (cases "copy x s")
    show ?thesis
    proof (cases r)
      case None
      then show ?thesis unfolding e by (simp add: Some c)
    next
      case (Some y)
      have u: "take (Suc i) (data[i := Some y]) = take i data @ [Some y]"
        using Suc.prems by (simp add: take_Suc_conv_app_nth)
      have "deep_copy_loop copy (Suc i) n (data[i := Some y]) s1 =
        (case copies copy (take n (drop (Suc i) (data[i := Some y]))) s1 of
          ((ys, True), s) \<Rightarrow> ((Some (take (Suc i) (data[i := Some y]) @ ys @ drop (Suc i + n) (data[i := Some y])), []), s)
        | ((ys, False), s) \<Rightarrow> ((None, List.map_filter id (take (Suc i) (data[i := Some y]) @ ys)), s))"
        using Suc.prems by (intro Suc.IH) simp
      then show ?thesis unfolding e u using \<open>data ! i = Some x\<close> c Some by (simp split: prod.splits bool.splits)
    qed
  qed
qed simp

text \<open>
  C19. \<open>sk_deep_copy\<close> is all or nothing: it returns a stack of copies, one per pointer in order with \<open>NULL\<close>
  kept, or no stack and then has freed exactly the copies it had made, in order.
\<close>

theorem deep_copy_all_or_nothing:
  assumes "wf_stack sk" "sk_deep_copy al junk (Some sk) copy s = ((ret, freed), s')"
    and "copies copy (sk_elems sk) s = ((ys, ok), s2)"
  shows "(case ret of
      Some sk' \<Rightarrow> ok \<and> sk_elems sk' = ys \<and> freed = [] \<and> s' = s2 \<and> wf_stack sk' \<and> st_comp sk' = st_comp sk
    | None \<Rightarrow> sk_dup al junk (Some sk) = None \<and> freed = [] \<and> s' = s \<or>
        \<not> ok \<and> freed = List.map_filter id ys \<and> s' = s2)"
proof (cases "sk_dup al junk (Some sk)")
  case None
  then show ?thesis using assms by (auto simp: sk_deep_copy_def)
next
  case (Some d)
  note d = sk_dup_refines [OF assms(1) Some]
  then have l: "0 + st_num d \<le> length (st_data d)" "take (st_num d) (st_data d) = sk_elems sk"
    by (auto simp: wf_stack_def sk_elems_def)
  have "length ys = length (sk_elems sk)" if "copies copy (sk_elems sk) s = ((ys, True), s2)"
    using that by (rule length_copies)
  with assms(2,3) Some d l show ?thesis
    using deep_copy_loop_eq [OF l(1), of copy s] length_sk_elems [OF assms(1)]
    by (auto simp: sk_deep_copy_def wf_stack_def sk_elems_def split: bool.splits prod.splits)
qed

definition sample_copy :: "nat \<Rightarrow> nat \<Rightarrow> nat option \<times> nat" where
  "sample_copy x budget = (if budget = 0 then (None, 0) else (Some (x + 100), budget - 1))"

definition sample_three :: "nat stack" where
  "sample_three = \<lparr> st_num = 3, st_data = [Some 1, None, Some 3, None], st_sorted = False, st_num_alloc = 4, st_comp = None \<rparr>"

theorem deep_copy_all_or_nothing_witness:
  "(case None of
      Some sk' \<Rightarrow> False \<and> sk_elems sk' = [Some (101 :: nat), None] \<and> [101 :: nat] = [] \<and> 0 = (0 :: nat) \<and> wf_stack sk' \<and> st_comp sk' = st_comp sample_three
    | None \<Rightarrow> sk_dup (arena 100) None (Some sample_three) = None \<and> [101 :: nat] = [] \<and> 0 = (1 :: nat) \<or>
        \<not> False \<and> [101] = List.map_filter id [Some 101, None :: nat option] \<and> 0 = (0 :: nat))"
proof (rule deep_copy_all_or_nothing)
  show "wf_stack sample_three" by (simp add: sample_three_def wf_stack_def)
  show "sk_deep_copy (arena 100) None (Some sample_three) sample_copy 1 = ((None, [101]), 0)" by code_simp
  show "copies sample_copy (sk_elems sample_three) 1 = (([Some 101, None], False), 0)" by code_simp
qed

end
