(* ===== verification/Lhash.thy ===== *)
theory Lhash
  imports Mem "HOL-Library.Multiset" "HOL-Library.Code_Target_Numeral"
begin

text \<open>
  \<open>crypto/lhash/lhash.c\<close>: the chained hash table under the object table, configuration files and buffer
  pools.  A chain of \<open>LHASH_ITEM\<close>s is a list; a pointer to a \<open>next\<close> field is a bucket and a position in
  its chain (the length of the chain when the field holds \<open>NULL\<close>).  The hash and comparison functions are
  addresses, and \<open>hf\<close> and \<open>cf\<close> say what the functions compute, as the \<open>call_hash_func\<close> and
  \<open>call_cmp_func\<close> arguments of the code do.
\<close>

section \<open>The code\<close>

record 'a lhash_item =
  li_data :: 'a
  li_hash :: u32

record 'a lhash =
  lh_num_items :: nat
  lh_buckets :: "'a lhash_item list list"
  lh_num_buckets :: nat
  lh_callback_depth :: u32
  lh_comp :: nat
  lh_hash :: nat

definition OPENSSL_lh_new :: "allocator \<Rightarrow> nat \<Rightarrow> nat \<Rightarrow> 'a lhash option" where
  "OPENSSL_lh_new al h c =
     (case OPENSSL_malloc al 48 of
        None \<Rightarrow> None
      | Some _ \<Rightarrow>
          (case OPENSSL_malloc al (8 * 16) of
             None \<Rightarrow> None
           | Some _ \<Rightarrow> Some \<lparr> lh_num_items = 0, lh_buckets = replicate 16 [], lh_num_buckets = 16,
               lh_callback_depth = 0, lh_comp = c, lh_hash = h \<rparr>))"

definition OPENSSL_lh_num_items :: "'a lhash \<Rightarrow> nat" where
  "OPENSSL_lh_num_items lh = lh_num_items lh"

text \<open>The position of the first item of a chain that passes the test; the length of the chain if none does.\<close>

fun chain_pos :: "('a \<Rightarrow> bool) \<Rightarrow> 'a lhash_item list \<Rightarrow> nat" where
  "chain_pos test [] = 0"
| "chain_pos test (cur # chain) = (if test (li_data cur) then 0 else Suc (chain_pos test chain))"

definition get_next_ptr_and_hash ::
  "(nat \<Rightarrow> 'a \<Rightarrow> u32) \<Rightarrow> (nat \<Rightarrow> 'a \<Rightarrow> 'a \<Rightarrow> int) \<Rightarrow> 'a lhash \<Rightarrow> 'a \<Rightarrow> u32 \<times> nat \<times> nat" where
  "get_next_ptr_and_hash hf cf lh data =
     (let hash = hf (lh_hash lh) data;
          b = unat hash mod lh_num_buckets lh
      in (hash, b, chain_pos (\<lambda>d. cf (lh_comp lh) d data = 0) (lh_buckets lh ! b)))"

definition get_next_ptr_by_key :: "('k \<Rightarrow> 'a \<Rightarrow> int) \<Rightarrow> 'a lhash \<Rightarrow> 'k \<Rightarrow> u32 \<Rightarrow> nat \<times> nat" where
  "get_next_ptr_by_key cmp_key lh key key_hash =
     (let b = unat key_hash mod lh_num_buckets lh
      in (b, chain_pos (\<lambda>d. cmp_key key d = 0) (lh_buckets lh ! b)))"

definition item_at :: "'a lhash \<Rightarrow> nat \<times> nat \<Rightarrow> 'a lhash_item option" where
  "item_at lh ptr =
     (case ptr of (b, k) \<Rightarrow> if k < length (lh_buckets lh ! b) then Some (lh_buckets lh ! b ! k) else None)"

definition OPENSSL_lh_retrieve ::
  "(nat \<Rightarrow> 'a \<Rightarrow> u32) \<Rightarrow> (nat \<Rightarrow> 'a \<Rightarrow> 'a \<Rightarrow> int) \<Rightarrow> 'a lhash \<Rightarrow> 'a \<Rightarrow> 'a option" where
  "OPENSSL_lh_retrieve hf cf lh data =
     (case get_next_ptr_and_hash hf cf lh data of (_, next_ptr) \<Rightarrow> map_option li_data (item_at lh next_ptr))"

definition OPENSSL_lh_retrieve_key :: "('k \<Rightarrow> 'a \<Rightarrow> int) \<Rightarrow> 'a lhash \<Rightarrow> 'k \<Rightarrow> u32 \<Rightarrow> 'a option" where
  "OPENSSL_lh_retrieve_key cmp_key lh key key_hash =
     map_option li_data (item_at lh (get_next_ptr_by_key cmp_key lh key key_hash))"

definition rebucket_item :: "nat \<Rightarrow> 'a lhash_item \<Rightarrow> 'a lhash_item list list \<Rightarrow> 'a lhash_item list list" where
  "rebucket_item n cur new_buckets =
     (let new_bucket = unat (li_hash cur) mod n
      in new_buckets[new_bucket := cur # new_buckets ! new_bucket])"

definition lh_rebucket :: "allocator \<Rightarrow> 'a lhash \<Rightarrow> nat \<Rightarrow> 'a lhash" where
  "lh_rebucket al lh new_num_buckets =
     (let alloc_size = size_mul 8 new_num_buckets in
      if alloc_size div 8 \<noteq> new_num_buckets then lh
      else if OPENSSL_malloc al alloc_size = None then lh
      else lh \<lparr> lh_num_buckets := new_num_buckets,
                lh_buckets := fold (fold (rebucket_item new_num_buckets)) (lh_buckets lh) (replicate new_num_buckets []) \<rparr>)"

definition lh_maybe_resize :: "allocator \<Rightarrow> 'a lhash \<Rightarrow> 'a lhash" where
  "lh_maybe_resize al lh =
     (if lh_callback_depth lh > 0 then lh
      else
        let avg_chain_length = lh_num_items lh div lh_num_buckets lh in
        if avg_chain_length > 2 then
          (let new_num_buckets = size_mul (lh_num_buckets lh) 2
           in if new_num_buckets > lh_num_buckets lh then lh_rebucket al lh new_num_buckets else lh)
        else if avg_chain_length < 1 \<and> lh_num_buckets lh > 16 then
          (let new_num_buckets = lh_num_buckets lh div 2;
               new_num_buckets = (if new_num_buckets < 16 then 16 else new_num_buckets)
           in lh_rebucket al lh new_num_buckets)
        else lh)"

text \<open>The result, \<open>*old_data\<close>, and the table.\<close>

definition OPENSSL_lh_insert ::
  "(nat \<Rightarrow> 'a \<Rightarrow> u32) \<Rightarrow> (nat \<Rightarrow> 'a \<Rightarrow> 'a \<Rightarrow> int) \<Rightarrow> allocator \<Rightarrow> 'a \<Rightarrow> 'a lhash \<Rightarrow> (bool \<times> 'a option) \<times> 'a lhash" where
  "OPENSSL_lh_insert hf cf al data lh =
     (case get_next_ptr_and_hash hf cf lh data of
        (hash, b, k) \<Rightarrow>
          (case item_at lh (b, k) of
             Some item \<Rightarrow>
               ((True, Some (li_data item)),
                lh \<lparr> lh_buckets := (lh_buckets lh)[b := (lh_buckets lh ! b)[k := item \<lparr> li_data := data \<rparr>]] \<rparr>)
           | None \<Rightarrow>
               (case OPENSSL_malloc al 24 of
                  None \<Rightarrow> ((False, None), lh)
                | Some _ \<Rightarrow>
                    ((True, None),
                     lh_maybe_resize al
                       (lh \<lparr> lh_buckets := (lh_buckets lh)[b := lh_buckets lh ! b @ [\<lparr> li_data = data, li_hash = hash \<rparr>]],
                             lh_num_items := size_add (lh_num_items lh) 1 \<rparr>)))))"

definition OPENSSL_lh_delete ::
  "(nat \<Rightarrow> 'a \<Rightarrow> u32) \<Rightarrow> (nat \<Rightarrow> 'a \<Rightarrow> 'a \<Rightarrow> int) \<Rightarrow> allocator \<Rightarrow> 'a \<Rightarrow> 'a lhash \<Rightarrow> 'a option \<times> 'a lhash" where
  "OPENSSL_lh_delete hf cf al data lh =
     (case get_next_ptr_and_hash hf cf lh data of
        (_, b, k) \<Rightarrow>
          (case item_at lh (b, k) of
             None \<Rightarrow> (None, lh)
           | Some item \<Rightarrow>
               (Some (li_data item),
                lh_maybe_resize al
                  (lh \<lparr> lh_buckets := (lh_buckets lh)[b := take k (lh_buckets lh ! b) @ drop (k + 1) (lh_buckets lh ! b)],
                        lh_num_items := size_add (lh_num_items lh) (size_lim - 1) \<rparr>))))"

text \<open>\<open>OPENSSL_lh_doall_arg\<close> with a callback that works on its argument and leaves the table alone.\<close>

definition OPENSSL_lh_doall_arg :: "allocator \<Rightarrow> ('a \<Rightarrow> 's \<Rightarrow> 's) \<Rightarrow> 'a lhash option \<Rightarrow> 's \<Rightarrow> 's \<times> 'a lhash option" where
  "OPENSSL_lh_doall_arg al func lh arg =
     (case lh of
        None \<Rightarrow> (arg, None)
      | Some lh \<Rightarrow>
          (let lh = (if lh_callback_depth lh < - 1 then lh \<lparr> lh_callback_depth := lh_callback_depth lh + 1 \<rparr> else lh);
               arg = fold (fold (\<lambda>cur. func (li_data cur))) (lh_buckets lh) arg;
               lh = (if lh_callback_depth lh < - 1 then lh \<lparr> lh_callback_depth := lh_callback_depth lh - 1 \<rparr> else lh)
           in (arg, Some (lh_maybe_resize al lh))))"

text \<open>\<open>OPENSSL_lh_free\<close>: the items freed, bucket by bucket.\<close>

definition OPENSSL_lh_free :: "'a lhash option \<Rightarrow> 'a lhash_item list" where
  "OPENSSL_lh_free lh = (case lh of None \<Rightarrow> [] | Some lh \<Rightarrow> concat (lh_buckets lh))"

section \<open>The invariant\<close>

definition lh_items :: "'a lhash \<Rightarrow> 'a lhash_item multiset" where
  "lh_items lh = mset (concat (lh_buckets lh))"

definition lh_contents :: "'a lhash \<Rightarrow> 'a multiset" where
  "lh_contents lh = image_mset li_data (lh_items lh)"

text \<open>
  Every item sits in the bucket its cached hash names, the hash is that of its data, no two items compare
  equal, \<open>num_items\<close> counts the items (as a \<open>size_t\<close>), and there are at least \<open>kMinNumBuckets\<close> buckets.
\<close>

definition placed :: "('a lhash_item \<Rightarrow> bool) \<Rightarrow> 'a lhash_item list list \<Rightarrow> bool" where
  "placed ok bs \<longleftrightarrow> (\<forall>b < length bs. \<forall>it \<in> set (bs ! b). ok it \<and> unat (li_hash it) mod length bs = b)"

definition one_each :: "('a \<Rightarrow> 'a \<Rightarrow> int) \<Rightarrow> 'a multiset \<Rightarrow> bool" where
  "one_each c M \<longleftrightarrow> (\<forall>d \<in># M. size (filter_mset (\<lambda>y. c y d = 0) M) \<le> 1)"

definition wf_lhash :: "(nat \<Rightarrow> 'a \<Rightarrow> u32) \<Rightarrow> (nat \<Rightarrow> 'a \<Rightarrow> 'a \<Rightarrow> int) \<Rightarrow> 'a lhash \<Rightarrow> bool" where
  "wf_lhash hf cf lh \<longleftrightarrow>
     length (lh_buckets lh) = lh_num_buckets lh \<and> 16 \<le> lh_num_buckets lh \<and> lh_num_buckets lh < size_lim \<and>
     lh_num_items lh = size (lh_items lh) mod size_lim \<and>
     placed (\<lambda>it. li_hash it = hf (lh_hash lh) (li_data it)) (lh_buckets lh) \<and>
     one_each (cf (lh_comp lh)) (lh_contents lh)"

lemma mset_concat_update:
  "b < length bs \<Longrightarrow> mset (concat (bs[b := c])) + mset (bs ! b) = mset (concat bs) + mset c"
proof (induction bs arbitrary: b)
  case (Cons x bs)
  show ?case
  proof (cases b)
    case (Suc b')
    then have "mset (concat (bs[b' := c])) + mset (bs ! b') = mset (concat bs) + mset c"
      using Cons by simp
    then show ?thesis using Suc by (simp add: union_assoc)
  qed (simp add: ac_simps)
qed simp

lemma placed_update:
  "placed ok bs \<Longrightarrow> b < length bs \<Longrightarrow> (\<And>it. it \<in> set c \<Longrightarrow> ok it \<and> unat (li_hash it) mod length bs = b) \<Longrightarrow>
   placed ok (bs[b := c])"
  unfolding placed_def by (metis length_list_update nth_list_update)

text \<open>Rebucketing keeps the items and puts each where it belongs.\<close>

lemma rebucket_items:
  "placed ok bs \<Longrightarrow> length bs = n \<Longrightarrow> 0 < n \<Longrightarrow> (\<And>it. it \<in> set its \<Longrightarrow> ok it) \<Longrightarrow>
   placed ok (fold (rebucket_item n) its bs) \<and> length (fold (rebucket_item n) its bs) = n \<and>
   mset (concat (fold (rebucket_item n) its bs)) = mset its + mset (concat bs)"
proof (induction its arbitrary: bs)
  case (Cons it its)
  let ?b = "unat (li_hash it) mod n"
  have b: "?b < length bs" using Cons.prems by simp
  have "placed ok (rebucket_item n it bs)"
    unfolding rebucket_item_def Let_def using Cons.prems b
    by (intro placed_update) (auto simp: placed_def)
  moreover have "length (rebucket_item n it bs) = n" using Cons.prems by (simp add: rebucket_item_def Let_def)
  moreover have "mset (concat (rebucket_item n it bs)) = add_mset it (mset (concat bs))"
    using mset_concat_update [OF b, of "it # bs ! ?b"] by (simp add: rebucket_item_def Let_def)
  ultimately show ?case using Cons.IH [of "rebucket_item n it bs"] Cons.prems by simp
qed simp

lemma fold_fold_concat: "fold (fold f) xss s = fold f (concat xss) s"
  by (induction xss arbitrary: s) auto

lemma placed_items: "placed ok bs \<Longrightarrow> it \<in> set (concat bs) \<Longrightarrow> ok it"
  by (auto simp: placed_def in_set_conv_nth [of _ bs])

lemma lh_rebucket_wf:
  assumes w: "wf_lhash hf cf lh" and n: "16 \<le> n" "n < size_lim"
  shows "wf_lhash hf cf (lh_rebucket al lh n)" "lh_items (lh_rebucket al lh n) = lh_items lh"
    "lh_hash (lh_rebucket al lh n) = lh_hash lh" "lh_comp (lh_rebucket al lh n) = lh_comp lh"
    "lh_callback_depth (lh_rebucket al lh n) = lh_callback_depth lh"
proof -
  let ?ok = "\<lambda>it. li_hash it = hf (lh_hash lh) (li_data it)"
  have "placed ?ok (replicate n [])" by (simp add: placed_def)
  from rebucket_items [OF this, of n "concat (lh_buckets lh)"] n
    placed_items [of ?ok "lh_buckets lh"] w
  have r: "placed ?ok (fold (fold (rebucket_item n)) (lh_buckets lh) (replicate n []))"
    "length (fold (fold (rebucket_item n)) (lh_buckets lh) (replicate n [])) = n"
    "mset (concat (fold (fold (rebucket_item n)) (lh_buckets lh) (replicate n []))) = lh_items lh"
    unfolding fold_fold_concat by (simp_all add: wf_lhash_def lh_items_def)
  have "length (concat (fold (fold (rebucket_item n)) (lh_buckets lh) (replicate n []))) = length (concat (lh_buckets lh))"
    using arg_cong [OF r(3), of size] by (simp only: size_mset lh_items_def)
  with r show "wf_lhash hf cf (lh_rebucket al lh n)" "lh_items (lh_rebucket al lh n) = lh_items lh"
    using w n by (simp_all add: lh_rebucket_def Let_def wf_lhash_def lh_items_def lh_contents_def)
qed (simp_all add: lh_rebucket_def Let_def)

lemma lh_maybe_resize_cases:
  assumes "16 \<le> lh_num_buckets lh" "lh_num_buckets lh < size_lim"
  obtains "lh_maybe_resize al lh = lh"
  | n where "lh_maybe_resize al lh = lh_rebucket al lh n" "16 \<le> n" "n < size_lim"
proof -
  let ?half = "if lh_num_buckets lh div 2 < 16 then 16 else lh_num_buckets lh div 2"
  have m: "size_mul (lh_num_buckets lh) 2 < size_lim" by (simp add: size_mul_def)
  have h: "16 \<le> ?half" "?half < size_lim" using assms by auto
  have "lh_maybe_resize al lh = lh \<or>
    (lh_maybe_resize al lh = lh_rebucket al lh (size_mul (lh_num_buckets lh) 2) \<and> lh_num_buckets lh < size_mul (lh_num_buckets lh) 2) \<or>
    lh_maybe_resize al lh = lh_rebucket al lh ?half"
    unfolding lh_maybe_resize_def Let_def
    by (cases "lh_callback_depth lh > 0"; cases "lh_num_items lh div lh_num_buckets lh > 2"; simp del: div_eq_0_iff)
  then show ?thesis
  proof (elim disjE conjE)
    assume "lh_maybe_resize al lh = lh_rebucket al lh (size_mul (lh_num_buckets lh) 2)" "lh_num_buckets lh < size_mul (lh_num_buckets lh) 2"
    with that(2) m assms(1) show ?thesis by force
  qed (use that h in blast)+
qed

lemma lh_maybe_resize_wf:
  assumes w: "wf_lhash hf cf lh"
  shows "wf_lhash hf cf (lh_maybe_resize al lh)" "lh_items (lh_maybe_resize al lh) = lh_items lh"
    "lh_hash (lh_maybe_resize al lh) = lh_hash lh" "lh_comp (lh_maybe_resize al lh) = lh_comp lh"
    "lh_callback_depth (lh_maybe_resize al lh) = lh_callback_depth lh"
proof -
  from w have b: "16 \<le> lh_num_buckets lh" "lh_num_buckets lh < size_lim" by (simp_all add: wf_lhash_def)
  show "wf_lhash hf cf (lh_maybe_resize al lh)" "lh_items (lh_maybe_resize al lh) = lh_items lh"
    "lh_hash (lh_maybe_resize al lh) = lh_hash lh" "lh_comp (lh_maybe_resize al lh) = lh_comp lh"
    "lh_callback_depth (lh_maybe_resize al lh) = lh_callback_depth lh"
    by (rule lh_maybe_resize_cases [OF b, of al]; simp add: w lh_rebucket_wf [OF w])+
qed

section \<open>Looking up\<close>

lemma option_eq_by_Some: "x = y \<longleftrightarrow> (\<forall>v. x = Some v \<longleftrightarrow> y = Some v)"
  by (cases x; cases y) auto

locale hash_functions =
  fixes hash :: "'a \<Rightarrow> u32" and cmp :: "'a \<Rightarrow> 'a \<Rightarrow> int"
  assumes cmp_refl: "cmp a a = 0"
    and cmp_sym: "cmp a b = 0 \<Longrightarrow> cmp b a = 0"
    and cmp_trans: "cmp a b = 0 \<Longrightarrow> cmp b c = 0 \<Longrightarrow> cmp a c = 0"
    and hash_cong: "cmp a b = 0 \<Longrightarrow> hash a = hash b"

lemma chain_pos_less: "chain_pos t c < length c \<Longrightarrow> t (li_data (c ! chain_pos t c))"
  by (induction c) auto

lemma chain_pos_end: "\<not> chain_pos t c < length c \<longleftrightarrow> (\<forall>it \<in> set c. \<not> t (li_data it))"
  by (induction c) auto

context hash_functions
begin

lemma chain_item:
  assumes w: "wf_lhash hf cf lh" and f: "hf (lh_hash lh) = hash" "cf (lh_comp lh) = cmp"
    and g: "get_next_ptr_and_hash hf cf lh d = (h, b, k)"
  shows "h = hash d" "b < length (lh_buckets lh)" "unat (hash d) mod lh_num_buckets lh = b"
    "item_at lh (b, k) = Some it \<Longrightarrow> k < length (lh_buckets lh ! b) \<and> lh_buckets lh ! b ! k = it \<and> it \<in># lh_items lh \<and> cmp (li_data it) d = 0"
    "item_at lh (b, k) = None \<Longrightarrow> \<forall>x \<in># lh_contents lh. cmp x d \<noteq> 0"
proof -
  have g': "h = hash d" "b = unat (hash d) mod lh_num_buckets lh"
    "k = chain_pos (\<lambda>x. cmp x d = 0) (lh_buckets lh ! b)"
    using g by (auto simp: get_next_ptr_and_hash_def Let_def f)
  then show "h = hash d" and b: "b < length (lh_buckets lh)" and "unat (hash d) mod lh_num_buckets lh = b"
    using w by (auto simp: wf_lhash_def)
  show "k < length (lh_buckets lh ! b) \<and> lh_buckets lh ! b ! k = it \<and> it \<in># lh_items lh \<and> cmp (li_data it) d = 0"
    if "item_at lh (b, k) = Some it"
  proof -
    from that have k: "k < length (lh_buckets lh ! b)" "lh_buckets lh ! b ! k = it" by (auto simp: item_at_def split: if_splits)
    then have "cmp (li_data it) d = 0" using g'(3) chain_pos_less [of "\<lambda>x. cmp x d = 0" "lh_buckets lh ! b"] by auto
    moreover have "it \<in> set (concat (lh_buckets lh))" using nth_mem [OF b] nth_mem [OF k(1)] k(2) by auto
    ultimately show ?thesis using k by (simp add: lh_items_def)
  qed
  show "\<forall>x \<in># lh_contents lh. cmp x d \<noteq> 0" if "item_at lh (b, k) = None"
  proof (intro ballI notI)
    fix x assume x: "x \<in># lh_contents lh" "cmp x d = 0"
    then obtain it j where it: "li_data it = x" "it \<in> set (lh_buckets lh ! j)" "j < length (lh_buckets lh)"
      by (auto simp: lh_contents_def lh_items_def in_set_conv_nth [of _ "lh_buckets lh"])
    have "placed (\<lambda>it. li_hash it = hash (li_data it)) (lh_buckets lh)" "length (lh_buckets lh) = lh_num_buckets lh"
      using w by (simp_all add: wf_lhash_def f)
    then have "li_hash it = hash (li_data it) \<and> unat (li_hash it) mod length (lh_buckets lh) = j"
      using it(2,3) unfolding placed_def by blast
    with it(1) \<open>length (lh_buckets lh) = lh_num_buckets lh\<close>
    have "li_hash it = hash x" "unat (li_hash it) mod lh_num_buckets lh = j" by auto
    then have "j = b" using hash_cong [OF x(2)] g'(2) by simp
    moreover have "\<forall>it \<in> set (lh_buckets lh ! b). cmp (li_data it) d \<noteq> 0"
      using that g'(3) unfolding chain_pos_end [of "\<lambda>x. cmp x d = 0", symmetric]
      by (auto simp: item_at_def split: if_splits)
    ultimately show False using it x(2) by auto
  qed
qed

lemma one_each_unique:
  assumes "one_each cmp M" "x \<in># M" "y \<in># M" "cmp x d = 0" "cmp y d = 0"
  shows "x = y"
proof (rule ccontr)
  assume ne: "x \<noteq> y"
  obtain N where N: "M = add_mset x N" using assms(2) by (rule mset_add)
  with assms(3) ne have "y \<in># N" by simp
  then obtain N' where N': "N = add_mset y N'" by (rule mset_add)
  have "cmp y x = 0" using cmp_trans [OF assms(5) cmp_sym [OF assms(4)]] .
  then have "2 \<le> size (filter_mset (\<lambda>z. cmp z x = 0) M)" by (simp add: N N' cmp_refl)
  moreover have "size (filter_mset (\<lambda>z. cmp z x = 0) M) \<le> 1" using assms(1,2) by (auto simp: one_each_def)
  ultimately show False by simp
qed

lemma retrieve_iff:
  assumes w: "wf_lhash hf cf lh" and f: "hf (lh_hash lh) = hash" "cf (lh_comp lh) = cmp"
  shows "OPENSSL_lh_retrieve hf cf lh d = Some x \<longleftrightarrow> x \<in># lh_contents lh \<and> cmp x d = 0"
proof -
  obtain h b k where g: "get_next_ptr_and_hash hf cf lh d = (h, b, k)" by (cases "get_next_ptr_and_hash hf cf lh d") auto
  note c = chain_item [OF w f g]
  have one: "one_each cmp (lh_contents lh)" using w by (simp add: wf_lhash_def f)
  show ?thesis
  proof (cases "item_at lh (b, k)")
    case None
    then show ?thesis using c(5) [OF None] g by (auto simp: OPENSSL_lh_retrieve_def)
  next
    case (Some it)
    from c(4) [OF this] have it: "li_data it \<in># lh_contents lh" "cmp (li_data it) d = 0"
      by (auto simp: lh_contents_def)
    moreover have "OPENSSL_lh_retrieve hf cf lh d = Some (li_data it)"
      using Some g by (simp add: OPENSSL_lh_retrieve_def)
    ultimately show ?thesis using one_each_unique [OF one it(1) _ it(2), of x] it by (metis option.inject)
  qed
qed

lemma one_each_add:
  assumes "one_each cmp M" "\<forall>x \<in># M. cmp x d \<noteq> 0"
  shows "one_each cmp (add_mset d M)"
  unfolding one_each_def
proof
  fix e assume e: "e \<in># add_mset d M"
  show "size (filter_mset (\<lambda>y. cmp y e = 0) (add_mset d M)) \<le> 1"
  proof (cases "cmp d e = 0")
    case False
    then have "e \<in># M" using e cmp_refl by auto
    then show ?thesis using False assms(1) by (simp add: one_each_def)
  next
    case True
    have "filter_mset (\<lambda>y. cmp y e = 0) M = filter_mset (\<lambda>y. False) M"
      using assms(2) cmp_trans [OF _ cmp_sym [OF True]] by (intro filter_mset_cong) auto
    then show ?thesis using True by simp
  qed
qed

lemma one_each_remove: "one_each cmp (add_mset d M) \<Longrightarrow> one_each cmp M \<and> (\<forall>x \<in># M. cmp x d \<noteq> 0)"
proof -
  assume o: "one_each cmp (add_mset d M)"
  have "cmp x d \<noteq> 0" if x: "x \<in># M" for x
  proof
    assume xd: "cmp x d = 0"
    obtain N where "M = add_mset x N" using x by (rule mset_add)
    then have "2 \<le> size (filter_mset (\<lambda>y. cmp y d = 0) (add_mset d M))" using xd by (simp add: cmp_refl)
    then show False using o by (simp add: one_each_def)
  qed
  moreover have "one_each cmp M"
    unfolding one_each_def
  proof
    fix e assume "e \<in># M"
    then have "size (filter_mset (\<lambda>y. cmp y e = 0) (add_mset d M)) \<le> 1" using o by (simp add: one_each_def)
    moreover have "filter_mset (\<lambda>y. cmp y e = 0) M \<subseteq># filter_mset (\<lambda>y. cmp y e = 0) (add_mset d M)"
      by (rule multiset_filter_mono) simp
    ultimately show "size (filter_mset (\<lambda>y. cmp y e = 0) M) \<le> 1" using size_mset_mono le_trans by blast
  qed
  ultimately show ?thesis by blast
qed

definition shaped :: "(nat \<Rightarrow> 'a \<Rightarrow> u32) \<Rightarrow> (nat \<Rightarrow> 'a \<Rightarrow> 'a \<Rightarrow> int) \<Rightarrow> 'a lhash \<Rightarrow> bool" where
  "shaped hf cf lh \<longleftrightarrow> wf_lhash hf cf lh \<and> hf (lh_hash lh) = hash \<and> cf (lh_comp lh) = cmp"

lemma filter_others:
  "one_each cmp (add_mset x M) \<Longrightarrow> cmp x d = 0 \<Longrightarrow> filter_mset (\<lambda>y. cmp y d \<noteq> 0) (add_mset x M) = M"
proof -
  assume o: "one_each cmp (add_mset x M)" and c: "cmp x d = 0"
  have "cmp y d \<noteq> 0" if "y \<in># M" for y
    using one_each_remove [OF o] that cmp_trans [OF _ cmp_sym [OF c], of y] by blast
  then have "filter_mset (\<lambda>y. cmp y d \<noteq> 0) M = filter_mset (\<lambda>y. True) M" by (intro filter_mset_cong) auto
  then show ?thesis using c by simp
qed

lemma one_each_replace: "one_each cmp (add_mset x M) \<Longrightarrow> cmp x d = 0 \<Longrightarrow> one_each cmp (add_mset d M)"
  using one_each_remove [of x M] cmp_trans [OF _ cmp_sym, of _ d x] by (intro one_each_add) blast+

lemma with_bucket:
  assumes s: "shaped hf cf lh" and b: "b < length (lh_buckets lh)"
    and c: "\<And>it. it \<in> set c \<Longrightarrow> it \<in> set (lh_buckets lh ! b) \<or> (li_hash it = hash (li_data it) \<and> unat (li_hash it) mod lh_num_buckets lh = b)"
    and o: "one_each cmp (lh_contents (lh \<lparr> lh_buckets := (lh_buckets lh)[b := c] \<rparr>))"
    and n: "m = length (concat ((lh_buckets lh)[b := c])) mod size_lim"
  shows "shaped hf cf (lh \<lparr> lh_buckets := (lh_buckets lh)[b := c], lh_num_items := m \<rparr>)"
proof -
  have p: "placed (\<lambda>it. li_hash it = hash (li_data it)) (lh_buckets lh)" "length (lh_buckets lh) = lh_num_buckets lh"
    using s by (auto simp: shaped_def wf_lhash_def)
  have "placed (\<lambda>it. li_hash it = hash (li_data it)) ((lh_buckets lh)[b := c])"
    using c b p by (intro placed_update [OF p(1) b]) (fastforce simp: placed_def)
  then show ?thesis
    using s n o by (simp add: shaped_def wf_lhash_def lh_items_def lh_contents_def)
qed

lemma contents_update:
  assumes "b < length (lh_buckets lh)" "mset (map li_data c) + X = mset (map li_data (lh_buckets lh ! b)) + Y"
  shows "lh_contents (lh \<lparr> lh_buckets := (lh_buckets lh)[b := c] \<rparr>) + X = lh_contents lh + Y"
proof -
  let ?f = "image_mset li_data"
  have "?f (mset (concat ((lh_buckets lh)[b := c]))) + ?f (mset (lh_buckets lh ! b)) = ?f (mset (concat (lh_buckets lh))) + ?f (mset c)"
    using mset_concat_update [OF assms(1), of c] by (simp only: image_mset_union [symmetric])
  then have a: "lh_contents (lh \<lparr> lh_buckets := (lh_buckets lh)[b := c] \<rparr>) + ?f (mset (lh_buckets lh ! b)) =
      lh_contents lh + ?f (mset c)" by (simp add: lh_contents_def lh_items_def)
  have "(lh_contents (lh \<lparr> lh_buckets := (lh_buckets lh)[b := c] \<rparr>) + X) + ?f (mset (lh_buckets lh ! b)) =
      lh_contents lh + (?f (mset c) + X)" using a by (simp only: add.assoc add.commute add.left_commute)
  also have "\<dots> = (lh_contents lh + Y) + ?f (mset (lh_buckets lh ! b))"
    using assms(2) by (simp add: ac_simps)
  finally show ?thesis by simp
qed

lemma resize_shaped: "shaped hf cf lh \<Longrightarrow> shaped hf cf (lh_maybe_resize al lh) \<and> lh_contents (lh_maybe_resize al lh) = lh_contents lh"
  using lh_maybe_resize_wf [of hf cf lh al] by (auto simp: shaped_def lh_contents_def)

lemma item_hash:
  assumes "shaped hf cf lh" "b < length (lh_buckets lh)" "it \<in> set (lh_buckets lh ! b)"
  shows "li_hash it = hash (li_data it) \<and> unat (li_hash it) mod lh_num_buckets lh = b"
proof -
  have "placed (\<lambda>it. li_hash it = hash (li_data it)) (lh_buckets lh)" "length (lh_buckets lh) = lh_num_buckets lh"
    using assms(1) by (auto simp: shaped_def wf_lhash_def)
  with assms(2,3) show ?thesis unfolding placed_def by metis
qed

lemma insert_ok:
  assumes s: "shaped hf cf lh" and i: "OPENSSL_lh_insert hf cf al d lh = ((ok, old), lh')"
  shows "old = (if ok then OPENSSL_lh_retrieve hf cf lh d else None) \<and> shaped hf cf lh' \<and>
    (\<not> ok \<longrightarrow> lh' = lh \<and> OPENSSL_malloc al 24 = None \<and> OPENSSL_lh_retrieve hf cf lh d = None) \<and>
    (ok \<longrightarrow> lh_contents lh' = add_mset d (filter_mset (\<lambda>x. cmp x d \<noteq> 0) (lh_contents lh)))"
proof -
  have w: "wf_lhash hf cf lh" and f: "hf (lh_hash lh) = hash" "cf (lh_comp lh) = cmp" using s by (simp_all add: shaped_def)
  obtain h b k where g: "get_next_ptr_and_hash hf cf lh d = (h, b, k)" by (cases "get_next_ptr_and_hash hf cf lh d") auto
  note c = chain_item [OF w f g]
  have one: "one_each cmp (lh_contents lh)" and n: "lh_num_items lh = size (lh_items lh) mod size_lim"
    using w by (simp_all add: wf_lhash_def f)
  have len: "length (lh_buckets lh) = lh_num_buckets lh" using w by (simp add: wf_lhash_def)
  have sz: "size (lh_items lh) = length (concat (lh_buckets lh))" by (simp add: lh_items_def)
  show ?thesis
  proof (cases "item_at lh (b, k)")
    case (Some it)
    from c(4) [OF Some] have k: "k < length (lh_buckets lh ! b)" "lh_buckets lh ! b ! k = it" "cmp (li_data it) d = 0" by auto
    let ?c = "(lh_buckets lh ! b)[k := it \<lparr> li_data := d \<rparr>]"
    have lh': "lh' = lh \<lparr> lh_buckets := (lh_buckets lh)[b := ?c] \<rparr>" "ok" "old = Some (li_data it)"
      using i g Some by (auto simp: OPENSSL_lh_insert_def)
    have r: "OPENSSL_lh_retrieve hf cf lh d = Some (li_data it)" using g Some by (simp add: OPENSSL_lh_retrieve_def)
    have "mset (map li_data ?c) + {#li_data it#} = mset (map li_data (lh_buckets lh ! b)) + {#d#}"
      using k(1,2) nth_mem [OF k(1)] by (auto simp: map_update mset_update intro!: insert_DiffM)
    from contents_update [OF c(2) this] have e: "add_mset (li_data it) (lh_contents lh') = add_mset d (lh_contents lh)"
      by (simp add: lh'(1))
    obtain M where M: "lh_contents lh = add_mset (li_data it) M"
      using r retrieve_iff [OF w f] by (metis mset_add)
    then have M': "lh_contents lh' = add_mset d M" using e by simp
    have it: "it \<in> set (lh_buckets lh ! b)" using k by auto
    have hash: "li_hash it = hash (li_data it)" "unat (li_hash it) mod lh_num_buckets lh = b"
      using item_hash [OF s c(2) it] by auto
    have "length (concat ((lh_buckets lh)[b := ?c])) = length (concat (lh_buckets lh))"
      using arg_cong [OF e, of size] by (simp add: lh_contents_def lh_items_def lh'(1))
    then have "shaped hf cf (lh \<lparr> lh_buckets := (lh_buckets lh)[b := ?c], lh_num_items := lh_num_items lh \<rparr>)"
      using M' one_each_replace [OF one [unfolded M] k(3)] n sz hash hash_cong [OF k(3)]
      by (intro with_bucket [OF s c(2)]) (auto simp: lh'(1) dest!: set_update_subset_insert [THEN subsetD])
    then show ?thesis using M M' lh' r filter_others [OF one [unfolded M] k(3)] by simp
  next
    case None
    have r: "OPENSSL_lh_retrieve hf cf lh d = None" using g None by (simp add: OPENSSL_lh_retrieve_def)
    have others: "filter_mset (\<lambda>x. cmp x d \<noteq> 0) (lh_contents lh) = lh_contents lh"
      using c(5) [OF None] by (simp add: filter_mset_eq_conv)
    show ?thesis
    proof (cases "OPENSSL_malloc al 24")
      case None
      then show ?thesis using i g \<open>item_at lh (b, k) = None\<close> s r by (auto simp: OPENSSL_lh_insert_def)
    next
      case (Some blk)
      let ?c = "lh_buckets lh ! b @ [\<lparr> li_data = d, li_hash = h \<rparr>]"
      let ?lh = "lh \<lparr> lh_buckets := (lh_buckets lh)[b := ?c], lh_num_items := size_add (lh_num_items lh) 1 \<rparr>"
      have lh': "lh' = lh_maybe_resize al ?lh" "ok" "old = None"
        using i g None Some by (auto simp: OPENSSL_lh_insert_def)
      have "mset (map li_data ?c) + {#} = mset (map li_data (lh_buckets lh ! b)) + {#d#}" by simp
      from contents_update [OF c(2) this] have e: "lh_contents ?lh = add_mset d (lh_contents lh)"
        by (simp add: lh_contents_def lh_items_def)
      have "length (concat ((lh_buckets lh)[b := ?c])) = length (concat (lh_buckets lh)) + 1"
        using arg_cong [OF e, of size] by (simp add: lh_contents_def lh_items_def)
      then have "shaped hf cf ?lh"
        using e one_each_add [OF one c(5) [OF None]] n sz c(1,3)
        by (intro with_bucket [OF s c(2)]) (auto simp: lh_contents_def lh_items_def size_add_def mod_Suc_eq)
      from resize_shaped [OF this] show ?thesis using lh' r e others by simp
    qed
  qed
qed

lemma delete_ok:
  assumes s: "shaped hf cf lh" and i: "OPENSSL_lh_delete hf cf al d lh = (old, lh')"
  shows "old = OPENSSL_lh_retrieve hf cf lh d \<and> shaped hf cf lh' \<and>
    lh_contents lh' = filter_mset (\<lambda>x. cmp x d \<noteq> 0) (lh_contents lh)"
proof -
  have w: "wf_lhash hf cf lh" and f: "hf (lh_hash lh) = hash" "cf (lh_comp lh) = cmp" using s by (simp_all add: shaped_def)
  obtain h b k where g: "get_next_ptr_and_hash hf cf lh d = (h, b, k)" by (cases "get_next_ptr_and_hash hf cf lh d") auto
  note c = chain_item [OF w f g]
  have one: "one_each cmp (lh_contents lh)" and n: "lh_num_items lh = size (lh_items lh) mod size_lim"
    using w by (simp_all add: wf_lhash_def f)
  have sz: "size (lh_items lh) = length (concat (lh_buckets lh))" by (simp add: lh_items_def)
  show ?thesis
  proof (cases "item_at lh (b, k)")
    case None
    have "filter_mset (\<lambda>x. cmp x d \<noteq> 0) (lh_contents lh) = lh_contents lh"
      using c(5) [OF None] by (simp add: filter_mset_eq_conv)
    then show ?thesis using None g i s by (simp add: OPENSSL_lh_delete_def OPENSSL_lh_retrieve_def)
  next
    case (Some it)
    from c(4) [OF Some] have k: "k < length (lh_buckets lh ! b)" "lh_buckets lh ! b ! k = it" "cmp (li_data it) d = 0" by auto
    let ?c = "take k (lh_buckets lh ! b) @ drop (k + 1) (lh_buckets lh ! b)"
    let ?lh = "lh \<lparr> lh_buckets := (lh_buckets lh)[b := ?c], lh_num_items := size_add (lh_num_items lh) (size_lim - 1) \<rparr>"
    have lh': "lh' = lh_maybe_resize al ?lh" "old = Some (li_data it)"
      using i g Some by (auto simp: OPENSSL_lh_delete_def)
    have r: "OPENSSL_lh_retrieve hf cf lh d = Some (li_data it)" using g Some by (simp add: OPENSSL_lh_retrieve_def)
    have split: "lh_buckets lh ! b = take k (lh_buckets lh ! b) @ it # drop (k + 1) (lh_buckets lh ! b)"
      using id_take_nth_drop [OF k(1)] k(2) by simp
    have "mset (map li_data ?c) + {#li_data it#} = mset (map li_data (lh_buckets lh ! b)) + {#}"
    proof -
      define pre post where "pre = take k (lh_buckets lh ! b)" and "post = drop (k + 1) (lh_buckets lh ! b)"
      have "lh_buckets lh ! b = pre @ it # post" using split by (simp add: pre_def post_def)
      then show ?thesis unfolding pre_def [symmetric] post_def [symmetric] by simp
    qed
    from contents_update [OF c(2) this]
    have e: "lh_contents lh = add_mset (li_data it) (lh_contents ?lh)" by (simp add: lh_contents_def lh_items_def)
    have "length (concat (lh_buckets lh)) = length (concat ((lh_buckets lh)[b := ?c])) + 1"
      using arg_cong [OF e, of size] by (simp add: lh_contents_def lh_items_def)
    then have m: "size_add (lh_num_items lh) (size_lim - 1) = length (concat ((lh_buckets lh)[b := ?c])) mod size_lim"
      unfolding n sz size_add_def by (simp add: mod_add_left_eq)
    have "it' \<in> set (lh_buckets lh ! b)" if "it' \<in> set ?c" for it'
      using that by (auto dest: in_set_takeD in_set_dropD)
    then have "shaped hf cf ?lh"
      using one_each_remove [OF one [unfolded e]] m
      by (intro with_bucket [OF s c(2)]) (auto simp: lh_contents_def lh_items_def)
    from resize_shaped [OF this] show ?thesis
      using lh' r e filter_others [OF one [unfolded e] k(3)] by simp
  qed
qed

lemma insert_retrieve:
  assumes s: "shaped hf cf lh" and i: "OPENSSL_lh_insert hf cf al d lh = ((True, old), lh')"
  shows "OPENSSL_lh_retrieve hf cf lh' e = (if cmp d e = 0 then Some d else OPENSSL_lh_retrieve hf cf lh e)"
proof -
  note ok = insert_ok [OF s i]
  have r: "OPENSSL_lh_retrieve hf cf lh' e = Some x \<longleftrightarrow> x \<in># lh_contents lh' \<and> cmp x e = 0" for x
    using ok by (intro retrieve_iff) (simp_all add: shaped_def)
  have r0: "OPENSSL_lh_retrieve hf cf lh e = Some x \<longleftrightarrow> x \<in># lh_contents lh \<and> cmp x e = 0" for x
    using s by (intro retrieve_iff) (simp_all add: shaped_def)
  show ?thesis
  proof (cases "cmp d e = 0")
    case True
    then show ?thesis using r [of d] ok by simp
  next
    case False
    have "OPENSSL_lh_retrieve hf cf lh' e = Some x \<longleftrightarrow> OPENSSL_lh_retrieve hf cf lh e = Some x" for x
      unfolding r r0 using False ok cmp_trans [OF cmp_sym [of x d], of e] by auto
    then show ?thesis unfolding if_not_P [OF False] by (intro option_eq_by_Some [THEN iffD2]) blast
  qed
qed

lemma delete_retrieve:
  assumes s: "shaped hf cf lh" and i: "OPENSSL_lh_delete hf cf al d lh = (old, lh')"
  shows "OPENSSL_lh_retrieve hf cf lh' e = (if cmp d e = 0 then None else OPENSSL_lh_retrieve hf cf lh e)"
proof -
  note ok = delete_ok [OF s i]
  have r: "OPENSSL_lh_retrieve hf cf lh' e = Some x \<longleftrightarrow> x \<in># lh_contents lh' \<and> cmp x e = 0" for x
    using ok by (intro retrieve_iff) (simp_all add: shaped_def)
  have r0: "OPENSSL_lh_retrieve hf cf lh e = Some x \<longleftrightarrow> x \<in># lh_contents lh \<and> cmp x e = 0" for x
    using s by (intro retrieve_iff) (simp_all add: shaped_def)
  have "OPENSSL_lh_retrieve hf cf lh' e = Some x \<longleftrightarrow> cmp d e \<noteq> 0 \<and> OPENSSL_lh_retrieve hf cf lh e = Some x" for x
    unfolding r r0 using ok cmp_trans [OF cmp_sym [of x d], of e] cmp_trans [OF _ cmp_sym [of d e], of x] by auto
  then show ?thesis by (intro option_eq_by_Some [THEN iffD2]) auto
qed

end

section \<open>The interface of a keyed table\<close>

text \<open>
  What the clients of the table rely on: a value per key class \<open>same\<close>, replaced by an insertion, removed
  by a deletion, with the value that was there returned, whatever else the table does behind the scenes.
\<close>

locale key_table =
  fixes ok :: "'t \<Rightarrow> bool" and get :: "'t \<Rightarrow> 'a \<Rightarrow> 'a option"
    and ins :: "'a \<Rightarrow> 't \<Rightarrow> (bool \<times> 'a option) \<times> 't" and del :: "'a \<Rightarrow> 't \<Rightarrow> 'a option \<times> 't"
    and same :: "'a \<Rightarrow> 'a \<Rightarrow> bool"
  assumes get_same: "ok t \<Longrightarrow> get t d = Some x \<Longrightarrow> same x d"
    and ins_keeps: "ok t \<Longrightarrow> ins d t = (r, t') \<Longrightarrow> ok t'"
    and ins_done: "ok t \<Longrightarrow> ins d t = ((True, old), t') \<Longrightarrow> old = get t d \<and> get t' = (\<lambda>e. if same d e then Some d else get t e)"
    and ins_refused: "ok t \<Longrightarrow> ins d t = ((False, old), t') \<Longrightarrow> old = None \<and> t' = t \<and> get t d = None"
    and del_keeps: "ok t \<Longrightarrow> del d t = (old, t') \<Longrightarrow> ok t'"
    and del_done: "ok t \<Longrightarrow> del d t = (old, t') \<Longrightarrow> old = get t d \<and> get t' = (\<lambda>e. if same d e then None else get t e)"

datatype 'a table_call = Insert 'a | Delete 'a | Retrieve 'a

fun table_do ::
  "('a \<Rightarrow> 't \<Rightarrow> (bool \<times> 'a option) \<times> 't) \<Rightarrow> ('a \<Rightarrow> 't \<Rightarrow> 'a option \<times> 't) \<Rightarrow> ('t \<Rightarrow> 'a \<Rightarrow> 'a option) \<Rightarrow>
   'a table_call \<Rightarrow> 't \<Rightarrow> (bool \<times> 'a option) \<times> 't" where
  "table_do ins del get (Insert d) t = ins d t"
| "table_do ins del get (Delete d) t = (case del d t of (old, t) \<Rightarrow> ((True, old), t))"
| "table_do ins del get (Retrieve d) t = ((True, get t d), t)"

fun table_run ::
  "('a \<Rightarrow> 't \<Rightarrow> (bool \<times> 'a option) \<times> 't) \<Rightarrow> ('a \<Rightarrow> 't \<Rightarrow> 'a option \<times> 't) \<Rightarrow> ('t \<Rightarrow> 'a \<Rightarrow> 'a option) \<Rightarrow>
   'a table_call list \<Rightarrow> 't \<Rightarrow> (bool \<times> 'a option) list \<times> 't" where
  "table_run ins del get [] t = ([], t)"
| "table_run ins del get (c # cs) t =
     (case table_do ins del get c t of (r, t) \<Rightarrow> (case table_run ins del get cs t of (rs, t) \<Rightarrow> (r # rs, t)))"

text \<open>The same calls on a map; a result is checked against the map, a refused insertion changes nothing.\<close>

fun map_replay ::
  "('a \<Rightarrow> 'a \<Rightarrow> bool) \<Rightarrow> ('a table_call \<times> (bool \<times> 'a option)) list \<Rightarrow> ('a \<Rightarrow> 'a option) \<Rightarrow> ('a \<Rightarrow> 'a option) option" where
  "map_replay same [] m = Some m"
| "map_replay same ((Insert d, (True, old)) # crs) m =
     (if old = m d then map_replay same crs (\<lambda>e. if same d e then Some d else m e) else None)"
| "map_replay same ((Insert d, (False, old)) # crs) m = (if old = None \<and> m d = None then map_replay same crs m else None)"
| "map_replay same ((Delete d, (ok, old)) # crs) m =
     (if ok \<and> old = m d then map_replay same crs (\<lambda>e. if same d e then None else m e) else None)"
| "map_replay same ((Retrieve d, (ok, x)) # crs) m = (if ok \<and> x = m d then map_replay same crs m else None)"

context key_table
begin

lemma run_replays:
  "ok t \<Longrightarrow> table_run ins del get cs t = (rs, t') \<Longrightarrow>
   ok t' \<and> length rs = length cs \<and> map_replay same (zip cs rs) (get t) = Some (get t')"
proof (induction cs arbitrary: t rs)
  case (Cons c cs)
  obtain r t1 where d: "table_do ins del get c t = (r, t1)" by (cases "table_do ins del get c t")
  obtain rs' where rs: "table_run ins del get cs t1 = (rs', t')" "rs = r # rs'"
    using Cons.prems(2) d by (auto split: prod.splits)
  obtain k x where r: "r = (k, x)" by (cases r)
  have "ok t1 \<and> map_replay same ((c, r) # zip cs rs') (get t) = map_replay same (zip cs rs') (get t1)"
  proof (cases c)
    case (Insert e)
    then show ?thesis
      using d r ins_keeps [OF Cons.prems(1), of e] ins_done [OF Cons.prems(1), of e x t1] ins_refused [OF Cons.prems(1), of e x t1]
      by (cases k) auto
  next
    case (Delete e)
    then show ?thesis
      using d r del_keeps [OF Cons.prems(1), of e] del_done [OF Cons.prems(1), of e x t1] by (auto split: prod.splits)
  next
    case (Retrieve e)
    then show ?thesis using d r Cons.prems(1) by auto
  qed
  with Cons.IH [of t1 rs'] rs show ?case by simp
qed simp

end

text \<open>Every table with consistent hash and comparison functions is one.\<close>

locale hash_table = hash_functions hash cmp for hash :: "'a \<Rightarrow> u32" and cmp :: "'a \<Rightarrow> 'a \<Rightarrow> int" +
  fixes hf :: "nat \<Rightarrow> 'a \<Rightarrow> u32" and cf :: "nat \<Rightarrow> 'a \<Rightarrow> 'a \<Rightarrow> int" and al :: allocator
begin

sublocale table: key_table "shaped hf cf" "OPENSSL_lh_retrieve hf cf" "OPENSSL_lh_insert hf cf al"
  "OPENSSL_lh_delete hf cf al" "\<lambda>a b. cmp a b = 0"
proof
  fix t d x
  assume "shaped hf cf t" "OPENSSL_lh_retrieve hf cf t d = Some x"
  then show "cmp x d = 0" by (subst (asm) retrieve_iff) (simp_all add: shaped_def)
next
  fix t t' d r
  assume "shaped hf cf t" "OPENSSL_lh_insert hf cf al d t = (r, t')"
  then show "shaped hf cf t'" using insert_ok [of hf cf t al d "fst r" "snd r" t'] by simp
next
  fix t t' d old
  assume i: "shaped hf cf t" "OPENSSL_lh_insert hf cf al d t = ((True, old), t')"
  show "old = OPENSSL_lh_retrieve hf cf t d \<and>
     OPENSSL_lh_retrieve hf cf t' = (\<lambda>e. if cmp d e = 0 then Some d else OPENSSL_lh_retrieve hf cf t e)"
    using insert_ok [OF i] insert_retrieve [OF i] by auto
next
  fix t t' d old
  assume i: "shaped hf cf t" "OPENSSL_lh_insert hf cf al d t = ((False, old), t')"
  show "old = None \<and> t' = t \<and> OPENSSL_lh_retrieve hf cf t d = None" using insert_ok [OF i] by simp
next
  fix t t' d old
  assume i: "shaped hf cf t" "OPENSSL_lh_delete hf cf al d t = (old, t')"
  show "shaped hf cf t'" using delete_ok [OF i] by simp
  show "old = OPENSSL_lh_retrieve hf cf t d \<and>
     OPENSSL_lh_retrieve hf cf t' = (\<lambda>e. if cmp d e = 0 then None else OPENSSL_lh_retrieve hf cf t e)"
    using delete_ok [OF i] delete_retrieve [OF i] by auto
qed

lemmas replays = table.run_replays

end

section \<open>Properties\<close>

lemma lh_new_shaped:
  assumes "hash_functions hash cmp" "OPENSSL_lh_new al h c = Some lh"
  shows "hash_functions.shaped hash cmp (\<lambda>_. hash) (\<lambda>_. cmp) lh"
    "OPENSSL_lh_retrieve (\<lambda>_. hash) (\<lambda>_. cmp) lh = (\<lambda>_. None)"
proof -
  have lh: "lh = \<lparr> lh_num_items = 0, lh_buckets = replicate 16 [], lh_num_buckets = 16,
               lh_callback_depth = 0, lh_comp = c, lh_hash = h \<rparr>"
    using assms(2) by (auto simp: OPENSSL_lh_new_def split: option.splits)
  show s: "hash_functions.shaped hash cmp (\<lambda>_. hash) (\<lambda>_. cmp) lh"
    by (simp add: hash_functions.shaped_def [OF assms(1)] wf_lhash_def lh lh_items_def lh_contents_def placed_def one_each_def)
  have "OPENSSL_lh_retrieve (\<lambda>_. hash) (\<lambda>_. cmp) lh x \<noteq> Some y" for x y
    using hash_functions.retrieve_iff [OF assms(1), of "\<lambda>_. hash" "\<lambda>_. cmp" lh x y] s
    by (simp add: hash_functions.shaped_def [OF assms(1)] lh lh_contents_def lh_items_def)
  then show "OPENSSL_lh_retrieve (\<lambda>_. hash) (\<lambda>_. cmp) lh = (\<lambda>_. None)" by (metis not_None_eq)
qed

text \<open>
  C16. A hash table is a finite map: for any sequence of insertions, deletions and look-ups from \<open>lh_new\<close> on,
  every result (the old element an insertion replaces, the element a deletion removes, the element found)
  is that of a map from classes of equal keys to elements, whatever resizing happens in between.
\<close>

theorem lhash_refines_map:
  assumes "hash_functions hash cmp" "OPENSSL_lh_new al0 h c = Some lh"
    and "table_run (OPENSSL_lh_insert (\<lambda>_. hash) (\<lambda>_. cmp) al) (OPENSSL_lh_delete (\<lambda>_. hash) (\<lambda>_. cmp) al)
      (OPENSSL_lh_retrieve (\<lambda>_. hash) (\<lambda>_. cmp)) cs lh = (rs, lh')"
  shows "length rs = length cs \<and>
    map_replay (\<lambda>a b. cmp a b = 0) (zip cs rs) (\<lambda>_. None) = Some (OPENSSL_lh_retrieve (\<lambda>_. hash) (\<lambda>_. cmp) lh')"
  using hash_table.replays [OF hash_table.intro [OF assms(1)] lh_new_shaped(1) [OF assms(1,2)] assms(3)]
    lh_new_shaped(2) [OF assms(1,2)] by simp

lemma run_shaped:
  assumes "hash_functions hash cmp" "OPENSSL_lh_new al0 h c = Some lh"
    and "table_run (OPENSSL_lh_insert (\<lambda>_. hash) (\<lambda>_. cmp) al) (OPENSSL_lh_delete (\<lambda>_. hash) (\<lambda>_. cmp) al)
      (OPENSSL_lh_retrieve (\<lambda>_. hash) (\<lambda>_. cmp)) cs lh = (rs, lh')"
  shows "hash_functions.shaped hash cmp (\<lambda>_. hash) (\<lambda>_. cmp) lh'"
  using hash_table.replays [OF hash_table.intro [OF assms(1)] lh_new_shaped(1) [OF assms(1,2)] assms(3)] by simp

text \<open>
  The invariant of the table in every state reached: as many buckets as recorded and never fewer than
  16, every item in the bucket its hash names, no two elements equal, and \<open>num_items\<close> counting them.
\<close>

theorem lhash_invariant:
  assumes "hash_functions hash cmp" "OPENSSL_lh_new al0 h c = Some lh"
    and "table_run (OPENSSL_lh_insert (\<lambda>_. hash) (\<lambda>_. cmp) al) (OPENSSL_lh_delete (\<lambda>_. hash) (\<lambda>_. cmp) al)
      (OPENSSL_lh_retrieve (\<lambda>_. hash) (\<lambda>_. cmp)) cs lh = (rs, lh')"
  shows "length (lh_buckets lh') = lh_num_buckets lh' \<and> 16 \<le> lh_num_buckets lh' \<and>
    (\<forall>b < lh_num_buckets lh'. \<forall>it \<in> set (lh_buckets lh' ! b).
       li_hash it = hash (li_data it) \<and> unat (li_hash it) mod lh_num_buckets lh' = b) \<and>
    (\<forall>x. size (filter_mset (\<lambda>y. cmp y x = 0) (lh_contents lh')) = (if OPENSSL_lh_retrieve (\<lambda>_. hash) (\<lambda>_. cmp) lh' x = None then 0 else 1)) \<and>
    OPENSSL_lh_num_items lh' = size (lh_contents lh') mod size_lim"
proof -
  note s = run_shaped [OF assms]
  then have w: "wf_lhash (\<lambda>_. hash) (\<lambda>_. cmp) lh'" by (simp add: hash_functions.shaped_def [OF assms(1)])
  have count: "size (filter_mset (\<lambda>y. cmp y x = 0) (lh_contents lh')) =
      (if OPENSSL_lh_retrieve (\<lambda>_. hash) (\<lambda>_. cmp) lh' x = None then 0 else 1)" for x
  proof (cases "OPENSSL_lh_retrieve (\<lambda>_. hash) (\<lambda>_. cmp) lh' x")
    case None
    then have "\<forall>y \<in># lh_contents lh'. cmp y x \<noteq> 0" using hash_functions.retrieve_iff [OF assms(1) w refl refl, of x] by simp
    then show ?thesis using None by (simp add: filter_mset_eq_conv [where M = "{#}"])
  next
    case (Some y)
    then have y: "y \<in># lh_contents lh'" "cmp y x = 0" using hash_functions.retrieve_iff [OF assms(1) w refl refl, of x y] by simp_all
    obtain M where M: "lh_contents lh' = add_mset y M" using y(1) by (rule mset_add)
    have o: "one_each cmp (add_mset y M)" using w M by (simp add: wf_lhash_def)
    have "filter_mset (\<lambda>z. cmp z x \<noteq> 0) (add_mset y M) = M" by (rule hash_functions.filter_others [OF assms(1) o y(2)])
    moreover have "add_mset y M = filter_mset (\<lambda>z. cmp z x = 0) (add_mset y M) + filter_mset (\<lambda>z. cmp z x \<noteq> 0) (add_mset y M)"
      by (rule multiset_partition)
    ultimately have "filter_mset (\<lambda>z. cmp z x = 0) (add_mset y M) = {#y#}" by (metis add_mset_add_single add_right_cancel union_commute)
    then show ?thesis using M Some by simp
  qed
  have "length (lh_buckets lh') = lh_num_buckets lh'" "placed (\<lambda>it. li_hash it = hash (li_data it)) (lh_buckets lh')"
    using w by (auto simp: wf_lhash_def)
  then have "\<forall>b < lh_num_buckets lh'. \<forall>it \<in> set (lh_buckets lh' ! b).
       li_hash it = hash (li_data it) \<and> unat (li_hash it) mod lh_num_buckets lh' = b" by (simp only: placed_def)
  moreover have "16 \<le> lh_num_buckets lh'" "OPENSSL_lh_num_items lh' = size (lh_contents lh') mod size_lim"
    using w by (auto simp: wf_lhash_def OPENSSL_lh_num_items_def lh_contents_def)
  ultimately show ?thesis using count \<open>length (lh_buckets lh') = lh_num_buckets lh'\<close> by blast
qed

text \<open>
  \<open>lh_doall_arg\<close> visits every element exactly once and keeps the elements; the depth counter is
  restored, unless it was about to saturate.
\<close>

theorem lhash_doall_visits:
  assumes "wf_lhash hf cf lh"
  shows "\<exists>xs lh'. mset xs = lh_contents lh \<and> OPENSSL_lh_doall_arg al func (Some lh) s = (fold func xs s, Some lh') \<and>
    lh_contents lh' = lh_contents lh \<and> wf_lhash hf cf lh' \<and>
    (unat (lh_callback_depth lh) = 2 ^ 32 - 2 \<or> lh_callback_depth lh' = lh_callback_depth lh)"
proof -
  let ?d = "lh_callback_depth lh"
  let ?up = "if ?d < - 1 then lh \<lparr> lh_callback_depth := ?d + 1 \<rparr> else lh"
  let ?down = "if lh_callback_depth ?up < - 1 then ?up \<lparr> lh_callback_depth := lh_callback_depth ?up - 1 \<rparr> else ?up"
  let ?xs = "map li_data (concat (lh_buckets lh))"
  have max: "x < - 1 \<longleftrightarrow> x \<noteq> - 1" for x :: u32 using word_order.not_eq_extremum [of x] by simp
  have same: "wf_lhash hf cf (lh \<lparr> lh_callback_depth := k \<rparr>)" "lh_contents (lh \<lparr> lh_callback_depth := k \<rparr>) = lh_contents lh" for k
    using assms by (simp_all add: wf_lhash_def lh_contents_def lh_items_def)
  then have down: "wf_lhash hf cf ?down" "lh_contents ?down = lh_contents lh" using assms by auto
  have f: "fold (fold (\<lambda>cur. func (li_data cur))) (lh_buckets lh) s = fold func ?xs s"
    unfolding fold_fold_concat by (simp add: fold_map comp_def)
  have "OPENSSL_lh_doall_arg al func (Some lh) s = (fold func ?xs s, Some (lh_maybe_resize al ?down))"
    by (simp add: OPENSSL_lh_doall_arg_def Let_def f)
  moreover have "mset ?xs = lh_contents lh" by (simp add: lh_contents_def lh_items_def)
  moreover have "unat ?d = 2 ^ 32 - 2 \<or> lh_callback_depth ?down = ?d"
  proof (cases "?d + 1 = - 1")
    case True
    then have "?d = - 2" by (simp add: eq_neg_iff_add_eq_0 add.assoc)
    then show ?thesis by simp
  next
    case False
    then show ?thesis by (simp add: max)
  qed
  ultimately show ?thesis
    using lh_maybe_resize_wf [OF down(1), of al] down(2) by (intro exI [of _ ?xs] exI [of _ "lh_maybe_resize al ?down"]) (simp add: lh_contents_def)
qed

end
