(* ===== verification/Pool.thy ===== *)
theory Pool
  imports Lhash SetOf
begin

text \<open>
  \<open>crypto/pool/pool.c\<close>: interned, reference-counted buffers.  The immutable part of a \<open>CRYPTO_BUFFER\<close> (its
  address, contents, whether the contents are static, whether it belongs to the pool) is a record, and the
  hash table of the pool holds these; the reference counts, which live in the heap, are a map from
  addresses, undefined where nothing is allocated.  Every critical section of the code is one operation,
  and the interleavings of threads are the runs of a step relation over these operations.
\<close>

section \<open>Reference counts\<close>

text \<open>\<open>CRYPTO_refcount_inc\<close> and \<open>_dec_and_test_zero\<close> (\<open>refcount_lock.c\<close>); \<^term>\<open>None\<close> is \<open>abort\<close>.\<close>

definition CRYPTO_refcount_inc :: "u32 \<Rightarrow> u32" where
  "CRYPTO_refcount_inc c = (if c < - 1 then c + 1 else c)"

definition CRYPTO_refcount_dec_and_test_zero :: "u32 \<Rightarrow> (bool \<times> u32) option" where
  "CRYPTO_refcount_dec_and_test_zero c =
     (if c = 0 then None
      else let c = (if c < - 1 then c - 1 else c) in Some (c = 0, c))"

section \<open>Buffers\<close>

record crypto_buffer =
  bf_addr :: nat
  bf_data :: bytes
  bf_static :: bool
  bf_pooled :: bool

definition CRYPTO_BUFFER_hash :: "crypto_buffer \<Rightarrow> u32" where
  "CRYPTO_BUFFER_hash buf = OPENSSL_hash32 (bf_data buf)"

definition CRYPTO_BUFFER_cmp :: "crypto_buffer \<Rightarrow> crypto_buffer \<Rightarrow> int" where
  "CRYPTO_BUFFER_cmp a b =
     (if length (bf_data a) \<noteq> length (bf_data b) then 1
      else OPENSSL_memcmp (bf_data a) (bf_data b) (length (bf_data a)))"

lemma memcmp_zero_iff: "length a = length b \<Longrightarrow> OPENSSL_memcmp a b (length a) = 0 \<longleftrightarrow> a = b"
  by (induction a b rule: list_induct2) auto

lemma buffer_cmp_iff: "CRYPTO_BUFFER_cmp a b = 0 \<longleftrightarrow> bf_data a = bf_data b"
  using memcmp_zero_iff [of "bf_data a" "bf_data b"] by (auto simp: CRYPTO_BUFFER_cmp_def)

interpretation buffers: hash_functions CRYPTO_BUFFER_hash CRYPTO_BUFFER_cmp
  by unfold_locales (auto simp: buffer_cmp_iff CRYPTO_BUFFER_hash_def)

text \<open>The table of a pool: \<open>lh_CRYPTO_BUFFER_new(CRYPTO_BUFFER_hash, CRYPTO_BUFFER_cmp)\<close>.\<close>

abbreviation buf_retrieve :: "crypto_buffer lhash \<Rightarrow> crypto_buffer \<Rightarrow> crypto_buffer option" where
  "buf_retrieve \<equiv> OPENSSL_lh_retrieve (\<lambda>_. CRYPTO_BUFFER_hash) (\<lambda>_. CRYPTO_BUFFER_cmp)"

interpretation pool_table: hash_table CRYPTO_BUFFER_hash CRYPTO_BUFFER_cmp "\<lambda>_. CRYPTO_BUFFER_hash" "\<lambda>_. CRYPTO_BUFFER_cmp" al
  for al ..

record pool =
  pl_bufs :: "crypto_buffer lhash"
  pl_refs :: "nat \<Rightarrow> u32 option"

definition CRYPTO_BUFFER_POOL_new :: "allocator \<Rightarrow> (nat \<Rightarrow> u32 option) \<Rightarrow> pool option" where
  "CRYPTO_BUFFER_POOL_new al refs =
     (case OPENSSL_malloc al 208 of
        None \<Rightarrow> None
      | Some _ \<Rightarrow> map_option (\<lambda>t. \<lparr> pl_bufs = t, pl_refs = refs \<rparr>) (OPENSSL_lh_new al 0 0))"

definition set_ref :: "nat \<Rightarrow> u32 option \<Rightarrow> pool \<Rightarrow> pool" where
  "set_ref a c p = p \<lparr> pl_refs := (pl_refs p)(a := c) \<rparr>"

text \<open>\<open>duplicate\<close> as both critical sections of \<open>crypto_buffer_new\<close> compute it.\<close>

definition find_duplicate :: "pool \<Rightarrow> crypto_buffer \<Rightarrow> crypto_buffer option" where
  "find_duplicate p buf =
     (case buf_retrieve (pl_bufs p) buf of
        None \<Rightarrow> None
      | Some dup \<Rightarrow> if bf_static buf \<and> \<not> bf_static dup then None else Some dup)"

definition ref_inc :: "nat \<Rightarrow> pool \<Rightarrow> pool" where
  "ref_inc a p = set_ref a (map_option CRYPTO_refcount_inc (pl_refs p a)) p"

text \<open>The section under the read lock: a duplicate gets one more reference and is returned.\<close>

definition new_lookup :: "bytes \<Rightarrow> bool \<Rightarrow> pool \<Rightarrow> crypto_buffer option \<times> pool" where
  "new_lookup data data_is_static p =
     (case find_duplicate p \<lparr> bf_addr = 0, bf_data = data, bf_static = data_is_static, bf_pooled = False \<rparr> of
        None \<Rightarrow> (None, p)
      | Some dup \<Rightarrow> (Some dup, ref_inc (bf_addr dup) p))"

text \<open>The allocation in between, at the address \<open>a\<close> the allocator picks.\<close>

definition new_alloc :: "allocator \<Rightarrow> nat \<Rightarrow> bytes \<Rightarrow> bool \<Rightarrow> bool \<Rightarrow> pool \<Rightarrow> crypto_buffer option \<times> pool" where
  "new_alloc al a data data_is_static pooled p =
     (if OPENSSL_malloc al 32 = None then (None, p)
      else if \<not> data_is_static \<and> length data \<noteq> 0 \<and> OPENSSL_memdup al data = None then (None, p)
      else (Some \<lparr> bf_addr = a, bf_data = data, bf_static = data_is_static, bf_pooled = pooled \<rparr>, set_ref a (Some 1) p))"

text \<open>The section under the write lock, and the clean-up after it when \<open>buf\<close> was not inserted.\<close>

definition new_insert :: "allocator \<Rightarrow> crypto_buffer \<Rightarrow> pool \<Rightarrow> crypto_buffer option \<times> pool" where
  "new_insert al buf p =
     (case find_duplicate p buf of
        None \<Rightarrow>
          (case OPENSSL_lh_insert (\<lambda>_. CRYPTO_BUFFER_hash) (\<lambda>_. CRYPTO_BUFFER_cmp) al buf (pl_bufs p) of
             ((inserted, old), bufs) \<Rightarrow>
               if inserted then (Some buf, p \<lparr> pl_bufs := bufs \<rparr>)
               else (None, set_ref (bf_addr buf) None (p \<lparr> pl_bufs := bufs \<rparr>)))
      | Some dup \<Rightarrow> (Some dup, set_ref (bf_addr buf) None (ref_inc (bf_addr dup) p)))"

text \<open>\<open>crypto_buffer_new\<close> as one thread runs it alone.\<close>

definition crypto_buffer_new :: "allocator \<Rightarrow> nat \<Rightarrow> bytes \<Rightarrow> bool \<Rightarrow> bool \<Rightarrow> pool \<Rightarrow> crypto_buffer option \<times> pool" where
  "crypto_buffer_new al a data data_is_static pooled p =
     (case (if pooled then new_lookup data data_is_static p else (None, p)) of
        (Some dup, p) \<Rightarrow> (Some dup, p)
      | (None, p) \<Rightarrow>
          (case new_alloc al a data data_is_static pooled p of
             (None, p) \<Rightarrow> (None, p)
           | (Some buf, p) \<Rightarrow> if \<not> pooled then (Some buf, p) else new_insert al buf p))"

definition CRYPTO_BUFFER_new :: "allocator \<Rightarrow> nat \<Rightarrow> bytes \<Rightarrow> bool \<Rightarrow> pool \<Rightarrow> crypto_buffer option \<times> pool" where
  "CRYPTO_BUFFER_new al a data pooled p = crypto_buffer_new al a data False pooled p"

definition CRYPTO_BUFFER_new_from_static_data_unsafe ::
  "allocator \<Rightarrow> nat \<Rightarrow> bytes \<Rightarrow> bool \<Rightarrow> pool \<Rightarrow> crypto_buffer option \<times> pool" where
  "CRYPTO_BUFFER_new_from_static_data_unsafe al a data pooled p = crypto_buffer_new al a data True pooled p"

text \<open>A buffer outside any pool for the caller to fill; its data is the fresh memory.\<close>

definition CRYPTO_BUFFER_alloc :: "allocator \<Rightarrow> nat \<Rightarrow> nat \<Rightarrow> pool \<Rightarrow> crypto_buffer option \<times> pool" where
  "CRYPTO_BUFFER_alloc al a len p =
     (if OPENSSL_malloc al 32 = None then (None, p)
      else
        let data = OPENSSL_malloc al len
        in if len \<noteq> 0 \<and> data = None then (None, p)
           else (Some \<lparr> bf_addr = a, bf_data = (case data of None \<Rightarrow> [] | Some d \<Rightarrow> d), bf_static = False, bf_pooled = False \<rparr>,
                 set_ref a (Some 1) p))"

definition CRYPTO_BUFFER_new_from_CBS :: "allocator \<Rightarrow> nat \<Rightarrow> bytes \<Rightarrow> bool \<Rightarrow> pool \<Rightarrow> crypto_buffer option \<times> pool" where
  "CRYPTO_BUFFER_new_from_CBS al a cbs pooled p = CRYPTO_BUFFER_new al a cbs pooled p"

text \<open>What is freed, or \<^term>\<open>None\<close> when the assertion that the pool is empty fails.\<close>

definition CRYPTO_BUFFER_POOL_free :: "pool option \<Rightarrow> crypto_buffer lhash_item list option" where
  "CRYPTO_BUFFER_POOL_free pool =
     (case pool of
        None \<Rightarrow> Some []
      | Some p \<Rightarrow> if OPENSSL_lh_num_items (pl_bufs p) \<noteq> 0 then None else Some (OPENSSL_lh_free (Some (pl_bufs p))))"

text \<open>\<open>CRYPTO_BUFFER_free\<close>; \<^term>\<open>None\<close> when it aborts or reads a count that was freed.\<close>

definition CRYPTO_BUFFER_free :: "allocator \<Rightarrow> crypto_buffer \<Rightarrow> pool \<Rightarrow> pool option" where
  "CRYPTO_BUFFER_free al buf p =
     (case pl_refs p (bf_addr buf) of
        None \<Rightarrow> None
      | Some c \<Rightarrow>
          (case CRYPTO_refcount_dec_and_test_zero c of
             None \<Rightarrow> None
           | Some (zero, c) \<Rightarrow>
               if \<not> zero then Some (set_ref (bf_addr buf) (Some c) p)
               else if \<not> bf_pooled buf then Some (set_ref (bf_addr buf) None p)
               else
                 (case buf_retrieve (pl_bufs p) buf of
                    Some found \<Rightarrow>
                      if bf_addr found = bf_addr buf
                      then Some (set_ref (bf_addr buf) None (p \<lparr> pl_bufs :=
                             snd (OPENSSL_lh_delete (\<lambda>_. CRYPTO_BUFFER_hash) (\<lambda>_. CRYPTO_BUFFER_cmp) al buf (pl_bufs p)) \<rparr>))
                      else Some (set_ref (bf_addr buf) None p)
                  | None \<Rightarrow> Some (set_ref (bf_addr buf) None p))))"

definition CRYPTO_BUFFER_up_ref :: "crypto_buffer \<Rightarrow> pool \<Rightarrow> pool" where
  "CRYPTO_BUFFER_up_ref buf p = ref_inc (bf_addr buf) p"

definition CRYPTO_BUFFER_data :: "crypto_buffer \<Rightarrow> bytes" where
  "CRYPTO_BUFFER_data buf = bf_data buf"

definition CRYPTO_BUFFER_len :: "crypto_buffer \<Rightarrow> nat" where
  "CRYPTO_BUFFER_len buf = length (bf_data buf)"

definition CRYPTO_BUFFER_init_CBS :: "crypto_buffer \<Rightarrow> bytes" where
  "CRYPTO_BUFFER_init_CBS buf = CBS_init (bf_data buf)"

section \<open>Threads\<close>

text \<open>
  The system: the pool, the references the clients hold, and the buffers that threads have allocated and
  not yet offered to the pool.  A thread in \<open>crypto_buffer_new\<close> looks up (\<open>hit\<close>), allocates and inserts;
  between any two of these steps the other threads may run.
\<close>

record system =
  sy_pool :: pool
  sy_held :: "crypto_buffer multiset"
  sy_pending :: "crypto_buffer multiset"

inductive pool_step :: "allocator \<Rightarrow> system \<Rightarrow> system \<Rightarrow> bool" for al where
  hit: "new_lookup data st p = (Some dup, p') \<Longrightarrow>
    pool_step al \<lparr> sy_pool = p, sy_held = H, sy_pending = P \<rparr>
      \<lparr> sy_pool = p', sy_held = add_mset dup H, sy_pending = P \<rparr>"
| alloc: "pl_refs p a = None \<Longrightarrow> new_alloc al a data st True p = (Some buf, p') \<Longrightarrow>
    pool_step al \<lparr> sy_pool = p, sy_held = H, sy_pending = P \<rparr>
      \<lparr> sy_pool = p', sy_held = H, sy_pending = add_mset buf P \<rparr>"
| alloc_unpooled: "pl_refs p a = None \<Longrightarrow> new_alloc al a data st False p = (Some buf, p') \<Longrightarrow>
    pool_step al \<lparr> sy_pool = p, sy_held = H, sy_pending = P \<rparr>
      \<lparr> sy_pool = p', sy_held = add_mset buf H, sy_pending = P \<rparr>"
| insert: "new_insert al buf p = (r, p') \<Longrightarrow>
    pool_step al \<lparr> sy_pool = p, sy_held = H, sy_pending = add_mset buf P \<rparr>
      \<lparr> sy_pool = p', sy_held = (case r of None \<Rightarrow> H | Some b \<Rightarrow> add_mset b H), sy_pending = P \<rparr>"
| up_ref: "buf \<in># H \<Longrightarrow>
    pool_step al \<lparr> sy_pool = p, sy_held = H, sy_pending = P \<rparr>
      \<lparr> sy_pool = CRYPTO_BUFFER_up_ref buf p, sy_held = add_mset buf H, sy_pending = P \<rparr>"
| free: "CRYPTO_BUFFER_free al buf p = Some p' \<Longrightarrow>
    pool_step al \<lparr> sy_pool = p, sy_held = add_mset buf H, sy_pending = P \<rparr>
      \<lparr> sy_pool = p', sy_held = H, sy_pending = P \<rparr>"

inductive pool_reachable :: "allocator \<Rightarrow> system \<Rightarrow> bool" for al where
  start: "CRYPTO_BUFFER_POOL_new al (\<lambda>_. None) = Some p \<Longrightarrow>
    pool_reachable al \<lparr> sy_pool = p, sy_held = {#}, sy_pending = {#} \<rparr>"
| step: "pool_reachable al s \<Longrightarrow> pool_step al s s' \<Longrightarrow> pool_reachable al s'"

section \<open>The invariant\<close>

abbreviation buf_shaped :: "crypto_buffer lhash \<Rightarrow> bool" where
  "buf_shaped \<equiv> buffers.shaped (\<lambda>_. CRYPTO_BUFFER_hash) (\<lambda>_. CRYPTO_BUFFER_cmp)"

definition pooled :: "pool \<Rightarrow> crypto_buffer set" where
  "pooled p = set_mset (lh_contents (pl_bufs p))"

definition counted :: "crypto_buffer multiset \<Rightarrow> pool \<Rightarrow> crypto_buffer \<Rightarrow> bool" where
  "counted H p b \<longleftrightarrow> (\<exists>c. pl_refs p (bf_addr b) = Some c \<and> c \<noteq> 0 \<and> (c = - 1 \<or> unat c = count H b))"

definition pool_inv :: "pool \<Rightarrow> crypto_buffer multiset \<Rightarrow> crypto_buffer multiset \<Rightarrow> bool" where
  "pool_inv p H P \<longleftrightarrow>
     buf_shaped (pl_bufs p) \<and> inj_on bf_addr (set_mset H \<union> set_mset P \<union> pooled p) \<and>
     (\<forall>b \<in># H. counted H p b) \<and>
     (\<forall>b \<in># P. pl_refs p (bf_addr b) = Some 1 \<and> count P b = 1 \<and> b \<notin># H \<and> b \<notin> pooled p \<and> bf_pooled b) \<and>
     (\<forall>b \<in> pooled p. bf_pooled b \<and> (b \<in># H \<or> pl_refs p (bf_addr b) = Some (- 1)))"

lemma retrieve_pooled:
  "buf_shaped t \<Longrightarrow> buf_retrieve t d = Some x \<longleftrightarrow> x \<in># lh_contents t \<and> bf_data x = bf_data d"
  by (simp add: buffers.shaped_def buffers.retrieve_iff [where hf = "\<lambda>_. CRYPTO_BUFFER_hash" and cf = "\<lambda>_. CRYPTO_BUFFER_cmp"] buffer_cmp_iff)

lemma duplicate_pooled: "buf_shaped (pl_bufs p) \<Longrightarrow> find_duplicate p d = Some x \<Longrightarrow> x \<in> pooled p \<and> bf_data x = bf_data d"
  by (auto simp: find_duplicate_def pooled_def retrieve_pooled split: option.splits if_splits)

lemma max_u32: "(x :: u32) < - 1 \<longleftrightarrow> x \<noteq> - 1"
  using word_order.not_eq_extremum [of x] by simp

lemma unat_inc: "(x :: u32) \<noteq> - 1 \<Longrightarrow> unat (x + 1) = unat x + 1"
  using unatSuc [of x] by (simp add: add.commute eq_neg_iff_add_eq_0)

lemma unat_dec: "(x :: u32) \<noteq> 0 \<Longrightarrow> unat (x - 1) = unat x - 1"
  by (simp add: unat_sub word_le_nat_alt Suc_leI unat_gt_0)

text \<open>A reference to a pooled or held buffer is added.\<close>

lemma counted_inc:
  assumes "counted H p b \<or> b \<notin># H \<and> pl_refs p (bf_addr b) = Some (- 1)"
  shows "counted (add_mset b H) (ref_inc (bf_addr b) p) b"
proof -
  obtain c where c: "pl_refs p (bf_addr b) = Some c" "c \<noteq> 0" "c = - 1 \<or> unat c = count H b"
    using assms by (auto simp: counted_def)
  show ?thesis
  proof (cases "c = - 1")
    case True
    then show ?thesis using c by (simp add: counted_def ref_inc_def set_ref_def CRYPTO_refcount_inc_def)
  next
    case False
    then have "unat (c + 1) = count (add_mset b H) b" using c unat_inc by simp
    moreover from this have "c + 1 \<noteq> 0" by auto
    ultimately show ?thesis using c(1) False
      by (simp add: counted_def ref_inc_def set_ref_def CRYPTO_refcount_inc_def max_u32)
  qed
qed

lemma counted_other:
  "bf_addr b \<noteq> a \<Longrightarrow> counted H (set_ref a c p) b = counted H p b"
  "b' \<noteq> b \<Longrightarrow> counted (add_mset b' H) p b = counted H p b"
  "counted H (p \<lparr> pl_bufs := t \<rparr>) b = counted H p b"
  by (simp_all add: counted_def set_ref_def)

lemma counted_grow: "b \<notin># H \<Longrightarrow> x \<in># H \<Longrightarrow> counted (add_mset b H) p x = counted H p x"
  by (cases "x = b") (simp_all add: counted_def)

lemma set_ref_simps [simp]:
  "pl_refs (set_ref a c p) x = (if x = a then c else pl_refs p x)" "pl_bufs (set_ref a c p) = pl_bufs p"
  "pooled (set_ref a c p) = pooled p"
  by (simp_all add: set_ref_def pooled_def)

lemma ref_inc_simps [simp]: "pl_bufs (ref_inc a p) = pl_bufs p" "pooled (ref_inc a p) = pooled p"
  "x \<noteq> a \<Longrightarrow> pl_refs (ref_inc a p) x = pl_refs p x"
  by (simp_all add: ref_inc_def)

lemma add_reference:
  assumes i: "pool_inv p H P" and b: "b \<in> pooled p \<or> b \<in># H"
  shows "pool_inv (ref_inc (bf_addr b) p) (add_mset b H) P"
proof -
  have inj: "inj_on bf_addr (set_mset H \<union> set_mset P \<union> pooled p)" using i by (simp add: pool_inv_def)
  have other: "x = b \<or> bf_addr x \<noteq> bf_addr b" if "x \<in> set_mset H \<union> set_mset P \<union> pooled p" for x
    using inj_onD [OF inj, of x b] that b by auto
  have nP: "b \<notin># P" using i b by (auto simp: pool_inv_def)
  have c: "counted H p b \<or> b \<notin># H \<and> pl_refs p (bf_addr b) = Some (- 1)"
    using i b by (auto simp: pool_inv_def)
  have same: "set_mset (add_mset b H) \<union> set_mset P \<union> pooled p = set_mset H \<union> set_mset P \<union> pooled p" using b by auto
  have "counted (add_mset b H) (ref_inc (bf_addr b) p) x" if x: "x \<in># add_mset b H" for x
  proof (cases "x = b")
    case False
    then have "x \<in># H" "bf_addr x \<noteq> bf_addr b" using x other by auto
    then show ?thesis using i False by (simp add: pool_inv_def counted_other ref_inc_def)
  qed (use counted_inc [OF c] in simp)
  moreover have "pl_refs (ref_inc (bf_addr b) p) (bf_addr x) = pl_refs p (bf_addr x)"
    if "x \<in> set_mset H \<union> set_mset P \<union> pooled p" "x \<noteq> b" for x
    using other [OF that(1)] that(2) by simp
  ultimately show ?thesis using i nP unfolding pool_inv_def ref_inc_simps same by fastforce
qed

lemma inv_allocated:
  "pool_inv p H P \<Longrightarrow> x \<in> set_mset H \<union> set_mset P \<union> pooled p \<Longrightarrow> pl_refs p (bf_addr x) \<noteq> None"
  unfolding pool_inv_def counted_def by (elim UnE) force+

lemma new_buffer:
  assumes i: "pool_inv p H P" and a: "pl_refs p (bf_addr b) = None"
  shows "bf_pooled b \<Longrightarrow> pool_inv (set_ref (bf_addr b) (Some 1) p) H (add_mset b P)"
    "pool_inv (set_ref (bf_addr b) (Some 1) p) (add_mset b H) P"
proof -
  have other: "bf_addr x \<noteq> bf_addr b" if "x \<in> set_mset H \<union> set_mset P \<union> pooled p" for x
    using inv_allocated [OF i that] a by metis
  then have new: "b \<notin> set_mset H \<union> set_mset P \<union> pooled p" by blast
  have inj: "inj_on bf_addr (insert b (set_mset H \<union> set_mset P \<union> pooled p))"
  proof -
    have "bf_addr b \<notin> bf_addr ` (set_mset H \<union> set_mset P \<union> pooled p - {b})" using other by force
    then show ?thesis using i by (simp add: pool_inv_def)
  qed
  then show "pool_inv (set_ref (bf_addr b) (Some 1) p) H (add_mset b P)" if "bf_pooled b"
    using i other new that by (auto simp: pool_inv_def counted_other not_in_iff)
  have "counted (add_mset b H) (set_ref (bf_addr b) (Some 1) p) b"
    using new by (simp add: counted_def not_in_iff)
  then show "pool_inv (set_ref (bf_addr b) (Some 1) p) (add_mset b H) P"
    using i other new inj by (auto simp: pool_inv_def counted_other counted_grow)
qed

lemma free_unused:
  assumes i: "pool_inv p H P" and b: "\<And>x. x \<in> set_mset H \<union> set_mset P \<union> pooled p \<Longrightarrow> bf_addr x \<noteq> a"
  shows "pool_inv (set_ref a None p) H P"
  using i b by (auto simp: pool_inv_def counted_other)

lemma drop_pending:
  assumes i: "pool_inv p H (add_mset b P)"
  shows "pool_inv p H P" "x \<in> set_mset H \<union> set_mset P \<union> pooled p \<Longrightarrow> bf_addr x \<noteq> bf_addr b" "pl_refs p (bf_addr b) = Some 1"
    "bf_pooled b" "b \<notin># H" "b \<notin> pooled p" "b \<notin># P"
proof -
  have inj: "inj_on bf_addr (set_mset H \<union> insert b (set_mset P) \<union> pooled p)" using i by (simp add: pool_inv_def)
  show nb: "b \<notin># H" "b \<notin> pooled p" "b \<notin># P" "pl_refs p (bf_addr b) = Some 1" "bf_pooled b"
    using i by (auto simp: pool_inv_def count_eq_zero_iff)
  show "bf_addr x \<noteq> bf_addr b" if "x \<in> set_mset H \<union> set_mset P \<union> pooled p"
    using inj_onD [OF inj, of x b] that nb by auto
  have "count P x = 1" if "x \<in># P" for x
    using i that nb(3) by (auto simp: pool_inv_def split: if_splits)
  then show "pool_inv p H P"
    using i inj_on_subset [OF inj, of "set_mset H \<union> set_mset P \<union> pooled p"] by (auto simp: pool_inv_def)
qed

lemma pool_inv_table:
  assumes i: "pool_inv p H P" and t: "buf_shaped t"
    and c: "\<And>x. x \<in># lh_contents t \<Longrightarrow> x \<in> pooled p \<or> (x \<in># H \<and> bf_pooled x)"
    and n: "\<And>x. x \<in># lh_contents t \<Longrightarrow> x \<notin># P"
  shows "pool_inv (p \<lparr> pl_bufs := t \<rparr>) H P"
proof -
  have inj: "inj_on bf_addr (set_mset H \<union> set_mset P \<union> pooled p)" using i by (simp add: pool_inv_def)
  have "inj_on bf_addr (set_mset H \<union> set_mset P \<union> pooled (p \<lparr> pl_bufs := t \<rparr>))"
    using c by (intro inj_on_subset [OF inj]) (auto simp: pooled_def)
  then show ?thesis using i t c n by (fastforce simp: pool_inv_def counted_other pooled_def)
qed

lemma insert_inv:
  assumes i: "pool_inv p H (add_mset b P)" and n: "new_insert al b p = (r, p')"
  shows "pool_inv p' (case r of None \<Rightarrow> H | Some b \<Rightarrow> add_mset b H) P"
proof -
  note d = drop_pending [OF i]
  have s: "buf_shaped (pl_bufs p)" using i by (simp add: pool_inv_def)
  show ?thesis
  proof (cases "find_duplicate p b")
    case (Some dup)
    from duplicate_pooled [OF s Some] have dup: "dup \<in> pooled p" by simp
    have "pool_inv (ref_inc (bf_addr dup) p) (add_mset dup H) P" using add_reference [OF d(1)] dup by blast
    then have "pool_inv (set_ref (bf_addr b) None (ref_inc (bf_addr dup) p)) (add_mset dup H) P"
      using d(2) dup by (intro free_unused) auto
    moreover have "r = Some dup" "p' = set_ref (bf_addr b) None (ref_inc (bf_addr dup) p)"
      using Some n by (simp_all add: new_insert_def)
    ultimately show ?thesis by simp
  next
    case None
    obtain ok old t where i': "OPENSSL_lh_insert (\<lambda>_. CRYPTO_BUFFER_hash) (\<lambda>_. CRYPTO_BUFFER_cmp) al b (pl_bufs p) = ((ok, old), t)"
      by (cases "OPENSSL_lh_insert (\<lambda>_. CRYPTO_BUFFER_hash) (\<lambda>_. CRYPTO_BUFFER_cmp) al b (pl_bufs p)") auto
    note t = buffers.insert_ok [OF s i']
    show ?thesis
    proof (cases ok)
      case False
      then have "t = pl_bufs p" using t by simp
      then have "p \<lparr> pl_bufs := t \<rparr> = p" by simp
      with free_unused [OF d(1,2)] False None n i' show ?thesis by (auto simp: new_insert_def)
    next
      case True
      have "counted (add_mset b H) p b" using d(3,5) by (simp add: counted_def not_in_iff)
      moreover have "inj_on bf_addr (set_mset (add_mset b H) \<union> set_mset P \<union> pooled p)"
        using i by (simp add: pool_inv_def)
      moreover have "x \<noteq> b" if "x \<in># H" for x using that d(5) by blast
      ultimately have "pool_inv p (add_mset b H) P"
        using d(1,5,7) by (auto simp: pool_inv_def counted_grow)
      moreover have "x \<in> pooled p \<or> (x \<in># add_mset b H \<and> bf_pooled x)" "x \<notin># P" if x: "x \<in># lh_contents t" for x
      proof -
        have "x \<in> pooled p \<or> x = b" using t True x by (auto simp: pooled_def)
        moreover have "\<forall>y \<in># P. y \<notin> pooled p" using d(1) by (auto simp: pool_inv_def)
        ultimately show "x \<in> pooled p \<or> (x \<in># add_mset b H \<and> bf_pooled x)" "x \<notin># P" using d(4,7) by auto
      qed
      ultimately have "pool_inv (p \<lparr> pl_bufs := t \<rparr>) (add_mset b H) P"
        using t by (intro pool_inv_table) simp_all
      with True None n i' show ?thesis by (auto simp: new_insert_def)
    qed
  qed
qed

lemma free_inv:
  assumes i: "pool_inv p (add_mset b H) P"
  shows "\<exists>p'. CRYPTO_BUFFER_free al b p = Some p' \<and> pool_inv p' H P"
proof -
  have inj: "inj_on bf_addr (set_mset (add_mset b H) \<union> set_mset P \<union> pooled p)" and s: "buf_shaped (pl_bufs p)"
    and cH: "\<forall>x \<in># add_mset b H. counted (add_mset b H) p x"
    and cP: "\<forall>x \<in># P. pl_refs p (bf_addr x) = Some 1 \<and> count P x = 1 \<and> x \<notin># add_mset b H \<and> x \<notin> pooled p \<and> bf_pooled x"
    and cT: "\<forall>x \<in> pooled p. bf_pooled x \<and> (x \<in># add_mset b H \<or> pl_refs p (bf_addr x) = Some (- 1))"
    using i unfolding pool_inv_def by blast+
  obtain c where c: "pl_refs p (bf_addr b) = Some c" "c \<noteq> 0" "c = - 1 \<or> unat c = Suc (count H b)"
    using cH by (auto simp: counted_def)
  have other: "bf_addr x \<noteq> bf_addr b" if "x \<in> set_mset H \<union> set_mset P \<union> pooled p" "x \<noteq> b" for x
    using inj_onD [OF inj, of x b] that by auto
  have inj': "inj_on bf_addr (set_mset H \<union> set_mset P \<union> pooled p)" by (rule inj_on_subset [OF inj]) auto
  have keep: "counted H (set_ref (bf_addr b) r p) x" if "x \<in># H" "x \<noteq> b" for x r
    using cH that other [of x] by (auto simp: counted_other)
  have nP: "b \<notin># P" using cP by auto
  define c' where "c' = (if c < - 1 then c - 1 else c)"
  have dec: "CRYPTO_refcount_dec_and_test_zero c = Some (c' = 0, c')"
    using c(2) by (simp add: CRYPTO_refcount_dec_and_test_zero_def c'_def Let_def)
  have c': "c' = 0 \<longleftrightarrow> c \<noteq> - 1 \<and> count H b = 0" "c' \<noteq> - 1 \<Longrightarrow> unat c' = count H b"
    "c = - 1 \<Longrightarrow> c' = - 1"
    using c unat_dec [of c] by (auto simp: c'_def max_u32 unat_eq_zero [symmetric])
  show ?thesis
  proof (cases "c' = 0")
    case False
    have "pool_inv (set_ref (bf_addr b) (Some c') p) H P"
    proof -
      have "counted H (set_ref (bf_addr b) (Some c') p) b" using False c' by (auto simp: counted_def)
      moreover have "x \<in># H \<or> pl_refs (set_ref (bf_addr b) (Some c') p) (bf_addr x) = Some (- 1)" if "x \<in> pooled p" for x
      proof (cases "x = b")
        case True
        then show ?thesis using False c'(1,3) by (cases "c = - 1") (auto simp: count_eq_zero_iff)
      next
        case ne: False
        with that have "bf_addr x \<noteq> bf_addr b" using other [of x] by blast
        then show ?thesis using cT that ne by auto
      qed
      ultimately show ?thesis
        unfolding pool_inv_def set_ref_simps using s inj' keep cP cT nP other by auto
    qed
    with False dec c(1) show ?thesis by (simp add: CRYPTO_BUFFER_free_def)
  next
    case True
    then have nH: "b \<notin># H" using c'(1) by (simp add: not_in_iff)
    have fin: "pool_inv (set_ref (bf_addr b) None (p \<lparr> pl_bufs := t \<rparr>)) H P"
      if t: "buf_shaped t" "set_mset (lh_contents t) \<subseteq> pooled p - {b}" for t
    proof -
      have "inj_on bf_addr (set_mset H \<union> set_mset P \<union> set_mset (lh_contents t))"
        using t(2) by (intro inj_on_subset [OF inj']) auto
      moreover have "bf_pooled x \<and> (x \<in># H \<or> pl_refs p (bf_addr x) = Some (- 1)) \<and> bf_addr x \<noteq> bf_addr b"
        if "x \<in># lh_contents t" for x
        using t(2) that cT other [of x] by auto
      moreover have "counted H (set_ref (bf_addr b) None (p \<lparr> pl_bufs := t \<rparr>)) x" if "x \<in># H" for x
      proof -
        have "x \<noteq> b" using that nH by blast
        with keep [OF that this, of None] show ?thesis by (simp add: counted_def set_ref_def)
      qed
      moreover have "pl_refs p (bf_addr x) = Some 1 \<and> count P x = 1 \<and> x \<notin># H \<and> x \<notin># lh_contents t \<and> bf_pooled x \<and> bf_addr x \<noteq> bf_addr b"
        if "x \<in># P" for x
        using cP that t(2) other [of x] nP by auto
      ultimately show ?thesis using t(1) by (auto simp: pool_inv_def pooled_def set_ref_def)
    qed
    have self: "p \<lparr> pl_bufs := pl_bufs p \<rparr> = p" by simp
    have uniq: "x = b" if "x \<in> pooled p" "bf_addr x = bf_addr b" for x using other [of x] that by auto
    have stay: "pool_inv (set_ref (bf_addr b) None p) H P" if "b \<notin> pooled p"
      using fin [OF s] that unfolding self pooled_def by blast
    show ?thesis
    proof (cases "bf_pooled b")
      case False
      then have "b \<notin> pooled p" using cT by auto
      from stay [OF this] show ?thesis using dec c(1) True False by (simp add: CRYPTO_BUFFER_free_def)
    next
      case pool: True
      show ?thesis
      proof (cases "\<exists>f. buf_retrieve (pl_bufs p) b = Some f \<and> bf_addr f = bf_addr b")
        case True
        then obtain f where f: "buf_retrieve (pl_bufs p) b = Some f" "bf_addr f = bf_addr b" by blast
        then have "f = b" using uniq retrieve_pooled [OF s, of b f] by (simp add: pooled_def)
        obtain old t where t: "OPENSSL_lh_delete (\<lambda>_. CRYPTO_BUFFER_hash) (\<lambda>_. CRYPTO_BUFFER_cmp) al b (pl_bufs p) = (old, t)"
          by (cases "OPENSSL_lh_delete (\<lambda>_. CRYPTO_BUFFER_hash) (\<lambda>_. CRYPTO_BUFFER_cmp) al b (pl_bufs p)")
        note del = buffers.delete_ok [OF s t]
        then have "set_mset (lh_contents t) \<subseteq> pooled p - {b}" by (auto simp: pooled_def buffer_cmp_iff)
        with fin del have "pool_inv (set_ref (bf_addr b) None (p \<lparr> pl_bufs := t \<rparr>)) H P" by blast
        then show ?thesis using dec c(1) \<open>c' = 0\<close> pool f t by (simp add: CRYPTO_BUFFER_free_def)
      next
        case False
        have "b \<notin> pooled p"
        proof
          assume "b \<in> pooled p"
          then have "buf_retrieve (pl_bufs p) b = Some b" using retrieve_pooled [OF s, of b b] by (simp add: pooled_def)
          with False show False by blast
        qed
        from stay [OF this] False show ?thesis
          using dec c(1) \<open>c' = 0\<close> pool by (auto simp: CRYPTO_BUFFER_free_def split: option.splits)
      qed
    qed
  qed
qed

lemma pool_new_inv: "CRYPTO_BUFFER_POOL_new al (\<lambda>_. None) = Some p \<Longrightarrow> pool_inv p {#} {#}"
proof -
  assume "CRYPTO_BUFFER_POOL_new al (\<lambda>_. None) = Some p"
  then obtain t where t: "OPENSSL_lh_new al 0 0 = Some t" "p = \<lparr> pl_bufs = t, pl_refs = \<lambda>_. None \<rparr>"
    by (auto simp: CRYPTO_BUFFER_POOL_new_def split: option.splits)
  then have "lh_contents t = {#}"
    by (auto simp: OPENSSL_lh_new_def lh_contents_def lh_items_def split: option.splits)
  with t lh_new_shaped(1) [OF buffers.hash_functions_axioms t(1)] show ?thesis
    by (simp add: pool_inv_def pooled_def)
qed

lemma pool_step_inv:
  "pool_step al s s' \<Longrightarrow> pool_inv (sy_pool s) (sy_held s) (sy_pending s) \<Longrightarrow> pool_inv (sy_pool s') (sy_held s') (sy_pending s')"
proof (induction rule: pool_step.induct)
  case (hit data st p dup p' H P)
  then have s: "buf_shaped (pl_bufs p)" by (simp add: pool_inv_def)
  from hit(1) obtain d where "find_duplicate p d = Some dup" "p' = ref_inc (bf_addr dup) p"
    by (auto simp: new_lookup_def split: option.splits)
  with add_reference [of p H P dup] duplicate_pooled [OF s] hit(2) show ?case by simp
next
  case (alloc p a data st buf p' H P)
  then show ?case using new_buffer(1) [of p H P buf] by (auto simp: new_alloc_def split: if_splits)
next
  case (alloc_unpooled p a data st buf p' H P)
  then show ?case using new_buffer(2) [of p H P buf] by (auto simp: new_alloc_def split: if_splits)
next
  case (insert buf p r p' H P)
  then show ?case using insert_inv [of p H buf P al r p'] by simp
next
  case (up_ref buf H p P)
  then show ?case using add_reference [of p H P buf] by (simp add: CRYPTO_BUFFER_up_ref_def)
next
  case (free buf p p' H P)
  then show ?case using free_inv [of p buf H P al] by auto
qed

lemma pool_reachable_inv: "pool_reachable al s \<Longrightarrow> pool_inv (sy_pool s) (sy_held s) (sy_pending s)"
  by (induction rule: pool_reachable.induct) (auto intro: pool_step_inv pool_new_inv)

section \<open>Properties\<close>

text \<open>
  C13. No use after free, in any interleaving of threads that create, share and free buffers: in every
  reachable state each buffer in the pool's table, each reference a client holds and each buffer being
  created is allocated, and addresses identify buffers.
\<close>

theorem pool_no_dangling:
  assumes "pool_reachable al s" "b \<in># sy_held s \<or> b \<in># sy_pending s \<or> b \<in># lh_contents (pl_bufs (sy_pool s))"
  shows "(\<exists>c. pl_refs (sy_pool s) (bf_addr b) = Some c \<and> c \<noteq> 0) \<and>
    (\<forall>b'. (b' \<in># sy_held s \<or> b' \<in># sy_pending s \<or> b' \<in># lh_contents (pl_bufs (sy_pool s))) \<and> bf_addr b' = bf_addr b \<longrightarrow> b' = b)"
proof -
  from pool_reachable_inv [OF assms(1)]
  have inj: "inj_on bf_addr (set_mset (sy_held s) \<union> set_mset (sy_pending s) \<union> pooled (sy_pool s))"
    and held: "\<forall>b \<in># sy_held s. counted (sy_held s) (sy_pool s) b"
    and pend: "\<forall>b \<in># sy_pending s. pl_refs (sy_pool s) (bf_addr b) = Some 1"
    and tab: "\<forall>b \<in> pooled (sy_pool s). b \<in># sy_held s \<or> pl_refs (sy_pool s) (bf_addr b) = Some (- 1)"
    unfolding pool_inv_def by blast+
  have b: "b \<in> set_mset (sy_held s) \<union> set_mset (sy_pending s) \<union> pooled (sy_pool s)"
    using assms(2) by (auto simp: pooled_def)
  have "\<exists>c. pl_refs (sy_pool s) (bf_addr x) = Some c \<and> c \<noteq> 0" if "x \<in># sy_held s" for x
    using held that by (auto simp: counted_def)
  then have "\<exists>c. pl_refs (sy_pool s) (bf_addr b) = Some c \<and> c \<noteq> 0" using b pend tab by force
  then show ?thesis using inj_onD [OF inj _ _ b] by (auto simp: pooled_def)
qed

text \<open>
  C14. Reference counts are exact: the count of a buffer that clients hold is the number of references they
  hold, unless it has saturated, and a client may always free a reference it holds: \<open>CRYPTO_BUFFER_free\<close>
  never aborts and never reads freed memory.
\<close>

theorem pool_refcount_exact:
  assumes "pool_reachable al s" "b \<in># sy_held s"
  shows "(\<exists>c. pl_refs (sy_pool s) (bf_addr b) = Some c \<and> (c = - 1 \<or> unat c = count (sy_held s) b)) \<and>
    CRYPTO_BUFFER_free al b (sy_pool s) \<noteq> None"
proof -
  note i = pool_reachable_inv [OF assms(1)]
  obtain H where H: "sy_held s = add_mset b H" using assms(2) by (rule mset_add)
  have "CRYPTO_BUFFER_free al b (sy_pool s) \<noteq> None" using free_inv [OF i [unfolded H]] by auto
  moreover have "counted (sy_held s) (sy_pool s) b" using i assms(2) unfolding pool_inv_def by blast
  ultimately show ?thesis by (auto simp: counted_def)
qed



definition sample_pool :: pool where
  "sample_pool = the (CRYPTO_BUFFER_POOL_new (arena 1000) (\<lambda>_. None))"

definition sample_buf :: crypto_buffer where
  "sample_buf = \<lparr> bf_addr = 7, bf_data = [1, 2], bf_static = False, bf_pooled = True \<rparr>"

definition sample_pool2 :: pool where
  "sample_pool2 = snd (new_insert (arena 1000) sample_buf (set_ref 7 (Some 1) sample_pool))"

definition sample_system :: system where
  "sample_system = \<lparr> sy_pool = sample_pool2, sy_held = {#sample_buf#}, sy_pending = {#} \<rparr>"

lemma sample_pool_new: "CRYPTO_BUFFER_POOL_new (arena 1000) (\<lambda>_. None) = Some sample_pool"
  by (simp add: sample_pool_def CRYPTO_BUFFER_POOL_new_def OPENSSL_lh_new_def OPENSSL_malloc_def arena_def size_add_def)

lemma sample_insert: "fst (new_insert (arena 1000) sample_buf (set_ref 7 (Some 1) sample_pool)) = Some sample_buf"
  by code_simp

lemma sample_reachable: "pool_reachable (arena 1000) sample_system"
proof -
  let ?p1 = "set_ref 7 (Some 1) sample_pool"
  have "pl_refs sample_pool 7 = None"
    by (simp add: sample_pool_def CRYPTO_BUFFER_POOL_new_def OPENSSL_lh_new_def OPENSSL_malloc_def arena_def size_add_def)
  moreover have "new_alloc (arena 1000) 7 [1, 2] False True sample_pool = (Some sample_buf, ?p1)"
    by (simp add: new_alloc_def sample_buf_def OPENSSL_memdup_def OPENSSL_malloc_def arena_def size_add_def)
  ultimately have "pool_reachable (arena 1000) \<lparr> sy_pool = ?p1, sy_held = {#}, sy_pending = {#sample_buf#} \<rparr>"
    by (intro pool_reachable.step [OF pool_reachable.start [OF sample_pool_new]] pool_step.alloc)
  moreover have "new_insert (arena 1000) sample_buf ?p1 = (Some sample_buf, sample_pool2)"
    using sample_insert by (simp add: sample_pool2_def prod_eq_iff)
  then have "pool_step (arena 1000) \<lparr> sy_pool = ?p1, sy_held = {#}, sy_pending = {#sample_buf#} \<rparr> sample_system"
    unfolding sample_system_def using pool_step.insert [of "arena 1000" sample_buf ?p1 "Some sample_buf" sample_pool2 "{#}" "{#}"] by simp
  ultimately show ?thesis by (rule pool_reachable.step)
qed

theorem pool_no_dangling_witness:
  "\<exists>c. pl_refs (sy_pool sample_system) (bf_addr sample_buf) = Some c \<and> c \<noteq> 0"
  using pool_no_dangling [OF sample_reachable, of sample_buf] by (simp add: sample_system_def)

theorem pool_refcount_exact_witness:
  "(\<exists>c. pl_refs (sy_pool sample_system) (bf_addr sample_buf) = Some c \<and> (c = - 1 \<or> unat c = count (sy_held sample_system) sample_buf)) \<and>
    CRYPTO_BUFFER_free (arena 1000) sample_buf (sy_pool sample_system) \<noteq> None"
  by (rule pool_refcount_exact [OF sample_reachable]) (simp add: sample_system_def)


section \<open>The hash table on buffers\<close>

definition sample_lh :: "crypto_buffer lhash" where
  "sample_lh = the (OPENSSL_lh_new (arena 1000) 0 0)"

definition sample_table_calls :: "crypto_buffer table_call list" where
  "sample_table_calls = [Insert sample_buf, Insert (sample_buf \<lparr> bf_addr := 8 \<rparr>), Retrieve sample_buf, Delete sample_buf]"

definition sample_table_run :: "(bool \<times> crypto_buffer option) list \<times> crypto_buffer lhash" where
  "sample_table_run = table_run (OPENSSL_lh_insert (\<lambda>_. CRYPTO_BUFFER_hash) (\<lambda>_. CRYPTO_BUFFER_cmp) (arena 1000))
     (OPENSSL_lh_delete (\<lambda>_. CRYPTO_BUFFER_hash) (\<lambda>_. CRYPTO_BUFFER_cmp) (arena 1000)) buf_retrieve sample_table_calls sample_lh"

lemma sample_lh_new: "OPENSSL_lh_new (arena 1000) 0 0 = Some sample_lh"
  by (simp add: sample_lh_def OPENSSL_lh_new_def OPENSSL_malloc_def arena_def size_add_def)

lemma sample_run_eq:
  "table_run (OPENSSL_lh_insert (\<lambda>_. CRYPTO_BUFFER_hash) (\<lambda>_. CRYPTO_BUFFER_cmp) (arena 1000))
     (OPENSSL_lh_delete (\<lambda>_. CRYPTO_BUFFER_hash) (\<lambda>_. CRYPTO_BUFFER_cmp) (arena 1000)) buf_retrieve sample_table_calls sample_lh =
   (fst sample_table_run, snd sample_table_run)"
  by (simp add: sample_table_run_def)

theorem lhash_refines_map_witness:
  "length (fst sample_table_run) = length sample_table_calls \<and>
   map_replay (\<lambda>a b. CRYPTO_BUFFER_cmp a b = 0) (zip sample_table_calls (fst sample_table_run)) (\<lambda>_. None) =
     Some (buf_retrieve (snd sample_table_run))"
  by (rule lhash_refines_map [OF buffers.hash_functions_axioms sample_lh_new sample_run_eq])

theorem lhash_invariant_witness:
  "length (lh_buckets (snd sample_table_run)) = lh_num_buckets (snd sample_table_run) \<and> 16 \<le> lh_num_buckets (snd sample_table_run)"
  using lhash_invariant [OF buffers.hash_functions_axioms sample_lh_new sample_run_eq] by blast

theorem lhash_doall_visits_witness:
  "\<exists>xs lh'. mset xs = lh_contents sample_lh \<and>
    OPENSSL_lh_doall_arg (arena 1000) (\<lambda>b n. n + length (bf_data b)) (Some sample_lh) 0 = (fold (\<lambda>b n. n + length (bf_data b)) xs 0, Some lh') \<and>
    lh_contents lh' = lh_contents sample_lh \<and> wf_lhash (\<lambda>_. CRYPTO_BUFFER_hash) (\<lambda>_. CRYPTO_BUFFER_cmp) lh' \<and>
    (unat (lh_callback_depth sample_lh) = 2 ^ 32 - 2 \<or> lh_callback_depth lh' = lh_callback_depth sample_lh)"
  by (rule lhash_doall_visits)
    (use lh_new_shaped(1) [OF buffers.hash_functions_axioms sample_lh_new] in \<open>simp add: buffers.shaped_def\<close>)

end
