(* ===== verification/CStr.thy ===== *)
theory CStr
  imports Mem Cbs "HOL-Library.Code_Target_Numeral"
begin

text \<open>
  The string helpers of \<open>crypto/mem.c\<close>.  A \<open>char\<close> pointer is the memory it points to, a list of bytes; the
  string ends at the first NUL.  A read past the end of the memory is undefined in C and \<^term>\<open>None\<close> here,
  so every lemma about a string says that the terminator is there.  \<open>char\<close> is signed.
\<close>

section \<open>The code\<close>

definition strlen :: "bytes \<Rightarrow> nat option" where
  "strlen s = memchr_index s 0"

definition OPENSSL_strhash :: "bytes \<Rightarrow> u32 option" where
  "OPENSSL_strhash s = map_option (\<lambda>n. OPENSSL_hash32 (take n s)) (strlen s)"

fun strnlen_loop :: "bytes \<Rightarrow> nat \<Rightarrow> nat \<Rightarrow> nat option" where
  "strnlen_loop s i 0 = Some i"
| "strnlen_loop [] i (Suc n) = None"
| "strnlen_loop (c # s) i (Suc n) = (if c = 0 then Some i else strnlen_loop s (Suc i) n)"

definition OPENSSL_strnlen :: "bytes \<Rightarrow> nat \<Rightarrow> nat option" where
  "OPENSSL_strnlen s len = strnlen_loop s 0 len"

text \<open>The outer option is the reads, the inner one the returned pointer.\<close>

definition OPENSSL_strdup :: "allocator \<Rightarrow> bytes option \<Rightarrow> bytes option option" where
  "OPENSSL_strdup al s =
     (case s of
        None \<Rightarrow> Some None
      | Some s \<Rightarrow>
          (case strlen s of
             None \<Rightarrow> None
           | Some n \<Rightarrow>
               (let len = size_add n 1 in
                case OPENSSL_malloc al len of
                  None \<Rightarrow> Some None
                | Some ret \<Rightarrow> Some (Some (take len s @ drop len ret)))))"

definition OPENSSL_tolower :: "int \<Rightarrow> int" where
  "OPENSSL_tolower c = (if c \<ge> 65 \<and> c \<le> 90 then c + (97 - 65) else c)"

fun OPENSSL_strcasecmp :: "bytes \<Rightarrow> bytes \<Rightarrow> int option" where
  "OPENSSL_strcasecmp (x # a) (y # b) =
     (let aa = OPENSSL_tolower (sint x); bb = OPENSSL_tolower (sint y)
      in if aa < bb then Some (-1) else if aa > bb then Some 1 else if aa = 0 then Some 0
         else OPENSSL_strcasecmp a b)"
| "OPENSSL_strcasecmp _ _ = None"

fun OPENSSL_strncasecmp :: "bytes \<Rightarrow> bytes \<Rightarrow> nat \<Rightarrow> int option" where
  "OPENSSL_strncasecmp a b 0 = Some 0"
| "OPENSSL_strncasecmp (x # a) (y # b) (Suc n) =
     (let aa = OPENSSL_tolower (sint x); bb = OPENSSL_tolower (sint y)
      in if aa < bb then Some (-1) else if aa > bb then Some 1 else if aa = 0 then Some 0
         else OPENSSL_strncasecmp a b n)"
| "OPENSSL_strncasecmp _ _ (Suc n) = None"

definition OPENSSL_strndup :: "allocator \<Rightarrow> bytes \<Rightarrow> nat \<Rightarrow> bytes option option" where
  "OPENSSL_strndup al str sz =
     (case OPENSSL_strnlen str sz of
        None \<Rightarrow> None
      | Some sz \<Rightarrow>
          (let alloc_size = size_add sz 1 in
           if alloc_size < sz then Some None
           else case OPENSSL_malloc al alloc_size of
                  None \<Rightarrow> Some None
                | Some ret \<Rightarrow> Some (Some ((take sz str @ drop sz ret)[sz := 0]))))"

text \<open>\<open>CBS_strdup\<close> (\<open>cbs.c\<close>): the success flag and the new \<open>*out_ptr\<close>.\<close>

definition CBS_strdup :: "allocator \<Rightarrow> bytes \<Rightarrow> (bool \<times> bytes option) option" where
  "CBS_strdup al cbs = map_option (\<lambda>p. (p \<noteq> None, p)) (OPENSSL_strndup al (CBS_data cbs) (CBS_len cbs))"

text \<open>The copying loop: \<open>d\<close> is how far \<open>dst\<close> has moved, \<open>l\<close> the count.\<close>

fun strlcpy_loop :: "bytes \<Rightarrow> nat \<Rightarrow> nat \<Rightarrow> bytes \<Rightarrow> nat \<Rightarrow> nat \<times> nat \<times> nat \<times> bytes \<times> bytes" where
  "strlcpy_loop dst d l (c # src) dst_size =
     (if dst_size > 1 \<and> c \<noteq> 0 then strlcpy_loop (dst[d := c]) (d + 1) (l + 1) src (dst_size - 1)
      else (l, d, dst_size, dst, c # src))"
| "strlcpy_loop dst d l [] dst_size = (l, d, dst_size, dst, [])"

definition strlcpy_at :: "bytes \<Rightarrow> nat \<Rightarrow> bytes \<Rightarrow> nat \<Rightarrow> (nat \<times> bytes) option" where
  "strlcpy_at dst d src dst_size =
     (case strlcpy_loop dst d 0 src dst_size of
        (l, d, dst_size, dst, src) \<Rightarrow>
          map_option (\<lambda>n. (size_add l n, if dst_size > 0 then dst[d := 0] else dst)) (strlen src))"

definition OPENSSL_strlcpy :: "bytes \<Rightarrow> bytes \<Rightarrow> nat \<Rightarrow> (nat \<times> bytes) option" where
  "OPENSSL_strlcpy dst src dst_size = strlcpy_at dst 0 src dst_size"

fun strlcat_loop :: "bytes \<Rightarrow> nat \<Rightarrow> nat \<Rightarrow> (nat \<times> nat) option" where
  "strlcat_loop dst l 0 = Some (l, 0)"
| "strlcat_loop [] l (Suc n) = None"
| "strlcat_loop (c # dst) l (Suc n) = (if c \<noteq> 0 then strlcat_loop dst (l + 1) n else Some (l, Suc n))"

definition OPENSSL_strlcat :: "bytes \<Rightarrow> bytes \<Rightarrow> nat \<Rightarrow> (nat \<times> bytes) option" where
  "OPENSSL_strlcat dst src dst_size =
     (case strlcat_loop dst 0 dst_size of
        None \<Rightarrow> None
      | Some (l, dst_size) \<Rightarrow> map_option (\<lambda>(n, dst). (size_add l n, dst)) (strlcpy_at dst l src dst_size))"

section \<open>C strings\<close>

definition cstr :: "bytes \<Rightarrow> bytes \<Rightarrow> bool" where
  "cstr s xs \<longleftrightarrow> 0 \<notin> set xs \<and> (\<exists>r. s = xs @ 0 # r)"

lemma strlen_iff: "strlen s = Some n \<longleftrightarrow> n < length s \<and> cstr s (take n s)"
proof -
  have "s ! n = 0 \<longleftrightarrow> (\<exists>r. s = take n s @ 0 # r)" if "n < length s"
    using id_take_nth_drop [OF that] that by (metis nth_append_length length_take min.absorb4)
  then show ?thesis by (auto simp: strlen_def memchr_index_Some_iff cstr_def)
qed

lemma strlen_cstr: "cstr s xs \<Longrightarrow> strlen s = Some (length xs)"
  by (auto simp: strlen_def memchr_index_Some_iff cstr_def nth_append)

lemma cstr_Cons: "cstr (c # s) xs \<longleftrightarrow> (c = 0 \<and> xs = []) \<or> (c \<noteq> 0 \<and> (\<exists>ys. xs = c # ys \<and> cstr s ys))"
  by (cases xs) (auto simp: cstr_def)

lemma cstr_Nil [simp]: "\<not> cstr [] xs"
  by (simp add: cstr_def)

lemma strnlen_loop_cstr: "cstr s xs \<Longrightarrow> strnlen_loop s i n = Some (i + min (length xs) n)"
proof (induction s i n arbitrary: xs rule: strnlen_loop.induct)
  case (3 c s i n)
  then show ?case by (auto simp: cstr_Cons)
qed (auto simp: cstr_Cons)

lemma strnlen_cstr: "cstr s xs \<Longrightarrow> OPENSSL_strnlen s n = Some (min (length xs) n)"
  by (simp add: OPENSSL_strnlen_def strnlen_loop_cstr)

text \<open>The bytes of the window in front of the first zero are copied, and nothing behind the window is read.\<close>

lemma strnlen_loop_window: "strnlen_loop s i (length s) = Some (i + length (takeWhile (\<lambda>c. c \<noteq> 0) s))"
  by (induction s arbitrary: i) simp_all

lemma CBS_strdup_copies:
  assumes "allocator al" "length cbs + 1 < size_lim"
  shows "\<exists>p. CBS_strdup al cbs = Some (p \<noteq> None, p) \<and> (\<forall>s. p = Some s \<longrightarrow> s = takeWhile (\<lambda>c. c \<noteq> 0) cbs @ [0])"
proof -
  let ?n = "length (takeWhile (\<lambda>c. c \<noteq> 0) cbs)"
  have n: "?n \<le> length cbs" by (rule length_takeWhile_le)
  have a: "size_add ?n 1 = ?n + 1" using n assms(2) by (simp add: size_add_exact)
  have t: "take ?n cbs = takeWhile (\<lambda>c. c \<noteq> 0) cbs" by (rule takeWhile_eq_take [symmetric])
  have "(take ?n cbs @ drop ?n ret)[?n := 0] = takeWhile (\<lambda>c. c \<noteq> 0) cbs @ [0]" if "length ret = ?n + 1" for ret :: bytes
  proof -
    have "length (drop ?n ret) = Suc 0" using that by simp
    then obtain c where "drop ?n ret = [c]" unfolding length_Suc_conv by auto
    then show ?thesis using t by simp
  qed
  moreover have "length ret = ?n + 1" if "OPENSSL_malloc al (?n + 1) = Some ret" for ret
    using allocator.openssl_malloc_length [OF assms(1) _ that] n assms(2) by simp
  ultimately show ?thesis
    by (auto simp: CBS_strdup_def OPENSSL_strndup_def OPENSSL_strnlen_def CBS_len_def CBS_data_def strnlen_loop_window a Let_def simp del: One_nat_def split: option.split)
qed

lemma strlcpy_loop_cstr:
  "cstr src xs \<Longrightarrow> d + n \<le> length dst \<Longrightarrow> strlcpy_loop dst d l src n =
    (let k = min (length xs) (n - 1) in (l + k, d + k, n - k, take d dst @ take k xs @ drop (d + k) dst, drop k src))"
proof (induction dst d l src n arbitrary: xs rule: strlcpy_loop.induct)
  case (1 dst d l c src n)
  show ?case
  proof (cases "n > 1 \<and> c \<noteq> 0")
    case True
    then obtain ys where ys: "xs = c # ys" "cstr src ys" using "1.prems"(1) by (auto simp: cstr_Cons)
    have t: "take (Suc d) (dst[d := c]) = take d dst @ [c]" using True "1.prems"(2) by (simp add: take_Suc_conv_app_nth)
    have k: "min (length xs) (n - 1) = Suc (min (length ys) (n - 1 - 1))" using True ys(1) by auto
    from "1.IH" [OF True ys(2)] True "1.prems"(2) show ?thesis
      unfolding k by (simp add: Let_def t ys(1))
  next
    case False
    then have "min (length xs) (n - 1) = 0" using "1.prems"(1) by (auto simp: cstr_Cons)
    then show ?thesis using False by (simp add: Let_def del: strlcpy_loop.simps(2)) auto
  qed
qed simp

lemma strlcpy_at_cstr:
  assumes "cstr src xs" "d + n \<le> length dst" "length xs < size_lim"
  shows "strlcpy_at dst d src n =
    Some (length xs, if n = 0 then dst
      else take d dst @ take (n - 1) xs @ 0 # drop (d + min (length xs) (n - 1) + 1) dst)"
proof -
  let ?k = "min (length xs) (n - 1)"
  have c: "cstr (drop ?k src) (drop ?k xs)"
    using assms(1) by (auto simp: cstr_def dest: in_set_dropD)
  have "(take d dst @ take ?k xs @ drop (d + ?k) dst)[d + ?k := 0] = take d dst @ take ?k xs @ 0 # drop (d + ?k + 1) dst"
    if "0 < n"
  proof -
    have "d + ?k < length dst" using assms(2) that by simp
    then have "drop (d + ?k) dst = dst ! (d + ?k) # drop (d + ?k + 1) dst" by (simp add: Cons_nth_drop_Suc)
    moreover have "length (take d dst @ take ?k xs) = d + ?k" using assms(2) by simp
    ultimately show ?thesis by (simp add: list_update_append)
  qed
  moreover have "take ?k xs = take (n - 1) xs" by (simp add: min_def)
  moreover have "n - ?k > 0 \<longleftrightarrow> 0 < n" by auto
  ultimately show ?thesis
    using strlen_cstr [OF c] assms
    by (auto simp: strlcpy_at_def strlcpy_loop_cstr Let_def size_add_exact)
qed

text \<open>
  C20. \<open>OPENSSL_strlcpy\<close> copies as much of the source as fits, always terminates a non-empty destination,
  writes nothing past it, and returns the length of the source, so truncation can be seen.
\<close>

theorem strlcpy_truncates:
  assumes "cstr src xs" "n \<le> length dst" "length xs < size_lim"
  shows "OPENSSL_strlcpy dst src n =
    Some (length xs, if n = 0 then dst else take (n - 1) xs @ 0 # drop (min (length xs) (n - 1) + 1) dst)"
  using strlcpy_at_cstr [OF assms(1) _ assms(3), of 0 n dst] assms(2) by (simp add: OPENSSL_strlcpy_def)

theorem strlcpy_truncates_witness:
  "OPENSSL_strlcpy [9, 9, 9, 9] [1, 2, 3, 0] 3 = Some (3, [1, 2, 0, 9])"
  using strlcpy_truncates [of "[1, 2, 3, 0]" "[1, 2, 3]" 3 "[9, 9, 9, 9]"] by (simp add: cstr_def)

lemma strlcat_loop_cstr: "cstr dst ys \<Longrightarrow> strlcat_loop dst l n = Some (l + min (length ys) n, n - min (length ys) n)"
proof (induction dst l n arbitrary: ys rule: strlcat_loop.induct)
  case (3 c dst l n)
  then show ?case by (auto simp: cstr_Cons)
qed (auto simp: cstr_Cons)

text \<open>
  \<open>OPENSSL_strlcat\<close> appends within the \<open>dst_size\<close> bytes of the destination and nothing past them, keeps it
  terminated, and returns the length the full result would have had.
\<close>

theorem strlcat_truncates:
  assumes "cstr dst ys" "cstr src xs" "length ys < n" "n \<le> length dst" "length ys + length xs < size_lim"
  shows "\<exists>dst'. OPENSSL_strlcat dst src n = Some (length ys + length xs, dst') \<and> length dst' = length dst \<and>
    drop n dst' = drop n dst \<and> cstr dst' (take (n - 1) (ys @ xs))"
proof -
  have l: "strlcat_loop dst 0 n = Some (length ys, n - length ys)"
    using strlcat_loop_cstr [OF assms(1), of 0 n] assms(3) by simp
  let ?k = "min (length xs) (n - length ys - 1)"
  let ?dst = "take (length ys) dst @ take (n - length ys - 1) xs @ 0 # drop (length ys + ?k + 1) dst"
  have "OPENSSL_strlcat dst src n = Some (length ys + length xs, ?dst)"
    using strlcpy_at_cstr [OF assms(2), of "length ys" "n - length ys" dst] l assms(3-5)
    by (simp add: OPENSSL_strlcat_def size_add_exact)
  moreover have "length ?dst = length dst" using assms(3,4) by (simp add: min_def)
  moreover have "drop n ?dst = drop n dst"
  proof -
    have "length (take (length ys) dst @ take (n - length ys - 1) xs @ [0]) = length ys + ?k + 1"
      using assms(3,4) by (simp add: min_def)
    moreover have "length ys + ?k + 1 \<le> n" using assms(3) by simp
    ultimately show ?thesis
      using drop_append [of n "take (length ys) dst @ take (n - length ys - 1) xs @ [0]" "drop (length ys + ?k + 1) dst"]
      by (simp add: add.commute)
  qed
  moreover have "cstr ?dst (take (n - 1) (ys @ xs))"
  proof -
    have "take (length ys) dst = ys" using assms(1) by (auto simp: cstr_def)
    moreover have "take (n - 1) (ys @ xs) = ys @ take (n - length ys - 1) xs" using assms(3) by simp
    moreover have "0 \<notin> set ys" "0 \<notin> set xs" using assms(1,2) by (auto simp: cstr_def)
    ultimately show ?thesis by (auto simp: cstr_def dest: in_set_takeD)
  qed
  ultimately show ?thesis by blast
qed

theorem strlcat_truncates_witness:
  "\<exists>dst'. OPENSSL_strlcat [7, 0, 9, 9] [1, 2, 3, 0] 3 = Some (length [7 :: u8] + length [1, 2, 3 :: u8], dst') \<and>
    length dst' = length [7, 0, 9, 9 :: u8] \<and> drop 3 dst' = drop 3 [7, 0, 9, 9] \<and> cstr dst' (take (3 - 1) ([7] @ [1, 2, 3]))"
  by (rule strlcat_truncates) (auto simp: cstr_def)

section \<open>Comparison without case\<close>

definition lower :: "u8 \<Rightarrow> int" where
  "lower c = OPENSSL_tolower (sint c)"

lemma lower_0: "lower c = 0 \<longleftrightarrow> c = 0"
  using word_eq_iff_signed [of c 0] by (auto simp: lower_def OPENSSL_tolower_def split: if_splits)

lemma cstr_head: "cstr (x # a) xs \<Longrightarrow> cstr (y # b) ys \<Longrightarrow> map lower xs = map lower ys \<Longrightarrow> lower x = lower y"
  by (auto simp: cstr_Cons lower_0)

text \<open>
  \<open>OPENSSL_strcasecmp\<close> returns 0 exactly for strings that are equal up to the case of ASCII letters, and
  swapping the arguments swaps the sign.
\<close>

theorem strcasecmp_equal_iff:
  assumes "cstr a xs" "cstr b ys"
  shows "\<exists>r. OPENSSL_strcasecmp a b = Some r \<and> OPENSSL_strcasecmp b a = Some (- r) \<and> (r = 0 \<longleftrightarrow> map lower xs = map lower ys)"
  using assms
proof (induction a b arbitrary: xs ys rule: OPENSSL_strcasecmp.induct)
  case (1 x a y b)
  consider "lower x < lower y" | "lower y < lower x" | "lower x = lower y" "x = 0" | "lower x = lower y" "x \<noteq> 0" by linarith
  then show ?case
  proof cases
    case 1
    then have "map lower xs \<noteq> map lower ys" using cstr_head [OF "1.prems"] by linarith
    with 1 show ?thesis by (simp add: lower_def [symmetric] Let_def)
  next
    case 2
    then have "map lower xs \<noteq> map lower ys" using cstr_head [OF "1.prems"] by linarith
    with 2 show ?thesis by (simp add: lower_def [symmetric] Let_def)
  next
    case 3
    then have "y = 0" using lower_0 by metis
    with 3 "1.prems" show ?thesis by (auto simp: cstr_Cons OPENSSL_tolower_def)
  next
    case 4
    then have "y \<noteq> 0" using lower_0 by metis
    with 4 "1.prems" obtain xs' ys' where s: "xs = x # xs'" "cstr a xs'" "ys = y # ys'" "cstr b ys'"
      by (auto simp: cstr_Cons)
    have n: "OPENSSL_tolower (sint x) = OPENSSL_tolower (sint y)" "OPENSSL_tolower (sint x) \<noteq> 0"
      using 4 lower_0 [of x] by (simp_all add: lower_def)
    with "1.IH" [OF refl refl _ _ _ s(2,4)] 4 s show ?thesis by (auto simp: Let_def)
  qed
qed simp_all

theorem strcasecmp_equal_iff_witness:
  "\<exists>r. OPENSSL_strcasecmp [72, 105, 0] [104, 73, 0, 5] = Some r \<and> OPENSSL_strcasecmp [104, 73, 0, 5] [72, 105, 0] = Some (- r) \<and>
    (r = 0 \<longleftrightarrow> map lower [72, 105] = map lower [104, 73])"
  by (rule strcasecmp_equal_iff) (auto simp: cstr_def)

end
