(* ===== verification/Bio.thy ===== *)
theory Bio
  imports CStr
begin

text \<open>
  \<open>crypto/bio/bio.c\<close>: the object behind every kind of BIO, its retry flags, and the generic calls that check
  the arguments, hand over to the method of the BIO and count the bytes.  The methods are parameters of
  these calls; the contract of a BIO that queues bytes is the locale \<open>byte_fifo\<close>, which memory BIOs and BIO
  pairs satisfy.
\<close>

section \<open>The BIO object\<close>

record bio =
  bio_init :: bool
  bio_shutdown :: int
  bio_flags :: u32
  bio_retry_reason :: int
  bio_num :: int
  bio_num_read :: nat
  bio_num_write :: nat

definition BIO_FLAGS_READ :: u32 where "BIO_FLAGS_READ = 0x01"
definition BIO_FLAGS_WRITE :: u32 where "BIO_FLAGS_WRITE = 0x02"
definition BIO_FLAGS_IO_SPECIAL :: u32 where "BIO_FLAGS_IO_SPECIAL = 0x04"
definition BIO_FLAGS_SHOULD_RETRY :: u32 where "BIO_FLAGS_SHOULD_RETRY = 0x08"
definition BIO_FLAGS_MEM_RDONLY :: u32 where "BIO_FLAGS_MEM_RDONLY = 0x200"

definition kRetryFlags :: u32 where
  "kRetryFlags = BIO_FLAGS_READ OR BIO_FLAGS_WRITE OR BIO_FLAGS_IO_SPECIAL OR BIO_FLAGS_SHOULD_RETRY"

text \<open>\<open>BIO_new\<close> before the method's \<open>create\<close>.\<close>

definition bio_zero :: bio where
  "bio_zero = \<lparr> bio_init = False, bio_shutdown = 1, bio_flags = 0, bio_retry_reason = 0, bio_num = 0,
     bio_num_read = 0, bio_num_write = 0 \<rparr>"

definition BIO_set_flags :: "u32 \<Rightarrow> bio \<Rightarrow> bio" where
  "BIO_set_flags flags bio = bio \<lparr> bio_flags := bio_flags bio OR flags \<rparr>"

definition BIO_test_flags :: "bio \<Rightarrow> u32 \<Rightarrow> u32" where
  "BIO_test_flags bio flags = bio_flags bio AND flags"

definition BIO_clear_flags :: "u32 \<Rightarrow> bio \<Rightarrow> bio" where
  "BIO_clear_flags flags bio = bio \<lparr> bio_flags := bio_flags bio AND NOT flags \<rparr>"

definition BIO_should_read :: "bio \<Rightarrow> u32" where
  "BIO_should_read bio = BIO_test_flags bio BIO_FLAGS_READ"

definition BIO_should_write :: "bio \<Rightarrow> u32" where
  "BIO_should_write bio = BIO_test_flags bio BIO_FLAGS_WRITE"

definition BIO_should_retry :: "bio \<Rightarrow> u32" where
  "BIO_should_retry bio = BIO_test_flags bio BIO_FLAGS_SHOULD_RETRY"

definition BIO_set_retry_read :: "bio \<Rightarrow> bio" where
  "BIO_set_retry_read bio = bio \<lparr> bio_flags := bio_flags bio OR (BIO_FLAGS_READ OR BIO_FLAGS_SHOULD_RETRY) \<rparr>"

definition BIO_set_retry_write :: "bio \<Rightarrow> bio" where
  "BIO_set_retry_write bio = bio \<lparr> bio_flags := bio_flags bio OR (BIO_FLAGS_WRITE OR BIO_FLAGS_SHOULD_RETRY) \<rparr>"

definition BIO_get_retry_flags :: "bio \<Rightarrow> u32" where
  "BIO_get_retry_flags bio = bio_flags bio AND kRetryFlags"

definition BIO_clear_retry_flags :: "bio \<Rightarrow> bio" where
  "BIO_clear_retry_flags bio = bio \<lparr> bio_flags := bio_flags bio AND NOT kRetryFlags, bio_retry_reason := 0 \<rparr>"

definition BIO_copy_next_retry :: "bio \<Rightarrow> bio \<Rightarrow> bio" where
  "BIO_copy_next_retry next bio =
     (BIO_set_flags (BIO_get_retry_flags next) (BIO_clear_retry_flags bio)) \<lparr> bio_retry_reason := bio_retry_reason next \<rparr>"

section \<open>The generic calls\<close>

text \<open>
  \<open>get\<close> and \<open>upd\<close> reach the BIO inside the state its methods work on.  A read returns the result and the bytes
  stored in the caller's buffer.
\<close>

type_synonym 's bread = "int \<Rightarrow> 's \<Rightarrow> (int \<times> bytes) \<times> 's"
type_synonym 's bwrite = "bytes \<Rightarrow> 's \<Rightarrow> int \<times> 's"

definition BIO_read :: "('s \<Rightarrow> bio) \<Rightarrow> ((bio \<Rightarrow> bio) \<Rightarrow> 's \<Rightarrow> 's) \<Rightarrow> 's bread option \<Rightarrow> 's bread" where
  "BIO_read get upd bread len s =
     (case bread of
        None \<Rightarrow> ((-2, []), s)
      | Some bread \<Rightarrow>
          if \<not> bio_init (get s) then ((-2, []), s)
          else if len \<le> 0 then ((0, []), s)
          else case bread len s of
                 ((ret, out), s) \<Rightarrow>
                   ((ret, out), if ret > 0 then upd (\<lambda>b. b \<lparr> bio_num_read := size_add (bio_num_read b) (nat ret) \<rparr>) s else s))"

text \<open>\<open>BIO_gets\<close> has the body of \<open>BIO_read\<close> with \<open>bgets\<close> for \<open>bread\<close>.\<close>

definition BIO_gets :: "('s \<Rightarrow> bio) \<Rightarrow> ((bio \<Rightarrow> bio) \<Rightarrow> 's \<Rightarrow> 's) \<Rightarrow> 's bread option \<Rightarrow> 's bread" where
  "BIO_gets get upd bgets len s =
     (case bgets of
        None \<Rightarrow> ((-2, []), s)
      | Some bgets \<Rightarrow>
          if \<not> bio_init (get s) then ((-2, []), s)
          else if len \<le> 0 then ((0, []), s)
          else case bgets len s of
                 ((ret, out), s) \<Rightarrow>
                   ((ret, out), if ret > 0 then upd (\<lambda>b. b \<lparr> bio_num_read := size_add (bio_num_read b) (nat ret) \<rparr>) s else s))"

definition BIO_write :: "('s \<Rightarrow> bio) \<Rightarrow> ((bio \<Rightarrow> bio) \<Rightarrow> 's \<Rightarrow> 's) \<Rightarrow> 's bwrite option \<Rightarrow> 's bwrite" where
  "BIO_write get upd bwrite data s =
     (case bwrite of
        None \<Rightarrow> (-2, s)
      | Some bwrite \<Rightarrow>
          if \<not> bio_init (get s) then (-2, s)
          else if data = [] then (0, s)
          else case bwrite data s of
                 (ret, s) \<Rightarrow>
                   (ret, if ret > 0 then upd (\<lambda>b. b \<lparr> bio_num_write := size_add (bio_num_write b) (nat ret) \<rparr>) s else s))"

function BIO_write_all :: "'s bwrite \<Rightarrow> bytes \<Rightarrow> 's \<Rightarrow> bool \<times> 's" where
  "BIO_write_all wr data s =
     (if data = [] then (True, s)
      else case wr (take 2147483647 data) s of
             (ret, s) \<Rightarrow> if ret \<le> 0 then (False, s) else BIO_write_all wr (drop (nat ret) data) s)"
  by pat_completeness auto
termination
  by (relation "measure (\<lambda>(wr, data, s). length data)") auto

declare BIO_write_all.simps [simp del]

definition BIO_puts :: "'s bwrite \<Rightarrow> bytes \<Rightarrow> 's \<Rightarrow> (int \<times> 's) option" where
  "BIO_puts wr s st = map_option (\<lambda>n. wr (take n s) st) (strlen s)"

section \<open>The contract of a byte queue\<close>

abbreviation INT_MAX :: int where
  "INT_MAX \<equiv> 2147483647"

text \<open>
  A write queues a prefix of the data and returns its length, or queues nothing and returns a number that
  is not positive; a read takes as many bytes as were asked for and are there.
\<close>

locale byte_fifo =
  fixes ok :: "'s \<Rightarrow> bool" and contents :: "'s \<Rightarrow> bytes" and wr :: "'s bwrite" and rd :: "'s bread"
  assumes wr_ok: "ok s \<Longrightarrow> int (length data) \<le> INT_MAX \<Longrightarrow> wr data s = (n, s') \<Longrightarrow>
      ok s' \<and> n \<le> int (length data) \<and> contents s' = contents s @ take (nat n) data"
    and rd_ok: "ok s \<Longrightarrow> k \<le> INT_MAX \<Longrightarrow> rd k s = ((n, out), s') \<Longrightarrow>
      ok s' \<and> nat n = length out \<and> out = take (nat k) (contents s) \<and> contents s' = drop (nat k) (contents s)"

datatype fifo_call = Write bytes | Read int

datatype fifo_result = Wrote int | Got int bytes

text \<open>The lengths are values of the C type \<open>int\<close>.\<close>

fun int_call :: "fifo_call \<Rightarrow> bool" where
  "int_call (Write d) = (int (length d) \<le> INT_MAX)"
| "int_call (Read k) = (k \<le> INT_MAX)"

fun fifo_do :: "'s bwrite \<Rightarrow> 's bread \<Rightarrow> fifo_call \<Rightarrow> 's \<Rightarrow> fifo_result \<times> 's" where
  "fifo_do wr rd (Write d) s = (case wr d s of (n, s) \<Rightarrow> (Wrote n, s))"
| "fifo_do wr rd (Read k) s = (case rd k s of ((n, out), s) \<Rightarrow> (Got n out, s))"

fun fifo_run :: "'s bwrite \<Rightarrow> 's bread \<Rightarrow> fifo_call list \<Rightarrow> 's \<Rightarrow> fifo_result list \<times> 's" where
  "fifo_run wr rd [] s = ([], s)"
| "fifo_run wr rd (c # cs) s =
     (case fifo_do wr rd c s of (r, s) \<Rightarrow> (case fifo_run wr rd cs s of (rs, s) \<Rightarrow> (r # rs, s)))"

text \<open>What the results must be for a queue \<open>q\<close> of bytes, and the queue they leave.\<close>

fun queue_do :: "fifo_call \<times> fifo_result \<Rightarrow> bytes \<Rightarrow> bytes option" where
  "queue_do (Write d, Wrote n) q = (if n \<le> int (length d) then Some (q @ take (nat n) d) else None)"
| "queue_do (Read k, Got n out) q = (if out = take (nat k) q \<and> nat n = length out then Some (drop (nat k) q) else None)"
| "queue_do _ q = None"

fun queue_replay :: "(fifo_call \<times> fifo_result) list \<Rightarrow> bytes \<Rightarrow> bytes option" where
  "queue_replay [] q = Some q"
| "queue_replay (cr # crs) q = Option.bind (queue_do cr q) (queue_replay crs)"

text \<open>The bytes a sequence of calls accepted and the bytes it delivered.\<close>

fun accepted :: "fifo_call \<times> fifo_result \<Rightarrow> bytes" where
  "accepted (Write d, Wrote n) = take (nat n) d"
| "accepted _ = []"

fun delivered :: "fifo_call \<times> fifo_result \<Rightarrow> bytes" where
  "delivered (Read k, Got n out) = out"
| "delivered _ = []"

lemma queue_do_stream: "queue_do cr q = Some q' \<Longrightarrow> q @ accepted cr = delivered cr @ q'"
  by (cases "(cr, q)" rule: queue_do.cases) (auto split: if_splits)

lemma replay_stream:
  "queue_replay crs q = Some q' \<Longrightarrow> q @ concat (map accepted crs) = concat (map delivered crs) @ q'"
proof (induction crs arbitrary: q)
  case (Cons cr crs)
  then obtain q1 where q1: "queue_do cr q = Some q1" "queue_replay crs q1 = Some q'"
    by (auto simp: bind_eq_Some_conv)
  have "q @ accepted cr @ concat (map accepted crs) = delivered cr @ q1 @ concat (map accepted crs)"
    using queue_do_stream [OF q1(1)] by simp
  with Cons.IH [OF q1(2)] show ?case by simp
qed simp

context byte_fifo
begin

lemma call_ok:
  assumes "ok s" "int_call c" "fifo_do wr rd c s = (r, s')"
  shows "ok s' \<and> queue_do (c, r) (contents s) = Some (contents s')"
proof (cases c)
  case (Write d)
  then obtain n where "wr d s = (n, s')" "r = Wrote n" using assms(3) by (auto split: prod.splits)
  with wr_ok [of s d n s'] assms Write show ?thesis by simp
next
  case (Read k)
  then obtain n out where "rd k s = ((n, out), s')" "r = Got n out" using assms(3) by (auto split: prod.splits)
  with rd_ok [of s k n out s'] assms Read show ?thesis by simp
qed

text \<open>The queue refines a list of bytes; with \<open>replay_stream\<close>, what was accepted comes out in order.\<close>

lemma refines_queue:
  "ok s \<Longrightarrow> list_all int_call cs \<Longrightarrow> fifo_run wr rd cs s = (rs, s') \<Longrightarrow>
   ok s' \<and> length rs = length cs \<and> queue_replay (zip cs rs) (contents s) = Some (contents s')"
proof (induction cs arbitrary: s rs)
  case (Cons c cs)
  obtain r s1 where c: "fifo_do wr rd c s = (r, s1)" by (cases "fifo_do wr rd c s")
  then obtain rs1 where r: "fifo_run wr rd cs s1 = (rs1, s')" "rs = r # rs1"
    using Cons.prems(3) by (auto split: prod.splits)
  from Cons.prems(2) have l: "int_call c" "list_all int_call cs" by simp_all
  note k = call_ok [OF Cons.prems(1) l(1) c]
  from Cons.IH [OF _ l(2) r(1)] k r(2) show ?case by simp
qed simp

lemma write_all:
  "ok s \<Longrightarrow> BIO_write_all wr data s = (r, s') \<Longrightarrow>
   ok s' \<and> (\<exists>k \<le> length data. contents s' = contents s @ take k data \<and> (r \<longrightarrow> k = length data))"
proof (induction "length data" arbitrary: data s rule: less_induct)
  case less
  show ?case
  proof (cases "data = []")
    case True
    then show ?thesis using less.prems by (simp add: BIO_write_all.simps)
  next
    case False
    obtain n s1 where w: "wr (take 2147483647 data) s = (n, s1)" by (cases "wr (take 2147483647 data) s")
    have "int (length (take 2147483647 data)) \<le> INT_MAX" by simp
    note k = wr_ok [OF less.prems(1) this w]
    show ?thesis
    proof (cases "n \<le> 0")
      case True
      then have "s' = s1" "\<not> r" using less.prems(2) False w by (auto simp: BIO_write_all.simps)
      with k True show ?thesis by (intro conjI exI [of _ 0]) auto
    next
      case pos: False
      have "n \<le> int (length data)" "n \<le> 2147483647" using k by (auto simp: min_def split: if_splits)
      then have l: "nat n \<le> length data" "nat n \<le> 2147483647" by linarith+
      then have m: "nat n \<le> length data" "0 < nat n" "take (nat n) (take 2147483647 data) = take (nat n) data"
        using pos by (simp_all add: min_absorb1)
      have "BIO_write_all wr (drop (nat n) data) s1 = (r, s')"
        using less.prems(2) False w pos by (simp add: BIO_write_all.simps [of wr data])
      from less.hyps [OF _ _ this] False m k obtain j where j: "ok s'" "j \<le> length data - nat n"
        "contents s' = contents s1 @ take j (drop (nat n) data)" "r \<longrightarrow> j = length data - nat n" by auto
      have "contents s' = contents s @ take (nat n + j) data" using j(3) k m(3) by (simp add: take_add)
      with j m(1) show ?thesis by (intro conjI exI [of _ "nat n + j"]) auto
    qed
  qed
qed

end

text \<open>
  The methods behind the two ends of a queue (of one BIO, or of two that are connected) are called with
  positive lengths only.  \<open>BIO_read\<close> and \<open>BIO_write\<close> add the checks and the counters, and the counters are no
  part of the queue, so the generic calls satisfy the contract.
\<close>

locale bio_methods =
  fixes ok :: "'s \<Rightarrow> bool" and contents :: "'s \<Rightarrow> bytes" and bwrite :: "'s bwrite" and bread :: "'s bread"
    and getw :: "'s \<Rightarrow> bio" and updw :: "(bio \<Rightarrow> bio) \<Rightarrow> 's \<Rightarrow> 's"
    and getr :: "'s \<Rightarrow> bio" and updr :: "(bio \<Rightarrow> bio) \<Rightarrow> 's \<Rightarrow> 's"
  assumes bwrite_ok: "ok s \<Longrightarrow> data \<noteq> [] \<Longrightarrow> int (length data) \<le> INT_MAX \<Longrightarrow> bwrite data s = (n, s') \<Longrightarrow>
      ok s' \<and> n \<le> int (length data) \<and> contents s' = contents s @ take (nat n) data"
    and bread_ok: "ok s \<Longrightarrow> 0 < k \<Longrightarrow> k \<le> INT_MAX \<Longrightarrow> bread k s = ((n, out), s') \<Longrightarrow>
      ok s' \<and> nat n = length out \<and> out = take (nat k) (contents s) \<and> contents s' = drop (nat k) (contents s)"
    and init: "ok s \<Longrightarrow> bio_init (getw s)" "ok s \<Longrightarrow> bio_init (getr s)"
    and counters: "ok s \<Longrightarrow> ok (updr (\<lambda>b. b \<lparr> bio_num_read := f b \<rparr>) s)" "ok s \<Longrightarrow> ok (updw (\<lambda>b. b \<lparr> bio_num_write := f b \<rparr>) s)"
      "contents (updr (\<lambda>b. b \<lparr> bio_num_read := f b \<rparr>) s) = contents s"
      "contents (updw (\<lambda>b. b \<lparr> bio_num_write := f b \<rparr>) s) = contents s"
begin

lemma write_law:
  assumes s: "ok s" and d: "int (length data) \<le> INT_MAX" and w: "BIO_write getw updw (Some bwrite) data s = (n, s')"
  shows "ok s' \<and> n \<le> int (length data) \<and> contents s' = contents s @ take (nat n) data"
proof (cases "data = []")
  case False
  obtain m s1 where m: "bwrite data s = (m, s1)" by (cases "bwrite data s")
  with bwrite_ok [OF s False d m] w False init [OF s] counters show ?thesis
    by (auto simp: BIO_write_def)
qed (use s w init [OF s] in \<open>auto simp: BIO_write_def\<close>)

lemma read_law:
  assumes s: "ok s" and k: "k \<le> INT_MAX" and r: "BIO_read getr updr (Some bread) k s = ((n, out), s')"
  shows "ok s' \<and> nat n = length out \<and> out = take (nat k) (contents s) \<and> contents s' = drop (nat k) (contents s)"
proof (cases "k \<le> 0")
  case False
  then have pos: "0 < k" by simp
  obtain m o1 s1 where m: "bread k s = ((m, o1), s1)" by (metis prod.collapse)
  with bread_ok [OF s pos k m] r False init [OF s] counters show ?thesis
    by (auto simp: BIO_read_def)
qed (use s r init [OF s] in \<open>auto simp: BIO_read_def\<close>)

end

sublocale bio_methods \<subseteq> calls: byte_fifo ok contents "BIO_write getw updw (Some bwrite)" "BIO_read getr updr (Some bread)"
  by unfold_locales (rule write_law read_law; assumption)+

end
