(* ===== verification/BioMem.thy ===== *)
theory BioMem
  imports Bio
begin

text \<open>
  \<open>crypto/buf/buf.c\<close> and \<open>crypto/bio/bio_mem.c\<close>: growable buffers and the BIO over one.  \<open>bm_data\<close> is the
  memory a buffer points into and \<open>bm_off\<close> how far the pointer has moved, which only a read-only BIO does.
  The abstract view is the queue of unread bytes, and the BIO satisfies \<open>byte_fifo\<close>.
\<close>

section \<open>Buffers\<close>

record buf_mem =
  bm_length :: nat
  bm_data :: "bytes option"
  bm_off :: nat
  bm_max :: nat

definition BUF_MEM_new :: "allocator \<Rightarrow> buf_mem option" where
  "BUF_MEM_new al =
     map_option (\<lambda>_. \<lparr> bm_length = 0, bm_data = None, bm_off = 0, bm_max = 0 \<rparr>) (OPENSSL_malloc al 24)"

definition BUF_MEM_reserve :: "allocator \<Rightarrow> nat \<Rightarrow> buf_mem \<Rightarrow> bool \<times> buf_mem" where
  "BUF_MEM_reserve al cap buf =
     (if bm_max buf \<ge> cap then (True, buf)
      else
        let n = size_add cap 3 in
        if n < cap then (False, buf)
        else
          let n = n div 3; alloc_size = size_mul n 4 in
          if alloc_size div 4 \<noteq> n then (False, buf)
          else case OPENSSL_realloc al (bm_data buf) alloc_size of
                 None \<Rightarrow> (False, buf)
               | Some new_buf \<Rightarrow> (True, buf \<lparr> bm_data := Some new_buf, bm_max := alloc_size \<rparr>))"

text \<open>\<open>memcpy(&buf->data[i], in, len)\<close> and \<open>memset\<close> with zeros.\<close>

definition buf_store :: "nat \<Rightarrow> bytes \<Rightarrow> buf_mem \<Rightarrow> buf_mem" where
  "buf_store i data buf =
     buf \<lparr> bm_data := map_option (\<lambda>d. take (bm_off buf + i) d @ data @ drop (bm_off buf + i + length data) d) (bm_data buf) \<rparr>"

definition BUF_MEM_grow :: "allocator \<Rightarrow> nat \<Rightarrow> buf_mem \<Rightarrow> nat \<times> buf_mem" where
  "BUF_MEM_grow al len buf =
     (case BUF_MEM_reserve al len buf of
        (ok, buf) \<Rightarrow>
          if \<not> ok then (0, buf)
          else
            let buf = (if bm_length buf < len then buf_store (bm_length buf) (replicate (len - bm_length buf) 0) buf else buf)
            in (len, buf \<lparr> bm_length := len \<rparr>))"

definition BUF_MEM_grow_clean :: "allocator \<Rightarrow> nat \<Rightarrow> buf_mem \<Rightarrow> nat \<times> buf_mem" where
  "BUF_MEM_grow_clean al len buf = BUF_MEM_grow al len buf"

definition BUF_MEM_append :: "allocator \<Rightarrow> bytes \<Rightarrow> buf_mem \<Rightarrow> bool \<times> buf_mem" where
  "BUF_MEM_append al data buf =
     (if length data = 0 then (True, buf)
      else
        let new_len = size_add (bm_length buf) (length data) in
        if new_len < length data then (False, buf)
        else case BUF_MEM_reserve al new_len buf of
               (ok, buf) \<Rightarrow>
                 if \<not> ok then (False, buf)
                 else (True, (buf_store (bm_length buf) data buf) \<lparr> bm_length := new_len \<rparr>))"

section \<open>Memory BIOs\<close>

text \<open>Conversions from \<open>size_t\<close> to \<open>int\<close> and \<open>long\<close>, and back.\<close>

definition int_of_size :: "nat \<Rightarrow> int" where
  "int_of_size n = sint (of_nat n :: u32)"

definition long_of_size :: "nat \<Rightarrow> int" where
  "long_of_size n = sint (of_nat n :: u64)"

definition size_of_int :: "int \<Rightarrow> nat" where
  "size_of_int i = nat (i mod int size_lim)"

record mem_bio =
  mb_bio :: bio
  mb_ptr :: "buf_mem option"

definition mb_upd :: "(bio \<Rightarrow> bio) \<Rightarrow> mem_bio \<Rightarrow> mem_bio" where
  "mb_upd f s = s \<lparr> mb_bio := f (mb_bio s) \<rparr>"

definition mb_set :: "buf_mem \<Rightarrow> mem_bio \<Rightarrow> mem_bio" where
  "mb_set b s = s \<lparr> mb_ptr := Some b \<rparr>"

definition read_only :: "mem_bio \<Rightarrow> bool" where
  "read_only s \<longleftrightarrow> BIO_test_flags (mb_bio s) BIO_FLAGS_MEM_RDONLY \<noteq> 0"

definition mem_new :: "allocator \<Rightarrow> bio \<Rightarrow> mem_bio option" where
  "mem_new al bio =
     map_option (\<lambda>b. \<lparr> mb_bio = bio \<lparr> bio_shutdown := 1, bio_init := True, bio_num := -1 \<rparr>, mb_ptr = Some b \<rparr>) (BUF_MEM_new al)"

text \<open>\<open>BIO_new(BIO_s_mem())\<close>\<close>

definition BIO_new_mem :: "allocator \<Rightarrow> mem_bio option" where
  "BIO_new_mem al = (case OPENSSL_malloc al 64 of None \<Rightarrow> None | Some _ \<Rightarrow> mem_new al bio_zero)"

text \<open>The outer option is \<open>strlen\<close> of the caller's memory.\<close>

definition BIO_new_mem_buf :: "allocator \<Rightarrow> bytes option \<Rightarrow> int \<Rightarrow> mem_bio option option" where
  "BIO_new_mem_buf al buf len =
     (case (if len < 0 then Option.bind buf strlen else Some (nat len)) of
        None \<Rightarrow> None
      | Some sz \<Rightarrow>
          if buf = None \<and> len \<noteq> 0 then Some None
          else
            Some (map_option
              (\<lambda>s. s \<lparr> mb_ptr := map_option (\<lambda>b. b \<lparr> bm_data := buf, bm_length := sz, bm_max := sz \<rparr>) (mb_ptr s),
                       mb_bio := (mb_bio s) \<lparr> bio_flags := bio_flags (mb_bio s) OR BIO_FLAGS_MEM_RDONLY, bio_num := 0 \<rparr> \<rparr>)
              (BIO_new_mem al)))"

definition mem_free :: "mem_bio \<Rightarrow> mem_bio" where
  "mem_free s =
     (if bio_shutdown (mb_bio s) = 0 \<or> \<not> bio_init (mb_bio s) \<or> mb_ptr s = None then s
      else s \<lparr> mb_ptr := None \<rparr>)"

definition buf_data :: "buf_mem \<Rightarrow> bytes" where
  "buf_data b = (case bm_data b of None \<Rightarrow> [] | Some d \<Rightarrow> drop (bm_off b) d)"

definition mem_read :: "mem_bio bread" where
  "mem_read outl s =
     (case mb_ptr s of
        None \<Rightarrow> ((0, []), s)
      | Some b \<Rightarrow>
          (let s = mb_upd BIO_clear_retry_flags s;
               ret = (if int (bm_length b) < INT_MAX \<and> outl > int_of_size (bm_length b) then int (bm_length b) else outl)
           in if ret > 0 then
                (let n = nat ret;
                     out = take n (buf_data b);
                     b = b \<lparr> bm_length := bm_length b - n \<rparr>;
                     b = (if read_only s then b \<lparr> bm_off := bm_off b + n \<rparr>
                          else buf_store 0 (take (bm_length b) (drop n (buf_data b))) b)
                 in ((ret, out), mb_set b s))
              else if bm_length b = 0 then
                (let ret = bio_num (mb_bio s)
                 in ((ret, []), if ret \<noteq> 0 then mb_upd BIO_set_retry_read s else s))
              else ((ret, []), s)))"

definition mem_write :: "allocator \<Rightarrow> mem_bio bwrite" where
  "mem_write al data s =
     (case mb_ptr s of
        None \<Rightarrow> (-1, s)
      | Some b \<Rightarrow>
          if read_only s then (-1, s)
          else
            let s = mb_upd BIO_clear_retry_flags s;
                inl = int (length data);
                blen = int_of_size (bm_length b)
            in if INT_MAX - blen < inl then (-1, s)
               else case BUF_MEM_grow_clean al (size_of_int (blen + inl)) b of
                      (n, b) \<Rightarrow>
                        if n \<noteq> size_add (size_of_int blen) (length data) then (-1, mb_set b s)
                        else (inl, mb_set (buf_store (size_of_int blen) data b) s))"

text \<open>The loop of \<open>mem_gets\<close>: up to and including the first newline among the first \<open>j\<close> bytes.\<close>

fun gets_scan :: "bytes \<Rightarrow> nat \<Rightarrow> nat \<Rightarrow> nat" where
  "gets_scan p i 0 = i"
| "gets_scan (c # p) i (Suc j) = (if c = 10 then i + 1 else gets_scan p (i + 1) j)"
| "gets_scan [] i (Suc j) = i"

definition mem_gets :: "mem_bio bread" where
  "mem_gets sz s =
     (case mb_ptr s of
        None \<Rightarrow> ((0, []), s)
      | Some b \<Rightarrow>
          (let s = mb_upd BIO_clear_retry_flags s;
               j = (if sz - 1 < int_of_size (bm_length b) then sz - 1 else int_of_size (bm_length b))
           in if j \<le> 0 then ((0, if sz > 0 then [0] else []), s)
              else case mem_read (int (gets_scan (buf_data b) 0 (nat j))) s of
                     ((i, out), s) \<Rightarrow> ((i, if i > 0 then out @ [0] else out), s)))"

datatype bio_cmd =
    BIO_CTRL_RESET | BIO_CTRL_EOF | BIO_C_SET_BUF_MEM_EOF_RETURN int | BIO_CTRL_INFO
  | BIO_C_SET_BUF_MEM int "buf_mem option" | BIO_C_GET_BUF_MEM_PTR | BIO_CTRL_GET_CLOSE | BIO_CTRL_SET_CLOSE int
  | BIO_CTRL_WPENDING | BIO_CTRL_PENDING | BIO_CTRL_FLUSH | BIO_CTRL_OTHER

datatype ctrl_out = No_out | Out_data bytes | Out_mem "buf_mem option"

definition mem_ctrl :: "bio_cmd \<Rightarrow> mem_bio \<Rightarrow> (int \<times> ctrl_out) \<times> mem_bio" where
  "mem_ctrl cmd s =
     (let b = (case mb_ptr s of None \<Rightarrow> \<lparr> bm_length = 0, bm_data = None, bm_off = 0, bm_max = 0 \<rparr> | Some b \<Rightarrow> b) in
      case cmd of
        BIO_CTRL_RESET \<Rightarrow>
          ((1, No_out),
           if bm_data b = None then s
           else if read_only s
           then mb_set (b \<lparr> bm_off := bm_off b - (bm_max b - bm_length b), bm_length := bm_max b \<rparr>) s
           else mb_set (buf_store 0 (replicate (bm_max b) 0) (b \<lparr> bm_length := 0 \<rparr>)) s)
      | BIO_CTRL_EOF \<Rightarrow> ((if bm_length b = 0 then 1 else 0, No_out), s)
      | BIO_C_SET_BUF_MEM_EOF_RETURN num \<Rightarrow> ((1, No_out), mb_upd (\<lambda>bio. bio \<lparr> bio_num := num \<rparr>) s)
      | BIO_CTRL_INFO \<Rightarrow> ((long_of_size (bm_length b), Out_data (buf_data b)), s)
      | BIO_C_SET_BUF_MEM num ptr \<Rightarrow>
          ((1, No_out), (mb_upd (\<lambda>bio. bio \<lparr> bio_shutdown := num \<rparr>) (mem_free s)) \<lparr> mb_ptr := ptr \<rparr>)
      | BIO_C_GET_BUF_MEM_PTR \<Rightarrow> ((1, Out_mem (mb_ptr s)), s)
      | BIO_CTRL_GET_CLOSE \<Rightarrow> ((bio_shutdown (mb_bio s), No_out), s)
      | BIO_CTRL_SET_CLOSE num \<Rightarrow> ((1, No_out), mb_upd (\<lambda>bio. bio \<lparr> bio_shutdown := num \<rparr>) s)
      | BIO_CTRL_WPENDING \<Rightarrow> ((0, No_out), s)
      | BIO_CTRL_PENDING \<Rightarrow> ((long_of_size (bm_length b), No_out), s)
      | BIO_CTRL_FLUSH \<Rightarrow> ((1, No_out), s)
      | BIO_CTRL_OTHER \<Rightarrow> ((0, No_out), s))"

definition BIO_mem_contents :: "mem_bio \<Rightarrow> bytes" where
  "BIO_mem_contents s = (case mb_ptr s of None \<Rightarrow> [] | Some b \<Rightarrow> take (bm_length b) (buf_data b))"

section \<open>Buffers grow and keep their contents\<close>

text \<open>The buffer of a BIO that can be written, and the unread rest of caller memory.\<close>

definition own_buf :: "buf_mem \<Rightarrow> bool" where
  "own_buf b \<longleftrightarrow> bm_off b = 0 \<and> bm_length b \<le> bm_max b \<and> bm_max b < size_lim \<and> length (buf_data b) = bm_max b"

definition view_buf :: "buf_mem \<Rightarrow> bool" where
  "view_buf b \<longleftrightarrow> bm_off b + bm_length b = bm_max b \<and> bm_length b \<le> length (buf_data b)"

definition buf_contents :: "buf_mem \<Rightarrow> bytes" where
  "buf_contents b = take (bm_length b) (buf_data b)"

lemma buf_data_store:
  "bm_off b = 0 \<Longrightarrow> bm_data b \<noteq> None \<Longrightarrow>
   buf_data (buf_store i d b) = take i (buf_data b) @ d @ drop (i + length d) (buf_data b)"
  by (auto simp: buf_data_def buf_store_def)

lemma buf_store_simps [simp]:
  "bm_off (buf_store i d b) = bm_off b" "bm_length (buf_store i d b) = bm_length b" "bm_max (buf_store i d b) = bm_max b"
  "bm_data (buf_store i d b) = None \<longleftrightarrow> bm_data b = None"
  by (simp_all add: buf_store_def)

lemma buf_data_update [simp]: "buf_data (b \<lparr> bm_length := n \<rparr>) = buf_data b"
  by (cases "bm_data b") (simp_all add: buf_data_def)

lemma own_buf_data: "own_buf b \<Longrightarrow> 0 < bm_max b \<Longrightarrow> bm_data b \<noteq> None"
  by (cases "bm_data b") (simp_all add: own_buf_def buf_data_def)

lemma reserve_size:
  assumes "cap < size_lim" "\<not> size_add cap 3 < cap" "\<not> size_mul (size_add cap 3 div 3) 4 div 4 \<noteq> size_add cap 3 div 3"
  shows "cap < size_mul (size_add cap 3 div 3) 4" "size_mul (size_add cap 3 div 3) 4 < size_lim"
proof -
  have "cap + 3 < size_lim" using assms(1,2) size_add_overflow [of cap 3] by simp
  then have n: "size_add cap 3 = cap + 3" by (rule size_add_exact)
  have e: "((cap + 3) div 3 * 4) mod size_lim div 4 = (cap + 3) div 3" using assms(3) by (simp add: size_mul_def n)
  show "size_mul (size_add cap 3 div 3) 4 < size_lim" by (simp add: size_mul_def)
  have "(cap + 3) div 3 * 4 \<le> ((cap + 3) div 3 * 4) mod size_lim" using e by linarith
  moreover have "cap < (cap + 3) div 3 * 4" by linarith
  ultimately show "cap < size_mul (size_add cap 3 div 3) 4" by (simp add: size_mul_def n)
qed

context allocator
begin

lemma reserve_ok:
  assumes b: "own_buf b" and cap: "cap < size_lim" and r: "BUF_MEM_reserve malloc cap b = (ok, b')"
  shows "own_buf b' \<and> bm_length b' = bm_length b \<and> buf_contents b' = buf_contents b \<and> (ok \<longrightarrow> cap \<le> bm_max b')"
proof -
  let ?n = "size_mul (size_add cap 3 div 3) 4"
  consider "b' = b" "ok \<longrightarrow> cap \<le> bm_max b"
    | new where "bm_max b < cap" "ok" "cap < ?n" "?n < size_lim" "OPENSSL_realloc malloc (bm_data b) ?n = Some new"
        "b' = b \<lparr> bm_data := Some new, bm_max := ?n \<rparr>"
  proof (cases "cap \<le> bm_max b \<or> size_add cap 3 < cap \<or> size_mul (size_add cap 3 div 3) 4 div 4 \<noteq> size_add cap 3 div 3 \<or>
      OPENSSL_realloc malloc (bm_data b) ?n = None")
    case True
    then have "b' = b \<and> (ok \<longrightarrow> cap \<le> bm_max b)" using r by (auto simp: BUF_MEM_reserve_def Let_def split: if_splits)
    then show ?thesis using that(1) by blast
  next
    case False
    then obtain new where new: "OPENSSL_realloc malloc (bm_data b) ?n = Some new" by blast
    have "\<not> bm_max b \<ge> cap" using False by simp
    then have "ok \<and> b' = b \<lparr> bm_data := Some new, bm_max := ?n \<rparr>" using r False new by (simp add: BUF_MEM_reserve_def Let_def)
    with that(2) [of new] new False reserve_size [OF cap] show ?thesis by simp
  qed
  then show ?thesis
  proof cases
    case 2
    have l: "length new = ?n" using openssl_realloc_length [OF 2(4) 2(5)] .
    have "take (bm_length b) new = take (bm_length b) (buf_data b)"
    proof (cases "bm_data b")
      case (Some old)
      then have d: "buf_data b = old" "length old = bm_max b" using b by (auto simp: own_buf_def buf_data_def)
      have "take (bm_max b) new = take (bm_max b) old"
        using openssl_realloc_keeps [OF 2(4), of old new] 2(1,3,5) Some d by (simp add: min_def split: if_splits)
      then show ?thesis using b d unfolding own_buf_def by (metis take_all_iff take_take min.absorb1)
    qed (use b in \<open>simp add: own_buf_def buf_data_def\<close>)
    with b 2 l show ?thesis by (simp add: own_buf_def buf_contents_def buf_data_def)
  qed (use b in simp)
qed

lemma grow_ok:
  assumes b: "own_buf b" and len: "bm_length b \<le> len" "len < size_lim" and r: "BUF_MEM_grow_clean malloc len b = (n, b')"
  shows "own_buf b'"
    "n = len \<and> bm_length b' = len \<and> take (bm_length b) (buf_data b') = buf_contents b \<or>
     n = 0 \<and> bm_length b' = bm_length b \<and> buf_contents b' = buf_contents b"
proof -
  obtain ok b1 where r1: "BUF_MEM_reserve malloc len b = (ok, b1)" by (cases "BUF_MEM_reserve malloc len b")
  note k = reserve_ok [OF b len(2) r1]
  have "own_buf b' \<and> (n = len \<and> bm_length b' = len \<and> take (bm_length b) (buf_data b') = buf_contents b \<or>
     n = 0 \<and> bm_length b' = bm_length b \<and> buf_contents b' = buf_contents b)"
  proof (cases ok)
    case False
    then have "n = 0" "b' = b1" using r r1 by (simp_all add: BUF_MEM_grow_clean_def BUF_MEM_grow_def)
    with k show ?thesis by simp
  next
    case True
    let ?z = "replicate (len - bm_length b) 0"
    have b': "n = len" "b' = (if bm_length b < len then buf_store (bm_length b) ?z b1 else b1) \<lparr> bm_length := len \<rparr>"
      using r r1 True k by (auto simp: BUF_MEM_grow_clean_def BUF_MEM_grow_def Let_def)
    have m: "len \<le> bm_max b1" "length (buf_data b1) = bm_max b1" "bm_off b1 = 0" using k True by (auto simp: own_buf_def)
    have s: "length (buf_data (buf_store (bm_length b) ?z b1)) = bm_max b1 \<and>
        take (bm_length b) (buf_data (buf_store (bm_length b) ?z b1)) = buf_contents b1" if "bm_length b < len"
    proof -
      have "bm_data b1 \<noteq> None" using own_buf_data [of b1] k m that by auto
      from buf_data_store [OF m(3) this, of "bm_length b" ?z] show ?thesis using m that k len by (simp add: buf_contents_def)
    qed
    show ?thesis using b' k m s len by (auto simp: own_buf_def buf_contents_def)
  qed
  then show "own_buf b'" "n = len \<and> bm_length b' = len \<and> take (bm_length b) (buf_data b') = buf_contents b \<or>
     n = 0 \<and> bm_length b' = bm_length b \<and> buf_contents b' = buf_contents b" by blast+
qed

lemma append_ok:
  assumes b: "own_buf b" and d: "length d < size_lim" and r: "BUF_MEM_append malloc d b = (ok, b')"
  shows "own_buf b' \<and> buf_contents b' = buf_contents b @ (if ok then d else [])"
proof (cases "d = []")
  case False
  let ?n = "size_add (bm_length b) (length d)"
  obtain ok1 b1 where r1: "BUF_MEM_reserve malloc ?n b = (ok1, b1)" by (cases "BUF_MEM_reserve malloc ?n b")
  note k = reserve_ok [OF b size_add_less r1]
  have o: "?n < length d \<longleftrightarrow> size_lim \<le> bm_length b + length d"
    using size_add_overflow [of "length d" "bm_length b"] d b by (simp add: own_buf_def size_add_def add.commute)
  show ?thesis
  proof (cases "\<not> ?n < length d \<and> ok1")
    case True
    then have n: "?n = bm_length b + length d" using o by (simp add: size_add_exact)
    have b': "ok" "b' = (buf_store (bm_length b) d b1) \<lparr> bm_length := bm_length b + length d \<rparr>"
      using r r1 True False k n by (auto simp: BUF_MEM_append_def Let_def)
    have m: "bm_length b + length d \<le> bm_max b1" "length (buf_data b1) = bm_max b1" "bm_off b1 = 0"
      using k True n by (auto simp: own_buf_def)
    have "0 < bm_max b1" using m(1) False by (cases d) auto
    then have "bm_data b1 \<noteq> None" using own_buf_data [of b1] k by blast
    from buf_data_store [OF m(3) this, of "bm_length b" d] show ?thesis
      using b' k m by (auto simp: own_buf_def buf_contents_def)
  next
    case no: False
    then have "\<not> ok" "b' = b \<or> b' = b1" using r r1 False by (auto simp: BUF_MEM_append_def Let_def split: if_splits)
    with b k show ?thesis by auto
  qed
qed (use b r in \<open>simp add: BUF_MEM_append_def\<close>)

end

lemma int_of_size_small: "int n \<le> INT_MAX \<Longrightarrow> int_of_size n = int n"
  unfolding int_of_size_def
  by (simp add: signed_of_nat signed_take_bit_int_eq_self)

section \<open>The queue of a memory BIO\<close>

abbreviation mem_BIO_read :: "mem_bio bread" where
  "mem_BIO_read \<equiv> BIO_read mb_bio mb_upd (Some mem_read)"

abbreviation mem_BIO_gets :: "mem_bio bread" where
  "mem_BIO_gets \<equiv> BIO_gets mb_bio mb_upd (Some mem_gets)"

abbreviation mem_BIO_write :: "allocator \<Rightarrow> mem_bio bwrite" where
  "mem_BIO_write al \<equiv> BIO_write mb_bio mb_upd (Some (mem_write al))"

text \<open>Usable states: a buffer is attached, no longer than an \<open>int\<close> can say, and \<open>num\<close> was not set to a positive number.\<close>

definition mem_ok :: "mem_bio \<Rightarrow> bool" where
  "mem_ok s \<longleftrightarrow> bio_init (mb_bio s) \<and> bio_num (mb_bio s) \<le> 0 \<and>
     (case mb_ptr s of None \<Rightarrow> False
      | Some b \<Rightarrow> int (bm_length b) \<le> INT_MAX \<and> (if read_only s then view_buf b else own_buf b))"

lemma read_only_flags [simp]:
  "read_only (mb_upd BIO_clear_retry_flags s) = read_only s" "read_only (mb_upd BIO_set_retry_read s) = read_only s"
  by (simp_all add: read_only_def mb_upd_def BIO_test_flags_def BIO_clear_retry_flags_def BIO_set_retry_read_def
      kRetryFlags_def BIO_FLAGS_READ_def BIO_FLAGS_WRITE_def BIO_FLAGS_IO_SPECIAL_def BIO_FLAGS_SHOULD_RETRY_def
      BIO_FLAGS_MEM_RDONLY_def and.assoc bit.conj_disj_distrib2)

lemma mb_upd_simps [simp]:
  "mb_ptr (mb_upd f s) = mb_ptr s" "mb_bio (mb_upd f s) = f (mb_bio s)" "mb_upd f (mb_set b s) = mb_set b (mb_upd f s)"
  "mb_ptr (mb_set b s) = Some b" "mb_bio (mb_set b s) = mb_bio s" "read_only (mb_set b s) = read_only s"
  "BIO_mem_contents (mb_upd f s) = BIO_mem_contents s" "BIO_mem_contents (mb_set b s) = buf_contents b"
  by (simp_all add: mb_upd_def mb_set_def read_only_def BIO_mem_contents_def buf_contents_def)

lemma bio_simps [simp]:
  "bio_init (BIO_clear_retry_flags b) = bio_init b" "bio_num (BIO_clear_retry_flags b) = bio_num b"
  "bio_init (BIO_set_retry_read b) = bio_init b" "bio_num (BIO_set_retry_read b) = bio_num b"
  by (simp_all add: BIO_clear_retry_flags_def BIO_set_retry_read_def)

lemma mem_ok_count [simp]: "mem_ok (mb_upd (\<lambda>b. b \<lparr> bio_num_read := f b \<rparr>) s) = mem_ok s" "mem_ok (mb_upd (\<lambda>b. b \<lparr> bio_num_write := f b \<rparr>) s) = mem_ok s"
  by (cases "mb_ptr s"; simp add: mem_ok_def read_only_def BIO_test_flags_def)+

lemma mem_okE:
  assumes "mem_ok s"
  obtains b where "mb_ptr s = Some b" "int (bm_length b) \<le> INT_MAX" "if read_only s then view_buf b else own_buf b"
    "bio_init (mb_bio s)" "bio_num (mb_bio s) \<le> 0" "BIO_mem_contents s = buf_contents b"
    "length (buf_contents b) = bm_length b" "int_of_size (bm_length b) = int (bm_length b)"
proof -
  from assms obtain b where b: "mb_ptr s = Some b" "int (bm_length b) \<le> INT_MAX" "if read_only s then view_buf b else own_buf b"
    "bio_init (mb_bio s)" "bio_num (mb_bio s) \<le> 0" by (auto simp: mem_ok_def split: option.splits)
  moreover have "length (buf_contents b) = bm_length b"
    using b(3) by (auto simp: buf_contents_def view_buf_def own_buf_def split: if_splits)
  ultimately show ?thesis using that [OF b] int_of_size_small [OF b(2)] by (simp add: BIO_mem_contents_def buf_contents_def)
qed

text \<open>Taking \<open>n\<close> bytes off the front, by moving the pointer or moving the bytes.\<close>

lemma advance_view:
  assumes "view_buf b" "n \<le> bm_length b" "0 < bm_length b"
  shows "view_buf (b \<lparr> bm_length := bm_length b - n, bm_off := bm_off b + n \<rparr>)"
    "buf_contents (b \<lparr> bm_length := bm_length b - n, bm_off := bm_off b + n \<rparr>) = drop n (buf_contents b)"
proof -
  have "bm_data b \<noteq> None" using assms by (cases "bm_data b") (auto simp: view_buf_def buf_data_def)
  then obtain d where "bm_data b = Some d" by blast
  then show "view_buf (b \<lparr> bm_length := bm_length b - n, bm_off := bm_off b + n \<rparr>)"
    "buf_contents (b \<lparr> bm_length := bm_length b - n, bm_off := bm_off b + n \<rparr>) = drop n (buf_contents b)"
    using assms by (auto simp: view_buf_def buf_contents_def buf_data_def drop_take add.commute)
qed

lemma advance_own:
  assumes "own_buf b" "n \<le> bm_length b" "0 < bm_length b"
  shows "own_buf (buf_store 0 (take (bm_length b - n) (drop n (buf_data b))) (b \<lparr> bm_length := bm_length b - n \<rparr>))"
    "buf_contents (buf_store 0 (take (bm_length b - n) (drop n (buf_data b))) (b \<lparr> bm_length := bm_length b - n \<rparr>)) =
      drop n (buf_contents b)"
proof -
  have "bm_data b \<noteq> None" using assms own_buf_data [of b] by (auto simp: own_buf_def)
  then obtain d where d: "bm_data b = Some d" "buf_data b = d" "length d = bm_max b" "bm_off b = 0"
    using assms(1) by (auto simp: own_buf_def buf_data_def)
  then show "own_buf (buf_store 0 (take (bm_length b - n) (drop n (buf_data b))) (b \<lparr> bm_length := bm_length b - n \<rparr>))"
    "buf_contents (buf_store 0 (take (bm_length b - n) (drop n (buf_data b))) (b \<lparr> bm_length := bm_length b - n \<rparr>)) =
      drop n (buf_contents b)"
    using assms by (auto simp: own_buf_def buf_contents_def buf_store_def buf_data_def drop_take min_def)
qed

lemma mem_read_unfold:
  assumes "mb_ptr s = Some b" "int_of_size (bm_length b) = int (bm_length b)"
    "m = (if int (bm_length b) < INT_MAX \<and> k > int (bm_length b) then int (bm_length b) else k)"
  shows "mem_read k s =
    (if m > 0 then
       ((m, take (nat m) (buf_data b)),
        mb_set (if read_only s then b \<lparr> bm_length := bm_length b - nat m, bm_off := bm_off b + nat m \<rparr>
          else buf_store 0 (take (bm_length b - nat m) (drop (nat m) (buf_data b))) (b \<lparr> bm_length := bm_length b - nat m \<rparr>))
          (mb_upd BIO_clear_retry_flags s))
     else if bm_length b = 0 then
       ((bio_num (mb_bio s), []),
        (if bio_num (mb_bio s) \<noteq> 0 then mb_upd BIO_set_retry_read (mb_upd BIO_clear_retry_flags s) else mb_upd BIO_clear_retry_flags s))
     else ((m, []), mb_upd BIO_clear_retry_flags s))"
  unfolding mem_read_def assms(1) option.case assms(2) assms(3) [symmetric] Let_def
  by simp

lemma mem_read_ok:
  assumes s: "mem_ok s" and k: "k \<le> INT_MAX" and r: "mem_read k s = ((n, out), s')"
  shows "mem_ok s' \<and> nat n = length out \<and> out = take (nat k) (BIO_mem_contents s) \<and>
    BIO_mem_contents s' = drop (nat k) (BIO_mem_contents s)"
proof -
  obtain b where b: "mb_ptr s = Some b" "int (bm_length b) \<le> INT_MAX" "if read_only s then view_buf b else own_buf b"
    "bio_init (mb_bio s)" "bio_num (mb_bio s) \<le> 0" "BIO_mem_contents s = buf_contents b"
    "length (buf_contents b) = bm_length b" "int_of_size (bm_length b) = int (bm_length b)" using mem_okE [OF s] .
  define m where "m = (if int (bm_length b) < INT_MAX \<and> k > int (bm_length b) then int (bm_length b) else k)"
  have m: "m \<le> int (bm_length b)" "m \<le> k" "take (nat k) (buf_contents b) = take (nat m) (buf_contents b)"
    "drop (nat k) (buf_contents b) = drop (nat m) (buf_contents b)" using b(2,7) k by (auto simp: m_def)
  show ?thesis
  proof (cases "m > 0")
    case True
    let ?b = "if read_only s then b \<lparr> bm_length := bm_length b - nat m, bm_off := bm_off b + nat m \<rparr>
      else buf_store 0 (take (bm_length b - nat m) (drop (nat m) (buf_data b))) (b \<lparr> bm_length := bm_length b - nat m \<rparr>)"
    have e: "n = m" "out = take (nat m) (buf_data b)" "s' = mb_set ?b (mb_upd BIO_clear_retry_flags s)"
      using r mem_read_unfold [OF b(1,8) m_def] True by auto
    have l: "nat m \<le> bm_length b" "0 < bm_length b" using m(1) True by linarith+
    have o: "out = take (nat m) (buf_contents b)" using e(2) l by (simp add: buf_contents_def)
    have v: "(if read_only s then view_buf ?b else own_buf ?b) \<and> buf_contents ?b = drop (nat m) (buf_contents b) \<and> int (bm_length ?b) \<le> INT_MAX"
      using b(2,3) advance_view [of b "nat m"] advance_own [of b "nat m"] l by auto
    show ?thesis using e(1,3) o v b l m True by (auto simp: mem_ok_def)
  next
    case False
    then have k0: "k \<le> 0 \<or> bm_length b = 0" using b(2) by (auto simp: m_def split: if_splits)
    have "out = []" "n \<le> 0" "s' = mb_upd BIO_clear_retry_flags s \<or> s' = mb_upd BIO_set_retry_read (mb_upd BIO_clear_retry_flags s)"
      using r b(5) mem_read_unfold [OF b(1,8) m_def] False by (auto split: if_splits)
    with k0 b show ?thesis by (auto simp: mem_ok_def)
  qed
qed

lemma size_of_int_of_nat: "n < size_lim \<Longrightarrow> size_of_int (int n) = n"
  by (simp add: size_of_int_def)

context allocator
begin

lemma mem_write_ok:
  assumes s: "mem_ok s" and w: "mem_write malloc d s = (n, s')"
  shows "mem_ok s' \<and> (n = int (length d) \<and> BIO_mem_contents s' = BIO_mem_contents s @ d \<or>
    n = -1 \<and> BIO_mem_contents s' = BIO_mem_contents s)"
proof -
  obtain b where b: "mb_ptr s = Some b" "int (bm_length b) \<le> INT_MAX" "if read_only s then view_buf b else own_buf b"
    "bio_init (mb_bio s)" "bio_num (mb_bio s) \<le> 0" "BIO_mem_contents s = buf_contents b"
    "length (buf_contents b) = bm_length b" "int_of_size (bm_length b) = int (bm_length b)" using mem_okE [OF s] .
  show ?thesis
  proof (cases "read_only s \<or> INT_MAX - int (bm_length b) < int (length d)")
    case True
    then have "n = -1 \<and> (s' = s \<or> s' = mb_upd BIO_clear_retry_flags s)"
      using w b(1,8) by (auto simp: mem_write_def Let_def split: if_splits)
    with b s show ?thesis by (auto simp: mem_ok_def)
  next
    case False
    let ?len = "bm_length b + length d"
    have len: "int ?len \<le> INT_MAX" using False by linarith
    then have lim: "?len < size_lim" by linarith
    have sz: "size_of_int (int (bm_length b) + int (length d)) = ?len" "size_of_int (int (bm_length b)) = bm_length b"
      "size_add (bm_length b) (length d) = ?len"
      using size_of_int_of_nat [OF lim] size_of_int_of_nat [of "bm_length b"] lim by (simp_all add: size_add_exact)
    have own: "own_buf b" using b(3) False by simp
    obtain m b1 where g: "BUF_MEM_grow_clean malloc ?len b = (m, b1)" by (cases "BUF_MEM_grow_clean malloc ?len b")
    note k = grow_ok [OF own _ lim g, simplified]
    have e: "(n, s') = (if m \<noteq> ?len then (-1, mb_set b1 (mb_upd BIO_clear_retry_flags s))
      else (int (length d), mb_set (buf_store (bm_length b) d b1) (mb_upd BIO_clear_retry_flags s)))"
      using w b(1,8) False g sz by (auto simp: mem_write_def Let_def split: if_splits)
    show ?thesis
    proof (cases "m = ?len \<and> d \<noteq> []")
      case True
      then have l1: "bm_length b1 = ?len" "take (bm_length b) (buf_data b1) = buf_contents b"
        using k(2) by (auto simp: buf_contents_def)
      have m1: "?len \<le> bm_max b1" "bm_off b1 = 0" "length (buf_data b1) = bm_max b1" using k(1) l1(1) by (simp_all add: own_buf_def)
      have "0 < bm_max b1" using m1(1) True by (cases d) auto
      then have "bm_data b1 \<noteq> None" using own_buf_data k(1) by blast
      note t = buf_data_store [OF m1(2) this, of "bm_length b" d]
      have "own_buf (buf_store (bm_length b) d b1)" "buf_contents (buf_store (bm_length b) d b1) = buf_contents b @ d"
        using k(1) l1 m1 t b(7) by (simp_all add: own_buf_def buf_contents_def)
      with e True False b l1 len show ?thesis by (simp add: mem_ok_def)
    next
      case no: False
      then have "bm_length b1 = bm_length b" "buf_contents b1 = buf_contents b"
        using k(2) by (auto simp: buf_contents_def)
      moreover have "buf_store (bm_length b) [] b1 = b1" by (cases "bm_data b1") (simp_all add: buf_store_def)
      ultimately show ?thesis using e no False b k(1) by (cases "d = []") (auto simp: mem_ok_def split: if_splits)
    qed
  qed
qed

end

sublocale allocator \<subseteq> membio: bio_methods mem_ok BIO_mem_contents "mem_write malloc" mem_read mb_bio mb_upd mb_bio mb_upd
proof unfold_locales
  show "mem_ok s' \<and> n \<le> int (length data) \<and> BIO_mem_contents s' = BIO_mem_contents s @ take (nat n) data"
    if "mem_ok s" "mem_write malloc data s = (n, s')" for s data n s'
    using mem_write_ok [OF that] by auto
  show "mem_ok s' \<and> nat n = length out \<and> out = take (nat k) (BIO_mem_contents s) \<and> BIO_mem_contents s' = drop (nat k) (BIO_mem_contents s)"
    if "mem_ok s" "k \<le> INT_MAX" "mem_read k s = ((n, out), s')" for s k n out s'
    using mem_read_ok [OF that] .
  show "bio_init (mb_bio s)" if "mem_ok s" for s
    using that by (simp add: mem_ok_def)
qed simp_all

context allocator
begin

lemmas mem_refines_queue = membio.calls.refines_queue

end

section \<open>What the calls of a client see\<close>

lemma new_mem_ok:
  assumes "BIO_new_mem al = Some s"
  shows "mem_ok s" "BIO_mem_contents s = []" "\<not> read_only s" "mb_ptr s = Some \<lparr> bm_length = 0, bm_data = None, bm_off = 0, bm_max = 0 \<rparr>"
proof -
  have s: "mb_ptr s = Some \<lparr> bm_length = 0, bm_data = None, bm_off = 0, bm_max = 0 \<rparr>" "bio_init (mb_bio s)" "bio_num (mb_bio s) = -1"
    "bio_flags (mb_bio s) = 0"
    using assms by (auto simp: BIO_new_mem_def mem_new_def BUF_MEM_new_def bio_zero_def split: option.splits)
  then show "\<not> read_only s" "mb_ptr s = Some \<lparr> bm_length = 0, bm_data = None, bm_off = 0, bm_max = 0 \<rparr>"
    by (simp_all add: read_only_def BIO_test_flags_def)
  with s show "mem_ok s" "BIO_mem_contents s = []"
    by (simp_all add: mem_ok_def own_buf_def buf_data_def BIO_mem_contents_def)
qed

text \<open>
  C22. A memory BIO is a queue of bytes: for any sequence of \<open>BIO_write\<close> and \<open>BIO_read\<close> calls the results are
  those of a byte list (a read gets as many bytes as were asked for and are there), the bytes delivered
  followed by those still inside are the bytes accepted, in order, and \<open>BIO_mem_contents\<close> shows the rest.
\<close>

theorem mem_bio_is_queue:
  assumes "allocator al" "BIO_new_mem al = Some s" "list_all int_call cs"
    and "fifo_run (mem_BIO_write al) mem_BIO_read cs s = (rs, s')"
  shows "length rs = length cs \<and> queue_replay (zip cs rs) [] = Some (BIO_mem_contents s') \<and>
    concat (map accepted (zip cs rs)) = concat (map delivered (zip cs rs)) @ BIO_mem_contents s'"
proof -
  note r = allocator.mem_refines_queue [OF assms(1) new_mem_ok(1) [OF assms(2)] assms(3,4), unfolded new_mem_ok(2) [OF assms(2)]]
  then show ?thesis using replay_stream [of "zip cs rs" "[]"] by simp
qed

text \<open>The line at the front: up to and including the first newline.\<close>

definition first_line :: "bytes \<Rightarrow> bytes" where
  "first_line xs = takeWhile (\<lambda>c. c \<noteq> 10) xs @ (if 10 \<in> set xs then [10] else [])"

lemma first_line_Cons: "first_line (c # xs) = (if c = 10 then [10] else c # first_line xs)"
  by (simp add: first_line_def)

lemma first_line_prefix: "first_line xs = take (length (first_line xs)) xs"
  by (induction xs) (simp_all add: first_line_Cons, simp add: first_line_def)

lemma first_line_length: "length (first_line xs) \<le> length xs"
  by (induction xs) (simp_all add: first_line_Cons, simp add: first_line_def)

lemma first_line_empty [simp]: "first_line xs = [] \<longleftrightarrow> xs = []"
  by (cases xs) (simp_all add: first_line_Cons, simp add: first_line_def)

lemma gets_scan_line: "j \<le> length p \<Longrightarrow> gets_scan p i j = i + length (first_line (take j p))"
proof (induction p i j rule: gets_scan.induct)
  case (1 p i)
  then show ?case by (simp add: first_line_def)
qed (simp_all add: first_line_Cons)

lemma mem_gets_unfold:
  assumes "mb_ptr s = Some b" "int_of_size (bm_length b) = int (bm_length b)" "0 < sz"
    "j = (if sz - 1 < int (bm_length b) then sz - 1 else int (bm_length b))"
  shows "mem_gets sz s =
    (if j \<le> 0 then ((0, [0]), mb_upd BIO_clear_retry_flags s)
     else case mem_read (int (gets_scan (buf_data b) 0 (nat j))) (mb_upd BIO_clear_retry_flags s) of
            ((i, out), s) \<Rightarrow> ((i, if i > 0 then out @ [0] else out), s))"
  unfolding mem_gets_def assms(1) option.case assms(2) assms(4) [symmetric] Let_def
  using assms(3) by simp

text \<open>
  \<open>BIO_gets\<close> on a memory BIO reads one line, like \<open>fgets\<close>: of the bytes inside, at most \<open>size - 1\<close> and up to
  and including the first newline; it terminates them with a NUL, returns their number and leaves the rest.
\<close>

theorem mem_gets_line:
  assumes s: "mem_ok s" and sz: "0 < sz" "sz \<le> INT_MAX" and r: "mem_BIO_gets sz s = ((n, out), s')"
  shows "out = first_line (take (nat (sz - 1)) (BIO_mem_contents s)) @ [0] \<and> n = int (length out) - 1 \<and>
    BIO_mem_contents s' = drop (nat n) (BIO_mem_contents s)"
proof -
  obtain b where b: "mb_ptr s = Some b" "int (bm_length b) \<le> INT_MAX" "if read_only s then view_buf b else own_buf b"
    "bio_init (mb_bio s)" "bio_num (mb_bio s) \<le> 0" "BIO_mem_contents s = buf_contents b"
    "length (buf_contents b) = bm_length b" "int_of_size (bm_length b) = int (bm_length b)" using mem_okE [OF s] .
  define j where "j = (if sz - 1 < int (bm_length b) then sz - 1 else int (bm_length b))"
  have t: "take (nat (sz - 1)) (buf_contents b) = take (nat j) (buf_contents b)" using b(7) by (auto simp: j_def)
  obtain m o1 s1 where g: "mem_gets sz s = ((m, o1), s1)" by (metis prod.collapse)
  have e: "n = m" "out = o1" "BIO_mem_contents s' = BIO_mem_contents s1"
    using r g b(4) sz by (auto simp: BIO_gets_def split: if_splits)
  have s0: "mem_ok (mb_upd BIO_clear_retry_flags s)" using s by (cases "mb_ptr s") (simp_all add: mem_ok_def)
  show ?thesis
  proof (cases "j \<le> 0")
    case True
    then have "m = 0" "o1 = [0]" "s1 = mb_upd BIO_clear_retry_flags s"
      using g mem_gets_unfold [OF b(1,8) sz(1) j_def] by auto
    moreover have "first_line (take (nat (sz - 1)) (buf_contents b)) = []" using t True by simp
    ultimately show ?thesis using e b(6) by simp
  next
    case False
    let ?l = "first_line (take (nat j) (buf_contents b))"
    have jl: "nat j \<le> bm_length b" by (auto simp: j_def)
    have "take (nat j) (buf_data b) = take (nat j) (buf_contents b)" using jl by (simp add: buf_contents_def)
    moreover have "nat j \<le> length (buf_data b)" using jl b(7) by (simp add: buf_contents_def)
    ultimately have scan: "gets_scan (buf_data b) 0 (nat j) = length ?l" by (simp add: gets_scan_line)
    obtain i o2 s2 where q: "mem_read (int (length ?l)) (mb_upd BIO_clear_retry_flags s) = ((i, o2), s2)" by (metis prod.collapse)
    have ll: "length ?l \<le> bm_length b" using first_line_length [of "take (nat j) (buf_contents b)"] jl b(7) by simp
    have "int (length ?l) \<le> INT_MAX" using ll b(2) by linarith
    note k = mem_read_ok [OF s0 this q]
    have "o2 = take (length ?l) (buf_contents b)" using k b(6) by simp
    also have "\<dots> = ?l" using first_line_prefix [of "take (nat j) (buf_contents b)"]
        first_line_length [of "take (nat j) (buf_contents b)"] jl b(7) by (metis length_take min_absorb2 nat_le_linear take_take min.absorb1 min.coboundedI1)
    finally have o2: "o2 = ?l" .
    have "0 < bm_length b" "j > 0" using False by (auto simp: j_def split: if_splits)
    then have "buf_contents b \<noteq> []" using b(7) by auto
    then have "?l \<noteq> []" using \<open>j > 0\<close> by simp
    then have "i > 0" using k o2 by (cases "i > 0") auto
    have "((m, o1), s1) = ((i, o2 @ [0]), s2)"
      using g mem_gets_unfold [OF b(1,8) sz(1) j_def] False q scan \<open>i > 0\<close> by simp
    with e k o2 t b(6) \<open>i > 0\<close> show ?thesis by auto
  qed
qed

section \<open>Read-only BIOs\<close>

definition view_of :: "bytes \<Rightarrow> nat \<Rightarrow> mem_bio \<Rightarrow> bool" where
  "view_of d n s \<longleftrightarrow> mem_ok s \<and> read_only s \<and> (\<exists>b. mb_ptr s = Some b \<and> bm_data b = Some d \<and> bm_max b = n)"

lemma view_of_fifo:
  assumes v: "view_of d n s" and c: "int_call c" and r: "fifo_do (mem_BIO_write al) mem_BIO_read c s = (res, s')"
  shows "view_of d n s' \<and> (case res of Wrote k \<Rightarrow> k \<le> 0 | Got k out \<Rightarrow> True)"
proof -
  obtain b where b: "mb_ptr s = Some b" "int (bm_length b) \<le> INT_MAX" "if read_only s then view_buf b else own_buf b"
    "bio_init (mb_bio s)" "bio_num (mb_bio s) \<le> 0" "BIO_mem_contents s = buf_contents b"
    "length (buf_contents b) = bm_length b" "int_of_size (bm_length b) = int (bm_length b)"
    using v mem_okE [of s] by (auto simp: view_of_def)
  show ?thesis
  proof (cases c)
    case (Write x)
    then have "s' = s" "\<exists>k \<le> 0. res = Wrote k"
      using r b(1,4) v by (auto simp: BIO_write_def mem_write_def view_of_def split: if_splits)
    with v show ?thesis by auto
  next
    case (Read k)
    have "mem_BIO_read k s = ((if k \<le> 0 then 0 else fst (fst (mem_read k s)), if k \<le> 0 then [] else snd (fst (mem_read k s))),
        if k \<le> 0 then s else if fst (fst (mem_read k s)) > 0
        then mb_upd (\<lambda>b. b \<lparr> bio_num_read := size_add (bio_num_read b) (nat (fst (fst (mem_read k s)))) \<rparr>) (snd (mem_read k s))
        else snd (mem_read k s))"
      using b(4) by (simp add: BIO_read_def split: prod.splits)
    with r Read have e: "s' = s \<or> s' = snd (mem_read k s) \<or> (\<exists>f. s' = mb_upd (\<lambda>b. b \<lparr> bio_num_read := f b \<rparr>) (snd (mem_read k s)))"
      "\<exists>k out. res = Got k out" by (auto split: if_splits prod.splits)
    have "mem_ok (snd (mem_read k s))"
      using mem_read_ok [of s k] v Read c by (cases "mem_read k s") (auto simp: view_of_def split: prod.splits)
    moreover have "read_only (snd (mem_read k s)) \<and> (\<exists>b. mb_ptr (snd (mem_read k s)) = Some b \<and> bm_data b = Some d \<and> bm_max b = n)"
      using mem_read_unfold [OF b(1,8) refl, of k] v b(1) by (auto simp: view_of_def)
    ultimately have "view_of d n (snd (mem_read k s))" by (simp add: view_of_def)
    moreover have "view_of d n (mb_upd (\<lambda>b. b \<lparr> bio_num_read := f b \<rparr>) t) = view_of d n t" for f t
      by (simp add: view_of_def read_only_def BIO_test_flags_def)
    ultimately show ?thesis using e v by auto
  qed
qed

lemma view_of_run:
  "view_of d n s \<Longrightarrow> list_all int_call cs \<Longrightarrow> fifo_run (mem_BIO_write al) mem_BIO_read cs s = (rs, s') \<Longrightarrow>
   view_of d n s' \<and> list_all (case_fifo_result (\<lambda>k. k \<le> 0) (\<lambda>k out. True)) rs"
proof (induction cs arbitrary: s rs)
  case (Cons c cs)
  obtain r s1 where c: "fifo_do (mem_BIO_write al) mem_BIO_read c s = (r, s1)" by (cases "fifo_do (mem_BIO_write al) mem_BIO_read c s")
  then obtain rs1 where r: "fifo_run (mem_BIO_write al) mem_BIO_read cs s1 = (rs1, s')" "rs = r # rs1"
    using Cons.prems(3) by (auto split: prod.splits)
  from Cons.prems(2) have l: "int_call c" "list_all int_call cs" by simp_all
  note k = view_of_fifo [OF Cons.prems(1) l(1) c]
  from Cons.IH [OF _ l(2) r(1)] k r(2) show ?case by simp
qed simp

text \<open>
  A BIO over caller memory is read-only and can be rewound: it starts with the first \<open>len\<close> bytes, no
  write is accepted, and after any reads \<open>BIO_CTRL_RESET\<close> puts all of these bytes back.
\<close>

theorem mem_buf_rewinds:
  assumes new: "BIO_new_mem_buf al (Some d) (int n) = Some (Some s)" and n: "n \<le> length d" "int n \<le> INT_MAX"
    and run: "list_all int_call cs" "fifo_run (mem_BIO_write al) mem_BIO_read cs s = (rs, s')"
  shows "BIO_mem_contents s = take n d \<and> list_all (case_fifo_result (\<lambda>k. k \<le> 0) (\<lambda>k out. True)) rs \<and>
    BIO_mem_contents (snd (mem_ctrl BIO_CTRL_RESET s')) = take n d"
proof -
  obtain s0 where s0: "BIO_new_mem al = Some s0"
    "s = s0 \<lparr> mb_ptr := map_option (\<lambda>b. b \<lparr> bm_data := Some d, bm_length := n, bm_max := n \<rparr>) (mb_ptr s0),
              mb_bio := (mb_bio s0) \<lparr> bio_flags := bio_flags (mb_bio s0) OR BIO_FLAGS_MEM_RDONLY, bio_num := 0 \<rparr> \<rparr>"
    using new by (auto simp: BIO_new_mem_buf_def split: option.splits)
  have ro: "read_only s"
    using s0 by (simp add: read_only_def BIO_test_flags_def bit.conj_disj_distrib2 BIO_FLAGS_MEM_RDONLY_def)
  have "bio_init (mb_bio s0)" using new_mem_ok(1) [OF s0(1)] by (simp add: mem_ok_def)
  then have v: "view_of d n s" "BIO_mem_contents s = take n d"
    using s0 ro new_mem_ok(4) [OF s0(1)] n
    by (auto simp: view_of_def mem_ok_def view_buf_def buf_data_def BIO_mem_contents_def)
  from view_of_run [OF v(1) run] have k: "view_of d n s'" "list_all (case_fifo_result (\<lambda>k. k \<le> 0) (\<lambda>k out. True)) rs" by simp_all
  then obtain b where b: "mb_ptr s' = Some b" "bm_data b = Some d" "bm_max b = n" "read_only s'" "view_buf b"
    by (auto simp: view_of_def mem_ok_def)
  then have "bm_off b - (bm_max b - bm_length b) = 0" by (simp add: view_buf_def)
  with b have "BIO_mem_contents (snd (mem_ctrl BIO_CTRL_RESET s')) = take n d"
    by (simp add: mem_ctrl_def Let_def buf_contents_def buf_data_def)
  with v k show ?thesis by blast
qed

section \<open>Examples\<close>

definition sample_mem :: mem_bio where
  "sample_mem = the (BIO_new_mem (arena 1000))"

definition sample_fifo_calls :: "fifo_call list" where
  "sample_fifo_calls = [Write [104, 105, 10, 111], Read 2, Write [107], Read 10, Read 1]"

definition sample_mem_run :: "fifo_result list \<times> mem_bio" where
  "sample_mem_run = fifo_run (mem_BIO_write (arena 1000)) mem_BIO_read sample_fifo_calls sample_mem"

lemma sample_mem_new: "BIO_new_mem (arena 1000) = Some sample_mem"
  unfolding sample_mem_def by code_simp

theorem mem_bio_is_queue_witness:
  "length (fst sample_mem_run) = 5 \<and>
   queue_replay (zip sample_fifo_calls (fst sample_mem_run)) [] = Some (BIO_mem_contents (snd sample_mem_run)) \<and>
   fst sample_mem_run = [Wrote 4, Got 2 [104, 105], Wrote 1, Got 3 [10, 111, 107], Got (-1) []]"
proof -
  have c: "list_all int_call sample_fifo_calls" by code_simp
  have r: "fifo_run (mem_BIO_write (arena 1000)) mem_BIO_read sample_fifo_calls sample_mem =
      (fst sample_mem_run, snd sample_mem_run)" by (simp add: sample_mem_run_def)
  have v: "fst sample_mem_run = [Wrote 4, Got 2 [104, 105], Wrote 1, Got 3 [10, 111, 107], Got (-1) []]" by code_simp
  from mem_bio_is_queue [OF arena.allocator_axioms sample_mem_new c r] v show ?thesis
    by (simp del: queue_replay.simps)
qed

definition sample_view :: mem_bio where
  "sample_view = the (the (BIO_new_mem_buf (arena 1000) (Some [104, 105, 10, 111, 107, 0]) 5))"

theorem mem_gets_line_witness:
  "fst (mem_BIO_gets 10 sample_view) = (3, [104, 105, 10, 0])"
proof -
  have "mem_ok sample_view" "BIO_mem_contents sample_view = [104, 105, 10, 111, 107]" by code_simp+
  moreover obtain n out s' where "mem_BIO_gets 10 sample_view = ((n, out), s')" by (metis prod.collapse)
  ultimately show ?thesis using mem_gets_line [of sample_view 10 n out s'] by (simp add: first_line_def)
qed

theorem mem_buf_rewinds_witness:
  "BIO_mem_contents (snd (mem_ctrl BIO_CTRL_RESET
     (snd (fifo_run (mem_BIO_write (arena 1000)) mem_BIO_read [Read 2, Write [1], Read 1] sample_view)))) = [104, 105, 10, 111, 107]"
proof -
  have n: "BIO_new_mem_buf (arena 1000) (Some [104, 105, 10, 111, 107, 0]) (int 5) = Some (Some sample_view)"
    unfolding sample_view_def by code_simp
  have "list_all int_call [Read 2, Write [1], Read 1]" by code_simp
  from mem_buf_rewinds [OF n _ _ this prod.collapse [symmetric]] show ?thesis by simp
qed

end
