(* ===== verification/BioPair.thy ===== *)
theory BioPair
  imports BioMem
begin

text \<open>
  \<open>crypto/bio/pair.c\<close>: two BIOs connected by two ring buffers.  The BIOs live in a store, so that an end and
  its peer may be any two addresses; \<^term>\<open>None\<close> as a result says that an assertion of the code failed, that it
  touched memory outside a buffer, or that a loop does not end.  On connected ends none of this happens, each
  direction satisfies the contract of a byte queue, and the flow control is exact.
\<close>

section \<open>The code\<close>

record bio_bio =
  bb_peer :: "nat option"
  bb_closed :: bool
  bb_len :: nat
  bb_offset :: nat
  bb_size :: nat
  bb_buf :: "bytes option"
  bb_request :: nat

record pair_end =
  pe_bio :: bio
  pe_b :: bio_bio

type_synonym store = "nat \<Rightarrow> pair_end option"

definition size_sub :: "nat \<Rightarrow> nat \<Rightarrow> nat" where
  "size_sub a b = size_add a (size_lim - b)"

definition set_bio :: "nat \<Rightarrow> (bio \<Rightarrow> bio) \<Rightarrow> store \<Rightarrow> store" where
  "set_bio a f \<sigma> = \<sigma>(a := map_option (\<lambda>e. e \<lparr> pe_bio := f (pe_bio e) \<rparr>) (\<sigma> a))"

definition set_b :: "nat \<Rightarrow> (bio_bio \<Rightarrow> bio_bio) \<Rightarrow> store \<Rightarrow> store" where
  "set_b a f \<sigma> = \<sigma>(a := map_option (\<lambda>e. e \<lparr> pe_b := f (pe_b e) \<rparr>) (\<sigma> a))"

text \<open>\<open>BIO_new(bio_s_bio())\<close> with the method's \<open>create\<close>; \<open>a\<close> is the address of the new BIO.\<close>

definition bio_new :: "allocator \<Rightarrow> nat \<Rightarrow> store \<Rightarrow> bool \<times> store" where
  "bio_new al a \<sigma> =
     (if OPENSSL_malloc al 64 = None \<or> OPENSSL_malloc al 56 = None then (False, \<sigma>)
      else (True, \<sigma>(a \<mapsto> \<lparr> pe_bio = bio_zero, pe_b = \<lparr> bb_peer = None, bb_closed = False, bb_len = 0, bb_offset = 0,
             bb_size = 17 * 1024, bb_buf = None, bb_request = 0 \<rparr> \<rparr>)))"

definition bio_destroy_pair :: "nat \<Rightarrow> store \<Rightarrow> store option" where
  "bio_destroy_pair a \<sigma> =
     (case \<sigma> a of
        None \<Rightarrow> None
      | Some e \<Rightarrow>
          (case bb_peer (pe_b e) of
             None \<Rightarrow> Some \<sigma>
           | Some p \<Rightarrow>
               (case \<sigma> p of
                  None \<Rightarrow> None
                | Some pe \<Rightarrow>
                    if bb_peer (pe_b pe) \<noteq> Some a then None
                    else if bb_buf (pe_b pe) = None then None
                    else if bb_buf (pe_b e) = None then None
                    else
                      let \<sigma> = set_b p (\<lambda>b. b \<lparr> bb_peer := None, bb_len := 0, bb_offset := 0 \<rparr>)
                                (set_bio p (\<lambda>bio. bio \<lparr> bio_init := False \<rparr>) \<sigma>)
                      in Some (set_b a (\<lambda>b. b \<lparr> bb_peer := None, bb_len := 0, bb_offset := 0 \<rparr>)
                                (set_bio a (\<lambda>bio. bio \<lparr> bio_init := False \<rparr>) \<sigma>)))))"

definition bio_free :: "nat \<Rightarrow> store \<Rightarrow> store option" where
  "bio_free a \<sigma> =
     (case \<sigma> a of
        None \<Rightarrow> None
      | Some e \<Rightarrow>
          (case (if bb_peer (pe_b e) \<noteq> None then bio_destroy_pair a \<sigma> else Some \<sigma>) of
             None \<Rightarrow> None
           | Some \<sigma> \<Rightarrow> Some (\<sigma>(a := None))))"

text \<open>One iteration of the copying loop of \<open>bio_read\<close>: what is left, the bytes copied so far, the buffer.\<close>

definition read_step :: "nat \<Rightarrow> bytes \<Rightarrow> bio_bio \<Rightarrow> (nat \<times> bytes \<times> bio_bio) option" where
  "read_step rest out b =
     (if \<not> rest \<le> bb_len b then None
      else
        let chunk = (if size_add (bb_offset b) rest \<le> bb_size b then rest else size_sub (bb_size b) (bb_offset b))
        in if \<not> size_add (bb_offset b) chunk \<le> bb_size b then None
           else case bb_buf b of
                  None \<Rightarrow> None
                | Some buf \<Rightarrow>
                    if bb_offset b + chunk > length buf then None
                    else
                      let out = out @ take chunk (drop (bb_offset b) buf);
                          b = b \<lparr> bb_len := size_sub (bb_len b) chunk \<rparr>
                      in if bb_len b \<noteq> 0 then
                           (let b = b \<lparr> bb_offset := size_add (bb_offset b) chunk \<rparr>
                            in if \<not> bb_offset b \<le> bb_size b then None
                               else Some (size_sub rest chunk, out, if bb_offset b = bb_size b then b \<lparr> bb_offset := 0 \<rparr> else b))
                         else if chunk \<noteq> rest then None
                         else Some (size_sub rest chunk, out, b \<lparr> bb_offset := 0 \<rparr>))"

partial_function (option) read_loop :: "nat \<Rightarrow> bytes \<Rightarrow> bio_bio \<Rightarrow> (bytes \<times> bio_bio) option" where
  [code]: "read_loop rest out b =
     Option.bind (read_step rest out b) (\<lambda>(rest, out, b). if rest \<noteq> 0 then read_loop rest out b else Some (out, b))"

text \<open>\<open>buf\<close> says whether the pointer given is not \<open>NULL\<close>.\<close>

definition bio_read :: "nat \<Rightarrow> bool \<Rightarrow> int \<Rightarrow> store \<Rightarrow> ((int \<times> bytes) \<times> store) option" where
  "bio_read a buf outl \<sigma> =
     (let sz = size_of_int outl; \<sigma> = set_bio a BIO_clear_retry_flags \<sigma> in
      case \<sigma> a of
        None \<Rightarrow> None
      | Some e \<Rightarrow>
          if \<not> bio_init (pe_bio e) then Some ((0, []), \<sigma>)
          else
            (case bb_peer (pe_b e) of
               None \<Rightarrow> None
             | Some p \<Rightarrow>
                 (case \<sigma> p of
                    None \<Rightarrow> None
                  | Some pe \<Rightarrow>
                      if bb_buf (pe_b pe) = None then None
                      else
                        let \<sigma> = set_b p (\<lambda>b. b \<lparr> bb_request := 0 \<rparr>) \<sigma>; peer_b = (pe_b pe) \<lparr> bb_request := 0 \<rparr>
                        in if \<not> buf \<or> sz = 0 then Some ((0, []), \<sigma>)
                           else if bb_len peer_b = 0 then
                             (if bb_closed peer_b then Some ((0, []), \<sigma>)
                              else Some ((-1, []), set_b p (\<lambda>b. b \<lparr> bb_request := (if sz \<le> bb_size b then sz else bb_size b) \<rparr>)
                                                     (set_bio a BIO_set_retry_read \<sigma>)))
                           else
                             let sz = (if bb_len peer_b < sz then bb_len peer_b else sz)
                             in if \<not> sz > 0 then None
                                else case read_loop sz [] peer_b of
                                       None \<Rightarrow> None
                                     | Some (out, peer_b) \<Rightarrow> Some ((int_of_size sz, out), set_b p (\<lambda>_. peer_b) \<sigma>))))"

definition write_step :: "nat \<Rightarrow> bytes \<Rightarrow> bio_bio \<Rightarrow> (nat \<times> bytes \<times> bio_bio) option" where
  "write_step rest data b =
     (if \<not> size_add (bb_len b) rest \<le> bb_size b then None
      else
        let write_offset = size_add (bb_offset b) (bb_len b);
            write_offset = (if write_offset \<ge> bb_size b then size_sub write_offset (bb_size b) else write_offset);
            chunk = (if size_add write_offset rest \<le> bb_size b then rest else size_sub (bb_size b) write_offset)
        in case bb_buf b of
             None \<Rightarrow> None
           | Some buf \<Rightarrow>
               if write_offset + chunk > length buf \<or> chunk > length data then None
               else
                 let b = b \<lparr> bb_buf := Some (take write_offset buf @ take chunk data @ drop (write_offset + chunk) buf),
                             bb_len := size_add (bb_len b) chunk \<rparr>
                 in if \<not> bb_len b \<le> bb_size b then None
                    else Some (size_sub rest chunk, drop chunk data, b))"

partial_function (option) write_loop :: "nat \<Rightarrow> bytes \<Rightarrow> bio_bio \<Rightarrow> bio_bio option" where
  [code]: "write_loop rest data b =
     Option.bind (write_step rest data b) (\<lambda>(rest, data, b). if rest \<noteq> 0 then write_loop rest data b else Some b)"

text \<open>The data is \<^term>\<open>None\<close> for a \<open>NULL\<close> pointer.\<close>

definition bio_write :: "nat \<Rightarrow> bytes option \<Rightarrow> store \<Rightarrow> (int \<times> store) option" where
  "bio_write a buf \<sigma> =
     (let \<sigma> = set_bio a BIO_clear_retry_flags \<sigma> in
      case \<sigma> a of
        None \<Rightarrow> None
      | Some e \<Rightarrow>
          (case buf of
             None \<Rightarrow> Some (0, \<sigma>)
           | Some data \<Rightarrow>
               let num = length data; b = pe_b e in
               if \<not> bio_init (pe_bio e) \<or> num = 0 then Some (0, \<sigma>)
               else if bb_peer b = None \<or> bb_buf b = None then None
               else
                 let \<sigma> = set_b a (\<lambda>b. b \<lparr> bb_request := 0 \<rparr>) \<sigma>; b = b \<lparr> bb_request := 0 \<rparr>
                 in if bb_closed b then Some (-1, \<sigma>)
                    else if \<not> bb_len b \<le> bb_size b then None
                    else if bb_len b = bb_size b then Some (-1, set_bio a BIO_set_retry_write \<sigma>)
                    else
                      let num = (if num > size_sub (bb_size b) (bb_len b) then size_sub (bb_size b) (bb_len b) else num)
                      in if \<not> num > 0 then None
                         else case write_loop num data b of
                                None \<Rightarrow> None
                              | Some b \<Rightarrow> Some (int_of_size num, set_b a (\<lambda>_. b) \<sigma>)))"

text \<open>The buffer of one end, allocated unless it is there from an earlier connection.\<close>

definition make_buf :: "allocator \<Rightarrow> nat \<Rightarrow> bio_bio \<Rightarrow> bool \<times> bio_bio" where
  "make_buf al writebuf_len b =
     (if bb_buf b = None then
        (let b = (if writebuf_len \<noteq> 0 then b \<lparr> bb_size := writebuf_len \<rparr> else b) in
         case OPENSSL_malloc al (bb_size b) of
           None \<Rightarrow> (False, b)
         | Some buf \<Rightarrow> (True, b \<lparr> bb_buf := Some buf, bb_len := 0, bb_offset := 0 \<rparr>))
      else (True, b))"

definition bio_make_pair :: "allocator \<Rightarrow> nat \<Rightarrow> nat \<Rightarrow> nat \<Rightarrow> nat \<Rightarrow> store \<Rightarrow> (bool \<times> store) option" where
  "bio_make_pair al bio1 bio2 writebuf1_len writebuf2_len \<sigma> =
     (case (\<sigma> bio1, \<sigma> bio2) of
        (Some e1, Some e2) \<Rightarrow>
          if bb_peer (pe_b e1) \<noteq> None \<or> bb_peer (pe_b e2) \<noteq> None then Some (False, \<sigma>)
          else
            (case make_buf al writebuf1_len (pe_b e1) of
               (ok, b1) \<Rightarrow>
                 let \<sigma> = set_b bio1 (\<lambda>_. b1) \<sigma> in
                 if \<not> ok then Some (False, \<sigma>)
                 else
                   (case \<sigma> bio2 of
                      None \<Rightarrow> None
                    | Some e2 \<Rightarrow>
                        (case make_buf al writebuf2_len (pe_b e2) of
                           (ok, b2) \<Rightarrow>
                             let \<sigma> = set_b bio2 (\<lambda>_. b2) \<sigma> in
                             if \<not> ok then Some (False, \<sigma>)
                             else
                               let \<sigma> = set_b bio1 (\<lambda>b. b \<lparr> bb_peer := Some bio2, bb_closed := False, bb_request := 0 \<rparr>) \<sigma>;
                                   \<sigma> = set_b bio2 (\<lambda>b. b \<lparr> bb_peer := Some bio1, bb_closed := False, bb_request := 0 \<rparr>) \<sigma>
                               in Some (True, set_bio bio2 (\<lambda>bio. bio \<lparr> bio_init := True \<rparr>)
                                                (set_bio bio1 (\<lambda>bio. bio \<lparr> bio_init := True \<rparr>) \<sigma>)))))
      | _ \<Rightarrow> None)"

datatype pair_cmd =
    BIO_C_GET_WRITE_BUF_SIZE | BIO_C_GET_WRITE_GUARANTEE | BIO_C_GET_READ_REQUEST | BIO_C_RESET_READ_REQUEST
  | BIO_C_SHUTDOWN_WR | PAIR_CTRL_GET_CLOSE | PAIR_CTRL_SET_CLOSE int | PAIR_CTRL_PENDING | PAIR_CTRL_WPENDING
  | PAIR_CTRL_FLUSH | PAIR_CTRL_EOF "nat option" | PAIR_CTRL_OTHER

definition bio_ctrl :: "nat \<Rightarrow> pair_cmd \<Rightarrow> store \<Rightarrow> (int \<times> store) option" where
  "bio_ctrl a cmd \<sigma> =
     (case \<sigma> a of
        None \<Rightarrow> None
      | Some e \<Rightarrow>
          (let b = pe_b e in
           case cmd of
             BIO_C_GET_WRITE_BUF_SIZE \<Rightarrow> Some (long_of_size (bb_size b), \<sigma>)
           | BIO_C_GET_WRITE_GUARANTEE \<Rightarrow>
               Some (if bb_peer b = None \<or> bb_closed b then 0
                     else long_of_size (size_sub (bb_size b) (bb_len b)), \<sigma>)
           | BIO_C_GET_READ_REQUEST \<Rightarrow> Some (long_of_size (bb_request b), \<sigma>)
           | BIO_C_RESET_READ_REQUEST \<Rightarrow> Some (1, set_b a (\<lambda>b. b \<lparr> bb_request := 0 \<rparr>) \<sigma>)
           | BIO_C_SHUTDOWN_WR \<Rightarrow> Some (1, set_b a (\<lambda>b. b \<lparr> bb_closed := True \<rparr>) \<sigma>)
           | PAIR_CTRL_GET_CLOSE \<Rightarrow> Some (bio_shutdown (pe_bio e), \<sigma>)
           | PAIR_CTRL_SET_CLOSE num \<Rightarrow> Some (1, set_bio a (\<lambda>bio. bio \<lparr> bio_shutdown := num \<rparr>) \<sigma>)
           | PAIR_CTRL_PENDING \<Rightarrow>
               (case bb_peer b of
                  None \<Rightarrow> Some (0, \<sigma>)
                | Some p \<Rightarrow> map_option (\<lambda>pe. (long_of_size (bb_len (pe_b pe)), \<sigma>)) (\<sigma> p))
           | PAIR_CTRL_WPENDING \<Rightarrow> Some (if bb_buf b \<noteq> None then long_of_size (bb_len b) else 0, \<sigma>)
           | PAIR_CTRL_FLUSH \<Rightarrow> Some (1, \<sigma>)
           | PAIR_CTRL_EOF other \<Rightarrow>
               (case other of
                  None \<Rightarrow> Some (1, \<sigma>)
                | Some oa \<Rightarrow>
                    map_option (\<lambda>oe. (if bb_len (pe_b oe) = 0 \<and> bb_closed (pe_b oe) then 1 else 0, \<sigma>)) (\<sigma> oa))
           | PAIR_CTRL_OTHER \<Rightarrow> Some (0, \<sigma>)))"

text \<open>\<open>BIO_free\<close> of a BIO that may be \<open>NULL\<close> and has one reference.\<close>

definition free_if :: "bool \<Rightarrow> nat \<Rightarrow> store \<Rightarrow> store option" where
  "free_if there a \<sigma> = (if there then bio_free a \<sigma> else Some \<sigma>)"

definition BIO_new_bio_pair :: "allocator \<Rightarrow> nat \<Rightarrow> nat \<Rightarrow> nat \<Rightarrow> nat \<Rightarrow> store \<Rightarrow> (bool \<times> store) option" where
  "BIO_new_bio_pair al a1 a2 writebuf1_len writebuf2_len \<sigma> =
     (case bio_new al a1 \<sigma> of
        (ok1, \<sigma>) \<Rightarrow>
          (case bio_new al a2 \<sigma> of
             (ok2, \<sigma>) \<Rightarrow>
               Option.bind (if \<not> ok1 \<or> \<not> ok2 then Some (False, \<sigma>) else bio_make_pair al a1 a2 writebuf1_len writebuf2_len \<sigma>)
                 (\<lambda>(ok, \<sigma>).
                    if ok then Some (True, \<sigma>)
                    else map_option (Pair False) (Option.bind (free_if ok1 a1 \<sigma>) (free_if ok2 a2)))))"

definition BIO_ctrl_get_read_request :: "nat \<Rightarrow> store \<Rightarrow> nat option" where
  "BIO_ctrl_get_read_request a \<sigma> = map_option (\<lambda>(r, _). size_of_int r) (bio_ctrl a BIO_C_GET_READ_REQUEST \<sigma>)"

definition BIO_ctrl_get_write_guarantee :: "nat \<Rightarrow> store \<Rightarrow> nat option" where
  "BIO_ctrl_get_write_guarantee a \<sigma> = map_option (\<lambda>(r, _). size_of_int r) (bio_ctrl a BIO_C_GET_WRITE_GUARANTEE \<sigma>)"

definition BIO_shutdown_wr :: "nat \<Rightarrow> store \<Rightarrow> (int \<times> store) option" where
  "BIO_shutdown_wr a \<sigma> = bio_ctrl a BIO_C_SHUTDOWN_WR \<sigma>"

section \<open>Ring buffers\<close>

definition ring :: "nat \<Rightarrow> nat \<Rightarrow> nat \<Rightarrow> bytes \<Rightarrow> bytes" where
  "ring off n sz buf = map (\<lambda>i. buf ! ((off + i) mod sz)) [0..<n]"

definition bb_queue :: "bio_bio \<Rightarrow> bytes" where
  "bb_queue b = (case bb_buf b of None \<Rightarrow> [] | Some buf \<Rightarrow> ring (bb_offset b) (bb_len b) (bb_size b) buf)"

definition wf_ring :: "bio_bio \<Rightarrow> bool" where
  "wf_ring b \<longleftrightarrow> (case bb_buf b of None \<Rightarrow> False | Some buf \<Rightarrow> length buf = bb_size b) \<and>
     2 * bb_size b < size_lim \<and> bb_offset b < bb_size b \<and> bb_len b \<le> bb_size b"

text \<open>What the copying loops do not touch.\<close>

definition same_end :: "bio_bio \<Rightarrow> bio_bio \<Rightarrow> bool" where
  "same_end b b' \<longleftrightarrow> bb_peer b' = bb_peer b \<and> bb_closed b' = bb_closed b \<and> bb_size b' = bb_size b \<and> bb_request b' = bb_request b"

lemma size_sub_exact [size_simps]: "b \<le> a \<Longrightarrow> a < size_lim \<Longrightarrow> size_sub a b = a - b"
proof -
  assume h: "b \<le> a" "a < size_lim"
  then have "a + (size_lim - b) = size_lim + (a - b)" by simp
  with h show ?thesis by (simp add: size_sub_def size_add_def del: add_diff_assoc)
qed

lemma length_ring [simp]: "length (ring off n sz buf) = n"
  by (simp add: ring_def)

lemma ring_nth: "i < n \<Longrightarrow> ring off n sz buf ! i = buf ! ((off + i) mod sz)"
  by (simp add: ring_def)

lemma ring_take: "c \<le> n \<Longrightarrow> off + c \<le> sz \<Longrightarrow> sz = length buf \<Longrightarrow> take c (ring off n sz buf) = take c (drop off buf)"
  by (rule nth_equalityI) (auto simp: ring_nth)

lemma ring_drop: "c \<le> n \<Longrightarrow> drop c (ring off n sz buf) = ring ((off + c) mod sz) (n - c) sz buf"
  by (rule nth_equalityI) (auto simp: ring_nth mod_add_left_eq add.assoc)

lemma ring_store:
  assumes sz: "sz = length buf" "off < sz" "n + c \<le> sz" and w: "w = (off + n) mod sz" "w + c \<le> sz" and c: "c \<le> length d"
  shows "ring off (n + c) sz (take w buf @ take c d @ drop (w + c) buf) = ring off n sz buf @ take c d"
proof (rule nth_equalityI)
  fix i assume "i < length (ring off (n + c) sz (take w buf @ take c d @ drop (w + c) buf))"
  then have i: "i < n + c" by simp
  define j where "j = (off + i) mod sz"
  have j: "j < sz" "j = (if off + i < sz then off + i else off + i - sz)"
    using sz i by (auto simp: j_def mod_if)
  have wv: "w = (if off + n < sz then off + n else off + n - sz)"
    using sz w by (auto simp: mod_if)
  have nth: "(take w buf @ take c d @ drop (w + c) buf) ! j = (if w \<le> j \<and> j < w + c then d ! (j - w) else buf ! j)"
    using j(1) sz(1) w(2) c by (auto simp: nth_append min_def)
  have "(w \<le> j \<and> j < w + c) = (n \<le> i)" "n \<le> i \<Longrightarrow> j - w = i - n"
    using j(2) wv i sz w(2) by (auto split: if_splits)
  with nth i c show "ring off (n + c) sz (take w buf @ take c d @ drop (w + c) buf) ! i = (ring off n sz buf @ take c d) ! i"
    by (auto simp: ring_nth nth_append j_def [symmetric])
qed (use c in simp)

text \<open>One iteration moves at least one byte, keeps the ring and asserts nothing false.\<close>

lemma read_step_ok:
  assumes b: "wf_ring b" and r: "0 < rest" "rest \<le> bb_len b"
  obtains c b' where "read_step rest out b = Some (rest - c, out @ take c (bb_queue b), b')" "0 < c" "c \<le> rest"
    "wf_ring b'" "bb_queue b' = drop c (bb_queue b)" "bb_len b' = bb_len b - c" "same_end b b'"
proof -
  obtain buf where buf: "bb_buf b = Some buf" "length buf = bb_size b"
    "2 * bb_size b < size_lim" "bb_offset b < bb_size b" "bb_len b \<le> bb_size b"
    using b by (auto simp: wf_ring_def split: option.splits)
  define c where "c = (if bb_offset b + rest \<le> bb_size b then rest else bb_size b - bb_offset b)"
  have c: "0 < c" "c \<le> rest" "bb_offset b + c \<le> bb_size b" using r buf by (auto simp: c_def)
  have e: "size_add (bb_offset b) rest = bb_offset b + rest" "size_sub (bb_size b) (bb_offset b) = bb_size b - bb_offset b"
    "size_add (bb_offset b) c = bb_offset b + c" "size_sub (bb_len b) c = bb_len b - c" "size_sub rest c = rest - c"
    by (rule size_add_exact size_sub_exact; use c r buf in linarith)+
  define b' where "b' = b \<lparr> bb_len := bb_len b - c,
    bb_offset := (if bb_len b - c = 0 \<or> bb_offset b + c = bb_size b then 0 else bb_offset b + c) \<rparr>"
  have q: "bb_queue b = ring (bb_offset b) (bb_len b) (bb_size b) buf" by (simp add: bb_queue_def buf)
  have t: "take c (drop (bb_offset b) buf) = take c (bb_queue b)"
    unfolding q by (rule ring_take [symmetric]) (use c r buf in simp_all)
  have s: "read_step rest out b = Some (rest - c, out @ take c (bb_queue b), b')"
  proof (cases "bb_len b \<le> c")
    case True
    then have "c = rest" using c r by simp
    with True show ?thesis unfolding read_step_def Let_def e c_def [symmetric] using r c buf t by (simp add: e b'_def)
  next
    case False
    then show ?thesis unfolding read_step_def Let_def e c_def [symmetric] using r c buf t by (simp add: e b'_def)
  qed
  have o: "(bb_offset b + c) mod bb_size b = (if bb_offset b + c = bb_size b then 0 else bb_offset b + c)" using c buf by simp
  have d: "bb_queue b' = drop c (bb_queue b)"
    unfolding q ring_drop [OF order.trans [OF c(2) r(2)]] o using buf by (auto simp: b'_def bb_queue_def ring_def)
  have "wf_ring b'" "bb_len b' = bb_len b - c" "same_end b b'"
    using buf c r by (auto simp: wf_ring_def b'_def same_end_def)
  with s c d show ?thesis using that by blast
qed

lemma write_step_ok:
  assumes b: "wf_ring b" and r: "0 < rest" "bb_len b + rest \<le> bb_size b" "rest \<le> length data"
  obtains c b' where "write_step rest data b = Some (rest - c, drop c data, b')" "0 < c" "c \<le> rest"
    "wf_ring b'" "bb_queue b' = bb_queue b @ take c data" "bb_len b' = bb_len b + c" "same_end b b'"
proof -
  obtain buf where buf: "bb_buf b = Some buf" "length buf = bb_size b"
    "2 * bb_size b < size_lim" "bb_offset b < bb_size b" "bb_len b \<le> bb_size b"
    using b by (auto simp: wf_ring_def split: option.splits)
  define w where "w = (if bb_offset b + bb_len b \<ge> bb_size b then bb_offset b + bb_len b - bb_size b else bb_offset b + bb_len b)"
  define c where "c = (if w + rest \<le> bb_size b then rest else bb_size b - w)"
  have w: "w < bb_size b" "w = (bb_offset b + bb_len b) mod bb_size b" using buf by (auto simp: w_def mod_if)
  have c: "0 < c" "c \<le> rest" "w + c \<le> bb_size b" using r w by (auto simp: c_def)
  have e: "size_add (bb_len b) rest = bb_len b + rest" "size_add (bb_offset b) (bb_len b) = bb_offset b + bb_len b"
    "size_add w rest = w + rest" "size_sub (bb_size b) w = bb_size b - w" "size_add (bb_len b) c = bb_len b + c" "size_sub rest c = rest - c"
    by (rule size_add_exact size_sub_exact; use c r buf w in linarith)+
  have e2: "(if bb_offset b + bb_len b \<ge> bb_size b then size_sub (bb_offset b + bb_len b) (bb_size b) else bb_offset b + bb_len b) = w"
    using buf by (auto simp: w_def size_sub_exact)
  define b' where "b' = b \<lparr> bb_buf := Some (take w buf @ take c data @ drop (w + c) buf), bb_len := bb_len b + c \<rparr>"
  have s: "write_step rest data b = Some (rest - c, drop c data, b')"
    unfolding write_step_def Let_def e e2 c_def [symmetric] using r c buf by (simp add: e b'_def)
  have "bb_queue b' = bb_queue b @ take c data"
    using ring_store [OF buf(2) [symmetric] _ _ w(2) c(3), where d = data] buf c r
    by (simp add: b'_def bb_queue_def)
  moreover have "wf_ring b'" "bb_len b' = bb_len b + c" "same_end b b'"
    using buf c r w(1) by (auto simp: wf_ring_def b'_def same_end_def)
  ultimately show ?thesis using that s c by blast
qed

text \<open>The loops end and move exactly what was asked for.\<close>

lemma same_end_trans: "same_end b c \<Longrightarrow> same_end c d \<Longrightarrow> same_end b d"
  by (simp add: same_end_def)

lemma length_bb_queue: "wf_ring b \<Longrightarrow> length (bb_queue b) = bb_len b"
  by (auto simp: wf_ring_def bb_queue_def split: option.splits)

lemma read_loop_ok:
  "wf_ring b \<Longrightarrow> 0 < rest \<Longrightarrow> rest \<le> bb_len b \<Longrightarrow>
   \<exists>b'. read_loop rest out b = Some (out @ take rest (bb_queue b), b') \<and> wf_ring b' \<and> same_end b b' \<and>
     bb_queue b' = drop rest (bb_queue b)"
proof (induction rest arbitrary: b out rule: less_induct)
  case (less rest)
  obtain c b1 where c: "read_step rest out b = Some (rest - c, out @ take c (bb_queue b), b1)" "0 < c" "c \<le> rest"
    "wf_ring b1" "bb_queue b1 = drop c (bb_queue b)" "bb_len b1 = bb_len b - c" "same_end b b1"
    using read_step_ok [OF less.prems] .
  show ?case
  proof (cases "c = rest")
    case True
    then show ?thesis using c by (subst read_loop.simps) auto
  next
    case False
    then have h: "rest - c < rest" "0 < rest - c" "rest - c \<le> bb_len b1" using c less.prems by linarith+
    obtain b' where b': "read_loop (rest - c) (out @ take c (bb_queue b)) b1 =
        Some ((out @ take c (bb_queue b)) @ take (rest - c) (bb_queue b1), b')"
      "wf_ring b'" "same_end b1 b'" "bb_queue b' = drop (rest - c) (bb_queue b1)"
      using less.IH [OF h(1) c(4) h(2,3), of "out @ take c (bb_queue b)"] by auto
    have "take rest (bb_queue b) = take c (bb_queue b) @ take (rest - c) (drop c (bb_queue b))"
      using c(3) by (metis le_add_diff_inverse take_add)
    with b' c False show ?thesis
      by (subst read_loop.simps) (auto intro: same_end_trans)
  qed
qed

lemma write_loop_ok:
  "wf_ring b \<Longrightarrow> 0 < rest \<Longrightarrow> bb_len b + rest \<le> bb_size b \<Longrightarrow> rest \<le> length data \<Longrightarrow>
   \<exists>b'. write_loop rest data b = Some b' \<and> wf_ring b' \<and> same_end b b' \<and> bb_queue b' = bb_queue b @ take rest data"
proof (induction rest arbitrary: b data rule: less_induct)
  case (less rest)
  obtain c b1 where c: "write_step rest data b = Some (rest - c, drop c data, b1)" "0 < c" "c \<le> rest"
    "wf_ring b1" "bb_queue b1 = bb_queue b @ take c data" "bb_len b1 = bb_len b + c" "same_end b b1"
    using write_step_ok [OF less.prems] .
  show ?case
  proof (cases "c = rest")
    case True
    then show ?thesis using c by (subst write_loop.simps) auto
  next
    case False
    then have h: "rest - c < rest" "0 < rest - c" "bb_len b1 + (rest - c) \<le> bb_size b1" "rest - c \<le> length (drop c data)"
      using c less.prems by (simp_all add: same_end_def)
    obtain b' where b': "write_loop (rest - c) (drop c data) b1 = Some b'"
      "wf_ring b'" "same_end b1 b'" "bb_queue b' = bb_queue b1 @ take (rest - c) (drop c data)"
      using less.IH [OF h(1) c(4) h(2-4)] by auto
    have "take rest data = take c data @ take (rest - c) (drop c data)"
      using c(3) by (metis le_add_diff_inverse take_add)
    with b' c False show ?thesis
      by (subst write_loop.simps) (auto intro: same_end_trans)
  qed
qed

section \<open>Connected ends\<close>

definition connected :: "nat \<Rightarrow> nat \<Rightarrow> store \<Rightarrow> bool" where
  "connected a p \<sigma> \<longleftrightarrow> a \<noteq> p \<and>
     (case (\<sigma> a, \<sigma> p) of
        (Some ea, Some ep) \<Rightarrow>
          bb_peer (pe_b ea) = Some p \<and> bb_peer (pe_b ep) = Some a \<and> bio_init (pe_bio ea) \<and> bio_init (pe_bio ep) \<and>
          wf_ring (pe_b ea) \<and> wf_ring (pe_b ep)
      | _ \<Rightarrow> False)"

text \<open>What was written to \<open>a\<close> and not yet read at its peer, the room left for it, and whether \<open>a\<close> is shut for writing.\<close>

definition pair_queue :: "nat \<Rightarrow> store \<Rightarrow> bytes" where
  "pair_queue a \<sigma> = (case \<sigma> a of None \<Rightarrow> [] | Some e \<Rightarrow> bb_queue (pe_b e))"

definition pair_room :: "nat \<Rightarrow> store \<Rightarrow> nat" where
  "pair_room a \<sigma> = (case \<sigma> a of None \<Rightarrow> 0 | Some e \<Rightarrow> bb_size (pe_b e) - bb_len (pe_b e))"

definition pair_closed :: "nat \<Rightarrow> store \<Rightarrow> bool" where
  "pair_closed a \<sigma> \<longleftrightarrow> (case \<sigma> a of None \<Rightarrow> False | Some e \<Rightarrow> bb_closed (pe_b e))"

lemma connectedE:
  assumes "connected a p \<sigma>"
  obtains ea ep where "\<sigma> a = Some ea" "\<sigma> p = Some ep" "a \<noteq> p" "bb_peer (pe_b ea) = Some p" "bb_peer (pe_b ep) = Some a"
    "bio_init (pe_bio ea)" "bio_init (pe_bio ep)" "wf_ring (pe_b ea)" "wf_ring (pe_b ep)"
  using assms by (auto simp: connected_def split: option.splits)

lemma connectedI:
  "\<sigma> a = Some ea \<Longrightarrow> \<sigma> p = Some ep \<Longrightarrow> a \<noteq> p \<Longrightarrow> bb_peer (pe_b ea) = Some p \<Longrightarrow> bb_peer (pe_b ep) = Some a \<Longrightarrow>
   bio_init (pe_bio ea) \<Longrightarrow> bio_init (pe_bio ep) \<Longrightarrow> wf_ring (pe_b ea) \<Longrightarrow> wf_ring (pe_b ep) \<Longrightarrow> connected a p \<sigma>"
  by (simp add: connected_def)

lemma connected_sym: "connected a p \<sigma> \<Longrightarrow> connected p a \<sigma>"
  by (erule connectedE) (rule connectedI; simp)

lemma set_simps [simp]:
  "set_bio a f \<sigma> x = (if x = a then map_option (\<lambda>e. e \<lparr> pe_bio := f (pe_bio e) \<rparr>) (\<sigma> a) else \<sigma> x)"
  "set_b a g \<sigma> x = (if x = a then map_option (\<lambda>e. e \<lparr> pe_b := g (pe_b e) \<rparr>) (\<sigma> a) else \<sigma> x)"
  by (simp_all add: set_bio_def set_b_def)

lemma wf_ring_request [simp]:
  "wf_ring (b \<lparr> bb_request := r \<rparr>) = wf_ring b" "bb_queue (b \<lparr> bb_request := r \<rparr>) = bb_queue b"
  "wf_ring (b \<lparr> bb_closed := c \<rparr>) = wf_ring b" "bb_queue (b \<lparr> bb_closed := c \<rparr>) = bb_queue b"
  by (cases "bb_buf b"; simp add: wf_ring_def bb_queue_def)+

lemma bio_retry_init [simp]: "bio_init (BIO_set_retry_write b) = bio_init b"
  by (simp add: BIO_set_retry_write_def)

lemma wf_ring_buf: "wf_ring b \<Longrightarrow> bb_buf b \<noteq> None \<and> bb_len b \<le> bb_size b \<and> 2 * bb_size b < size_lim"
  by (auto simp: wf_ring_def split: option.splits)

lemma bio_write_ok:
  assumes c: "connected a p \<sigma>" and d: "int (length data) \<le> INT_MAX"
  shows "\<exists>n \<sigma>'. bio_write a (Some data) \<sigma> = Some (n, \<sigma>') \<and> connected a p \<sigma>' \<and>
    pair_queue a \<sigma>' = pair_queue a \<sigma> @ take (nat n) data \<and> pair_queue p \<sigma>' = pair_queue p \<sigma> \<and>
    n = (if data = [] then 0 else if pair_closed a \<sigma> \<or> pair_room a \<sigma> = 0 then -1 else int (min (length data) (pair_room a \<sigma>))) \<and>
    (n = -1 \<and> \<not> pair_closed a \<sigma> \<longrightarrow> map_option (\<lambda>e. BIO_should_retry (pe_bio e)) (\<sigma>' a) \<noteq> Some 0)"
proof -
  obtain ea ep where e: "\<sigma> a = Some ea" "\<sigma> p = Some ep" "a \<noteq> p" "bb_peer (pe_b ea) = Some p" "bb_peer (pe_b ep) = Some a"
    "bio_init (pe_bio ea)" "bio_init (pe_bio ep)" "wf_ring (pe_b ea)" "wf_ring (pe_b ep)" using connectedE [OF c] .
  note w = wf_ring_buf [OF e(8)]
  have r: "size_sub (bb_size (pe_b ea)) (bb_len (pe_b ea)) = pair_room a \<sigma>" using w e(1) by (simp add: pair_room_def size_sub_exact)
  have room: "pair_room a \<sigma> = 0 \<longleftrightarrow> bb_len (pe_b ea) = bb_size (pe_b ea)" using w e(1) by (auto simp: pair_room_def)
  show ?thesis
  proof (cases "data = [] \<or> pair_closed a \<sigma> \<or> pair_room a \<sigma> = 0")
    case True
    then show ?thesis using e w room
      by (auto simp: bio_write_def Let_def pair_closed_def connected_def pair_queue_def BIO_should_retry_def BIO_test_flags_def
          BIO_set_retry_write_def BIO_FLAGS_SHOULD_RETRY_def BIO_FLAGS_WRITE_def bit.conj_disj_distrib2)
  next
    case False
    define num where "num = min (length data) (pair_room a \<sigma>)"
    have n: "0 < num" "num \<le> length data" "bb_len (pe_b ea) + num \<le> bb_size (pe_b ea)" "int num \<le> INT_MAX"
      using False w e(1) d by (auto simp: num_def pair_room_def)
    obtain b' where b': "write_loop num data ((pe_b ea) \<lparr> bb_request := 0 \<rparr>) = Some b'" "wf_ring b'"
      "same_end ((pe_b ea) \<lparr> bb_request := 0 \<rparr>) b'" "bb_queue b' = bb_queue (pe_b ea) @ take num data"
      using write_loop_ok [of "(pe_b ea) \<lparr> bb_request := 0 \<rparr>" num data] e(8) n by auto
    consider (full) "length data > pair_room a \<sigma>" "num = pair_room a \<sigma>" | (fits) "\<not> length data > pair_room a \<sigma>" "num = length data"
      by (cases "length data > pair_room a \<sigma>") (simp_all add: num_def)
    then have "bio_write a (Some data) \<sigma> = Some (int num, set_b a (\<lambda>_. b') (set_b a (\<lambda>b. b \<lparr> bb_request := 0 \<rparr>) (set_bio a BIO_clear_retry_flags \<sigma>)))"
      using e w False n(1) b'(1) room int_of_size_small [OF n(4)] r
      by cases (simp_all add: bio_write_def Let_def pair_closed_def)
    moreover have "connected a p (set_b a (\<lambda>_. b') (set_b a (\<lambda>b. b \<lparr> bb_request := 0 \<rparr>) (set_bio a BIO_clear_retry_flags \<sigma>)))"
      using e b'(2,3) by (simp add: connected_def same_end_def)
    ultimately show ?thesis using e(1-3) b'(4) False by (simp add: pair_queue_def num_def)
  qed
qed

lemma bio_read_ok:
  assumes c: "connected a p \<sigma>" and k: "k \<le> INT_MAX" "0 \<le> k"
  shows "\<exists>n out \<sigma>'. bio_read p True k \<sigma> = Some ((n, out), \<sigma>') \<and> connected a p \<sigma>' \<and>
    out = take (nat k) (pair_queue a \<sigma>) \<and> pair_queue a \<sigma>' = drop (nat k) (pair_queue a \<sigma>) \<and> pair_queue p \<sigma>' = pair_queue p \<sigma> \<and>
    n = (if pair_queue a \<sigma> \<noteq> [] \<or> k = 0 \<or> pair_closed a \<sigma> then int (length out) else -1) \<and>
    (n = -1 \<longrightarrow> map_option (\<lambda>e. BIO_should_retry (pe_bio e)) (\<sigma>' p) \<noteq> Some 0 \<and>
      map_option (\<lambda>e. bb_request (pe_b e)) (\<sigma>' a) = map_option (\<lambda>e. min (nat k) (bb_size (pe_b e))) (\<sigma> a))"
proof -
  obtain ea ep where e: "\<sigma> a = Some ea" "\<sigma> p = Some ep" "a \<noteq> p" "bb_peer (pe_b ea) = Some p" "bb_peer (pe_b ep) = Some a"
    "bio_init (pe_bio ea)" "bio_init (pe_bio ep)" "wf_ring (pe_b ea)" "wf_ring (pe_b ep)" using connectedE [OF c] .
  note w = wf_ring_buf [OF e(8)]
  have sz: "size_of_int k = nat k" using size_of_int_of_nat [of "nat k"] k by simp
  have q: "pair_queue a \<sigma> = bb_queue (pe_b ea)" "length (bb_queue (pe_b ea)) = bb_len (pe_b ea)"
    using e(1) length_bb_queue [OF e(8)] by (simp_all add: pair_queue_def)
  then have q0: "pair_queue a \<sigma> = [] \<longleftrightarrow> bb_len (pe_b ea) = 0" by auto
  show ?thesis
  proof (cases "k = 0 \<or> bb_len (pe_b ea) = 0")
    case True
    then show ?thesis using e w sz q0 k
      by (auto simp: bio_read_def Let_def pair_closed_def connected_def pair_queue_def BIO_should_retry_def BIO_test_flags_def
          BIO_set_retry_read_def BIO_FLAGS_SHOULD_RETRY_def BIO_FLAGS_READ_def bit.conj_disj_distrib2)
  next
    case False
    define num where "num = min (nat k) (bb_len (pe_b ea))"
    have n: "0 < num" "num \<le> bb_len (pe_b ea)" "int num \<le> INT_MAX" using False k by (auto simp: num_def)
    obtain b' where b': "read_loop num [] ((pe_b ea) \<lparr> bb_request := 0 \<rparr>) = Some (take num (bb_queue (pe_b ea)), b')" "wf_ring b'"
      "same_end ((pe_b ea) \<lparr> bb_request := 0 \<rparr>) b'" "bb_queue b' = drop num (bb_queue (pe_b ea))"
      using read_loop_ok [of "(pe_b ea) \<lparr> bb_request := 0 \<rparr>" num "[]"] e(8) n by auto
    have t: "take num (bb_queue (pe_b ea)) = take (nat k) (bb_queue (pe_b ea))" "drop num (bb_queue (pe_b ea)) = drop (nat k) (bb_queue (pe_b ea))"
      using q(2) by (auto simp: num_def min_def)
    consider (all) "bb_len (pe_b ea) < nat k" "num = bb_len (pe_b ea)" | (some) "\<not> bb_len (pe_b ea) < nat k" "num = nat k"
      by (cases "bb_len (pe_b ea) < nat k") (simp_all add: num_def)
    then have "bio_read p True k \<sigma> = Some ((int num, take num (bb_queue (pe_b ea))), set_b a (\<lambda>_. b') (set_b a (\<lambda>b. b \<lparr> bb_request := 0 \<rparr>) (set_bio p BIO_clear_retry_flags \<sigma>)))"
      using e w False n(1) b'(1) int_of_size_small [OF n(3)] sz k
      by cases (simp_all add: bio_read_def Let_def)
    moreover have "connected a p (set_b a (\<lambda>_. b') (set_b a (\<lambda>b. b \<lparr> bb_request := 0 \<rparr>) (set_bio p BIO_clear_retry_flags \<sigma>)))"
      using e b'(2,3) by (simp add: connected_def same_end_def)
    moreover have "int num = int (length (take (nat k) (bb_queue (pe_b ea))))" using q(2) by (simp add: num_def)
    ultimately show ?thesis using e(1-3) b'(4) False q t q0 by (simp add: pair_queue_def)
  qed
qed

section \<open>Each direction is a byte queue\<close>

definition end_bio :: "nat \<Rightarrow> store \<Rightarrow> bio" where
  "end_bio a \<sigma> = (case \<sigma> a of None \<Rightarrow> bio_zero | Some e \<Rightarrow> pe_bio e)"

text \<open>The generic calls on the BIO at \<open>a\<close>.\<close>

definition pair_write :: "nat \<Rightarrow> store bwrite" where
  "pair_write a = BIO_write (end_bio a) (set_bio a) (Some (\<lambda>d \<sigma>. the (bio_write a (Some d) \<sigma>)))"

definition pair_read :: "nat \<Rightarrow> store bread" where
  "pair_read a = BIO_read (end_bio a) (set_bio a) (Some (\<lambda>k \<sigma>. the (bio_read a True k \<sigma>)))"

lemma counter_simps:
  "connected a p \<sigma> \<Longrightarrow> connected a p (set_bio x (\<lambda>b. b \<lparr> bio_num_read := f b \<rparr>) \<sigma>)"
  "connected a p \<sigma> \<Longrightarrow> connected a p (set_bio x (\<lambda>b. b \<lparr> bio_num_write := f b \<rparr>) \<sigma>)"
  "pair_queue a (set_bio x g \<sigma>) = pair_queue a \<sigma>"
proof -
  show "connected a p \<sigma> \<Longrightarrow> connected a p (set_bio x (\<lambda>b. b \<lparr> bio_num_read := f b \<rparr>) \<sigma>)"
    "connected a p \<sigma> \<Longrightarrow> connected a p (set_bio x (\<lambda>b. b \<lparr> bio_num_write := f b \<rparr>) \<sigma>)"
    by (erule connectedE; auto simp: connected_def)+
  show "pair_queue a (set_bio x g \<sigma>) = pair_queue a \<sigma>"
    by (cases "\<sigma> a") (auto simp: pair_queue_def)
qed

interpretation pair: bio_methods "connected a p" "pair_queue a" "\<lambda>d \<sigma>. the (bio_write a (Some d) \<sigma>)"
  "\<lambda>k \<sigma>. the (bio_read p True k \<sigma>)" "end_bio a" "set_bio a" "end_bio p" "set_bio p" for a p
proof unfold_locales
  fix \<sigma> \<sigma>' data n
  assume c: "connected a p \<sigma>" and d: "int (length data) \<le> INT_MAX" and w: "the (bio_write a (Some data) \<sigma>) = (n, \<sigma>')"
  from bio_write_ok [OF c d] w
  show "connected a p \<sigma>' \<and> n \<le> int (length data) \<and> pair_queue a \<sigma>' = pair_queue a \<sigma> @ take (nat n) data"
    by (auto split: if_splits)
next
  fix \<sigma> \<sigma>' k n out
  assume c: "connected a p \<sigma>" and k: "0 < k" "k \<le> INT_MAX" and w: "the (bio_read p True k \<sigma>) = ((n, out), \<sigma>')"
  have "0 \<le> k" using k(1) by simp
  from bio_read_ok [OF c k(2) this] w
  show "connected a p \<sigma>' \<and> nat n = length out \<and> out = take (nat k) (pair_queue a \<sigma>) \<and> pair_queue a \<sigma>' = drop (nat k) (pair_queue a \<sigma>)"
    by (auto split: if_splits)
qed (auto elim!: connectedE simp: end_bio_def counter_simps intro!: counter_simps(1,2))

text \<open>A call on one direction leaves the other alone.\<close>

lemma pair_write_frame:
  assumes c: "connected a p \<sigma>" and d: "int (length data) \<le> INT_MAX" and w: "pair_write a data \<sigma> = (n, \<sigma>')"
  shows "pair_queue p \<sigma>' = pair_queue p \<sigma>"
  using bio_write_ok [OF c d] w
  by (auto simp: pair_write_def BIO_write_def counter_simps split: if_splits)

lemma pair_read_frame:
  assumes c: "connected a p \<sigma>" and k: "k \<le> INT_MAX" and w: "pair_read p k \<sigma> = ((n, out), \<sigma>')"
  shows "pair_queue p \<sigma>' = pair_queue p \<sigma>"
proof (cases "k \<le> 0")
  case False
  then have "0 \<le> k" by simp
  from bio_read_ok [OF c k this] w show ?thesis
    by (auto simp: pair_read_def BIO_read_def counter_simps split: if_splits)
qed (use w in \<open>auto simp: pair_read_def BIO_read_def split: if_splits\<close>)

section \<open>Both directions at once\<close>

text \<open>A call and the end it is made on: \<open>True\<close> for \<open>a\<close>, \<open>False\<close> for \<open>p\<close>.\<close>

fun pair_run :: "nat \<Rightarrow> nat \<Rightarrow> (bool \<times> fifo_call) list \<Rightarrow> store \<Rightarrow> fifo_result list \<times> store" where
  "pair_run a p [] \<sigma> = ([], \<sigma>)"
| "pair_run a p ((e, c) # cs) \<sigma> =
     (case fifo_do (pair_write (if e then a else p)) (pair_read (if e then a else p)) c \<sigma> of
        (r, \<sigma>) \<Rightarrow> (case pair_run a p cs \<sigma> of (rs, \<sigma>) \<Rightarrow> (r # rs, \<sigma>)))"

text \<open>The events of the direction that starts at end \<open>e\<close>: the writes there and the reads at the other end.\<close>

fun on_direction :: "bool \<Rightarrow> (bool \<times> fifo_call) \<times> fifo_result \<Rightarrow> (fifo_call \<times> fifo_result) list" where
  "on_direction e ((e', Write d), r) = (if e = e' then [(Write d, r)] else [])"
| "on_direction e ((e', Read k), r) = (if e = e' then [] else [(Read k, r)])"

definition direction :: "bool \<Rightarrow> (bool \<times> fifo_call) list \<Rightarrow> fifo_result list \<Rightarrow> (fifo_call \<times> fifo_result) list" where
  "direction e cs rs = concat (map (on_direction e) (zip cs rs))"

lemma replay_append: "queue_replay (xs @ ys) q = Option.bind (queue_replay xs q) (queue_replay ys)"
proof (induction xs arbitrary: q)
  case (Cons cr xs)
  then show ?case by (cases "queue_do cr q") simp_all
qed simp

lemma pair_call_ok:
  assumes c: "connected a p \<sigma>" and i: "int_call c" and r: "fifo_do (pair_write a) (pair_read a) c \<sigma> = (r, \<sigma>')"
  shows "connected a p \<sigma>' \<and> queue_replay (on_direction True ((True, c), r)) (pair_queue a \<sigma>) = Some (pair_queue a \<sigma>') \<and>
    queue_replay (on_direction False ((True, c), r)) (pair_queue p \<sigma>) = Some (pair_queue p \<sigma>')"
proof (cases c)
  case (Write d)
  then obtain n where w: "pair_write a d \<sigma> = (n, \<sigma>')" "r = Wrote n" using r by (auto split: prod.splits)
  have d: "int (length d) \<le> INT_MAX" using i Write by simp
  from pair.write_law [OF c d w(1) [unfolded pair_write_def]] pair_write_frame [OF c d w(1)] Write w(2)
  show ?thesis by simp
next
  case (Read k)
  then obtain n out where w: "pair_read a k \<sigma> = ((n, out), \<sigma>')" "r = Got n out" using r by (auto split: prod.splits)
  have k: "k \<le> INT_MAX" using i Read by simp
  from pair.read_law [OF connected_sym [OF c] k w(1) [unfolded pair_read_def]] pair_read_frame [OF connected_sym [OF c] k w(1)] Read w(2)
  show ?thesis by (auto intro: connected_sym)
qed

lemma on_direction_flip: "on_direction e ((e', c), r) = on_direction (e = e') ((True, c), r)"
  by (cases c) auto

lemma pair_run_ok:
  "connected a p \<sigma> \<Longrightarrow> list_all (int_call \<circ> snd) cs \<Longrightarrow> pair_run a p cs \<sigma> = (rs, \<sigma>') \<Longrightarrow>
   connected a p \<sigma>' \<and> length rs = length cs \<and>
   queue_replay (direction True cs rs) (pair_queue a \<sigma>) = Some (pair_queue a \<sigma>') \<and>
   queue_replay (direction False cs rs) (pair_queue p \<sigma>) = Some (pair_queue p \<sigma>')"
proof (induction cs arbitrary: \<sigma> rs)
  case (Cons ec cs)
  obtain e c where ec: "ec = (e, c)" by (cases ec)
  define x y where "x = (if e then a else p)" and "y = (if e then p else a)"
  obtain r \<sigma>1 where s: "fifo_do (pair_write x) (pair_read x) c \<sigma> = (r, \<sigma>1)" by (cases "fifo_do (pair_write x) (pair_read x) c \<sigma>")
  then obtain rs1 where run: "pair_run a p cs \<sigma>1 = (rs1, \<sigma>')" "rs = r # rs1"
    using Cons.prems(3) ec by (auto simp: x_def split: prod.splits)
  have xy: "connected x y \<sigma>" using Cons.prems(1) connected_sym by (auto simp: x_def y_def)
  have i: "int_call c" "list_all (int_call \<circ> snd) cs" using Cons.prems(2) ec by (simp_all add: comp_def)
  note k = pair_call_ok [OF xy i(1) s]
  have c1: "connected a p \<sigma>1" using k connected_sym by (auto simp: x_def y_def split: if_splits)
  have d: "queue_replay (on_direction True (ec, r)) (pair_queue a \<sigma>) = Some (pair_queue a \<sigma>1)"
    "queue_replay (on_direction False (ec, r)) (pair_queue p \<sigma>) = Some (pair_queue p \<sigma>1)"
    using k unfolding ec on_direction_flip [of _ e] by (cases e; simp add: x_def y_def)+
  from Cons.IH [OF c1 i(2) run(1)] d c1 run(2) show ?case by (simp add: direction_def replay_append)
qed (simp add: direction_def)

section \<open>Creating a pair\<close>

definition unpaired :: "bio_bio \<Rightarrow> bool" where
  "unpaired b \<longleftrightarrow> bb_peer b = None \<and> bb_buf b = None \<and> 0 < bb_size b \<and> 2 * bb_size b < size_lim"

context allocator
begin

lemma make_buf_ok:
  assumes "make_buf malloc l b = (True, b')" "unpaired b" "2 * l < size_lim"
  shows "wf_ring (b' \<lparr> bb_peer := x, bb_closed := c, bb_request := r \<rparr>)" "bb_len b' = 0" "bb_size b' = (if l \<noteq> 0 then l else bb_size b)"
proof -
  let ?n = "if l \<noteq> 0 then l else bb_size b"
  obtain buf where buf: "OPENSSL_malloc malloc ?n = Some buf" "b' = b \<lparr> bb_size := ?n, bb_buf := Some buf, bb_len := 0, bb_offset := 0 \<rparr>"
    using assms by (auto simp: make_buf_def unpaired_def Let_def split: option.splits if_splits)
  have n: "0 < ?n" "2 * ?n < size_lim" using assms by (auto simp: unpaired_def)
  with openssl_malloc_length [OF _ buf(1)] have "length buf = ?n" by simp
  with n buf show "wf_ring (b' \<lparr> bb_peer := x, bb_closed := c, bb_request := r \<rparr>)" "bb_len b' = 0" "bb_size b' = ?n"
    by (simp_all add: wf_ring_def)
qed

end

lemma make_buf_unpaired: "make_buf al l b = (ok, b') \<Longrightarrow> bb_peer b' = bb_peer b"
  by (auto simp: make_buf_def Let_def split: if_splits option.splits)

lemma bio_new_ok:
  "bio_new al a \<sigma> = (True, \<sigma>') \<Longrightarrow> \<exists>e. \<sigma>' = \<sigma>(a \<mapsto> e) \<and> unpaired (pe_b e) \<and> bb_size (pe_b e) = 17408"
  by (auto simp: bio_new_def unpaired_def split: if_splits)

lemma make_pair_connects:
  assumes al: "allocator al" and e: "\<sigma> a1 = Some e1" "\<sigma> a2 = Some e2" "a1 \<noteq> a2" "unpaired (pe_b e1)" "unpaired (pe_b e2)"
    and l: "2 * l1 < size_lim" "2 * l2 < size_lim" and m: "bio_make_pair al a1 a2 l1 l2 \<sigma> = Some (True, \<sigma>')"
  shows "connected a1 a2 \<sigma>' \<and> pair_queue a1 \<sigma>' = [] \<and> pair_queue a2 \<sigma>' = [] \<and> \<not> pair_closed a1 \<sigma>' \<and> \<not> pair_closed a2 \<sigma>' \<and>
    pair_room a1 \<sigma>' = (if l1 \<noteq> 0 then l1 else bb_size (pe_b e1)) \<and> pair_room a2 \<sigma>' = (if l2 \<noteq> 0 then l2 else bb_size (pe_b e2))"
proof -
  obtain ok1 b1 ok2 b2 where mb: "make_buf al l1 (pe_b e1) = (ok1, b1)" "make_buf al l2 (pe_b e2) = (ok2, b2)"
    by (metis prod.exhaust)
  have un: "bb_peer (pe_b e1) = None" "bb_peer (pe_b e2) = None" using e by (simp_all add: unpaired_def)
  have ok: "ok1" "ok2" and s: "\<sigma>' = set_bio a2 (\<lambda>bio. bio \<lparr> bio_init := True \<rparr>) (set_bio a1 (\<lambda>bio. bio \<lparr> bio_init := True \<rparr>)
      (set_b a2 (\<lambda>b. b \<lparr> bb_peer := Some a1, bb_closed := False, bb_request := 0 \<rparr>)
        (set_b a1 (\<lambda>b. b \<lparr> bb_peer := Some a2, bb_closed := False, bb_request := 0 \<rparr>)
          (set_b a2 (\<lambda>_. b2) (set_b a1 (\<lambda>_. b1) \<sigma>)))))"
    using m e(1-3) mb un by (auto simp: bio_make_pair_def Let_def split: if_splits)
  note b1 = allocator.make_buf_ok [OF al mb(1) [unfolded eqTrueI [OF ok(1)]] e(4) l(1)]
  note b2 = allocator.make_buf_ok [OF al mb(2) [unfolded eqTrueI [OF ok(2)]] e(5) l(2)]
  show ?thesis
    using e(1-3) b1 b2 by (simp add: s connected_def pair_queue_def pair_closed_def pair_room_def bb_queue_def ring_def split: option.splits)
qed

lemma new_pair_ok:
  assumes al: "allocator al" and a: "a1 \<noteq> a2" and l: "2 * l1 < size_lim" "2 * l2 < size_lim"
    and m: "BIO_new_bio_pair al a1 a2 l1 l2 \<sigma> = Some (True, \<sigma>')"
  shows "connected a1 a2 \<sigma>'" "pair_queue a1 \<sigma>' = []" "pair_queue a2 \<sigma>' = []" "\<not> pair_closed a1 \<sigma>'" "\<not> pair_closed a2 \<sigma>'"
    "pair_room a1 \<sigma>' = (if l1 \<noteq> 0 then l1 else 17408)" "pair_room a2 \<sigma>' = (if l2 \<noteq> 0 then l2 else 17408)"
proof -
  obtain ok1 \<sigma>1 ok2 \<sigma>2 where n: "bio_new al a1 \<sigma> = (ok1, \<sigma>1)" "bio_new al a2 \<sigma>1 = (ok2, \<sigma>2)" by (metis prod.exhaust)
  have ok: "ok1" "ok2" "bio_make_pair al a1 a2 l1 l2 \<sigma>2 = Some (True, \<sigma>')"
    using m n by (auto simp: BIO_new_bio_pair_def bind_eq_Some_conv split: if_splits)
  obtain e1 e2 where e: "\<sigma>1 = \<sigma>(a1 \<mapsto> e1)" "unpaired (pe_b e1)" "bb_size (pe_b e1) = 17408"
    "\<sigma>2 = \<sigma>1(a2 \<mapsto> e2)" "unpaired (pe_b e2)" "bb_size (pe_b e2) = 17408"
    using bio_new_ok [of al a1 \<sigma> \<sigma>1] bio_new_ok [of al a2 \<sigma>1 \<sigma>2] n ok by auto
  from make_pair_connects [OF al _ _ a e(2,5) l ok(3)] e a
  show "connected a1 a2 \<sigma>'" "pair_queue a1 \<sigma>' = []" "pair_queue a2 \<sigma>' = []" "\<not> pair_closed a1 \<sigma>'" "\<not> pair_closed a2 \<sigma>'"
    "pair_room a1 \<sigma>' = (if l1 \<noteq> 0 then l1 else 17408)" "pair_room a2 \<sigma>' = (if l2 \<noteq> 0 then l2 else 17408)"
    by (simp_all split: if_splits)
qed

section \<open>What the calls of a client see\<close>

definition sample_store :: store where
  "sample_store = snd (the (BIO_new_bio_pair (arena 1000) 1 2 4 3 (\<lambda>_. None)))"

definition sample_pair_calls :: "(bool \<times> fifo_call) list" where
  "sample_pair_calls = [(True, Write [1, 2, 3, 4, 5]), (False, Read 2), (True, Write [6, 7]), (False, Write [9]), (False, Read 9),
    (True, Read 5)]"

lemma sample_store_new: "BIO_new_bio_pair (arena 1000) 1 2 4 3 (\<lambda>_. None) = Some (True, sample_store)"
proof -
  have "map_option fst (BIO_new_bio_pair (arena 1000) 1 2 4 3 (\<lambda>_. None)) = Some True" by code_simp
  then show ?thesis by (auto simp: sample_store_def)
qed

lemma sample_connected: "connected 1 2 sample_store" "\<not> pair_closed 1 sample_store" "pair_room 1 sample_store = 4"
  using new_pair_ok [OF arena.allocator_axioms _ _ _ sample_store_new] by simp_all

text \<open>
  C23. A BIO pair is two byte queues: for any interleaving of \<open>BIO_write\<close> and \<open>BIO_read\<close> calls on the two ends,
  from \<open>BIO_new_bio_pair\<close> on, what is written at one end is read at the other in order, each direction
  independent of the other, through ring buffers that wrap around.
\<close>

theorem pair_is_two_queues:
  assumes "allocator al" "a1 \<noteq> a2" "2 * l1 < size_lim" "2 * l2 < size_lim"
    and "BIO_new_bio_pair al a1 a2 l1 l2 \<sigma> = Some (True, \<sigma>0)"
    and "list_all (int_call \<circ> snd) cs" "pair_run a1 a2 cs \<sigma>0 = (rs, \<sigma>')"
  shows "length rs = length cs \<and> queue_replay (direction True cs rs) [] = Some (pair_queue a1 \<sigma>') \<and>
    queue_replay (direction False cs rs) [] = Some (pair_queue a2 \<sigma>')"
  using pair_run_ok [OF new_pair_ok(1) [OF assms(1-5)] assms(6,7)] new_pair_ok(2,3) [OF assms(1-5)] by simp

theorem pair_is_two_queues_witness:
  "fst (pair_run 1 2 sample_pair_calls sample_store) = [Wrote 4, Got 2 [1, 2], Wrote 2, Wrote 1, Got 4 [3, 4, 6, 7], Got 1 [9]] \<and>
   queue_replay (direction True sample_pair_calls (fst (pair_run 1 2 sample_pair_calls sample_store))) [] =
     Some (pair_queue 1 (snd (pair_run 1 2 sample_pair_calls sample_store)))"
proof
  show "fst (pair_run 1 2 sample_pair_calls sample_store) = [Wrote 4, Got 2 [1, 2], Wrote 2, Wrote 1, Got 4 [3, 4, 6, 7], Got 1 [9]]"
    by code_simp
  have "list_all (int_call \<circ> snd) sample_pair_calls" by code_simp
  from pair_is_two_queues [OF arena.allocator_axioms _ _ _ sample_store_new this prod.collapse [symmetric]]
  show "queue_replay (direction True sample_pair_calls (fst (pair_run 1 2 sample_pair_calls sample_store))) [] =
     Some (pair_queue 1 (snd (pair_run 1 2 sample_pair_calls sample_store)))" by simp
qed

text \<open>
  C24. On connected ends \<open>bio_write\<close>, \<open>bio_read\<close> and \<open>bio_ctrl\<close> always return: their loops end, every assertion
  they make holds, every access is inside a buffer, and the ends stay connected.
\<close>

theorem pair_never_stuck:
  assumes c: "connected a p \<sigma>" and k: "0 \<le> k" "k \<le> INT_MAX" and d: "int (length data) \<le> INT_MAX"
    and other: "case cmd of PAIR_CTRL_EOF (Some x) \<Rightarrow> x = a \<or> x = p | _ \<Rightarrow> True"
  shows "(\<exists>n \<sigma>'. bio_write a (Some data) \<sigma> = Some (n, \<sigma>') \<and> connected a p \<sigma>') \<and>
    (\<exists>n out \<sigma>'. bio_read a True k \<sigma> = Some ((n, out), \<sigma>') \<and> connected a p \<sigma>') \<and>
    (\<exists>n \<sigma>'. bio_ctrl a cmd \<sigma> = Some (n, \<sigma>') \<and> connected a p \<sigma>')"
proof (intro conjI)
  show "\<exists>n \<sigma>'. bio_write a (Some data) \<sigma> = Some (n, \<sigma>') \<and> connected a p \<sigma>'"
    using bio_write_ok [OF c d] by blast
  show "\<exists>n out \<sigma>'. bio_read a True k \<sigma> = Some ((n, out), \<sigma>') \<and> connected a p \<sigma>'"
    using bio_read_ok [OF connected_sym [OF c] k(2,1)] connected_sym by blast
  show "\<exists>n \<sigma>'. bio_ctrl a cmd \<sigma> = Some (n, \<sigma>') \<and> connected a p \<sigma>'"
  proof -
    obtain ea ep where "\<sigma> a = Some ea" "\<sigma> p = Some ep" "a \<noteq> p" "bb_peer (pe_b ea) = Some p" "bb_peer (pe_b ep) = Some a"
      "bio_init (pe_bio ea)" "bio_init (pe_bio ep)" "wf_ring (pe_b ea)" "wf_ring (pe_b ep)" using connectedE [OF c] .
    note e = this
    define \<sigma>' where "\<sigma>' = (case cmd of BIO_C_RESET_READ_REQUEST \<Rightarrow> set_b a (\<lambda>b. b \<lparr> bb_request := 0 \<rparr>) \<sigma>
      | BIO_C_SHUTDOWN_WR \<Rightarrow> set_b a (\<lambda>b. b \<lparr> bb_closed := True \<rparr>) \<sigma>
      | PAIR_CTRL_SET_CLOSE num \<Rightarrow> set_bio a (\<lambda>bio. bio \<lparr> bio_shutdown := num \<rparr>) \<sigma> | _ \<Rightarrow> \<sigma>)"
    have "connected a p \<sigma>'" using c e by (cases cmd) (simp_all add: \<sigma>'_def connected_def)
    moreover have "\<exists>n. bio_ctrl a cmd \<sigma> = Some (n, \<sigma>')"
    proof (cases cmd)
      case (PAIR_CTRL_EOF x)
      then show ?thesis using e other by (cases x) (auto simp: bio_ctrl_def \<sigma>'_def)
    qed (use e in \<open>simp_all add: bio_ctrl_def \<sigma>'_def Let_def\<close>)
    ultimately show ?thesis by blast
  qed
qed

theorem pair_never_stuck_witness:
  "\<exists>n \<sigma>'. bio_ctrl 1 (PAIR_CTRL_EOF (Some 2)) sample_store = Some (n, \<sigma>') \<and> connected 1 2 \<sigma>'"
  using pair_never_stuck [OF sample_connected(1), of 0 "[]" "PAIR_CTRL_EOF (Some 2)"] by simp

text \<open>
  C25. Flow control is exact: a write is accepted up to the room left and refused (with the retry flag set) only
  when there is none or the end is shut for writing; a read gets what is there, 0 at the end of the data of
  an end shut for writing, and otherwise -1 with the retry flag set and the request noted at the writer.
\<close>

theorem pair_flow_control:
  assumes c: "connected a p \<sigma>" and k: "0 < k" "k \<le> INT_MAX" and d: "data \<noteq> []" "int (length data) \<le> INT_MAX"
  shows "(\<exists>n \<sigma>'. bio_write a (Some data) \<sigma> = Some (n, \<sigma>') \<and>
      n = (if pair_closed a \<sigma> \<or> pair_room a \<sigma> = 0 then -1 else int (min (length data) (pair_room a \<sigma>))) \<and>
      (n = -1 \<and> \<not> pair_closed a \<sigma> \<longrightarrow> map_option (\<lambda>e. BIO_should_retry (pe_bio e)) (\<sigma>' a) \<noteq> Some 0)) \<and>
    (\<exists>n out \<sigma>'. bio_read p True k \<sigma> = Some ((n, out), \<sigma>') \<and> out = take (nat k) (pair_queue a \<sigma>) \<and>
      n = (if pair_queue a \<sigma> \<noteq> [] \<or> pair_closed a \<sigma> then int (length out) else -1) \<and>
      (n = -1 \<longrightarrow> map_option (\<lambda>e. BIO_should_retry (pe_bio e)) (\<sigma>' p) \<noteq> Some 0 \<and>
        map_option (\<lambda>e. bb_request (pe_b e)) (\<sigma>' a) = map_option (\<lambda>e. min (nat k) (bb_size (pe_b e))) (\<sigma> a)))"
proof
  have k0: "0 \<le> k" using k(1) by simp
  show "\<exists>n \<sigma>'. bio_write a (Some data) \<sigma> = Some (n, \<sigma>') \<and>
      n = (if pair_closed a \<sigma> \<or> pair_room a \<sigma> = 0 then -1 else int (min (length data) (pair_room a \<sigma>))) \<and>
      (n = -1 \<and> \<not> pair_closed a \<sigma> \<longrightarrow> map_option (\<lambda>e. BIO_should_retry (pe_bio e)) (\<sigma>' a) \<noteq> Some 0)"
    using bio_write_ok [OF c d(2)] d(1) by (elim exE conjE, intro exI conjI; (assumption | simp))
  show "\<exists>n out \<sigma>'. bio_read p True k \<sigma> = Some ((n, out), \<sigma>') \<and> out = take (nat k) (pair_queue a \<sigma>) \<and>
      n = (if pair_queue a \<sigma> \<noteq> [] \<or> pair_closed a \<sigma> then int (length out) else -1) \<and>
      (n = -1 \<longrightarrow> map_option (\<lambda>e. BIO_should_retry (pe_bio e)) (\<sigma>' p) \<noteq> Some 0 \<and>
        map_option (\<lambda>e. bb_request (pe_b e)) (\<sigma>' a) = map_option (\<lambda>e. min (nat k) (bb_size (pe_b e))) (\<sigma> a))"
    using bio_read_ok [OF c k(2) k0] k(1) by (elim exE conjE, intro exI conjI; (assumption | simp))
qed

theorem pair_flow_control_witness:
  "map_option fst (bio_write 1 (Some [1, 2, 3, 4, 5]) sample_store) = Some 4"
  using pair_flow_control [OF sample_connected(1), of 1 "[1, 2, 3, 4, 5]"] sample_connected(2,3) by auto

text \<open>
  C26. Freeing one end tears the pair down: the other end is left without a peer and without data, calls on it
  are refused as uninitialised, it can be freed in turn, and no other BIO is touched.
\<close>

theorem pair_teardown:
  assumes c: "connected a p \<sigma>"
  shows "\<exists>\<sigma>1 \<sigma>2. bio_free a \<sigma> = Some \<sigma>1 \<and> \<sigma>1 a = None \<and> pair_queue p \<sigma>1 = [] \<and> fst (pair_read p 1 \<sigma>1) = (-2, []) \<and>
    fst (pair_write p [0] \<sigma>1) = -2 \<and> bio_free p \<sigma>1 = Some \<sigma>2 \<and> \<sigma>2 = \<sigma>(a := None, p := None)"
proof -
  obtain ea ep where e: "\<sigma> a = Some ea" "\<sigma> p = Some ep" "a \<noteq> p" "bb_peer (pe_b ea) = Some p" "bb_peer (pe_b ep) = Some a"
    "bio_init (pe_bio ea)" "bio_init (pe_bio ep)" "wf_ring (pe_b ea)" "wf_ring (pe_b ep)" using connectedE [OF c] .
  define ep' where "ep' = ep \<lparr> pe_bio := (pe_bio ep) \<lparr> bio_init := False \<rparr>,
    pe_b := (pe_b ep) \<lparr> bb_peer := None, bb_len := 0, bb_offset := 0 \<rparr> \<rparr>"
  have f: "bio_free a \<sigma> = Some (\<sigma>(a := None, p \<mapsto> ep'))"
    using e wf_ring_buf [OF e(8)] wf_ring_buf [OF e(9)]
    by (auto simp: bio_free_def bio_destroy_pair_def Let_def set_b_def set_bio_def ep'_def fun_eq_iff)
  have "pair_queue p (\<sigma>(a := None, p \<mapsto> ep')) = []"
    by (cases "bb_buf (pe_b ep)") (simp_all add: pair_queue_def ep'_def bb_queue_def ring_def)
  moreover have "fst (pair_read p 1 (\<sigma>(a := None, p \<mapsto> ep'))) = (-2, [])" "fst (pair_write p [0] (\<sigma>(a := None, p \<mapsto> ep'))) = -2"
    by (simp_all add: pair_read_def BIO_read_def pair_write_def BIO_write_def end_bio_def ep'_def)
  moreover have "bio_free p (\<sigma>(a := None, p \<mapsto> ep')) = Some (\<sigma>(a := None, p := None))"
    by (simp add: bio_free_def ep'_def)
  ultimately show ?thesis using f e(3) by auto
qed

theorem pair_teardown_witness:
  "map_option (pair_queue 2) (bio_free 1 sample_store) = Some []"
  using pair_teardown [OF sample_connected(1)] by auto

end
