(* ===== verification/ConstTime.thy ===== *)
theory ConstTime
  imports Prelude
begin

text \<open>
  The constant-time helpers of \<open>crypto/internal.h\<close> and \<open>crypto/base64/base64.c\<close>: comparisons and selections that
  return masks instead of branching.  \<open>crypto_word_t\<close> is 64 bits wide.  The barriers only hide a value from the
  compiler and are the identity.  The lemmas say that every mask is all ones or all zeros, and which.
\<close>

section \<open>The code\<close>

definition value_barrier_w :: "u64 \<Rightarrow> u64" where
  "value_barrier_w a = a"

definition constant_time_msb_w :: "u64 \<Rightarrow> u64" where
  "constant_time_msb_w a = 0 - drop_bit 63 a"

definition constant_time_lt_w :: "u64 \<Rightarrow> u64 \<Rightarrow> u64" where
  "constant_time_lt_w a b = constant_time_msb_w (a XOR ((a XOR b) OR ((a - b) XOR a)))"

definition constant_time_lt_8 :: "u64 \<Rightarrow> u64 \<Rightarrow> u8" where
  "constant_time_lt_8 a b = ucast (constant_time_lt_w a b)"

definition constant_time_ge_w :: "u64 \<Rightarrow> u64 \<Rightarrow> u64" where
  "constant_time_ge_w a b = NOT (constant_time_lt_w a b)"

definition constant_time_ge_8 :: "u64 \<Rightarrow> u64 \<Rightarrow> u8" where
  "constant_time_ge_8 a b = ucast (constant_time_ge_w a b)"

definition constant_time_is_zero_w :: "u64 \<Rightarrow> u64" where
  "constant_time_is_zero_w a = constant_time_msb_w (NOT a AND (a - 1))"

definition constant_time_is_zero_8 :: "u64 \<Rightarrow> u8" where
  "constant_time_is_zero_8 a = ucast (constant_time_is_zero_w a)"

definition constant_time_eq_w :: "u64 \<Rightarrow> u64 \<Rightarrow> u64" where
  "constant_time_eq_w a b = constant_time_is_zero_w (a XOR b)"

definition constant_time_eq_8 :: "u64 \<Rightarrow> u64 \<Rightarrow> u8" where
  "constant_time_eq_8 a b = ucast (constant_time_eq_w a b)"

text \<open>The conversion of an \<open>int\<close> to \<open>crypto_word_t\<close> extends the sign.\<close>

definition constant_time_eq_int :: "32 word \<Rightarrow> 32 word \<Rightarrow> u64" where
  "constant_time_eq_int a b = constant_time_eq_w (scast a) (scast b)"

definition constant_time_eq_int_8 :: "32 word \<Rightarrow> 32 word \<Rightarrow> u8" where
  "constant_time_eq_int_8 a b = constant_time_eq_8 (scast a) (scast b)"

definition constant_time_select_w :: "u64 \<Rightarrow> u64 \<Rightarrow> u64 \<Rightarrow> u64" where
  "constant_time_select_w m a b = (value_barrier_w m AND a) OR (value_barrier_w (NOT m) AND b)"

definition constant_time_select_8 :: "u8 \<Rightarrow> u8 \<Rightarrow> u8 \<Rightarrow> u8" where
  "constant_time_select_8 m a b = ucast (constant_time_select_w (ucast m) (ucast a) (ucast b))"

definition constant_time_select_int :: "u64 \<Rightarrow> 32 word \<Rightarrow> 32 word \<Rightarrow> 32 word" where
  "constant_time_select_int m a b = ucast (constant_time_select_w m (scast a) (scast b))"

text \<open>From \<open>base64.c\<close>.\<close>

definition constant_time_lt_args_8 :: "u8 \<Rightarrow> u8 \<Rightarrow> u8" where
  "constant_time_lt_args_8 a b = ucast (constant_time_msb_w (ucast a - ucast b))"

definition constant_time_in_range_8 :: "u8 \<Rightarrow> u8 \<Rightarrow> u8 \<Rightarrow> u8" where
  "constant_time_in_range_8 a mn mx = (let a = a - mn in constant_time_lt_args_8 a (mx - mn + 1))"

section \<open>Masks\<close>

named_theorems ct_simps

abbreviation mask_w :: "bool \<Rightarrow> u64" where
  "mask_w p \<equiv> (if p then - 1 else 0)"

abbreviation mask_8 :: "bool \<Rightarrow> u8" where
  "mask_8 p \<equiv> (if p then - 1 else 0)"

lemma bit_63_iff: "bit (w :: u64) 63 \<longleftrightarrow> 2 ^ 63 \<le> unat w"
proof -
  have "bit w 63 \<longleftrightarrow> bit (unat w) 63" by (simp add: bit_unsigned_iff)
  also have "\<dots> \<longleftrightarrow> odd (unat w div 2 ^ 63)" by (rule bit_iff_odd)
  also have "\<dots> \<longleftrightarrow> 2 ^ 63 \<le> unat w"
  proof (cases "unat w < 2 ^ 63")
    case False
    then have "unat w - 2 ^ 63 < 2 ^ 63" using u64_less_lim [of w] by (simp del: u64_less_lim)
    then have "unat w div 2 ^ 63 = 1" using False le_div_geq [of "2 ^ 63" "unat w"] by simp
    with False show ?thesis by simp
  qed simp
  finally show ?thesis .
qed

lemma msb_w [ct_simps]: "constant_time_msb_w a = mask_w (bit a 63)"
proof -
  have "drop_bit 63 a = (if bit a 63 then 1 else 0)"
  proof (rule bit_word_eqI)
    fix n assume "n < LENGTH(64)"
    show "bit (drop_bit 63 a) n = bit (if bit a 63 then 1 else 0 :: u64) n"
      by (cases n) (auto simp: bit_simps dest: bit_imp_le_length)
  qed
  then show ?thesis by (simp add: constant_time_msb_w_def)
qed

lemma unat_diff_wrap: "unat (a - b :: u64) = (if unat b \<le> unat a then unat a - unat b else unat a + size_lim - unat b)"
  by (auto simp: unat_sub_if' word_le_nat_alt)

lemma lt_w [ct_simps]: "constant_time_lt_w a b = mask_w (a < b)"
proof -
  have d: "bit (a - b) 63 \<longleftrightarrow> 2 ^ 63 \<le> (if unat b \<le> unat a then unat a - unat b else unat a + size_lim - unat b)"
    unfolding bit_63_iff unat_diff_wrap ..
  have "bit (a XOR ((a XOR b) OR ((a - b) XOR a))) 63 \<longleftrightarrow> unat a < unat b"
    unfolding bit_xor_iff bit_or_iff d unfolding bit_63_iff using u64_less_lim [of a] u64_less_lim [of b]
    by (auto simp del: u64_less_lim split: if_splits)
  then show ?thesis by (simp add: constant_time_lt_w_def msb_w word_less_nat_alt)
qed

lemma is_zero_w [ct_simps]: "constant_time_is_zero_w a = mask_w (a = 0)"
proof -
  have "bit (NOT a AND (a - 1)) 63 \<longleftrightarrow> a = 0"
  proof (cases "a = 0")
    case False
    then have "0 < unat a" by (simp add: unat_gt_0)
    then have "bit (a - 1) 63 \<longleftrightarrow> 2 ^ 63 \<le> unat a - 1" by (simp add: bit_63_iff unat_diff_wrap)
    with False show ?thesis by (auto simp: bit_and_iff bit_not_iff) (simp add: bit_63_iff)
  qed (simp add: bit_simps)
  then show ?thesis by (simp add: constant_time_is_zero_w_def msb_w)
qed

lemma xor_eq_0_w: "a XOR b = (0 :: u64) \<longleftrightarrow> a = b"
proof
  assume "a XOR b = 0"
  then have "(a XOR b) XOR b = b" by simp
  then show "a = b" by (simp add: xor.assoc)
qed simp

lemma eq_w [ct_simps]: "constant_time_eq_w a b = mask_w (a = b)"
  by (simp add: constant_time_eq_w_def is_zero_w xor_eq_0_w)

lemma ge_w [ct_simps]: "constant_time_ge_w a b = mask_w (a \<ge> b)"
  by (auto simp: constant_time_ge_w_def lt_w)

lemma select_w [ct_simps]: "constant_time_select_w (mask_w p) a b = (if p then a else b)"
  by (simp add: constant_time_select_w_def value_barrier_w_def)

lemma ucast_mask [ct_simps]: "(ucast (- 1 :: u64) :: u8) = - 1"
  by (rule bit_word_eqI) (simp add: bit_simps)

lemma byte_versions [ct_simps]:
  "constant_time_lt_8 a b = mask_8 (a < b)" "constant_time_ge_8 a b = mask_8 (a \<ge> b)"
  "constant_time_is_zero_8 a = mask_8 (a = 0)" "constant_time_eq_8 a b = mask_8 (a = b)"
  by (simp_all add: constant_time_lt_8_def constant_time_ge_8_def constant_time_is_zero_8_def constant_time_eq_8_def ct_simps)

lemma select_8 [ct_simps]: "constant_time_select_8 (mask_8 p) a b = (if p then a else b)"
proof -
  have "(ucast ((ucast (- 1 :: u8) AND ucast a) OR (NOT (ucast (- 1 :: u8)) AND ucast b) :: u64) :: u8) = a"
    "(ucast ((ucast (0 :: u8) AND ucast a) OR (NOT (ucast (0 :: u8)) AND ucast b) :: u64) :: u8) = b"
    by (rule bit_word_eqI, auto simp: bit_simps)+
  then show ?thesis by (simp add: constant_time_select_8_def constant_time_select_w_def value_barrier_w_def)
qed

lemma lt_args_8 [ct_simps]: "constant_time_lt_args_8 a b = mask_8 (a < b)"
proof -
  have u: "unat (ucast a :: u64) = unat a" "unat (ucast b :: u64) = unat b"
    by (simp_all add: unsigned_ucast_eq take_bit_nat_eq_self_iff less_trans [OF u8_less_256])
  have "bit (ucast a - ucast b :: u64) 63 \<longleftrightarrow> unat a < unat b"
    unfolding bit_63_iff unat_diff_wrap u using u8_less_256 [of a] u8_less_256 [of b]
    by (auto simp del: u8_less_256 split: if_splits)
  then show ?thesis by (simp add: constant_time_lt_args_8_def msb_w word_less_nat_alt ucast_mask)
qed

lemma in_range_8 [ct_simps]:
  assumes "unat mn \<le> unat mx" "unat mx - unat mn < 255"
  shows "constant_time_in_range_8 a mn mx = mask_8 (mn \<le> a \<and> a \<le> mx)"
proof -
  have w: "unat (mx - mn + 1) = unat mx - unat mn + 1"
    using assms by (simp add: unat_plus_if' unat_sub word_le_nat_alt)
  have "unat (a - mn) = (if unat mn \<le> unat a then unat a - unat mn else unat a + 256 - unat mn)"
    by (auto simp: unat_sub_if' word_le_nat_alt)
  then have "a - mn < mx - mn + 1 \<longleftrightarrow> mn \<le> a \<and> a \<le> mx"
    using assms u8_less_256 [of mx] u8_less_256 [of a]
    by (auto simp: word_less_nat_alt word_le_nat_alt w simp del: u8_less_256 split: if_splits)
  then show ?thesis by (simp add: constant_time_in_range_8_def Let_def lt_args_8)
qed

text \<open>
  The constant-time comparisons and selections compute what they are meant to, on all 64-bit words: every
  comparison is the mask of the order or equality it is named after, and a selection by a mask is a choice.
\<close>

theorem constant_time_exact:
  "constant_time_lt_w a b = mask_w (a < b) \<and> constant_time_ge_w a b = mask_w (a \<ge> b) \<and>
   constant_time_is_zero_w a = mask_w (a = 0) \<and> constant_time_eq_w a b = mask_w (a = b) \<and>
   constant_time_eq_int i j = mask_w (i = j) \<and> constant_time_lt_8 a b = mask_8 (a < b) \<and>
   constant_time_select_w (constant_time_lt_w a b) x y = (if a < b then x else y) \<and>
   constant_time_select_8 (constant_time_eq_8 a b) u v = (if a = b then u else v) \<and>
   constant_time_select_int (constant_time_eq_w a b) i j = (if a = b then i else j)"
proof -
  have inv: "(ucast (scast w :: u64) :: 32 word) = w" for w :: "32 word"
    by (rule bit_word_eqI) (auto simp: bit_simps)
  then have "(scast i :: u64) = scast j \<longleftrightarrow> i = j" by metis
  with inv show ?thesis
    by (simp add: ct_simps constant_time_eq_int_def constant_time_select_int_def)
qed

end
