(* ===== verification/Base64.thy ===== *)
theory Base64
  imports ConstTime Mem "HOL-Library.Code_Target_Numeral"
begin

text \<open>
  \<open>crypto/base64/base64.c\<close>: encoding and decoding, in one call and streaming.  The memory a call writes to is
  a list of bytes that starts where \<open>out\<close> points; \<^term>\<open>None\<close> says that a write fell outside it or an assertion
  failed.  The reference is \<open>b64\<close>, which groups the bytes by three and looks the digits up in the alphabet.
\<close>

section \<open>The code: encoding\<close>

definition store_at :: "nat \<Rightarrow> bytes \<Rightarrow> bytes \<Rightarrow> bytes option" where
  "store_at i bs mem =
     (if i + length bs \<le> length mem then Some (take i mem @ bs @ drop (i + length bs) mem) else None)"

definition conv_bin2ascii :: "u8 \<Rightarrow> u8" where
  "conv_bin2ascii a =
     (let a = a AND 0x3f;
          ret = constant_time_select_8 (constant_time_eq_8 (ucast a) 62) 43 47;
          ret = constant_time_select_8 (constant_time_lt_args_8 a 62) (a - 52 + 48) ret;
          ret = constant_time_select_8 (constant_time_lt_args_8 a 52) (a - 26 + 97) ret;
          ret = constant_time_select_8 (constant_time_lt_args_8 a 26) (a + 65) ret
      in ret)"

definition EVP_EncodedLength :: "nat \<Rightarrow> nat option" where
  "EVP_EncodedLength len =
     (if size_add len 2 < len then None
      else
        let len = size_add len 2 div 3 in
        if size_mul len 4 div 4 \<noteq> len then None
        else
          let len = size_mul len 4 in
          if size_add len 1 < len then None else Some (size_add len 1))"

record encode_ctx =
  ec_data_used :: nat
  ec_data :: bytes
  ec_eof_seen :: bool
  ec_error :: bool

definition EVP_EncodeInit :: encode_ctx where
  "EVP_EncodeInit = \<lparr> ec_data_used = 0, ec_data = replicate 48 0, ec_eof_seen = False, ec_error = False \<rparr>"

definition EVP_ENCODE_CTX_new :: "allocator \<Rightarrow> encode_ctx option" where
  "EVP_ENCODE_CTX_new al = map_option (\<lambda>_. EVP_EncodeInit) (OPENSSL_malloc al 56)"

text \<open>The four characters written in one iteration of the loop of \<open>EVP_EncodeBlock\<close>.\<close>

definition encode_quad :: "bytes \<Rightarrow> bytes" where
  "encode_quad src =
     (let digit = (\<lambda>l k. conv_bin2ascii (ucast (drop_bit k (l :: u32)))) in
      if length src \<ge> 3 then
        (let l = push_bit 16 (ucast (src ! 0)) OR push_bit 8 (ucast (src ! 1)) OR ucast (src ! 2)
         in [digit l 18, digit l 12, digit l 6, digit l 0])
      else
        (let l = push_bit 16 (ucast (src ! 0));
             l = (if length src = 2 then l OR push_bit 8 (ucast (src ! 1)) else l)
         in [digit l 18, digit l 12, if length src = 1 then 61 else digit l 6, 61]))"

function encode_loop :: "nat \<Rightarrow> bytes \<Rightarrow> bytes \<Rightarrow> nat \<Rightarrow> (nat \<times> nat \<times> bytes) option" where
  "encode_loop d dst src ret =
     (if src = [] then Some (d, ret, dst)
      else case store_at d (encode_quad src) dst of
             None \<Rightarrow> None
           | Some dst \<Rightarrow> encode_loop (d + 4) dst (drop 3 src) (size_add ret 4))"
  by pat_completeness auto
termination
  by (relation "measure (\<lambda>(d, dst, src, ret). length src)") auto

declare encode_loop.simps [simp del]

text \<open>\<open>EVP_EncodeBlock(dst + d, src, src_len)\<close>.\<close>

definition EVP_EncodeBlock :: "nat \<Rightarrow> bytes \<Rightarrow> bytes \<Rightarrow> (nat \<times> bytes) option" where
  "EVP_EncodeBlock d dst src =
     (case encode_loop d dst src 0 of
        None \<Rightarrow> None
      | Some (d, ret, dst) \<Rightarrow> map_option (Pair ret) (store_at d [0] dst))"

text \<open>A block followed by a newline and a NUL, as \<open>EVP_EncodeUpdate\<close> and \<open>EVP_EncodeFinal\<close> write it at \<open>out + o\<close>.\<close>

definition encode_line :: "nat \<Rightarrow> bytes \<Rightarrow> bytes \<Rightarrow> (nat \<times> bytes) option" where
  "encode_line o' out src =
     (case EVP_EncodeBlock o' out src of
        None \<Rightarrow> None
      | Some (encoded, out) \<Rightarrow>
          (case store_at (o' + encoded) [10] out of
             None \<Rightarrow> None
           | Some out \<Rightarrow> map_option (Pair encoded) (store_at (o' + encoded + 1) [0] out)))"

text \<open>
  The loop over full lines: what is left of the input, the total, and the memory; the total is \<^term>\<open>None\<close> when
  it overflows and the function returns early.
\<close>

function encode_lines :: "nat \<Rightarrow> bytes \<Rightarrow> bytes \<Rightarrow> (bytes \<times> nat option \<times> bytes) option" where
  "encode_lines tot out inp =
     (if length inp < 48 then Some (inp, Some tot, out)
      else case encode_line tot out (take 48 inp) of
             None \<Rightarrow> None
           | Some (encoded, out) \<Rightarrow>
               if size_add (size_add tot encoded) 1 < tot then Some (drop 48 inp, None, out)
               else encode_lines (size_add tot (size_add encoded 1)) out (drop 48 inp))"
  by pat_completeness auto
termination
  by (relation "measure (\<lambda>(tot, out, inp). length inp)") auto

declare encode_lines.simps [simp del]

definition EVP_EncodeUpdate :: "encode_ctx \<Rightarrow> bytes \<Rightarrow> bytes \<Rightarrow> ((int \<times> encode_ctx) \<times> bytes) option" where
  "EVP_EncodeUpdate ctx out inp =
     (if inp = [] then Some ((0, ctx), out)
      else if \<not> ec_data_used ctx < 48 then None
      else if 48 - ec_data_used ctx > length inp then
        (case store_at (ec_data_used ctx) inp (ec_data ctx) of
           None \<Rightarrow> None
         | Some data \<Rightarrow> Some ((0, ctx \<lparr> ec_data := data, ec_data_used := ec_data_used ctx + length inp \<rparr>), out))
      else
        let todo = 48 - ec_data_used ctx in
        case (if ec_data_used ctx \<noteq> 0
              then case store_at (ec_data_used ctx) (take todo inp) (ec_data ctx) of
                     None \<Rightarrow> None
                   | Some data \<Rightarrow>
                       map_option (\<lambda>(encoded, out). (size_add encoded 1, drop todo inp, ctx \<lparr> ec_data := data, ec_data_used := 0 \<rparr>, out))
                         (encode_line 0 out data)
              else Some (0, inp, ctx, out)) of
          None \<Rightarrow> None
        | Some (tot, inp, ctx, out) \<Rightarrow>
            (case encode_lines tot out inp of
               None \<Rightarrow> None
             | Some (inp, None, out) \<Rightarrow> Some ((0, ctx), out)
             | Some (inp, Some tot, out) \<Rightarrow>
                 (case store_at 0 inp (ec_data ctx) of
                    None \<Rightarrow> None
                  | Some data \<Rightarrow>
                      Some ((if tot > 2147483647 then 0 else int tot,
                             ctx \<lparr> ec_data := data, ec_data_used := length inp \<rparr>), out))))"

definition EVP_EncodeFinal :: "encode_ctx \<Rightarrow> bytes \<Rightarrow> ((int \<times> encode_ctx) \<times> bytes) option" where
  "EVP_EncodeFinal ctx out =
     (if ec_data_used ctx = 0 then Some ((0, ctx), out)
      else case encode_line 0 out (take (ec_data_used ctx) (ec_data ctx)) of
             None \<Rightarrow> None
           | Some (encoded, out) \<Rightarrow>
               if \<not> size_add encoded 1 \<le> 2147483647 then None
               else Some ((int (size_add encoded 1), ctx \<lparr> ec_data_used := 0 \<rparr>), out))"

section \<open>The code: decoding\<close>

definition EVP_DecodedLength :: "nat \<Rightarrow> nat option" where
  "EVP_DecodedLength len = (if len mod 4 \<noteq> 0 then None else Some (size_mul (len div 4) 3))"

definition EVP_DecodeInit :: encode_ctx where
  "EVP_DecodeInit = EVP_EncodeInit"

definition base64_ascii_to_bin :: "u8 \<Rightarrow> u8" where
  "base64_ascii_to_bin a =
     (let is_upper = constant_time_in_range_8 a 65 90;
          is_lower = constant_time_in_range_8 a 97 122;
          is_digit = constant_time_in_range_8 a 48 57;
          is_plus = constant_time_eq_8 (ucast a) 43;
          is_slash = constant_time_eq_8 (ucast a) 47;
          is_equals = constant_time_eq_8 (ucast a) 61;
          ret = 0 OR (is_upper AND (a - 65));
          ret = ret OR (is_lower AND (a - 97 + 26));
          ret = ret OR (is_digit AND (a - 48 + 52));
          ret = ret OR (is_plus AND 62);
          ret = ret OR (is_slash AND 63);
          is_valid = is_upper OR is_lower OR is_digit OR is_plus OR is_slash OR is_equals
      in ret OR NOT is_valid)"

text \<open>The bytes a quad stands for; their number is \<open>*out_num_bytes\<close>.\<close>

definition base64_decode_quad :: "u8 \<Rightarrow> u8 \<Rightarrow> u8 \<Rightarrow> u8 \<Rightarrow> bytes option" where
  "base64_decode_quad in0 in1 in2 in3 =
     (let a = base64_ascii_to_bin in0; b = base64_ascii_to_bin in1; c = base64_ascii_to_bin in2; d = base64_ascii_to_bin in3 in
      if a = 0xff \<or> b = 0xff \<or> c = 0xff \<or> d = 0xff then None
      else
        let v = push_bit 18 (ucast a) OR push_bit 12 (ucast b) OR push_bit 6 (ucast c) OR ucast d :: u32;
            padding_pattern = (if in0 = 61 then 8 else 0) + (if in1 = 61 then 4 else 0) + (if in2 = 61 then 2 else 0) +
              (if in3 = 61 then 1 else 0 :: nat)
        in if padding_pattern = 0 then Some [ucast (drop_bit 16 v), ucast (drop_bit 8 v), ucast v]
           else if padding_pattern = 1 then Some [ucast (drop_bit 16 v), ucast (drop_bit 8 v)]
           else if padding_pattern = 3 then Some [ucast (drop_bit 16 v)]
           else None)"

text \<open>The loop of \<open>EVP_DecodeUpdate\<close>; the first result says whether it ran to the end of the input.\<close>

fun decode_loop :: "encode_ctx \<Rightarrow> bytes \<Rightarrow> nat \<Rightarrow> bytes \<Rightarrow> ((bool \<times> nat) \<times> encode_ctx \<times> bytes) option" where
  "decode_loop ctx out bytes_out [] = Some ((True, bytes_out), ctx, out)"
| "decode_loop ctx out bytes_out (c # inp) =
     (if c = 32 \<or> c = 9 \<or> c = 13 \<or> c = 10 then decode_loop ctx out bytes_out inp
      else if ec_eof_seen ctx then Some ((False, bytes_out), ctx \<lparr> ec_error := True \<rparr>, out)
      else case store_at (ec_data_used ctx) [c] (ec_data ctx) of
             None \<Rightarrow> None
           | Some data \<Rightarrow>
               let ctx = ctx \<lparr> ec_data := data, ec_data_used := ec_data_used ctx + 1 \<rparr> in
               if ec_data_used ctx = 4 then
                 (case base64_decode_quad (data ! 0) (data ! 1) (data ! 2) (data ! 3) of
                    None \<Rightarrow> Some ((False, bytes_out), ctx \<lparr> ec_error := True \<rparr>, out)
                  | Some bs \<Rightarrow>
                      (case store_at bytes_out bs out of
                         None \<Rightarrow> None
                       | Some out \<Rightarrow>
                           let ctx = ctx \<lparr> ec_data_used := 0 \<rparr>;
                               ctx = (if length bs < 3 then ctx \<lparr> ec_eof_seen := True \<rparr> else ctx)
                           in decode_loop ctx out (size_add bytes_out (length bs)) inp))
               else decode_loop ctx out bytes_out inp)"

text \<open>The result, \<open>*out_len\<close>, and what the call leaves.\<close>

definition EVP_DecodeUpdate :: "encode_ctx \<Rightarrow> bytes \<Rightarrow> bytes \<Rightarrow> ((int \<times> int) \<times> encode_ctx \<times> bytes) option" where
  "EVP_DecodeUpdate ctx out inp =
     (if ec_error ctx then Some ((-1, 0), ctx, out)
      else case decode_loop ctx out 0 inp of
             None \<Rightarrow> None
           | Some ((ok, bytes_out), ctx, out) \<Rightarrow>
               if \<not> ok then Some ((-1, 0), ctx, out)
               else if bytes_out > 2147483647 then Some ((-1, 0), ctx \<lparr> ec_error := True \<rparr>, out)
               else Some ((if ec_eof_seen ctx then 0 else 1, int bytes_out), ctx, out))"

definition EVP_DecodeFinal :: "encode_ctx \<Rightarrow> int" where
  "EVP_DecodeFinal ctx = (if ec_error ctx \<or> ec_data_used ctx \<noteq> 0 then -1 else 1)"

text \<open>The loop over quads: \<open>*out_len\<close> on success; the output starts at \<open>out\<close>.\<close>

fun decode_quads :: "bytes \<Rightarrow> nat \<Rightarrow> bytes \<Rightarrow> (nat option \<times> bytes) option" where
  "decode_quads out bytes_out [] = Some (Some bytes_out, out)"
| "decode_quads out bytes_out (a # b # c # d # inp) =
     (case base64_decode_quad a b c d of
        None \<Rightarrow> Some (None, out)
      | Some bs \<Rightarrow>
          (case store_at bytes_out bs out of
             None \<Rightarrow> None
           | Some out \<Rightarrow>
               if length bs \<noteq> 3 \<and> inp \<noteq> [] then Some (None, out)
               else decode_quads out (size_add bytes_out (length bs)) inp))"
| "decode_quads out bytes_out _ = None"

text \<open>The result and \<open>*out_len\<close>, 0 and 0 on failure.\<close>

definition EVP_DecodeBase64 :: "bytes \<Rightarrow> nat \<Rightarrow> bytes \<Rightarrow> ((bool \<times> nat) \<times> bytes) option" where
  "EVP_DecodeBase64 out max_out inp =
     (if length inp mod 4 \<noteq> 0 then Some ((False, 0), out)
      else case EVP_DecodedLength (length inp) of
             None \<Rightarrow> Some ((False, 0), out)
           | Some max_len \<Rightarrow>
               if max_out < max_len then Some ((False, 0), out)
               else case decode_quads out 0 inp of
                      None \<Rightarrow> None
                    | Some (None, out) \<Rightarrow> Some ((False, 0), out)
                    | Some (Some bytes_out, out) \<Rightarrow> Some ((True, bytes_out), out))"

text \<open>The padding loop at the end of \<open>EVP_DecodeBlock\<close>.\<close>

function pad_zeros :: "nat \<Rightarrow> bytes \<Rightarrow> (nat \<times> bytes) option" where
  "pad_zeros dst_len dst =
     (if dst_len mod 3 \<noteq> 0
      then case store_at dst_len [0] dst of None \<Rightarrow> None | Some dst \<Rightarrow> pad_zeros (dst_len + 1) dst
      else Some (dst_len, dst))"
  by pat_completeness auto
termination
proof (relation "measure (\<lambda>(n, _). (3 - n mod 3) mod 3)", simp)
  fix n :: nat and dst dst' :: bytes
  assume "n mod 3 \<noteq> 0"
  then have "n mod 3 = 1 \<or> n mod 3 = 2" by linarith
  then show "((n + 1, dst'), n, dst) \<in> measure (\<lambda>(n, _). (3 - n mod 3) mod 3)"
    by (auto simp: mod_Suc)
qed

declare pad_zeros.simps [simp del]

definition is_trim_start :: "u8 \<Rightarrow> bool" where
  "is_trim_start c \<longleftrightarrow> c = 32 \<or> c = 9"

definition is_trim_end :: "u8 \<Rightarrow> bool" where
  "is_trim_end c \<longleftrightarrow> c = 32 \<or> c = 9 \<or> c = 13 \<or> c = 10"

definition EVP_DecodeBlock :: "bytes \<Rightarrow> bytes \<Rightarrow> (int \<times> bytes) option" where
  "EVP_DecodeBlock dst src =
     (let src = dropWhile is_trim_start src;
          src = rev (dropWhile is_trim_end (rev src))
      in case EVP_DecodedLength (length src) of
           None \<Rightarrow> Some (-1, dst)
         | Some dst_len \<Rightarrow>
             if dst_len > 2147483647 then Some (-1, dst)
             else case EVP_DecodeBase64 dst dst_len src of
                    None \<Rightarrow> None
                  | Some ((False, _), dst) \<Rightarrow> Some (-1, dst)
                  | Some ((True, dst_len), dst) \<Rightarrow>
                      (case pad_zeros dst_len dst of
                         None \<Rightarrow> None
                       | Some (dst_len, dst) \<Rightarrow> if \<not> dst_len \<le> 2147483647 then None else Some (int dst_len, dst)))"

section \<open>The reference\<close>

text \<open>The alphabet of RFC 4648, its inverse, and the encoding by groups of three bytes.\<close>

definition sym :: "nat \<Rightarrow> u8" where
  "sym n = (if n < 26 then of_nat (65 + n) else if n < 52 then of_nat (97 + (n - 26)) else if n < 62 then of_nat (48 + (n - 52))
     else if n = 62 then 43 else 47)"

definition sym_val :: "u8 \<Rightarrow> nat option" where
  "sym_val c =
     (let n = unat c in
      if 65 \<le> n \<and> n \<le> 90 then Some (n - 65) else if 97 \<le> n \<and> n \<le> 122 then Some (n - 97 + 26)
      else if 48 \<le> n \<and> n \<le> 57 then Some (n - 48 + 52) else if n = 43 then Some 62 else if n = 47 then Some 63 else None)"

fun b64 :: "bytes \<Rightarrow> bytes" where
  "b64 [] = []"
| "b64 [a] = [sym (unat a div 4), sym (unat a mod 4 * 16), 61, 61]"
| "b64 [a, b] = [sym (unat a div 4), sym (unat a mod 4 * 16 + unat b div 16), sym (unat b mod 16 * 4), 61]"
| "b64 (a # b # c # xs) =
     [sym (unat a div 4), sym (unat a mod 4 * 16 + unat b div 16), sym (unat b mod 16 * 4 + unat c div 64), sym (unat c mod 64)] @ b64 xs"

text \<open>The bytes of a quad: two, three or four digits, the rest padding.\<close>

definition quad_val :: "u8 \<Rightarrow> u8 \<Rightarrow> u8 \<Rightarrow> u8 \<Rightarrow> bytes option" where
  "quad_val c0 c1 c2 c3 =
     (case (sym_val c0, sym_val c1) of
        (Some a, Some b) \<Rightarrow>
          if c2 = 61 \<and> c3 = 61 then Some [of_nat (a * 4 + b div 16)]
          else
            (case sym_val c2 of
               None \<Rightarrow> None
             | Some c \<Rightarrow>
                 if c3 = 61 then Some [of_nat (a * 4 + b div 16), of_nat (b mod 16 * 16 + c div 4)]
                 else map_option (\<lambda>d. [of_nat (a * 4 + b div 16), of_nat (b mod 16 * 16 + c div 4), of_nat (c mod 4 * 64 + d)])
                        (sym_val c3))
      | _ \<Rightarrow> None)"

lemma all_below: "list_all P [0..<n] \<Longrightarrow> k < n \<Longrightarrow> P k"
  by (simp add: list_all_iff)

lemma and_63: "a AND 63 = (of_nat (unat a mod 64) :: u8)"
proof -
  have "unat a AND 63 = take_bit 6 (unat a)" by (simp add: take_bit_eq_mask mask_eq_exp_minus_1)
  then have "unat (a AND 63) = unat a mod 64" by (simp add: unsigned_and_eq take_bit_eq_mod)
  then show ?thesis by (metis of_nat_unat ucast_id)
qed

lemma conv_sym: "conv_bin2ascii a = sym (unat a mod 64)"
proof -
  define n where "n = unat a mod 64"
  have n: "n < 64" by (simp add: n_def)
  have u: "unat (of_nat n :: u8) = n" using n by (simp add: unat_of_nat)
  have c: "(of_nat n :: u8) < 26 \<longleftrightarrow> n < 26" "(of_nat n :: u8) < 52 \<longleftrightarrow> n < 52" "(of_nat n :: u8) < 62 \<longleftrightarrow> n < 62"
    "(ucast (of_nat n :: u8) :: u64) = 62 \<longleftrightarrow> n = 62"
    using u n by (simp_all add: word_less_nat_alt word_unat_eq_iff unsigned_ucast_eq take_bit_nat_eq_self)
  have "conv_bin2ascii a = (if n < 26 then of_nat n + 65 else if n < 52 then of_nat n - 26 + 97 else if n < 62 then of_nat n - 52 + 48
      else if n = 62 then 43 else 47)"
    by (simp only: conv_bin2ascii_def Let_def and_63 n_def [symmetric] byte_versions lt_args_8 select_8 c)
  also have "\<dots> = sym n" by (auto simp: sym_def of_nat_diff)
  finally show ?thesis by (simp add: n_def)
qed

lemma unat_sym: "n < 64 \<Longrightarrow> unat (sym n) = (if n < 26 then 65 + n else if n < 52 then 97 + (n - 26) else if n < 62 then 48 + (n - 52)
     else if n = 62 then 43 else 47)"
  by (simp add: sym_def unat_of_nat del: of_nat_add of_nat_diff)

lemma sym_val_sym [simp]: "n < 64 \<Longrightarrow> sym_val (sym n) = Some n"
  by (auto simp: sym_val_def Let_def unat_sym)

lemma sym_val_bound: "sym_val c = Some k \<Longrightarrow> k < 64"
  by (auto simp: sym_val_def Let_def split: if_splits)

lemma sym_sym_val: "sym_val c = Some k \<Longrightarrow> sym k = c"
  using unat_sym [of k] sym_val_bound [of c k]
  by (auto simp: sym_val_def Let_def word_unat_eq_iff split: if_splits)

lemma sym_val_pad [simp]: "sym_val 61 = None"
  by (simp add: sym_val_def)

lemma sym_plain [simp]: "n < 64 \<Longrightarrow> sym n \<noteq> 61 \<and> \<not> is_trim_end (sym n)"
  by (auto simp: is_trim_end_def word_unat_eq_iff unat_sym)

lemma ascii_val: "base64_ascii_to_bin c = (case sym_val c of Some k \<Rightarrow> of_nat k | None \<Rightarrow> if c = 61 then 0 else 255)"
proof -
  have u: "unat (ucast c :: u64) = unat c"
    by (simp add: unsigned_ucast_eq take_bit_nat_eq_self_iff less_trans [OF u8_less_256])
  have e: "(ucast c :: u64) = 43 \<longleftrightarrow> unat c = 43" "(ucast c :: u64) = 47 \<longleftrightarrow> unat c = 47" "(ucast c :: u64) = 61 \<longleftrightarrow> unat c = 61"
    "c = 61 \<longleftrightarrow> unat c = 61"
    by (simp_all add: word_unat_eq_iff u)
  have r: "constant_time_in_range_8 c 65 90 = mask_8 (65 \<le> unat c \<and> unat c \<le> 90)"
    "constant_time_in_range_8 c 97 122 = mask_8 (97 \<le> unat c \<and> unat c \<le> 122)"
    "constant_time_in_range_8 c 48 57 = mask_8 (48 \<le> unat c \<and> unat c \<le> 57)"
    by (subst in_range_8; simp add: word_le_nat_alt)+
  have d: "c - of_nat k = of_nat (unat c - k)" if "k \<le> unat c" for k
    using that by (metis of_nat_diff of_nat_unat ucast_id)
  consider (u) "65 \<le> unat c" "unat c \<le> 90" | (l) "97 \<le> unat c" "unat c \<le> 122" | (g) "48 \<le> unat c" "unat c \<le> 57"
    | (p) "unat c = 43" | (s) "unat c = 47" | (e) "unat c = 61"
    | (n) "\<not> (65 \<le> unat c \<and> unat c \<le> 90)" "\<not> (97 \<le> unat c \<and> unat c \<le> 122)" "\<not> (48 \<le> unat c \<and> unat c \<le> 57)"
        "unat c \<noteq> 43" "unat c \<noteq> 47" "unat c \<noteq> 61" by linarith
  then show ?thesis
  proof cases
    case u
    then show ?thesis using d [of 65] by (simp add: base64_ascii_to_bin_def Let_def r byte_versions e sym_val_def)
  next
    case l
    then show ?thesis using d [of 97] by (simp add: base64_ascii_to_bin_def Let_def r byte_versions e sym_val_def)
  next
    case g
    then show ?thesis using d [of 48] by (simp add: base64_ascii_to_bin_def Let_def r byte_versions e sym_val_def)
  next
    case n
    then show ?thesis
      by (simp only: base64_ascii_to_bin_def Let_def r byte_versions e sym_val_def n if_False) simp
  qed (simp_all add: base64_ascii_to_bin_def Let_def r byte_versions e sym_val_def)
qed

section \<open>Encoding a block\<close>

lemma unat_push_ucast: "k \<le> 24 \<Longrightarrow> unat (push_bit k (ucast (a :: u8)) :: u32) = unat a * 2 ^ k"
proof -
  assume k: "k \<le> 24"
  have "unat a * 2 ^ k < 256 * 2 ^ k" by simp
  also have "\<dots> \<le> 256 * 2 ^ 24" using k by (intro mult_le_mono2 power_increasing) auto
  finally have "unat a * 2 ^ k < 2 ^ 32" by simp
  moreover have "unat (ucast a :: u32) = unat a"
    by (simp add: unsigned_ucast_eq take_bit_nat_eq_self_iff less_trans [OF u8_less_256])
  moreover have "unat (push_bit k (ucast a) :: u32) = take_bit 32 (push_bit k (unat (ucast a :: u32)))"
    by (simp add: unsigned_push_bit_eq)
  ultimately show ?thesis by (simp only: push_bit_nat_def take_bit_nat_eq_self)
qed

lemma unat_or_add: "unat (x :: u32) = a * 2 ^ n \<Longrightarrow> unat y < 2 ^ n \<Longrightarrow> unat (x OR y) = unat x + unat y"
  using or_add_disjoint [of "unat y" n a] by (simp add: unsigned_or_eq)

lemma unat_three:
  "unat (push_bit 16 (ucast (a :: u8)) OR push_bit 8 (ucast (b :: u8)) OR ucast (c :: u8) :: u32) = unat a * 65536 + unat b * 256 + unat c"
proof -
  have c: "unat (ucast c :: u32) = unat c" using unat_push_ucast [of 0 c] by simp
  have "unat (push_bit 16 (ucast a) OR push_bit 8 (ucast b) :: u32) = unat a * 65536 + unat b * 256"
    using unat_or_add [of "push_bit 16 (ucast a)" "unat a" 16 "push_bit 8 (ucast b)"] u8_less_256 [of b]
    by (simp add: unat_push_ucast)
  also have "\<dots> = (unat a * 256 + unat b) * 2 ^ 8" by simp
  finally show ?thesis
    using unat_or_add [of "push_bit 16 (ucast a) OR push_bit 8 (ucast b)" "unat a * 256 + unat b" 8 "ucast c"] c
    by (simp add: or.assoc)
qed

lemma digit: "conv_bin2ascii (ucast (drop_bit k (l :: u32))) = sym (unat l div 2 ^ k mod 64)"
proof -
  have "unat (ucast (drop_bit k l) :: u8) = unat l div 2 ^ k mod 256"
    by (simp add: unsigned_ucast_eq unat_drop_bit take_bit_eq_mod)
  moreover have "unat l div 2 ^ k mod 256 mod 64 = unat l div 2 ^ k mod 64" by (rule mod_mod_cancel) simp
  ultimately show ?thesis by (simp add: conv_sym)
qed

lemma three_digits:
  fixes a b c :: nat
  assumes "a < 256" "b < 256" "c < 256"
  shows "(a * 65536 + b * 256 + c) div 262144 mod 64 = a div 4"
    "(a * 65536 + b * 256 + c) div 4096 mod 64 = a mod 4 * 16 + b div 16"
    "(a * 65536 + b * 256 + c) div 64 mod 64 = b mod 16 * 4 + c div 64"
    "(a * 65536 + b * 256 + c) mod 64 = c mod 64"
proof -
  define a1 a0 b1 b0 c1 c0 where d: "a1 = a div 4" "a0 = a mod 4" "b1 = b div 16" "b0 = b mod 16" "c1 = c div 64" "c0 = c mod 64"
  have e: "a = a1 * 4 + a0" "b = b1 * 16 + b0" "c = c1 * 64 + c0" by (simp_all add: d)
  have l: "a0 < 4" "b0 < 16" "c0 < 64" by (simp_all add: d)
  then have m: "a1 < 64" "b1 < 16" "c1 < 4" using e assms by linarith+
  have x: "a * 65536 + b * 256 + c = a1 * 262144 + (a0 * 16 + b1) * 4096 + (b0 * 4 + c1) * 64 + c0" by (simp add: e)
  have "(a * 65536 + b * 256 + c) div 262144 = a1" "(a * 65536 + b * 256 + c) div 4096 = a1 * 64 + (a0 * 16 + b1)"
    "(a * 65536 + b * 256 + c) div 64 = (a1 * 64 + (a0 * 16 + b1)) * 64 + (b0 * 4 + c1)"
    unfolding x using l m by (auto intro!: div_nat_eqI)
  moreover have "a * 65536 + b * 256 + c = ((a1 * 64 + (a0 * 16 + b1)) * 64 + (b0 * 4 + c1)) * 64 + c0"
    unfolding x by simp
  moreover have "(y * 64 + z) mod 64 = z" if "z < 64" for y z :: nat using that by simp
  ultimately show "(a * 65536 + b * 256 + c) div 262144 mod 64 = a div 4"
    "(a * 65536 + b * 256 + c) div 4096 mod 64 = a mod 4 * 16 + b div 16"
    "(a * 65536 + b * 256 + c) div 64 mod 64 = b mod 16 * 4 + c div 64"
    "(a * 65536 + b * 256 + c) mod 64 = c mod 64"
    using l m by (simp_all only: d [symmetric]) simp_all
qed

lemma encode_quad_b64:
  "encode_quad [a] = b64 [a]" "encode_quad [a, b] = b64 [a, b]"
  "encode_quad (a # b # c # xs) = [sym (unat a div 4), sym (unat a mod 4 * 16 + unat b div 16),
     sym (unat b mod 16 * 4 + unat c div 64), sym (unat c mod 64)]"
proof -
  have i: "(a # b # c # xs) ! 0 = a" "(a # b # c # xs) ! 1 = b" "(a # b # c # xs) ! 2 = c" "[a, b] ! 0 = a" "[a, b] ! 1 = b" "[a] ! 0 = a"
    by simp_all
  have p: "2 ^ 18 = (262144 :: nat)" "2 ^ 12 = (4096 :: nat)" "2 ^ 6 = (64 :: nat)" "x div 2 ^ 0 = (x :: nat)" for x by simp_all
  have len: "length (a # b # c # xs) \<ge> 3" "\<not> length [a, b] \<ge> 3" "length [a, b] = 2" "length [a, b] \<noteq> 1" "\<not> length [a] \<ge> 3"
    "length [a] \<noteq> 2" "length [a] = 1" by simp_all
  show "encode_quad (a # b # c # xs) = [sym (unat a div 4), sym (unat a mod 4 * 16 + unat b div 16),
     sym (unat b mod 16 * 4 + unat c div 64), sym (unat c mod 64)]"
    unfolding encode_quad_def Let_def if_P [OF len(1)] i digit unat_three p three_digits [OF u8_less_256 u8_less_256 u8_less_256] ..
  have z: "unat (push_bit 16 (ucast a) :: u32) = unat a * 65536 + 0 * 256 + 0"
    "unat (push_bit 16 (ucast a) OR push_bit 8 (ucast b) :: u32) = unat a * 65536 + unat b * 256 + 0"
    using unat_three [of a 0 0] unat_three [of a b 0] by simp_all
  have t: "(0 :: nat) < 256" by simp
  show "encode_quad [a] = b64 [a]"
    unfolding encode_quad_def Let_def if_not_P [OF len(5)] if_not_P [OF len(6)] if_P [OF len(7)] i digit z p
      three_digits [OF u8_less_256 t t] by simp
  show "encode_quad [a, b] = b64 [a, b]"
    unfolding encode_quad_def Let_def if_not_P [OF len(2)] if_P [OF len(3)] if_not_P [OF len(4)] i digit z p
      three_digits [OF u8_less_256 u8_less_256 t] by simp
qed

text \<open>Writing at the end of what was written so far.\<close>

lemma store_at_end:
  "store_at (length acc) bs (acc @ rest) = (if length bs \<le> length rest then Some (acc @ bs @ drop (length bs) rest) else None)"
  by (simp add: store_at_def)

lemma length_b64: "length (b64 xs) = (length xs + 2) div 3 * 4"
proof (induction xs rule: b64.induct)
  case (4 a b c xs)
  have "(length xs + 5) div 3 = Suc ((length xs + 2) div 3)" using div_add_self2 [of 3 "length xs + 2"] by simp
  with 4 show ?case by (simp add: add.commute)
qed auto

lemma encode_loop_ok:
  "length (b64 src) \<le> length rest \<Longrightarrow> ret + length (b64 src) < size_lim \<Longrightarrow>
   encode_loop (length acc) (acc @ rest) src ret =
     Some (length acc + length (b64 src), ret + length (b64 src), acc @ b64 src @ drop (length (b64 src)) rest)"
proof (induction src arbitrary: acc rest ret rule: b64.induct)
  case 1
  then show ?case by (subst encode_loop.simps) simp
next
  case (2 a)
  then show ?case
    by (subst encode_loop.simps, subst encode_quad_b64, subst store_at_end, subst encode_loop.simps) (simp add: size_add_exact)
next
  case (3 a b)
  then show ?case
    by (subst encode_loop.simps, subst encode_quad_b64, subst store_at_end, subst encode_loop.simps) (simp add: size_add_exact)
next
  case (4 a b c xs)
  define q where "q = encode_quad (a # b # c # xs)"
  have q: "length q = 4" "b64 (a # b # c # xs) = q @ b64 xs" by (simp_all add: q_def encode_quad_b64)
  have l: "length (b64 xs) \<le> length (drop 4 rest)" "size_add ret 4 + length (b64 xs) < size_lim" "size_add ret 4 = ret + 4"
    using 4(2,3) q by (simp_all add: size_add_exact)
  have "encode_loop (length acc) (acc @ rest) (a # b # c # xs) ret = encode_loop (length (acc @ q)) ((acc @ q) @ drop 4 rest) xs (size_add ret 4)"
    using 4(2) q by (subst encode_loop.simps, subst q_def [symmetric], subst store_at_end) simp
  also have "\<dots> = Some (length (acc @ q) + length (b64 xs), size_add ret 4 + length (b64 xs), (acc @ q) @ b64 xs @ drop (length (b64 xs)) (drop 4 rest))"
    by (rule "4.IH" [OF l(1,2)])
  finally show ?case using l(3) q by (simp add: add.commute)
qed

lemma encode_block_ok:
  assumes "length (b64 src) < length rest" "length (b64 src) < size_lim"
  shows "EVP_EncodeBlock (length acc) (acc @ rest) src = Some (length (b64 src), acc @ b64 src @ [0] @ drop (length (b64 src) + 1) rest)"
proof -
  have "store_at (length acc + length (b64 src)) [0] (acc @ b64 src @ drop (length (b64 src)) rest) =
      Some (acc @ b64 src @ [0] @ drop (length (b64 src) + 1) rest)"
    using store_at_end [of "acc @ b64 src" "[0]" "drop (length (b64 src)) rest"] assms by simp
  with encode_loop_ok [of src rest 0 acc] assms show ?thesis by (simp add: EVP_EncodeBlock_def)
qed

text \<open>A line of text.\<close>

definition line :: "bytes \<Rightarrow> bytes" where
  "line xs = b64 xs @ [10]"

lemma encode_line_ok:
  assumes "length (b64 src) + 1 < length rest" "length (b64 src) < size_lim"
  shows "encode_line (length acc) (acc @ rest) src = Some (length (b64 src), acc @ line src @ [0] @ drop (length (b64 src) + 2) rest)"
proof -
  have "EVP_EncodeBlock (length acc) (acc @ rest) src = Some (length (b64 src), (acc @ b64 src) @ [0] @ drop (length (b64 src) + 1) rest)"
    using encode_block_ok [of src rest acc] assms by simp
  moreover have "store_at (length (acc @ b64 src)) [10] ((acc @ b64 src) @ [0] @ drop (length (b64 src) + 1) rest) =
      Some ((acc @ line src) @ drop (length (b64 src) + 1) rest)"
    by (subst store_at_end) (simp add: line_def)
  moreover have "store_at (length (acc @ line src)) [0] ((acc @ line src) @ drop (length (b64 src) + 1) rest) =
      Some ((acc @ line src) @ [0] @ drop (length (b64 src) + 2) rest)"
    using assms by (subst store_at_end) simp
  ultimately show ?thesis by (simp add: encode_line_def line_def)
qed

section \<open>Encoding a stream\<close>

text \<open>The full lines of the encoding of \<open>xs\<close>, the bytes after them, and the whole text.\<close>

function full_lines :: "bytes \<Rightarrow> bytes" where
  "full_lines xs = (if length xs < 48 then [] else line (take 48 xs) @ full_lines (drop 48 xs))"
  by pat_completeness auto
termination
  by (relation "measure length") auto

function last_line :: "bytes \<Rightarrow> bytes" where
  "last_line xs = (if length xs < 48 then xs else last_line (drop 48 xs))"
  by pat_completeness auto
termination
  by (relation "measure length") auto

declare full_lines.simps [simp del] last_line.simps [simp del]

definition pem_text :: "bytes \<Rightarrow> bytes" where
  "pem_text xs = full_lines xs @ (if last_line xs = [] then [] else line (last_line xs))"

lemma lines_append:
  "full_lines (xs @ ys) = full_lines xs @ full_lines (last_line xs @ ys) \<and> last_line (xs @ ys) = last_line (last_line xs @ ys)"
proof (induction xs rule: full_lines.induct)
  case (1 xs)
  show ?case
  proof (cases "length xs < 48")
    case True
    then show ?thesis by (simp add: full_lines.simps [of xs] last_line.simps [of xs])
  next
    case False
    with 1 show ?thesis
      by (subst full_lines.simps, subst last_line.simps) (simp add: full_lines.simps [of xs] last_line.simps [of xs])
  qed
qed

lemma length_full_lines: "length (full_lines xs) = length xs div 48 * 65"
proof (induction xs rule: full_lines.induct)
  case (1 xs)
  have "length (line (take 48 xs)) = 65" if "\<not> length xs < 48" using that by (simp add: line_def length_b64)
  with 1 show ?case by (subst full_lines.simps) (auto simp: le_div_geq)
qed

lemma length_last_line: "length (last_line xs) < 48"
proof (induction xs rule: last_line.induct)
  case (1 xs)
  then show ?case by (subst last_line.simps) auto
qed

lemma encode_lines_ok:
  "length (full_lines inp) < length rest \<Longrightarrow> length acc + length (full_lines inp) + 1 < size_lim \<Longrightarrow>
   \<exists>rest'. encode_lines (length acc) (acc @ rest) inp =
     Some (last_line inp, Some (length acc + length (full_lines inp)), acc @ full_lines inp @ rest') \<and>
     length rest' = length rest - length (full_lines inp)"
proof (induction inp arbitrary: acc rest rule: full_lines.induct)
  case (1 inp)
  show ?case
  proof (cases "length inp < 48")
    case True
    then show ?thesis by (simp add: encode_lines.simps [of _ _ inp] full_lines.simps [of inp] last_line.simps [of inp])
  next
    case False
    define x where "x = take 48 inp"
    have x: "length (b64 x) = 64" "length (line x) = 65" using False by (simp_all add: x_def length_b64 line_def)
    have f: "full_lines inp = line x @ full_lines (drop 48 inp)" "last_line inp = last_line (drop 48 inp)"
      using False by (simp_all add: full_lines.simps [of inp] last_line.simps [of inp] x_def)
    have l: "length (full_lines (drop 48 inp)) < length ([0] @ drop 66 rest)"
      "length (acc @ line x) + length (full_lines (drop 48 inp)) + 1 < size_lim"
      using "1.prems" f x by simp_all
    have e: "encode_line (length acc) (acc @ rest) x = Some (64, (acc @ line x) @ [0] @ drop 66 rest)"
      using encode_line_ok [of x rest acc] x f(1) "1.prems" by simp
    have t: "size_add (length acc) (size_add 64 1) = length (acc @ line x)" "\<not> size_add (size_add (length acc) 64) 1 < length acc"
      using "1.prems" f x by (simp_all add: size_add_exact)
    from "1.IH" [OF False l] obtain rest' where r: "encode_lines (length (acc @ line x)) ((acc @ line x) @ [0] @ drop 66 rest) (drop 48 inp) =
        Some (last_line (drop 48 inp), Some (length (acc @ line x) + length (full_lines (drop 48 inp))), (acc @ line x) @ full_lines (drop 48 inp) @ rest')"
      "length rest' = length ([0] @ drop 66 rest) - length (full_lines (drop 48 inp))" by blast
    have "encode_lines (length acc) (acc @ rest) inp = encode_lines (length (acc @ line x)) ((acc @ line x) @ [0] @ drop 66 rest) (drop 48 inp)"
      using False e t by (simp add: encode_lines.simps [of _ _ inp] x_def [symmetric])
    with r f x "1.prems" show ?thesis by (intro exI [of _ rest']) auto
  qed
qed

text \<open>The bytes a context holds back.\<close>

definition pending :: "encode_ctx \<Rightarrow> bytes" where
  "pending ctx = take (ec_data_used ctx) (ec_data ctx)"

definition wf_encode :: "encode_ctx \<Rightarrow> bool" where
  "wf_encode ctx \<longleftrightarrow> ec_data_used ctx < 48 \<and> length (ec_data ctx) = 48"

lemma encode_update_ok:
  assumes w: "wf_encode ctx" and o': "length (full_lines (pending ctx @ inp)) < length out"
    and lim: "length (full_lines (pending ctx @ inp)) \<le> 2147483647"
  shows "\<exists>ctx' out'. EVP_EncodeUpdate ctx out inp = Some ((int (length (full_lines (pending ctx @ inp))), ctx'), out') \<and>
    length out' = length out \<and> take (length (full_lines (pending ctx @ inp))) out' = full_lines (pending ctx @ inp) \<and>
    wf_encode ctx' \<and> pending ctx' = last_line (pending ctx @ inp)"
proof -
  let ?u = "ec_data_used ctx"
  have p: "length (pending ctx) = ?u" "?u < 48" "length (ec_data ctx) = 48" using w by (simp_all add: pending_def wf_encode_def)
  consider (empty) "inp = []" | (short) "inp \<noteq> []" "?u + length inp < 48" | (full) "48 \<le> ?u + length inp" by linarith
  then show ?thesis
  proof cases
    case empty
    then show ?thesis using w p by (simp add: EVP_EncodeUpdate_def full_lines.simps [of "pending ctx"] last_line.simps [of "pending ctx"])
  next
    case short
    have st: "store_at ?u inp (ec_data ctx) = Some (pending ctx @ inp @ drop (?u + length inp) (ec_data ctx))"
      using short p by (simp add: store_at_def pending_def)
    have "48 - ?u > length inp" using short by simp
    then have "EVP_EncodeUpdate ctx out inp = Some ((0, ctx \<lparr> ec_data := pending ctx @ inp @ drop (?u + length inp) (ec_data ctx),
        ec_data_used := ?u + length inp \<rparr>), out)"
      using short p st by (simp add: EVP_EncodeUpdate_def)
    moreover have "full_lines (pending ctx @ inp) = []" "last_line (pending ctx @ inp) = pending ctx @ inp"
      using short p by (simp_all add: full_lines.simps [of "pending ctx @ inp"] last_line.simps [of "pending ctx @ inp"])
    ultimately show ?thesis using short p by (simp add: wf_encode_def pending_def)
  next
    case full
    then have ne: "inp \<noteq> []" "\<not> 48 - ?u > length inp" using p by auto
    define todo where "todo = 48 - ?u"
    define rest where "rest = (if ?u \<noteq> 0 then drop todo inp else inp)"
    define acc where "acc = (if ?u \<noteq> 0 then line (pending ctx @ take todo inp) else [])"
    have td: "todo \<le> length inp" using ne by (simp add: todo_def)
    have f0: "full_lines (pending ctx @ inp) = acc @ full_lines rest \<and> last_line (pending ctx @ inp) = last_line rest"
    proof (cases "?u = 0")
      case True
      then show ?thesis
        by (simp_all add: acc_def rest_def pending_def)
    next
      case False
      have "take 48 (pending ctx @ inp) = pending ctx @ take todo inp" "drop 48 (pending ctx @ inp) = drop todo inp"
        using p by (simp_all add: todo_def)
      then show ?thesis
        using False full p by (simp_all add: acc_def rest_def full_lines.simps [of "pending ctx @ inp"] last_line.simps [of "pending ctx @ inp"])
    qed
    then have f: "full_lines (pending ctx @ inp) = acc @ full_lines rest" "last_line (pending ctx @ inp) = last_line rest" by simp_all
    define data where "data = (if ?u \<noteq> 0 then pending ctx @ take todo inp else ec_data ctx)"
    have dl: "length data = 48" using p td by (auto simp: data_def todo_def)
    have al: "length acc = (if ?u \<noteq> 0 then 65 else 0)" using p td by (simp add: acc_def line_def length_b64 todo_def)
    define ctx1 where "ctx1 = ctx \<lparr> ec_data := data, ec_data_used := 0 \<rparr>"
    define out1 where "out1 = (if ?u \<noteq> 0 then [0] @ drop 66 out else out)"
    have first: "(if ?u \<noteq> 0 then case store_at ?u (take todo inp) (ec_data ctx) of None \<Rightarrow> None
            | Some data \<Rightarrow> map_option (\<lambda>(encoded, out). (size_add encoded 1, drop todo inp, ctx \<lparr> ec_data := data, ec_data_used := 0 \<rparr>, out))
                (encode_line 0 out data)
          else Some (0, inp, ctx, out)) = Some (length acc, rest, ctx1, acc @ out1)"
    proof (cases "?u = 0")
      case True
      then have "ctx1 = ctx" by (simp add: ctx1_def data_def)
      with True show ?thesis by (simp add: acc_def rest_def out1_def)
    next
      case False
      have st: "store_at ?u (take todo inp) (ec_data ctx) = Some data"
        using p td False by (simp add: store_at_def data_def pending_def todo_def)
      have "length (b64 data) = 64" using dl by (simp add: length_b64)
      moreover from this have "encode_line 0 out data = Some (64, line data @ [0] @ drop 66 out)"
        using encode_line_ok [of data out "[]"] o' f al False by simp
      moreover have "acc = line data" using False by (simp add: acc_def data_def)
      ultimately show ?thesis using st False al by (simp add: rest_def ctx1_def out1_def size_add_exact)
    qed
    have ol: "length (full_lines rest) < length out1" "length (acc @ out1) = length out" using o' f al by (auto simp: out1_def)
    obtain rest' where r: "encode_lines (length acc) (acc @ out1) rest =
        Some (last_line rest, Some (length acc + length (full_lines rest)), acc @ full_lines rest @ rest')"
      "length rest' = length out1 - length (full_lines rest)"
      using encode_lines_ok [OF ol(1), of acc] f lim by auto
    have "store_at 0 (last_line rest) data = Some (last_line rest @ drop (length (last_line rest)) data)"
      using length_last_line [of rest] dl by (simp add: store_at_def)
    then have "EVP_EncodeUpdate ctx out inp = Some ((int (length (acc @ full_lines rest)),
        ctx1 \<lparr> ec_data := last_line rest @ drop (length (last_line rest)) data, ec_data_used := length (last_line rest) \<rparr>),
        acc @ full_lines rest @ rest')"
      using ne p(2) first r lim f unfolding EVP_EncodeUpdate_def todo_def [symmetric] by (simp add: Let_def ctx1_def)
    then show ?thesis
      using f ol r length_last_line [of rest] dl by (simp add: wf_encode_def pending_def ctx1_def)
  qed
qed

lemma encode_final_ok:
  assumes w: "wf_encode ctx" and o': "66 \<le> length out"
  shows "\<exists>ctx' out'. EVP_EncodeFinal ctx out = Some ((int (length (if pending ctx = [] then [] else line (pending ctx))), ctx'), out') \<and>
    take (length (if pending ctx = [] then [] else line (pending ctx))) out' = (if pending ctx = [] then [] else line (pending ctx))"
proof (cases "ec_data_used ctx = 0")
  case True
  then show ?thesis by (simp add: EVP_EncodeFinal_def pending_def)
next
  case False
  then have p: "pending ctx \<noteq> []" "length (pending ctx) < 48" using w by (auto simp: pending_def wf_encode_def)
  then have l: "length (b64 (pending ctx)) \<le> 64" by (simp add: length_b64)
  then have "encode_line 0 out (pending ctx) = Some (length (b64 (pending ctx)), line (pending ctx) @ [0] @ drop (length (b64 (pending ctx)) + 2) out)"
    using encode_line_ok [of "pending ctx" out "[]"] o' by simp
  then show ?thesis using False p l by (simp add: EVP_EncodeFinal_def pending_def [symmetric] size_add_exact line_def)
qed

end
