(* ===== verification/Base64Props.thy ===== *)
theory Base64Props
  imports Base64
begin

text \<open>
  What \<open>crypto/base64/base64.c\<close> decodes: the decoders against the reference, in one call and streaming, and the round
  trips with the encoders.
\<close>

section \<open>Decoding a quad\<close>

lemma unat_four:
  assumes "a < 64" "b < 64" "c < 64" "d < 64"
  shows "unat (push_bit 18 (ucast (of_nat a :: u8)) OR push_bit 12 (ucast (of_nat b :: u8)) OR push_bit 6 (ucast (of_nat c :: u8)) OR
    ucast (of_nat d :: u8) :: u32) = ((a * 64 + b) * 64 + c) * 64 + d"
proof -
  have u: "unat (of_nat n :: u8) = n" if "n < 64" for n using that by (simp add: unat_of_nat)
  have d: "unat (ucast (of_nat d :: u8) :: u32) = d" using unat_push_ucast [of 0 "of_nat d"] u assms by simp
  have 1: "unat (push_bit 18 (ucast (of_nat a :: u8)) OR push_bit 12 (ucast (of_nat b :: u8)) :: u32) = a * 262144 + b * 4096"
    using unat_or_add [of "push_bit 18 (ucast (of_nat a :: u8))" a 18 "push_bit 12 (ucast (of_nat b :: u8))"] assms
    by (simp add: unat_push_ucast u)
  then have 2: "unat ((push_bit 18 (ucast (of_nat a :: u8)) OR push_bit 12 (ucast (of_nat b :: u8))) OR push_bit 6 (ucast (of_nat c :: u8)) :: u32) =
      a * 262144 + b * 4096 + c * 64"
    using unat_or_add [of "push_bit 18 (ucast (of_nat a :: u8)) OR push_bit 12 (ucast (of_nat b :: u8))" "a * 64 + b" 12
        "push_bit 6 (ucast (of_nat c :: u8))"] assms
    by (simp add: unat_push_ucast u)
  have "unat (((push_bit 18 (ucast (of_nat a :: u8)) OR push_bit 12 (ucast (of_nat b :: u8))) OR push_bit 6 (ucast (of_nat c :: u8))) OR
      ucast (of_nat d :: u8) :: u32) = a * 262144 + b * 4096 + c * 64 + d"
    using unat_or_add [of "(push_bit 18 (ucast (of_nat a :: u8)) OR push_bit 12 (ucast (of_nat b :: u8))) OR push_bit 6 (ucast (of_nat c :: u8))"
        "(a * 64 + b) * 64 + c" 6 "ucast (of_nat d :: u8)"] assms 2 d
    by simp
  then show ?thesis by (simp add: or.assoc)
qed

lemma quad_bytes:
  fixes v :: u32
  assumes "unat v = ((a * 64 + b) * 64 + c) * 64 + d" "a < 64" "b < 64" "c < 64" "d < 64"
  shows "(ucast (drop_bit 16 v) :: u8) = of_nat (a * 4 + b div 16)" "(ucast (drop_bit 8 v) :: u8) = of_nat (b mod 16 * 16 + c div 4)"
    "(ucast v :: u8) = of_nat (c mod 4 * 64 + d)"
proof -
  define h b1 b0 c1 c0 where s: "h = a * 4 + b div 16" "b1 = b div 16" "b0 = b mod 16" "c1 = c div 4" "c0 = c mod 4"
  have e: "h = a * 4 + b1" "b = b1 * 16 + b0" "c = c1 * 4 + c0" "b0 < 16" "c0 < 4" by (simp_all add: s)
  have l: "b1 < 4" "c1 < 16" using e assms by linarith+
  have v: "unat v = h * 65536 + (b0 * 16 + c1) * 256 + (c0 * 64 + d)" using assms(1) e(2,3) by (simp add: e(1))
  have d: "unat v div 65536 = h" "unat v div 256 = h * 256 + (b0 * 16 + c1)"
    unfolding v using e l assms by (auto intro!: div_nat_eqI)
  have "unat v = (h * 256 + (b0 * 16 + c1)) * 256 + (c0 * 64 + d)" by (simp add: v)
  moreover have "c0 * 64 + d < 256" using e assms by linarith
  ultimately have d3: "unat v mod 256 = c0 * 64 + d" by (metis mod_mult_self3 mod_less)
  have "b0 * 16 + c1 < 256" "h < 256" using e l assms by linarith+
  then have d4: "(b0 * 16 + c1) mod 256 = b0 * 16 + c1" "h mod 256 = h" by (simp_all only: mod_less)
  have u: "(ucast w :: u8) = of_nat (unat w mod 256)" for w :: u32
    by (simp add: word_unat_eq_iff unsigned_ucast_eq take_bit_eq_mod unat_of_nat)
  show "(ucast (drop_bit 16 v) :: u8) = of_nat (a * 4 + b div 16)" "(ucast (drop_bit 8 v) :: u8) = of_nat (b mod 16 * 16 + c div 4)"
    "(ucast v :: u8) = of_nat (c mod 4 * 64 + d)"
    by (simp_all add: u unat_drop_bit s [symmetric] d d3 d4 e(1) [symmetric] del: of_nat_add of_nat_mult)
qed

lemma not_digit: "base64_ascii_to_bin c = 255 \<longleftrightarrow> sym_val c = None \<and> c \<noteq> 61"
proof (cases "sym_val c")
  case (Some k)
  with sym_val_bound [OF Some] have "(of_nat k :: u8) \<noteq> 255" by (simp add: word_unat_eq_iff unat_of_nat)
  with Some show ?thesis by (simp add: ascii_val)
qed (simp add: ascii_val)

lemma bin_of_digit:
  "sym_val c \<noteq> None \<or> c = 61 \<Longrightarrow> \<exists>k < 64. base64_ascii_to_bin c = of_nat k \<and> (sym_val c = Some k \<or> c = 61 \<and> k = 0)"
  by (cases "sym_val c") (auto simp: ascii_val dest: sym_val_bound)

text \<open>The reference accepts a quad exactly when the code does, and gives the same bytes.\<close>

lemma decode_quad_val: "base64_decode_quad c0 c1 c2 c3 = quad_val c0 c1 c2 c3"
proof (cases "base64_ascii_to_bin c0 = 255 \<or> base64_ascii_to_bin c1 = 255 \<or> base64_ascii_to_bin c2 = 255 \<or> base64_ascii_to_bin c3 = 255")
  case True
  then have "base64_decode_quad c0 c1 c2 c3 = None" by (auto simp: base64_decode_quad_def)
  moreover have "quad_val c0 c1 c2 c3 = None" using True by (auto simp: not_digit quad_val_def split: option.splits)
  ultimately show ?thesis by simp
next
  case False
  then obtain a b c d where k: "a < 64" "b < 64" "c < 64" "d < 64"
    "base64_ascii_to_bin c0 = of_nat a" "base64_ascii_to_bin c1 = of_nat b" "base64_ascii_to_bin c2 = of_nat c" "base64_ascii_to_bin c3 = of_nat d"
    "sym_val c0 = Some a \<or> c0 = 61 \<and> a = 0" "sym_val c1 = Some b \<or> c1 = 61 \<and> b = 0" "sym_val c2 = Some c \<or> c2 = 61 \<and> c = 0"
    "sym_val c3 = Some d \<or> c3 = 61 \<and> d = 0"
    using bin_of_digit [of c0] bin_of_digit [of c1] bin_of_digit [of c2] bin_of_digit [of c3] by (auto simp: not_digit)
  define v :: u32 where "v = push_bit 18 (ucast (base64_ascii_to_bin c0)) OR push_bit 12 (ucast (base64_ascii_to_bin c1)) OR
    push_bit 6 (ucast (base64_ascii_to_bin c2)) OR ucast (base64_ascii_to_bin c3)"
  have "unat v = ((a * 64 + b) * 64 + c) * 64 + d" unfolding v_def k(5-8) by (rule unat_four [OF k(1-4)])
  note q = quad_bytes [OF this k(1-4)]
  have code: "base64_decode_quad c0 c1 c2 c3 =
    (if c0 = 61 \<or> c1 = 61 then None
     else if c2 = 61 \<and> c3 = 61 then Some [ucast (drop_bit 16 v)]
     else if c2 = 61 then None
     else if c3 = 61 then Some [ucast (drop_bit 16 v), ucast (drop_bit 8 v)]
     else Some [ucast (drop_bit 16 v), ucast (drop_bit 8 v), ucast v])"
    using False unfolding base64_decode_quad_def Let_def v_def [symmetric] by simp
  show ?thesis unfolding code q using k(9-12) by (auto simp: quad_val_def)
qed

lemma digit_bounds:
  fixes a b c :: u8
  shows "unat a div 4 < 64" "unat b div 16 < 16" "unat c div 64 < 4" "unat c mod 64 < 64"
    "unat a mod 4 * 16 + unat b div 16 < 64" "unat b mod 16 * 4 + unat c div 64 < 64" "unat a mod 4 * 16 < 64" "unat b mod 16 * 4 < 64"
proof -
  show d: "unat a div 4 < 64" "unat b div 16 < 16" "unat c div 64 < 4" "unat c mod 64 < 64"
    using u8_less_256 [of a] u8_less_256 [of b] u8_less_256 [of c] by (simp_all add: less_mult_imp_div_less)
  show "unat a mod 4 * 16 + unat b div 16 < 64" "unat b mod 16 * 4 + unat c div 64 < 64" "unat a mod 4 * 16 < 64" "unat b mod 16 * 4 < 64"
    using d mod_less_divisor [of 4 "unat a"] mod_less_divisor [of 16 "unat b"] by linarith+
qed

text \<open>Decoding what was encoded.\<close>

lemma quad_val_b64:
  "quad_val (sym (unat a div 4)) (sym (unat a mod 4 * 16)) 61 61 = Some [a]"
  "quad_val (sym (unat a div 4)) (sym (unat a mod 4 * 16 + unat b div 16)) (sym (unat b mod 16 * 4)) 61 = Some [a, b]"
  "quad_val (sym (unat a div 4)) (sym (unat a mod 4 * 16 + unat b div 16)) (sym (unat b mod 16 * 4 + unat c div 64)) (sym (unat c mod 64)) =
    Some [a, b, c]"
proof -
  note d = digit_bounds(1) [of a] digit_bounds(2) [of b] digit_bounds(3) [of c]
  note m = digit_bounds(5) [of a b] digit_bounds(6) [of b c] digit_bounds(7) [of a] digit_bounds(8) [of b]
  have e: "unat b div 16 div 16 = 0" "unat b div 16 mod 16 = unat b div 16" "unat c div 64 div 4 = 0" "unat c div 64 mod 4 = unat c div 64"
    using d by simp_all
  have p: "sym n \<noteq> 61" if "n < 64" for n using sym_plain [OF that] by blast
  show "quad_val (sym (unat a div 4)) (sym (unat a mod 4 * 16)) 61 61 = Some [a]"
    "quad_val (sym (unat a div 4)) (sym (unat a mod 4 * 16 + unat b div 16)) (sym (unat b mod 16 * 4)) 61 = Some [a, b]"
    "quad_val (sym (unat a div 4)) (sym (unat a mod 4 * 16 + unat b div 16)) (sym (unat b mod 16 * 4 + unat c div 64)) (sym (unat c mod 64)) =
      Some [a, b, c]"
    using m d(1) unfolding quad_val_def by (simp_all add: p e del: of_nat_add of_nat_mult)
qed

section \<open>Decoding a block\<close>

text \<open>What a decoder accepts: quads without padding, the last one with or without.\<close>

fun dec_ref :: "bytes \<Rightarrow> bytes option" where
  "dec_ref [] = Some []"
| "dec_ref (a # b # c # d # inp) =
     (case quad_val a b c d of
        None \<Rightarrow> None
      | Some bs \<Rightarrow>
          if inp = [] then Some bs
          else if length bs = 3 then map_option ((@) bs) (dec_ref inp) else None)"
| "dec_ref _ = None"

lemma quad_val_length: "quad_val a b c d = Some bs \<Longrightarrow> 0 < length bs \<and> length bs \<le> 3"
  by (auto simp: quad_val_def split: option.splits if_splits)

lemma quads_Suc [simp]: "(4 + n) div 4 = Suc (n div 4)" for n :: nat
  by simp

lemma dec_ref_length: "dec_ref inp = Some bs \<Longrightarrow> length bs \<le> length inp div 4 * 3 \<and> length inp mod 4 = 0"
proof (induction inp arbitrary: bs rule: dec_ref.induct)
  case (2 a b c d inp)
  then obtain q where q: "quad_val a b c d = Some q" by (auto split: option.splits)
  show ?case
  proof (cases "inp = []")
    case True
    then show ?thesis using 2 q quad_val_length [OF q] by simp
  next
    case False
    then obtain r where r: "length q = 3" "dec_ref inp = Some r" "bs = q @ r" using 2 q by (auto split: if_splits)
    then show ?thesis using "2.IH" [OF q False r(1,2)] by simp
  qed
qed auto

lemma dec_ref_b64: "dec_ref (b64 xs) = Some xs"
proof (induction xs rule: b64.induct)
  case (4 a b c xs)
  then show ?case by (simp add: quad_val_b64) (cases xs rule: b64.cases; simp)
qed (simp_all add: quad_val_b64)

text \<open>The loop, with what it wrote so far in front; nothing behind the capacity is touched.\<close>

lemma decode_quads_ok:
  "length inp mod 4 = 0 \<Longrightarrow> length inp div 4 * 3 \<le> length buf \<Longrightarrow> length acc + length inp div 4 * 3 < size_lim \<Longrightarrow>
   \<exists>buf'. length buf' = length buf \<and>
     (case dec_ref inp of
        None \<Rightarrow> decode_quads (acc @ buf @ tail) (length acc) inp = Some (None, acc @ buf' @ tail)
      | Some bs \<Rightarrow> decode_quads (acc @ buf @ tail) (length acc) inp = Some (Some (length acc + length bs), acc @ buf' @ tail) \<and>
          take (length bs) buf' = bs)"
proof (induction inp arbitrary: acc buf rule: dec_ref.induct)
  case 1
  then show ?case by auto
next
  case (2 a b c d inp)
  show ?case
  proof (cases "quad_val a b c d")
    case None
    then show ?thesis by (auto simp: decode_quad_val)
  next
    case (Some q)
    note ql = quad_val_length [OF Some]
    have cap: "length inp div 4 * 3 + 3 \<le> length buf" "length inp mod 4 = 0" using "2.prems" by simp_all
    have st: "store_at (length acc) q (acc @ buf @ tail) = Some ((acc @ q) @ drop (length q) buf @ tail)"
      using store_at_end [of acc q "buf @ tail"] ql cap by simp
    have sa: "size_add (length acc) (length q) = length (acc @ q)" using "2.prems" ql by (simp add: size_add_exact)
    show ?thesis
    proof (cases "inp = []")
      case True
      then show ?thesis using Some st sa ql cap
        by (intro exI [of _ "q @ drop (length q) buf"]) (simp add: decode_quad_val)
    next
      case False
      show ?thesis
      proof (cases "length q = 3")
        case l3: True
        have l: "length inp div 4 * 3 \<le> length (drop 3 buf)" "length (acc @ q) + length inp div 4 * 3 < size_lim"
          using cap "2.prems" l3 by simp_all
        obtain buf' where "length buf' = length (drop 3 buf)"
          "case dec_ref inp of
             None \<Rightarrow> decode_quads ((acc @ q) @ drop 3 buf @ tail) (length (acc @ q)) inp = Some (None, (acc @ q) @ buf' @ tail)
           | Some bs \<Rightarrow> decode_quads ((acc @ q) @ drop 3 buf @ tail) (length (acc @ q)) inp =
                 Some (Some (length (acc @ q) + length bs), (acc @ q) @ buf' @ tail) \<and> take (length bs) buf' = bs"
          using "2.IH" [OF Some False l3 cap(2) l] by blast
        then show ?thesis using Some st sa l3 cap False
          by (intro exI [of _ "q @ buf'"]) (auto simp: decode_quad_val split: option.splits)
      next
        case l3: False
        then show ?thesis using Some st sa ql cap False
          by (intro exI [of _ "q @ drop (length q) buf"]) (simp add: decode_quad_val)
      qed
    qed
  qed
qed auto

lemma base64_decode_run:
  assumes "max_out \<le> length out" "length inp < size_lim"
  shows "\<exists>out'. length out' = length out \<and> drop max_out out' = drop max_out out \<and>
     (case if length inp div 4 * 3 \<le> max_out then dec_ref inp else None of
        None \<Rightarrow> EVP_DecodeBase64 out max_out inp = Some ((False, 0), out')
      | Some bs \<Rightarrow> EVP_DecodeBase64 out max_out inp = Some ((True, length bs), out') \<and> take (length bs) out' = bs)"
proof -
  have cap: "length inp div 4 * 3 < size_lim" using assms(2) by linarith
  have d: "EVP_DecodedLength (length inp) = (if length inp mod 4 \<noteq> 0 then None else Some (length inp div 4 * 3))"
    using cap by (simp add: EVP_DecodedLength_def size_mul_exact)
  consider (len) "length inp mod 4 \<noteq> 0" | (small) "length inp mod 4 = 0" "max_out < length inp div 4 * 3"
    | (run) "length inp mod 4 = 0" "length inp div 4 * 3 \<le> max_out" by linarith
  then show ?thesis
  proof cases
    case len
    then have "dec_ref inp = None" using dec_ref_length [of inp] by (cases "dec_ref inp") auto
    then show ?thesis using len by (simp add: EVP_DecodeBase64_def)
  next
    case small
    then show ?thesis by (simp add: EVP_DecodeBase64_def d)
  next
    case run
    obtain buf' where b: "length buf' = length (take max_out out)"
      "case dec_ref inp of
         None \<Rightarrow> decode_quads ([] @ take max_out out @ drop max_out out) (length ([] :: bytes)) inp = Some (None, [] @ buf' @ drop max_out out)
       | Some bs \<Rightarrow> decode_quads ([] @ take max_out out @ drop max_out out) (length ([] :: bytes)) inp =
             Some (Some (length ([] :: bytes) + length bs), [] @ buf' @ drop max_out out) \<and> take (length bs) buf' = bs"
      using decode_quads_ok [OF run(1), of "take max_out out" "[]" "drop max_out out"] run(2) cap assms(1) by auto
    show ?thesis
    proof (cases "dec_ref inp")
      case None
      then show ?thesis using b run assms(1) by (simp add: EVP_DecodeBase64_def d)
    next
      case (Some bs)
      then have "length bs \<le> length buf'" using b run assms(1) dec_ref_length [OF Some] by simp
      then show ?thesis using Some b run assms(1) by (simp add: EVP_DecodeBase64_def d)
    qed
  qed
qed

text \<open>
  C27.  \<open>EVP_DecodeBase64\<close> accepts exactly the texts the reference decoder accepts, when the buffer has the size
  \<open>EVP_DecodedLength\<close> announces; then the length and the bytes are the reference's.  In every case it never writes
  outside the announced part of the buffer, and no assertion fails.
\<close>

theorem base64_decode_exact:
  assumes "max_out \<le> length out" "length inp < size_lim"
  shows "\<exists>out'. length out' = length out \<and> drop max_out out' = drop max_out out \<and>
     (case if length inp div 4 * 3 \<le> max_out then dec_ref inp else None of
        None \<Rightarrow> EVP_DecodeBase64 out max_out inp = Some ((False, 0), out')
      | Some bs \<Rightarrow> EVP_DecodeBase64 out max_out inp = Some ((True, length bs), out') \<and> take (length bs) out' = bs)"
  by (rule base64_decode_run [OF assms])

theorem base64_decode_exact_witness:
  "\<exists>out'. length out' = 3 \<and> EVP_DecodeBase64 [1, 2, 3] 3 [77, 87, 73, 61] = Some ((True, length (the (dec_ref [77, 87, 73, 61]))), out')"
proof -
  have "dec_ref [77, 87, 73, 61] = Some [49, 98]" by code_simp
  with base64_decode_exact [of 3 "[1, 2, 3]" "[77, 87, 73, 61]"] show ?thesis by auto
qed

section \<open>Decoding a stream\<close>

text \<open>
  What a stream decoder has read so far, from the characters of an unfinished quad and whether padding was seen: the
  bytes, and the same two facts afterwards.
\<close>

fun dec :: "bytes \<Rightarrow> bool \<Rightarrow> bytes \<Rightarrow> (bytes \<times> bytes \<times> bool) option" where
  "dec p eof [] = Some ([], p, eof)"
| "dec p eof (c # cs) =
     (if is_trim_end c then dec p eof cs
      else if eof then None
      else if length p = 3 then
        (case quad_val (p ! 0) (p ! 1) (p ! 2) c of
           None \<Rightarrow> None
         | Some bs \<Rightarrow> map_option (\<lambda>(out, r). (bs @ out, r)) (dec [] (length bs < 3) cs))
      else dec (p @ [c]) eof cs)"

lemma dec_append:
  "dec p e (xs @ ys) =
     (case dec p e xs of
        None \<Rightarrow> None
      | Some (out, p, e) \<Rightarrow> map_option (\<lambda>(out', r). (out @ out', r)) (dec p e ys))"
proof (induction p e xs rule: dec.induct)
  case (1 p eof)
  then show ?case by (cases "dec p eof ys") auto
next
  case (2 p eof c cs)
  then show ?case by (auto simp: option.map_comp o_def case_prod_unfold split: option.splits)
qed

abbreviation strip :: "bytes \<Rightarrow> bytes" where
  "strip \<equiv> filter (\<lambda>c. \<not> is_trim_end c)"

lemma dec_strip: "dec p e (strip xs) = dec p e xs"
  by (induction p e xs rule: dec.induct) (auto split: option.splits)

text \<open>On a whole text the stream decoder is the reference.\<close>

lemma dec_is_ref:
  "list_all (\<lambda>c. \<not> is_trim_end c) xs \<Longrightarrow>
   (case dec [] False xs of None \<Rightarrow> None | Some (out, p, e) \<Rightarrow> if p = [] then Some out else None) = dec_ref xs"
proof (induction xs rule: dec_ref.induct)
  case (2 a b c d inp)
  have f: "length ([] @ [a]) \<noteq> 3" "length (([] @ [a]) @ [b]) \<noteq> 3" "length ((([] @ [a]) @ [b]) @ [c]) = 3" by simp_all
  have "dec [] False (a # b # c # d # inp) =
    (case quad_val a b c d of None \<Rightarrow> None
     | Some bs \<Rightarrow> map_option (\<lambda>(out, r). (bs @ out, r)) (dec [] (length bs < 3) inp))"
    using 2(2) by (simp add: f)
  moreover have "dec [] True inp = None" if "inp \<noteq> []" using 2(2) that by (cases inp) auto
  moreover have "length bs < 3 \<longleftrightarrow> length bs \<noteq> 3" if "quad_val a b c d = Some bs" for bs using quad_val_length [OF that] by linarith
  ultimately show ?case
    using 2 by (cases "quad_val a b c d") (auto split: option.splits dest!: sym [of _ "dec_ref inp"])
qed auto

lemma dec_length: "dec p e xs = Some (out, p', e') \<Longrightarrow> length p < 4 \<Longrightarrow> length out \<le> (length p + length xs) div 4 * 3"
proof (induction p e xs arbitrary: out rule: dec.induct)
  case (2 p eof c cs)
  consider (skip) "is_trim_end c" | (quad) "\<not> is_trim_end c" "\<not> eof" "length p = 3" | (digit) "\<not> is_trim_end c" "\<not> eof" "length p \<noteq> 3"
    using "2.prems" by fastforce
  then show ?case
  proof cases
    case skip
    have "(length p + length cs) div 4 \<le> Suc (length p + length cs) div 4" by (rule div_le_mono) simp
    then have a: "(length p + length cs) div 4 * 3 \<le> Suc (length p + length cs) div 4 * 3" by (rule mult_le_mono1)
    have "length out \<le> (length p + length cs) div 4 * 3" using skip 2 by simp
    from le_trans [OF this a] show ?thesis by simp
  next
    case quad
    then obtain bs o' where q: "quad_val (p ! 0) (p ! 1) (p ! 2) c = Some bs" "dec [] (length bs < 3) cs = Some (o', p', e')" "out = bs @ o'"
      using "2.prems" by (auto split: option.splits)
    then show ?thesis using "2.IH" (2) [OF quad q(1,2)] quad_val_length [OF q(1)] quad by simp
  next
    case digit
    then show ?thesis using 2 by simp
  qed
qed auto

definition wf_decode :: "encode_ctx \<Rightarrow> bool" where
  "wf_decode ctx \<longleftrightarrow> \<not> ec_error ctx \<and> ec_data_used ctx < 4 \<and> length (ec_data ctx) = 48"

lemma decode_loop_ok:
  "wf_decode ctx \<Longrightarrow> (length (pending ctx) + length inp) div 4 * 3 \<le> length buf \<Longrightarrow>
   length acc + (length (pending ctx) + length inp) div 4 * 3 < size_lim \<Longrightarrow>
   \<exists>n ctx' buf'. case dec (pending ctx) (ec_eof_seen ctx) inp of
      None \<Rightarrow> decode_loop ctx (acc @ buf) (length acc) inp = Some ((False, n), ctx', buf') \<and> ec_error ctx'
    | Some (out, p, e) \<Rightarrow> decode_loop ctx (acc @ buf) (length acc) inp = Some ((True, length acc + length out), ctx', acc @ out @ buf') \<and>
        wf_decode ctx' \<and> pending ctx' = p \<and> ec_eof_seen ctx' = e"
proof (induction inp arbitrary: ctx acc buf)
  case Nil
  then show ?case by simp
next
  case (Cons c inp)
  note w = Cons.prems(1) [unfolded wf_decode_def]
  have t: "is_trim_end c \<longleftrightarrow> c = 32 \<or> c = 9 \<or> c = 13 \<or> c = 10" by (simp add: is_trim_end_def)
  consider (skip) "is_trim_end c" | (eof) "\<not> is_trim_end c" "ec_eof_seen ctx" | (go) "\<not> is_trim_end c" "\<not> ec_eof_seen ctx" by blast
  then show ?case
  proof cases
    case skip
    have "(length (pending ctx) + length inp) div 4 \<le> (length (pending ctx) + length (c # inp)) div 4" by (simp add: div_le_mono)
    then have le: "(length (pending ctx) + length inp) div 4 * 3 \<le> (length (pending ctx) + length (c # inp)) div 4 * 3" by simp
    then have "(length (pending ctx) + length inp) div 4 * 3 \<le> length buf"
      "length acc + (length (pending ctx) + length inp) div 4 * 3 < size_lim"
      using Cons.prems(2,3) by linarith+
    note ih = Cons.IH [OF Cons.prems(1) this]
    have e: "decode_loop ctx (acc @ buf) (length acc) (c # inp) = decode_loop ctx (acc @ buf) (length acc) inp"
      "dec (pending ctx) (ec_eof_seen ctx) (c # inp) = dec (pending ctx) (ec_eof_seen ctx) inp"
      using skip by (simp_all add: t)
    show ?thesis unfolding e by (rule ih)
  next
    case eof
    then show ?thesis by (auto simp: t)
  next
    case go
    define u where "u = ec_data_used ctx"
    define data where "data = take u (ec_data ctx) @ [c] @ drop (u + 1) (ec_data ctx)"
    have st: "store_at u [c] (ec_data ctx) = Some data" using w by (simp add: store_at_def data_def u_def)
    have pl: "length (pending ctx) = u" "u < 4" "length data = 48" using w by (simp_all add: pending_def u_def data_def)
    show ?thesis
    proof (cases "u = 3")
      case False
      define ctx1 where "ctx1 = ctx \<lparr> ec_data := data, ec_data_used := u + 1 \<rparr>"
      have c1: "wf_decode ctx1" "pending ctx1 = pending ctx @ [c]" "ec_eof_seen ctx1 = ec_eof_seen ctx"
        using w pl False by (simp_all add: ctx1_def wf_decode_def pending_def data_def u_def [symmetric])
      have "decode_loop ctx (acc @ buf) (length acc) (c # inp) = decode_loop ctx1 (acc @ buf) (length acc) inp"
        using go st False by (simp add: t u_def [symmetric] ctx1_def)
      moreover have "dec (pending ctx) (ec_eof_seen ctx) (c # inp) = dec (pending ctx1) (ec_eof_seen ctx1) inp"
        using go c1 pl False by simp
      moreover have "(length (pending ctx1) + length inp) div 4 * 3 \<le> length buf"
        "length acc + (length (pending ctx1) + length inp) div 4 * 3 < size_lim"
        using Cons.prems(2,3) c1 by simp_all
      note ih = Cons.IH [OF c1(1) this]
      ultimately show ?thesis by (simp only: ih)
    next
      case True
      have d: "pending ctx ! 0 = data ! 0" "pending ctx ! 1 = data ! 1" "pending ctx ! 2 = data ! 2" "data ! 3 = c"
        using pl True w by (simp_all add: pending_def data_def nth_append u_def [symmetric])
      have q: "decode_loop ctx (acc @ buf) (length acc) (c # inp) =
        (case quad_val (data ! 0) (data ! 1) (data ! 2) c of
           None \<Rightarrow> Some ((False, length acc), ctx \<lparr> ec_data := data, ec_data_used := 4, ec_error := True \<rparr>, acc @ buf)
         | Some bs \<Rightarrow>
             (case store_at (length acc) bs (acc @ buf) of
                None \<Rightarrow> None
              | Some out \<Rightarrow>
                  decode_loop (if length bs < 3 then ctx \<lparr> ec_data := data, ec_data_used := 0, ec_eof_seen := True \<rparr>
                     else ctx \<lparr> ec_data := data, ec_data_used := 0 \<rparr>) out (size_add (length acc) (length bs)) inp))"
        using go st True d by (simp add: t u_def [symmetric] decode_quad_val Let_def split: option.splits)
      show ?thesis
      proof (cases "quad_val (data ! 0) (data ! 1) (data ! 2) c")
        case None
        then show ?thesis using go pl True d q by auto
      next
        case (Some bs)
        define ctx1 where "ctx1 = (if length bs < 3 then ctx \<lparr> ec_data := data, ec_data_used := 0, ec_eof_seen := True \<rparr>
          else ctx \<lparr> ec_data := data, ec_data_used := 0 \<rparr>)"
        have c1: "wf_decode ctx1" "pending ctx1 = []" "ec_eof_seen ctx1 = (length bs < 3)"
          using w pl go by (simp_all add: ctx1_def wf_decode_def pending_def)
        note l = quad_val_length [OF Some]
        have cap: "length inp div 4 * 3 + 3 \<le> length buf" "length acc + length inp div 4 * 3 + 3 < size_lim"
          using Cons.prems(2,3) pl True by simp_all
        have s: "store_at (length acc) bs (acc @ buf) = Some ((acc @ bs) @ drop (length bs) buf)"
          "size_add (length acc) (length bs) = length (acc @ bs)"
          using store_at_end [of acc bs buf] l cap by (simp_all add: size_add_exact)
        have r: "decode_loop ctx (acc @ buf) (length acc) (c # inp) = decode_loop ctx1 ((acc @ bs) @ drop (length bs) buf) (length (acc @ bs)) inp"
          using q Some s by (simp add: ctx1_def)
        have "(length (pending ctx1) + length inp) div 4 * 3 \<le> length (drop (length bs) buf)"
          "length (acc @ bs) + (length (pending ctx1) + length inp) div 4 * 3 < size_lim"
          using cap l unfolding c1 by (simp_all add: le_diff_conv2)
        from Cons.IH [OF c1(1) this] obtain n ctx' buf' where
          "case dec [] (length bs < 3) inp of
             None \<Rightarrow> decode_loop ctx1 ((acc @ bs) @ drop (length bs) buf) (length (acc @ bs)) inp = Some ((False, n), ctx', buf') \<and> ec_error ctx'
           | Some (out, p, e) \<Rightarrow> decode_loop ctx1 ((acc @ bs) @ drop (length bs) buf) (length (acc @ bs)) inp =
                 Some ((True, length (acc @ bs) + length out), ctx', (acc @ bs) @ out @ buf') \<and>
               wf_decode ctx' \<and> pending ctx' = p \<and> ec_eof_seen ctx' = e"
          unfolding c1 by auto
        moreover have "dec (pending ctx) (ec_eof_seen ctx) (c # inp) = map_option (\<lambda>(out, r). (bs @ out, r)) (dec [] (length bs < 3) inp)"
          using go pl True d Some by simp
        ultimately show ?thesis using l r pl True
          by (intro exI [of _ n] exI [of _ ctx'] exI [of _ buf']) (auto split: option.splits)
      qed
    qed
  qed
qed

text \<open>A stream decoder fed chunk by chunk, each with a fresh buffer for the quads that can become complete.\<close>

fun decode_run :: "encode_ctx \<Rightarrow> bytes list \<Rightarrow> bytes option option" where
  "decode_run ctx [] = Some (if EVP_DecodeFinal ctx = 1 then Some [] else None)"
| "decode_run ctx (inp # inps) =
     (case EVP_DecodeUpdate ctx (replicate ((3 + length inp) div 4 * 3) 0) inp of
        None \<Rightarrow> None
      | Some ((r, n), ctx, out) \<Rightarrow>
          if r < 0 then Some None else map_option (map_option ((@) (take (nat n) out))) (decode_run ctx inps))"

lemma decode_run_ok:
  "wf_decode ctx \<Longrightarrow> list_all (\<lambda>inp. length inp < 2 ^ 31) inps \<Longrightarrow>
   decode_run ctx inps =
     Some (case dec (pending ctx) (ec_eof_seen ctx) (concat inps) of
             None \<Rightarrow> None
           | Some (out, p, e) \<Rightarrow> if p = [] then Some out else None)"
proof (induction inps arbitrary: ctx)
  case Nil
  then have "pending ctx = [] \<longleftrightarrow> ec_data_used ctx = 0" by (auto simp: pending_def wf_decode_def)
  with Nil show ?case by (simp add: EVP_DecodeFinal_def wf_decode_def)
next
  case (Cons inp inps)
  let ?buf = "replicate ((3 + length inp) div 4 * 3) 0"
  have p: "length (pending ctx) < 4" "\<not> ec_error ctx" using Cons.prems(1) by (auto simp: pending_def wf_decode_def)
  then have "(length (pending ctx) + length inp) div 4 \<le> (3 + length inp) div 4" by (intro div_le_mono) simp
  then have cap: "(length (pending ctx) + length inp) div 4 * 3 \<le> (3 + length inp) div 4 * 3" by (rule mult_le_mono1)
  have "(3 + length inp) div 4 \<le> (3 + 2147483647) div 4" using Cons.prems(2) by (intro div_le_mono) simp
  then have lim: "(3 + length inp) div 4 * 3 \<le> 2147483647" by simp
  have "(length (pending ctx) + length inp) div 4 * 3 \<le> length ?buf"
    "length ([] :: bytes) + (length (pending ctx) + length inp) div 4 * 3 < size_lim"
    using cap lim by simp_all
  from decode_loop_ok [OF Cons.prems(1) this, unfolded append_Nil list.size(3) add_0] obtain n ctx' buf' where l:
    "case dec (pending ctx) (ec_eof_seen ctx) inp of
       None \<Rightarrow> decode_loop ctx ?buf 0 inp = Some ((False, n), ctx', buf') \<and> ec_error ctx'
     | Some (out, p, e) \<Rightarrow> decode_loop ctx ?buf 0 inp = Some ((True, length out), ctx', out @ buf') \<and>
         wf_decode ctx' \<and> pending ctx' = p \<and> ec_eof_seen ctx' = e"
    by blast
  show ?case
  proof (cases "dec (pending ctx) (ec_eof_seen ctx) inp")
    case None
    then show ?thesis using l p by (simp add: EVP_DecodeUpdate_def dec_append)
  next
    case (Some r)
    obtain out p' e' where r: "r = (out, p', e')" by (cases r)
    have "length out \<le> 2147483647" using dec_length [OF Some [unfolded r] p(1)] cap lim by linarith
    then have "EVP_DecodeUpdate ctx ?buf inp = Some ((if ec_eof_seen ctx' then 0 else 1, int (length out)), ctx', out @ buf')"
      using l Some r p by (simp add: EVP_DecodeUpdate_def)
    then have "decode_run ctx (inp # inps) = map_option (map_option ((@) out)) (decode_run ctx' inps)" by simp
    also have "\<dots> = map_option (map_option ((@) out)) (Some (case dec p' e' (concat inps) of None \<Rightarrow> None
        | Some (out, p, e) \<Rightarrow> if p = [] then Some out else None))"
      using Cons.IH [of ctx'] Cons.prems(2) l Some r by simp
    finally show ?thesis using Some r by (auto simp: dec_append split: option.splits)
  qed
qed

lemma decode_run_init:
  assumes "list_all (\<lambda>inp. length inp < 2 ^ 31) inps"
  shows "decode_run EVP_DecodeInit inps = Some (dec_ref (strip (concat inps)))"
proof -
  have w: "wf_decode EVP_DecodeInit" "pending EVP_DecodeInit = []" "ec_eof_seen EVP_DecodeInit = False"
    by (simp_all add: wf_decode_def EVP_DecodeInit_def EVP_EncodeInit_def pending_def)
  have "list_all (\<lambda>c. \<not> is_trim_end c) (strip (concat inps))" by (simp add: list_all_iff)
  from dec_is_ref [OF this] decode_run_ok [OF w(1) assms] show ?thesis
    by (simp only: w dec_strip)
qed

text \<open>
  C28.  The stream decoder is the reference decoder: whatever the chunks the text arrives in, the calls accept it exactly
  when the text without its white space is a valid encoding, and then what they write is the encoded bytes.
\<close>

theorem base64_decode_stream:
  assumes "list_all (\<lambda>inp. length inp < 2 ^ 31) inps"
  shows "decode_run EVP_DecodeInit inps = Some (dec_ref (strip (concat inps)))"
  by (rule decode_run_init [OF assms])

theorem base64_decode_stream_witness:
  "decode_run EVP_DecodeInit [[77, 10], [87, 73, 61, 32]] = Some (dec_ref (strip [77, 10, 87, 73, 61, 32]))"
  using base64_decode_stream [of "[[77, 10], [87, 73, 61, 32]]"] by simp

section \<open>Encoding and decoding again\<close>

text \<open>A stream encoder fed chunk by chunk, each with a fresh buffer for the lines that can become full.\<close>

fun encode_run :: "encode_ctx \<Rightarrow> bytes list \<Rightarrow> bytes option" where
  "encode_run ctx [] = map_option (\<lambda>((n, ctx), out). take (nat n) out) (EVP_EncodeFinal ctx (replicate 66 0))"
| "encode_run ctx (inp # inps) =
     (case EVP_EncodeUpdate ctx (replicate ((47 + length inp) div 48 * 65 + 1) 0) inp of
        None \<Rightarrow> None
      | Some ((n, ctx), out) \<Rightarrow> map_option ((@) (take (nat n) out)) (encode_run ctx inps))"

lemma encode_run_ok:
  "wf_encode ctx \<Longrightarrow> list_all (\<lambda>inp. length inp < 2 ^ 30) inps \<Longrightarrow>
   encode_run ctx inps = Some (pem_text (pending ctx @ concat inps))"
proof (induction inps arbitrary: ctx)
  case Nil
  have "length (pending ctx) < 48" using Nil.prems by (auto simp: pending_def wf_encode_def)
  then have "pem_text (pending ctx) = (if pending ctx = [] then [] else line (pending ctx))"
    by (simp add: pem_text_def full_lines.simps [of "pending ctx"] last_line.simps [of "pending ctx"])
  with encode_final_ok [OF Nil.prems(1), of "replicate 66 0"] show ?case by auto
next
  case (Cons inp inps)
  let ?n = "length (full_lines (pending ctx @ inp))"
  have "length (pending ctx) < 48" using Cons.prems by (auto simp: pending_def wf_encode_def)
  then have "length (pending ctx @ inp) div 48 \<le> (47 + length inp) div 48" by (intro div_le_mono) simp
  then have cap: "?n \<le> (47 + length inp) div 48 * 65" by (simp only: length_full_lines mult_le_mono1)
  have "(47 + length inp) div 48 \<le> (47 + 1073741823) div 48" using Cons.prems(2) by (intro div_le_mono) simp
  then have lim: "?n \<le> 2147483647" using cap by simp
  obtain ctx' out' where u:
    "EVP_EncodeUpdate ctx (replicate ((47 + length inp) div 48 * 65 + 1) 0) inp = Some ((int ?n, ctx'), out')"
    "take ?n out' = full_lines (pending ctx @ inp)" "wf_encode ctx'" "pending ctx' = last_line (pending ctx @ inp)"
    using encode_update_ok [OF Cons.prems(1), of inp "replicate ((47 + length inp) div 48 * 65 + 1) 0"] cap lim by auto
  have "encode_run ctx (inp # inps) = Some (full_lines (pending ctx @ inp) @ pem_text (last_line (pending ctx @ inp) @ concat inps))"
    using u Cons.IH [OF u(3)] Cons.prems(2) by simp
  then show ?case
    using lines_append [of "pending ctx @ inp" "concat inps"] by (simp add: pem_text_def)
qed

lemma b64_append: "length xs mod 3 = 0 \<Longrightarrow> b64 (xs @ ys) = b64 xs @ b64 ys"
  by (induction xs rule: b64.induct) auto

lemma strip_b64 [simp]: "strip (b64 xs) = b64 xs"
proof (induction xs rule: b64.induct)
  case (4 a b c xs)
  have "unat a div 4 < 64" "unat a mod 4 * 16 + unat b div 16 < 64" "unat b mod 16 * 4 + unat c div 64 < 64"
    by (rule digit_bounds)+
  with 4 show ?case by simp
qed (simp_all add: digit_bounds is_trim_end_def [of 61])

lemma strip_line: "strip (line xs) = b64 xs"
  by (simp add: line_def is_trim_end_def [of 10])

lemma strip_pem_text: "strip (pem_text xs) = b64 xs"
proof (induction xs rule: full_lines.induct)
  case (1 xs)
  show ?case
  proof (cases "length xs < 48")
    case True
    then show ?thesis by (simp add: pem_text_def full_lines.simps [of xs] last_line.simps [of xs] strip_line)
  next
    case False
    then have "pem_text xs = line (take 48 xs) @ pem_text (drop 48 xs)"
      by (simp add: pem_text_def full_lines.simps [of xs] last_line.simps [of xs])
    moreover have "b64 xs = b64 (take 48 xs) @ b64 (drop 48 xs)"
      using b64_append [of "take 48 xs" "drop 48 xs"] False by simp
    ultimately show ?thesis using 1 False by (simp add: strip_line)
  qed
qed

text \<open>
  C29.  Encoding and decoding a stream: the encoder's text is the reference text in lines of 64 digits, whatever the
  chunks its input comes in, and a decoder given that text cut up in any other way ends with the original bytes.
\<close>

theorem base64_stream_roundtrip:
  assumes "list_all (\<lambda>inp. length inp < 2 ^ 30) inps" "concat texts = pem_text (concat inps)"
    "list_all (\<lambda>inp. length inp < 2 ^ 31) texts"
  shows "encode_run EVP_EncodeInit inps = Some (concat texts) \<and> decode_run EVP_DecodeInit texts = Some (Some (concat inps))"
proof
  have "wf_encode EVP_EncodeInit" "pending EVP_EncodeInit = []" by (simp_all add: wf_encode_def pending_def EVP_EncodeInit_def)
  from encode_run_ok [OF this(1) assms(1)] this(2) assms(2) show "encode_run EVP_EncodeInit inps = Some (concat texts)" by simp
  have "decode_run EVP_DecodeInit texts = Some (dec_ref (b64 (concat inps)))"
    using decode_run_init [OF assms(3)] by (simp only: assms(2) strip_pem_text)
  then show "decode_run EVP_DecodeInit texts = Some (Some (concat inps))" by (simp add: dec_ref_b64)
qed

theorem base64_stream_roundtrip_witness:
  "encode_run EVP_EncodeInit [[49], [], [98]] = Some [77, 87, 73, 61, 10] \<and>
   decode_run EVP_DecodeInit [[77, 87], [73, 61, 10]] = Some (Some [49, 98])"
proof -
  have "pem_text [49, 98] = [77, 87, 73, 61, 10]" by code_simp
  with base64_stream_roundtrip [of "[[49], [], [98]]" "[[77, 87], [73, 61, 10]]"] show ?thesis by simp
qed

section \<open>One call\<close>

lemma EncodedLength_exact:
  assumes "length src < size_lim"
  shows "EVP_EncodedLength (length src) = (if length (b64 src) + 1 < size_lim then Some (length (b64 src) + 1) else None)"
proof (cases "length src + 2 < size_lim")
  case False
  then have "size_add (length src) 2 < length src" "\<not> length (b64 src) + 1 < size_lim"
    using assms by (auto simp: size_add_def length_b64 mod_if)
  then show ?thesis by (simp add: EVP_EncodedLength_def)
next
  case True
  define k where "k = (length src + 2) div 3"
  have a: "size_add (length src) 2 = length src + 2" "length (b64 src) = k * 4" using True by (simp_all add: size_add_exact length_b64 k_def)
  show ?thesis
  proof (cases "k * 4 < size_lim")
    case fits: True
    then have "k * 4 + 1 < size_lim" by simp
    then show ?thesis using fits True unfolding EVP_EncodedLength_def a Let_def k_def [symmetric] by (simp add: size_mul_exact size_add_exact)
  next
    case False
    have "k * 4 mod size_lim < k * 4" using False mod_less_divisor [of size_lim "k * 4"] by linarith
    then have "size_mul k 4 div 4 \<noteq> k" unfolding size_mul_def by linarith
    then show ?thesis using False unfolding EVP_EncodedLength_def a Let_def k_def [symmetric] by simp
  qed
qed

text \<open>
  \<open>EVP_EncodeBlock\<close> writes the reference encoding and a NUL into a buffer of the length that
  \<open>EVP_EncodedLength\<close> announces, and nothing behind them; it returns the length without the NUL.
\<close>

theorem base64_encode_exact:
  assumes "length src < size_lim" "EVP_EncodedLength (length src) = Some n" "n \<le> length dst"
  shows "n = length (b64 src) + 1 \<and> EVP_EncodeBlock 0 dst src = Some (length (b64 src), b64 src @ [0] @ drop n dst)"
  using assms encode_block_ok [of src dst "[]"] EncodedLength_exact [OF assms(1)] by (auto split: if_splits)

theorem base64_encode_exact_witness:
  "EVP_EncodeBlock 0 [9, 9, 9, 9, 9, 7] [49, 98] = Some (4, [77, 87, 73, 61, 0, 7])"
proof -
  have b: "b64 [49, 98] = [77, 87, 73, 61]" by code_simp
  have "EVP_EncodedLength (length [49, 98 :: u8]) = Some 5" by (subst EncodedLength_exact) (simp_all only: b, simp_all)
  with base64_encode_exact [of "[49, 98]" 5 "[9, 9, 9, 9, 9, 7]"] b show ?thesis by simp
qed

lemma pad_zeros_ok:
  assumes "n \<le> m" "m < n + 3" "m mod 3 = 0" "m \<le> length dst"
  shows "pad_zeros n dst = Some (m, take n dst @ replicate (m - n) 0 @ drop m dst)"
proof -
  have st: "store_at n [0] d = Some (take n d @ [0] @ drop (n + 1) d)" if "n < length d" for n and d :: bytes
    using that by (simp add: store_at_def)
  consider "m = n" | "m = n + 1" | "m = n + 2" using assms by linarith
  then show ?thesis
  proof cases
    case 1
    then show ?thesis using assms by (simp add: pad_zeros.simps [of n])
  next
    case 2
    then have "n mod 3 \<noteq> 0" "(n + 1) mod 3 = 0" using assms by presburger+
    then show ?thesis using 2 assms st [of n dst] by (simp add: pad_zeros.simps [of n] pad_zeros.simps [of "Suc n"])
  next
    case 3
    then have "n mod 3 \<noteq> 0" "(n + 1) mod 3 \<noteq> 0" "(n + 2) mod 3 = 0" using assms by presburger+
    then show ?thesis using 3 assms st [of n dst] st [of "n + 1" "take n dst @ [0] @ drop (n + 1) dst"]
      by (simp add: pad_zeros.simps [of n] pad_zeros.simps [of "Suc n"] pad_zeros.simps [of "Suc (Suc n)"] min_def numeral_2_eq_2)
  qed
qed

lemma trimmed:
  assumes "list_all is_trim_start pre" "list_all is_trim_end post" "ys \<noteq> [] \<longrightarrow> \<not> is_trim_end (hd ys) \<and> \<not> is_trim_end (List.last ys)"
  shows "rev (dropWhile is_trim_end (rev (dropWhile is_trim_start (pre @ ys @ post)))) = ys"
proof -
  have i: "is_trim_end c" if "is_trim_start c" for c using that by (auto simp: is_trim_start_def is_trim_end_def)
  have e: "dropWhile is_trim_end (rev zs) = []" if "list_all is_trim_end zs" for zs using that by (simp add: dropWhile_eq_Nil_conv list_all_iff)
  show ?thesis
  proof (cases ys)
    case Nil
    have "list_all is_trim_end (dropWhile is_trim_start post)"
      using assms(2) by (auto simp: list_all_iff dest: set_dropWhileD)
    then show ?thesis using assms(1) Nil by (simp add: dropWhile_append2 list_all_iff e)
  next
    case (Cons c cs)
    then have "\<not> is_trim_start c" "ys \<noteq> []" "\<not> is_trim_end (List.last ys)" using assms(3) i by auto
    then have "dropWhile is_trim_start (pre @ ys @ post) = ys @ post" using assms(1) Cons by (simp add: dropWhile_append2 list_all_iff)
    moreover have "dropWhile is_trim_end (rev ys) = rev ys"
      using \<open>ys \<noteq> []\<close> \<open>\<not> is_trim_end (List.last ys)\<close> by (simp add: dropWhile_eq_self_iff hd_rev)
    moreover have "dropWhile is_trim_end (rev post @ rev ys) = dropWhile is_trim_end (rev ys)"
      using assms(2) by (intro dropWhile_append2) (simp add: list_all_iff)
    ultimately show ?thesis by simp
  qed
qed

text \<open>
  \<open>EVP_DecodeBlock\<close> on an encoding with white space around it gives the encoded bytes, filled up with zeros to a
  multiple of three, and returns that multiple: its result does not take padding into account.
\<close>

theorem base64_block_roundtrip:
  assumes "list_all is_trim_start pre" "list_all is_trim_end post" "m = (length xs + 2) div 3 * 3" "m \<le> 2147483647" "m \<le> length dst"
  shows "EVP_DecodeBlock dst (pre @ b64 xs @ post) = Some (int m, xs @ replicate (m - length xs) 0 @ drop m dst)"
proof -
  have "\<forall>c \<in> set (b64 xs). \<not> is_trim_end c" using iffD1 [OF filter_id_conv strip_b64] .
  then have t: "rev (dropWhile is_trim_end (rev (dropWhile is_trim_start (pre @ b64 xs @ post)))) = b64 xs"
    using assms(1,2) by (intro trimmed) auto
  have l: "length (b64 xs) div 4 * 3 = m" "length (b64 xs) mod 4 = 0" "length (b64 xs) < size_lim"
    using assms(3,4) by (simp_all add: length_b64)
  moreover have "EVP_DecodedLength (length (b64 xs)) = Some m"
    using l assms(4) by (simp add: EVP_DecodedLength_def size_mul_exact)
  moreover obtain out' where o': "length out' = length dst" "drop m out' = drop m dst"
    "EVP_DecodeBase64 dst m (b64 xs) = Some ((True, length xs), out')" "take (length xs) out' = xs"
    using base64_decode_run [of m dst "b64 xs"] l assms(5) by (auto simp: dec_ref_b64)
  moreover have "pad_zeros (length xs) out' = Some (m, xs @ replicate (m - length xs) 0 @ drop m dst)"
    using pad_zeros_ok [of "length xs" m out'] o' assms(3,5) by auto
  ultimately show ?thesis using assms(4) unfolding EVP_DecodeBlock_def Let_def t by simp
qed

theorem base64_block_roundtrip_witness:
  "EVP_DecodeBlock [1, 2, 3, 4] ([32] @ b64 [49, 98] @ [10, 9]) = Some (3, [49, 98, 0, 4])"
  using base64_block_roundtrip [of "[32]" "[10, 9]" 3 "[49, 98]" "[1, 2, 3, 4]"]
  by (simp add: is_trim_start_def is_trim_end_def)

end
