(* ===== verification/PbStream.thy ===== *)
theory PbStream
  imports Prelude
begin

text \<open>
  nanopb (\<open>Pods/nanopb\<close>): streams and the wire format of protocol buffers, from \<open>pb_encode.c\<close> and \<open>pb_decode.c\<close>.
  An operation takes a stream and returns its result and the stream; \<^term>\<open>None\<close> as a whole is a memory fault, an access
  outside the caller's buffer or a local array.  \<open>size_t\<close> has 64 bits and \<open>uint_fast8_t\<close> has 8.  A custom
  callback is a parameter: a function of its own state.  Error texts are kept, the first one wins.
\<close>

section \<open>Input streams\<close>

datatype 's pb_source = Buf bytes | Custom "'s \<Rightarrow> nat \<Rightarrow> bytes option \<times> 's" 's

record 's pb_istream =
  is_source :: "'s pb_source"
  is_bytes_left :: nat
  is_errmsg :: "string option"

type_synonym ('s, 'a) pb_rd = "'s pb_istream \<Rightarrow> ('a option \<times> 's pb_istream) option"

definition set_error :: "string \<Rightarrow> string option \<Rightarrow> string option" where
  "set_error msg e = (case e of Some m \<Rightarrow> Some m | None \<Rightarrow> Some msg)"

text \<open>\<open>PB_RETURN_ERROR\<close>, \<open>return false\<close>, \<open>return true\<close> with a value, and the test of a result.\<close>

definition pb_error :: "string \<Rightarrow> ('s, 'a) pb_rd" where
  "pb_error msg s = Some (None, s \<lparr> is_errmsg := set_error msg (is_errmsg s) \<rparr>)"

definition pb_fail :: "('s, 'a) pb_rd" where
  "pb_fail s = Some (None, s)"

definition pb_return :: "'a \<Rightarrow> ('s, 'a) pb_rd" where
  "pb_return x s = Some (Some x, s)"

definition pb_bind :: "('s, 'a) pb_rd \<Rightarrow> ('a \<Rightarrow> ('s, 'b) pb_rd) \<Rightarrow> ('s, 'b) pb_rd" where
  "pb_bind r f s =
     (case r s of
        None \<Rightarrow> None
      | Some (None, s) \<Rightarrow> Some (None, s)
      | Some (Some x, s) \<Rightarrow> f x s)"

text \<open>The call of \<open>stream->callback\<close>; \<open>buf_read\<close> is the one for buffers.\<close>

definition buf_read :: "nat \<Rightarrow> bytes \<Rightarrow> (bytes \<times> bytes) option" where
  "buf_read count source = (if count \<le> length source then Some (take count source, drop count source) else None)"

definition call_source :: "nat \<Rightarrow> ('s, bytes) pb_rd" where
  "call_source count s =
     (case is_source s of
        Buf d \<Rightarrow> map_option (\<lambda>(buf, d). (Some buf, s \<lparr> is_source := Buf d \<rparr>)) (buf_read count d)
      | Custom f st \<Rightarrow> (case f st count of (r, st) \<Rightarrow> Some (r, s \<lparr> is_source := Custom f st \<rparr>)))"

definition pb_read_into :: "nat \<Rightarrow> ('s, bytes) pb_rd" where
  "pb_read_into count s =
     (if count = 0 then pb_return [] s
      else if is_bytes_left s < count then pb_error ''end-of-stream'' s
      else case call_source count s of
             None \<Rightarrow> None
           | Some (None, s) \<Rightarrow> pb_error ''io error'' s
           | Some (Some buf, s) \<Rightarrow> Some (Some buf, s \<lparr> is_bytes_left := is_bytes_left s - count \<rparr>))"

text \<open>The loop that skips on a custom stream, by blocks of 16 bytes.\<close>

function skip_blocks :: "nat \<Rightarrow> ('s, unit) pb_rd" where
  "skip_blocks count =
     (if count > 16 then pb_bind (pb_read_into 16) (\<lambda>_. skip_blocks (count - 16))
      else pb_bind (pb_read_into count) (\<lambda>_. pb_return ()))"
  by pat_completeness auto
termination
  by (relation "measure id") auto

declare skip_blocks.simps [simp del]

text \<open>\<open>pb_read\<close> with a null buffer.\<close>

definition pb_read_null :: "nat \<Rightarrow> ('s, unit) pb_rd" where
  "pb_read_null count s =
     (if count = 0 then pb_return () s
      else case is_source s of
             Buf _ \<Rightarrow> pb_bind (pb_read_into count) (\<lambda>_. pb_return ()) s
           | Custom _ _ \<Rightarrow> skip_blocks count s)"

definition pb_readbyte :: "('s, u8) pb_rd" where
  "pb_readbyte s =
     (if is_bytes_left s = 0 then pb_error ''end-of-stream'' s
      else case call_source 1 s of
             None \<Rightarrow> None
           | Some (None, s) \<Rightarrow> pb_error ''io error'' s
           | Some (Some buf, s) \<Rightarrow> Some (Some (buf ! 0), s \<lparr> is_bytes_left := is_bytes_left s - 1 \<rparr>))"

definition pb_istream_from_buffer :: "bytes \<Rightarrow> nat \<Rightarrow> 's pb_istream" where
  "pb_istream_from_buffer buf bufsize = \<lparr> is_source = Buf buf, is_bytes_left = bufsize, is_errmsg = None \<rparr>"

lemma readbyte_left: "pb_readbyte s = Some (Some b, s') \<Longrightarrow> is_bytes_left s' < is_bytes_left s"
  by (auto simp: pb_readbyte_def call_source_def pb_error_def buf_read_def split: if_splits pb_source.splits option.splits prod.splits)

lemma read_into_left: "pb_read_into n s = Some (Some bs, s') \<Longrightarrow> n \<noteq> 0 \<Longrightarrow> is_bytes_left s' < is_bytes_left s"
  by (auto simp: pb_read_into_def call_source_def pb_error_def buf_read_def split: if_splits pb_source.splits option.splits prod.splits)

section \<open>Varints\<close>

text \<open>The loop of \<open>pb_decode_varint32_eof\<close>: the result, \<open>bitpos\<close> and the last byte.\<close>

function varint32_loop :: "u32 \<Rightarrow> u8 \<Rightarrow> ('s, u32 \<times> u8 \<times> u8) pb_rd" where
  "varint32_loop result bitpos s =
     (case pb_readbyte s of
        None \<Rightarrow> None
      | Some (None, s) \<Rightarrow> pb_fail s
      | Some (Some byte, s) \<Rightarrow>
          let sign_extension = (if bitpos < 63 then 0xFF else 0x01) in
          if bitpos \<ge> 32 \<and> byte AND 0x7F \<noteq> 0 \<and> (drop_bit 31 result = 0 \<or> byte \<noteq> sign_extension)
          then pb_error ''varint overflow'' s
          else
            let result = (if bitpos \<ge> 32 then result else result OR push_bit (unat bitpos) (ucast (byte AND 0x7F)));
                bitpos = bitpos + 7
            in if byte AND 0x80 \<noteq> 0 then varint32_loop result bitpos s
               else pb_return (result, bitpos, byte) s)"
  by pat_completeness auto
termination
  by (relation "measure (\<lambda>(result, bitpos, s). is_bytes_left s)") (auto dest: readbyte_left)

declare varint32_loop.simps [simp del]

text \<open>Besides the value, whether \<open>*eof\<close> is set.\<close>

definition pb_decode_varint32_eof :: "'s pb_istream \<Rightarrow> ((u32 option \<times> bool) \<times> 's pb_istream) option" where
  "pb_decode_varint32_eof s =
     (case pb_readbyte s of
        None \<Rightarrow> None
      | Some (None, s) \<Rightarrow> Some ((None, is_bytes_left s = 0), s)
      | Some (Some byte, s) \<Rightarrow>
          if byte AND 0x80 = 0 then Some ((Some (ucast byte), False), s)
          else case varint32_loop (ucast (byte AND 0x7F)) 7 s of
                 None \<Rightarrow> None
               | Some (None, s) \<Rightarrow> Some ((None, False), s)
               | Some (Some (result, bitpos, byte), s) \<Rightarrow>
                   if bitpos = 35 \<and> byte AND 0x70 \<noteq> 0
                   then map_option (\<lambda>(r, s). ((r, False), s)) (pb_error ''varint overflow'' s)
                   else Some ((Some result, False), s))"

definition pb_decode_varint32 :: "('s, u32) pb_rd" where
  "pb_decode_varint32 s = map_option (\<lambda>((r, eof), s). (r, s)) (pb_decode_varint32_eof s)"

function varint_loop :: "u64 \<Rightarrow> u8 \<Rightarrow> ('s, u64) pb_rd" where
  "varint_loop result bitpos s =
     (if bitpos \<ge> 64 then pb_error ''varint overflow'' s
      else case pb_readbyte s of
             None \<Rightarrow> None
           | Some (None, s) \<Rightarrow> pb_fail s
           | Some (Some byte, s) \<Rightarrow>
               let result = result OR push_bit (unat bitpos) (ucast (byte AND 0x7F)) in
               if byte AND 0x80 \<noteq> 0 then varint_loop result (bitpos + 7) s else pb_return result s)"
  by pat_completeness auto
termination
  by (relation "measure (\<lambda>(result, bitpos, s). is_bytes_left s)") (auto dest: readbyte_left)

declare varint_loop.simps [simp del]

definition pb_decode_varint :: "('s, u64) pb_rd" where
  "pb_decode_varint = varint_loop 0 0"

function pb_skip_varint :: "('s, unit) pb_rd" where
  "pb_skip_varint s =
     (case pb_read_into 1 s of
        None \<Rightarrow> None
      | Some (None, s) \<Rightarrow> pb_fail s
      | Some (Some buf, s) \<Rightarrow> if buf ! 0 AND 0x80 \<noteq> 0 then pb_skip_varint s else pb_return () s)"
  by pat_completeness auto
termination
  by (relation "measure is_bytes_left") (auto dest: read_into_left)

declare pb_skip_varint.simps [simp del]

definition pb_decode_svarint :: "('s, 64 word) pb_rd" where
  "pb_decode_svarint =
     pb_bind pb_decode_varint (\<lambda>value. pb_return (if value AND 1 \<noteq> 0 then NOT (drop_bit 1 value) else drop_bit 1 value))"

section \<open>Fixed-width values, strings and fields\<close>

definition pb_decode_fixed32 :: "('s, u32) pb_rd" where
  "pb_decode_fixed32 =
     pb_bind (pb_read_into 4) (\<lambda>bytes. pb_return
       (push_bit 0 (ucast (bytes ! 0)) OR push_bit 8 (ucast (bytes ! 1)) OR push_bit 16 (ucast (bytes ! 2)) OR push_bit 24 (ucast (bytes ! 3))))"

definition pb_decode_fixed64 :: "('s, u64) pb_rd" where
  "pb_decode_fixed64 =
     pb_bind (pb_read_into 8) (\<lambda>bytes. pb_return
       (push_bit 0 (ucast (bytes ! 0)) OR push_bit 8 (ucast (bytes ! 1)) OR push_bit 16 (ucast (bytes ! 2)) OR push_bit 24 (ucast (bytes ! 3)) OR
        push_bit 32 (ucast (bytes ! 4)) OR push_bit 40 (ucast (bytes ! 5)) OR push_bit 48 (ucast (bytes ! 6)) OR push_bit 56 (ucast (bytes ! 7))))"

definition pb_skip_string :: "('s, unit) pb_rd" where
  "pb_skip_string = pb_bind pb_decode_varint32 (\<lambda>length. pb_read_null (unat length))"

text \<open>The wire types \<open>PB_WT_VARINT\<close>, \<open>PB_WT_64BIT\<close>, \<open>PB_WT_STRING\<close> and \<open>PB_WT_32BIT\<close> are 0, 1, 2 and 5.\<close>

definition pb_decode_tag :: "'s pb_istream \<Rightarrow> (((u32 \<times> u32) option \<times> bool) \<times> 's pb_istream) option" where
  "pb_decode_tag s =
     (case pb_decode_varint32_eof s of
        None \<Rightarrow> None
      | Some ((None, eof), s) \<Rightarrow> Some ((None, eof), s)
      | Some ((Some temp, eof), s) \<Rightarrow>
          if temp = 0 then Some ((None, True), s) else Some ((Some (temp AND 7, drop_bit 3 temp), eof), s))"

definition pb_skip_field :: "u32 \<Rightarrow> ('s, unit) pb_rd" where
  "pb_skip_field wire_type =
     (if wire_type = 0 then pb_skip_varint
      else if wire_type = 1 then pb_read_null 8
      else if wire_type = 2 then pb_skip_string
      else if wire_type = 5 then pb_read_null 4
      else pb_error ''invalid wire_type'')"

text \<open>\<open>read_raw_value\<close>: the bytes copied to \<open>buf\<close>; their number is \<open>*size\<close>.\<close>

function raw_varint :: "nat \<Rightarrow> bytes \<Rightarrow> ('s, bytes) pb_rd" where
  "raw_varint max_size buf s =
     (if length buf + 1 > max_size then pb_fail s
      else case pb_read_into 1 s of
             None \<Rightarrow> None
           | Some (None, s) \<Rightarrow> pb_fail s
           | Some (Some b, s) \<Rightarrow> if b ! 0 AND 0x80 \<noteq> 0 then raw_varint max_size (buf @ b) s else pb_return (buf @ b) s)"
  by pat_completeness auto
termination
  by (relation "measure (\<lambda>(m, buf, s). is_bytes_left s)") (auto dest: read_into_left)

declare raw_varint.simps [simp del]

definition read_raw_value :: "u32 \<Rightarrow> nat \<Rightarrow> ('s, bytes) pb_rd" where
  "read_raw_value wire_type max_size s =
     (if wire_type = 0 then raw_varint max_size [] s
      else if wire_type = 1 then (if max_size < 8 then None else pb_read_into 8 s)
      else if wire_type = 5 then (if max_size < 4 then None else pb_read_into 4 s)
      else pb_error ''invalid wire_type'' s)"

definition pb_make_string_substream :: "('s, 's pb_istream) pb_rd" where
  "pb_make_string_substream =
     pb_bind pb_decode_varint32 (\<lambda>size s.
       if is_bytes_left s < unat size then pb_error ''parent stream too short'' s
       else Some (Some (s \<lparr> is_bytes_left := unat size \<rparr>), s \<lparr> is_bytes_left := is_bytes_left s - unat size \<rparr>))"

definition pb_close_string_substream :: "'s pb_istream \<Rightarrow> ('s, unit) pb_rd" where
  "pb_close_string_substream substream stream =
     (case (if is_bytes_left substream \<noteq> 0 then pb_read_null (is_bytes_left substream) substream else pb_return () substream) of
        None \<Rightarrow> None
      | Some (None, substream) \<Rightarrow> pb_fail stream
      | Some (Some _, substream) \<Rightarrow>
          pb_return () (stream \<lparr> is_source := is_source substream, is_errmsg := is_errmsg substream \<rparr>))"

section \<open>Output streams\<close>

text \<open>
  What \<open>callback\<close> and \<open>state\<close> of an output stream stand for: no callback, which only counts; \<open>buf_write\<close>,
  with the bytes of the buffer before and behind \<open>state\<close>; or a custom callback with its state.
\<close>

datatype 's pb_sink = is_Sizing: Sizing | Out bytes bytes | Custom_sink "'s \<Rightarrow> bytes \<Rightarrow> bool \<times> 's" 's

record 's pb_ostream =
  os_sink :: "'s pb_sink"
  os_max_size :: nat
  os_bytes_written :: nat
  os_errmsg :: "string option"

type_synonym 's pb_wr = "'s pb_ostream \<Rightarrow> (bool \<times> 's pb_ostream) option"

definition wr_error :: "string \<Rightarrow> 's pb_wr" where
  "wr_error msg s = Some (False, s \<lparr> os_errmsg := set_error msg (os_errmsg s) \<rparr>)"

definition wr_return :: "'s pb_wr" where
  "wr_return s = Some (True, s)"

definition wr_then :: "'s pb_wr \<Rightarrow> 's pb_wr \<Rightarrow> 's pb_wr" where
  "wr_then f g s =
     (case f s of
        None \<Rightarrow> None
      | Some (False, s) \<Rightarrow> Some (False, s)
      | Some (True, s) \<Rightarrow> g s)"

definition PB_OSTREAM_SIZING :: "'s pb_ostream" where
  "PB_OSTREAM_SIZING = \<lparr> os_sink = Sizing, os_max_size = 0, os_bytes_written = 0, os_errmsg = None \<rparr>"

definition buf_write :: "bytes \<Rightarrow> bytes \<Rightarrow> bytes \<Rightarrow> (bytes \<times> bytes) option" where
  "buf_write before dest buf =
     (if length buf \<le> length dest then Some (before @ buf, drop (length buf) dest) else None)"

definition pb_ostream_from_buffer :: "bytes \<Rightarrow> nat \<Rightarrow> 's pb_ostream" where
  "pb_ostream_from_buffer buf bufsize = \<lparr> os_sink = Out [] buf, os_max_size = bufsize, os_bytes_written = 0, os_errmsg = None \<rparr>"

text \<open>\<open>pb_write\<close>; the buffer may be null, which only a sizing stream can take.\<close>

definition pb_write :: "bytes option \<Rightarrow> nat \<Rightarrow> 's pb_wr" where
  "pb_write buf count s =
     (let written = s \<lparr> os_bytes_written := size_add (os_bytes_written s) count \<rparr> in
      if count > 0 \<and> \<not> is_Sizing (os_sink s) then
        if size_add (os_bytes_written s) count < os_bytes_written s \<or> size_add (os_bytes_written s) count > os_max_size s
        then wr_error ''stream full'' s
        else
          (case buf of
             None \<Rightarrow> None
           | Some b \<Rightarrow>
               if length b < count then None
               else case os_sink s of
                      Sizing \<Rightarrow> None
                    | Out before dest \<Rightarrow>
                        map_option (\<lambda>(before, dest). (True, written \<lparr> os_sink := Out before dest \<rparr>)) (buf_write before dest (take count b))
                    | Custom_sink f st \<Rightarrow>
                        (case f st (take count b) of
                           (False, st) \<Rightarrow> wr_error ''io error'' (s \<lparr> os_sink := Custom_sink f st \<rparr>)
                         | (True, st) \<Rightarrow> Some (True, written \<lparr> os_sink := Custom_sink f st \<rparr>)))
      else Some (True, written))"

function varint_groups :: "u64 \<Rightarrow> bytes" where
  "varint_groups value = (if value \<noteq> 0 then (ucast (value AND 0x7F) OR 0x80) # varint_groups (drop_bit 7 value) else [])"
  by pat_completeness auto
termination
proof (relation "measure unat", simp)
  fix v :: u64
  assume "v \<noteq> 0"
  then have "unat v \<noteq> 0" by (simp add: unat_eq_0)
  then show "(drop_bit 7 v, v) \<in> measure unat" by (simp add: unat_drop_bit div_less_dividend)
qed

declare varint_groups.simps [simp del]

text \<open>The local array has ten bytes.\<close>

definition pb_encode_varint :: "u64 \<Rightarrow> 's pb_wr" where
  "pb_encode_varint value s =
     (if value \<le> 0x7F then pb_write (Some [ucast value]) 1 s
      else
        let buffer = varint_groups value; i = length buffer in
        if i > 10 then None
        else pb_write (Some (buffer[i - 1 := (buffer ! (i - 1)) AND 0x7F])) i s)"

definition pb_encode_svarint :: "64 word \<Rightarrow> 's pb_wr" where
  "pb_encode_svarint value =
     pb_encode_varint (if value <s 0 then NOT (push_bit 1 value) else push_bit 1 value)"

definition pb_encode_fixed32 :: "u32 \<Rightarrow> 's pb_wr" where
  "pb_encode_fixed32 val =
     pb_write (Some [ucast (val AND 0xFF), ucast (drop_bit 8 val AND 0xFF), ucast (drop_bit 16 val AND 0xFF), ucast (drop_bit 24 val AND 0xFF)]) 4"

definition pb_encode_fixed64 :: "u64 \<Rightarrow> 's pb_wr" where
  "pb_encode_fixed64 val =
     pb_write (Some [ucast (val AND 0xFF), ucast (drop_bit 8 val AND 0xFF), ucast (drop_bit 16 val AND 0xFF), ucast (drop_bit 24 val AND 0xFF),
       ucast (drop_bit 32 val AND 0xFF), ucast (drop_bit 40 val AND 0xFF), ucast (drop_bit 48 val AND 0xFF), ucast (drop_bit 56 val AND 0xFF)]) 8"

definition pb_encode_tag :: "u32 \<Rightarrow> u32 \<Rightarrow> 's pb_wr" where
  "pb_encode_tag wiretype field_number = pb_encode_varint (push_bit 3 (ucast field_number) OR ucast wiretype)"

definition pb_encode_string :: "bytes option \<Rightarrow> nat \<Rightarrow> 's pb_wr" where
  "pb_encode_string buffer n = wr_then (pb_encode_varint (of_nat n)) (pb_write buffer n)"

end
