(* ===== verification/PbRead.thy ===== *)
theory PbRead
  imports PbStream Der "HOL-Library.Code_Target_Numeral"
begin

text \<open>
  What the stream readers read.  A reader on a buffer stream keeps the contract \<open>pb_reader\<close>: it returns, it takes
  bytes from the front of the stream's window only, and neither its result nor the number of bytes it takes depends on
  what lies behind the window.  Varints are related to the numbers they stand for.
\<close>

section \<open>The contract of readers\<close>

text \<open>A buffer stream: \<open>bytes_left\<close> bytes \<open>w\<close>, and what follows them in memory.\<close>

definition window :: "bytes \<Rightarrow> bytes \<Rightarrow> string option \<Rightarrow> 's pb_istream" where
  "window w rest e = \<lparr> is_source = Buf (w @ rest), is_bytes_left = length w, is_errmsg = e \<rparr>"

lemma window_simps [simp]:
  "is_source (window w rest e) = Buf (w @ rest)" "is_bytes_left (window w rest e) = length w" "is_errmsg (window w rest e) = e"
  by (simp_all add: window_def)

locale pb_reader =
  fixes r :: "('s, 'a) pb_rd"
  assumes window: "\<exists>x k e. k \<le> length w \<and> (\<forall>rest. r (window w rest err) = Some (x, window (drop k w) rest e))"
begin

lemma no_fault: "r (window w rest err) \<noteq> None"
  using window [of w err] by auto

lemma local_result: "r (window w rest err) = Some (x, s) \<Longrightarrow> \<exists>s'. r (window w rest' err) = Some (x, s') \<and> is_bytes_left s' = is_bytes_left s"
  using window [of w err] by auto

end

lemma pb_reader_bind:
  assumes "pb_reader r" "\<And>x. pb_reader (f x)"
  shows "pb_reader (pb_bind r f)"
proof (rule pb_reader.intro)
  fix w err
  obtain x k e where r: "k \<le> length w" "\<And>rest. r (window w rest err) = Some (x, window (drop k w) rest e)"
    using pb_reader.window [OF assms(1), of w err] by blast
  show "\<exists>x k e. k \<le> length w \<and> (\<forall>rest. pb_bind r f (window w rest err) = Some (x, window (drop k w) rest e))"
  proof (cases x)
    case None
    then show ?thesis using r by (intro exI [of _ None] exI [of _ k] exI [of _ e]) (simp add: pb_bind_def)
  next
    case (Some a)
    obtain y j e' where "j \<le> length (drop k w)" "\<And>rest. f a (window (drop k w) rest e) = Some (y, window (drop j (drop k w)) rest e')"
      using pb_reader.window [OF assms(2) [of a], of "drop k w" e] by blast
    then show ?thesis using r Some
      by (intro exI [of _ y] exI [of _ "k + j"] exI [of _ e']) (simp add: pb_bind_def add.commute)
  qed
qed

lemma pb_reader_return: "pb_reader (pb_return x)"
  by (rule pb_reader.intro) (auto simp: pb_return_def intro!: exI [of _ 0])

lemma pb_reader_fail: "pb_reader pb_fail"
  by (rule pb_reader.intro) (auto simp: pb_fail_def intro!: exI [of _ 0])

lemma error_window: "pb_error msg (window w rest e) = Some (None, window w rest (set_error msg e))"
  by (simp add: pb_error_def window_def)

lemma pb_reader_error: "pb_reader (pb_error msg)"
  by (rule pb_reader.intro) (auto simp: error_window intro!: exI [of _ 0])

lemma read_into_window:
  "pb_read_into n (window w rest e) =
     (if n \<le> length w then Some (Some (take n w), window (drop n w) rest e) else Some (None, window w rest (set_error ''end-of-stream'' e)))"
  by (auto simp: pb_read_into_def pb_return_def pb_error_def call_source_def buf_read_def window_def)

lemma read_null_window:
  "pb_read_null n (window w rest e) =
     (if n \<le> length w then Some (Some (), window (drop n w) rest e) else Some (None, window w rest (set_error ''end-of-stream'' e)))"
  by (simp add: pb_read_null_def pb_bind_def read_into_window pb_return_def)

lemma readbyte_window:
  "pb_readbyte (window w rest e) =
     (case w of [] \<Rightarrow> Some (None, window [] rest (set_error ''end-of-stream'' e)) | b # w \<Rightarrow> Some (Some b, window w rest e))"
  by (cases w) (simp_all add: pb_readbyte_def pb_error_def call_source_def buf_read_def window_def)

lemma pb_reader_read_into: "pb_reader (pb_read_into n)"
proof (rule pb_reader.intro)
  fix w err
  show "\<exists>x k e. k \<le> length w \<and> (\<forall>rest. pb_read_into n (window w rest err) = Some (x, window (drop k w) rest e))"
  proof (cases "n \<le> length w")
    case True
    then show ?thesis by (auto simp: read_into_window intro!: exI [of _ n])
  next
    case False
    then show ?thesis by (auto simp: read_into_window intro!: exI [of _ "0 :: nat"])
  qed
qed

lemma pb_reader_read_null: "pb_reader (pb_read_null n :: ('s, unit) pb_rd)"
proof -
  have "pb_read_null n (window w rest e :: 's pb_istream) = pb_bind (pb_read_into n) (\<lambda>_. pb_return ()) (window w rest e)" for w rest e
    by (simp add: read_null_window read_into_window pb_bind_def pb_return_def)
  moreover have "pb_reader (pb_bind (pb_read_into n) (\<lambda>_. pb_return ()) :: ('s, unit) pb_rd)"
    by (rule pb_reader_bind [OF pb_reader_read_into pb_reader_return])
  ultimately show ?thesis by (simp add: pb_reader_def)
qed

lemma pb_reader_readbyte: "pb_reader pb_readbyte"
proof (rule pb_reader.intro)
  fix w err
  show "\<exists>x k e. k \<le> length w \<and> (\<forall>rest. pb_readbyte (window w rest err) = Some (x, window (drop k w) rest e))"
  proof (cases w)
    case Nil
    then show ?thesis by (auto simp: readbyte_window)
  next
    case (Cons b w')
    then show ?thesis by (auto simp: readbyte_window intro!: exI [of _ "Suc 0"])
  qed
qed

text \<open>
  The same contract for windows shorter than \<open>n\<close>: a loop is a reader because what follows the byte it takes first
  is one, on a shorter window.
\<close>

definition reads :: "nat \<Rightarrow> ('s, 'a) pb_rd \<Rightarrow> bool" where
  "reads n r \<longleftrightarrow> (\<forall>w err. length w < n \<longrightarrow>
     (\<exists>x k e. k \<le> length w \<and> (\<forall>rest. r (window w rest err) = Some (x, window (drop k w) rest e))))"

lemma reads_reader: "pb_reader r \<Longrightarrow> reads n r"
  by (simp add: reads_def pb_reader_def)

lemma readerI: "(\<And>n. reads n r) \<Longrightarrow> pb_reader r"
  unfolding pb_reader_def reads_def by blast

lemma reads_0 [simp]: "reads 0 r"
  by (simp add: reads_def)

lemma reads_bind:
  assumes "pb_reader r" "\<And>w rest e b s. r (window w rest e) = Some (Some b, s) \<Longrightarrow> is_bytes_left s < length w"
    "\<And>x. reads n (f x)"
  shows "reads (Suc n) (pb_bind r f)"
  unfolding reads_def
proof (intro allI impI)
  fix w :: bytes and err
  assume n: "length w < Suc n"
  obtain x k e where r: "k \<le> length w" "\<And>rest. r (window w rest err) = Some (x, window (drop k w) rest e)"
    using pb_reader.window [OF assms(1), of w err] by blast
  show "\<exists>x k e. k \<le> length w \<and> (\<forall>rest. pb_bind r f (window w rest err) = Some (x, window (drop k w) rest e))"
  proof (cases x)
    case None
    then show ?thesis using r by (intro exI [of _ None] exI [of _ k] exI [of _ e]) (simp add: pb_bind_def)
  next
    case (Some a)
    then have "length (drop k w) < length w" using assms(2) r(2) by fastforce
    then have "length (drop k w) < n" using n by linarith
    then obtain y j e' where "j \<le> length (drop k w)" "\<And>rest. f a (window (drop k w) rest e) = Some (y, window (drop j (drop k w)) rest e')"
      using assms(3) [of a] unfolding reads_def by blast
    then show ?thesis using r Some
      by (intro exI [of _ y] exI [of _ "k + j"] exI [of _ e']) (simp add: pb_bind_def add.commute)
  qed
qed

text \<open>The loops in this form.\<close>

lemma varint_loop_bind:
  "varint_loop result bitpos =
     pb_bind (if bitpos \<ge> 64 then pb_error ''varint overflow'' else pb_readbyte) (\<lambda>byte.
       let result = result OR push_bit (unat bitpos) (ucast (byte AND 0x7F)) in
       if byte AND 0x80 \<noteq> 0 then varint_loop result (bitpos + 7) else pb_return result)"
  by (rule ext, subst varint_loop.simps) (simp add: pb_bind_def pb_error_def pb_fail_def Let_def split: option.splits)

lemma varint32_loop_bind:
  "varint32_loop result bitpos =
     pb_bind pb_readbyte (\<lambda>byte.
       let sign_extension = (if bitpos < 63 then 0xFF else 0x01) in
       if bitpos \<ge> 32 \<and> byte AND 0x7F \<noteq> 0 \<and> (drop_bit 31 result = 0 \<or> byte \<noteq> sign_extension)
       then pb_error ''varint overflow''
       else
         let result = (if bitpos \<ge> 32 then result else result OR push_bit (unat bitpos) (ucast (byte AND 0x7F)));
             bitpos = bitpos + 7
         in if byte AND 0x80 \<noteq> 0 then varint32_loop result bitpos else pb_return (result, bitpos, byte))"
proof
  fix s :: "'a pb_istream"
  show "varint32_loop result bitpos s = pb_bind pb_readbyte (\<lambda>byte.
       let sign_extension = (if bitpos < 63 then 0xFF else 0x01) in
       if bitpos \<ge> 32 \<and> byte AND 0x7F \<noteq> 0 \<and> (drop_bit 31 result = 0 \<or> byte \<noteq> sign_extension)
       then pb_error ''varint overflow''
       else
         let result = (if bitpos \<ge> 32 then result else result OR push_bit (unat bitpos) (ucast (byte AND 0x7F)));
             bitpos = bitpos + 7
         in if byte AND 0x80 \<noteq> 0 then varint32_loop result bitpos else pb_return (result, bitpos, byte)) s"
    by (cases "pb_readbyte s"; cases "the (pb_readbyte s)"; cases "fst (the (pb_readbyte s))")
      (auto simp: varint32_loop.simps [of result bitpos s] pb_bind_def pb_fail_def Let_def)
qed

lemma pb_skip_varint_bind:
  "pb_skip_varint = pb_bind (pb_read_into 1) (\<lambda>buf. if buf ! 0 AND 0x80 \<noteq> 0 then pb_skip_varint else pb_return ())"
  by (rule ext, subst pb_skip_varint.simps) (simp add: pb_bind_def pb_fail_def split: option.splits)

lemma raw_varint_bind:
  "raw_varint max_size buf =
     pb_bind (if length buf + 1 > max_size then pb_fail else pb_read_into 1) (\<lambda>b.
       if b ! 0 AND 0x80 \<noteq> 0 then raw_varint max_size (buf @ b) else pb_return (buf @ b))"
  by (rule ext, subst raw_varint.simps) (simp add: pb_bind_def pb_fail_def split: option.splits)

lemma readbyte_less: "pb_readbyte (window w rest e) = Some (Some b, s) \<Longrightarrow> is_bytes_left s < length w"
  using readbyte_left [of "window w rest e"] by simp

lemma read_into_less: "pb_read_into (Suc n) (window w rest e) = Some (Some b, s) \<Longrightarrow> is_bytes_left s < length w"
  using read_into_left [of "Suc n" "window w rest e"] by simp

lemmas reads_basic = reads_reader [OF pb_reader_return] reads_reader [OF pb_reader_error] reads_reader [OF pb_reader_fail]

lemma pb_reader_varint_loop: "pb_reader (varint_loop result bitpos)"
proof (rule readerI)
  fix n
  show "reads n (varint_loop result bitpos)"
  proof (induction n arbitrary: result bitpos)
    case (Suc n)
    show ?case
      by (subst varint_loop_bind, rule reads_bind)
        (auto simp: Let_def error_window pb_reader_error pb_reader_readbyte reads_basic Suc split: if_splits dest: readbyte_less)
  qed simp
qed

lemma pb_reader_varint32_loop: "pb_reader (varint32_loop result bitpos)"
proof (rule readerI)
  fix n
  show "reads n (varint32_loop result bitpos)"
  proof (induction n arbitrary: result bitpos)
    case (Suc n)
    show ?case
      by (subst varint32_loop_bind, rule reads_bind [OF pb_reader_readbyte readbyte_less])
        (auto simp: Let_def reads_basic Suc)
  qed simp
qed

lemma pb_reader_skip_varint: "pb_reader pb_skip_varint"
proof (rule readerI)
  fix n
  show "reads n pb_skip_varint"
  proof (induction n)
    case (Suc n)
    show ?case
      by (subst pb_skip_varint_bind, rule reads_bind [OF pb_reader_read_into]) (auto simp: reads_basic Suc dest: read_into_less)
  qed simp
qed

lemma pb_reader_raw_varint: "pb_reader (raw_varint max_size buf)"
proof (rule readerI)
  fix n
  show "reads n (raw_varint max_size buf)"
  proof (induction n arbitrary: buf)
    case (Suc n)
    show ?case
      by (subst raw_varint_bind, rule reads_bind)
        (auto simp: pb_fail_def pb_reader_fail pb_reader_read_into reads_basic Suc split: if_splits dest: read_into_less)
  qed simp
qed

text \<open>The operations.\<close>

lemma varint32_bind:
  "pb_decode_varint32 =
     pb_bind pb_readbyte (\<lambda>byte.
       if byte AND 0x80 = 0 then pb_return (ucast byte)
       else pb_bind (varint32_loop (ucast (byte AND 0x7F)) 7) (\<lambda>(result, bitpos, byte).
         if bitpos = 35 \<and> byte AND 0x70 \<noteq> 0 then pb_error ''varint overflow'' else pb_return result))"
  unfolding pb_decode_varint32_def pb_decode_varint32_eof_def pb_bind_def
  by (rule ext) (auto simp: pb_return_def pb_error_def split: option.splits)

lemma pb_reader_varint: "pb_reader pb_decode_varint"
  by (simp add: pb_decode_varint_def pb_reader_varint_loop)

lemma pb_reader_varint32: "pb_reader pb_decode_varint32"
  unfolding varint32_bind
  by (intro pb_reader_bind pb_reader_readbyte) (auto intro!: pb_reader_bind pb_reader_return pb_reader_error pb_reader_varint32_loop)

lemma pb_reader_skip_field: "pb_reader (pb_skip_field t)"
  by (auto simp: pb_skip_field_def pb_skip_string_def
      intro!: pb_reader_skip_varint pb_reader_read_null pb_reader_bind pb_reader_varint32 pb_reader_error)

interpretation rd_into: pb_reader "pb_read_into n" for n by (rule pb_reader_read_into)
interpretation rd_null: pb_reader "pb_read_null n" for n by (rule pb_reader_read_null)
interpretation rd_byte: pb_reader pb_readbyte by (rule pb_reader_readbyte)
interpretation rd_varint: pb_reader pb_decode_varint by (rule pb_reader_varint)
interpretation rd_varint32: pb_reader pb_decode_varint32 by (rule pb_reader_varint32)
interpretation rd_svarint: pb_reader pb_decode_svarint
  unfolding pb_decode_svarint_def by (intro pb_reader_bind pb_reader_varint pb_reader_return)
interpretation rd_fixed32: pb_reader pb_decode_fixed32
  unfolding pb_decode_fixed32_def by (intro pb_reader_bind pb_reader_read_into pb_reader_return)
interpretation rd_fixed64: pb_reader pb_decode_fixed64
  unfolding pb_decode_fixed64_def by (intro pb_reader_bind pb_reader_read_into pb_reader_return)
interpretation rd_field: pb_reader "pb_skip_field t" for t by (rule pb_reader_skip_field)

section \<open>What varints mean\<close>

text \<open>The reference: little-endian groups of seven bits, all but the last with the high bit set.\<close>

fun varint :: "nat \<Rightarrow> bytes" where
  "varint n = (if n < 128 then [of_nat n] else of_nat (n mod 128 + 128) # varint (n div 128))"

declare varint.simps [simp del]

fun varint_val :: "bytes \<Rightarrow> (nat \<times> bytes) option" where
  "varint_val [] = None"
| "varint_val (b # bs) =
     (if unat b < 128 then Some (unat b, bs) else map_option (\<lambda>(v, r). (unat b mod 128 + 128 * v, r)) (varint_val bs))"

lemma varint_val_varint: "varint_val (varint n @ w) = Some (n, w)"
proof (induction n rule: varint.induct)
  case (1 n)
  show ?case
  proof (cases "n < 128")
    case True
    then show ?thesis by (simp add: varint.simps [of n] unat_of_nat)
  next
    case False
    have u: "unat (of_nat (n mod 128 + 128) :: u8) = n mod 128 + 128" by (simp add: unat_of_nat del: of_nat_add)
    show ?thesis using False 1
      by (subst varint.simps) (simp add: u del: of_nat_add)
  qed
qed

lemma length_varint: "n < 128 ^ k \<Longrightarrow> 0 < k \<Longrightarrow> length (varint n) \<le> k"
proof (induction k arbitrary: n)
  case (Suc k)
  show ?case
  proof (cases "n < 128")
    case False
    then have "n div 128 < 128 ^ k" using Suc.prems by (simp add: less_mult_imp_div_less mult.commute)
    moreover from this have "0 < k" using False by (cases k) auto
    ultimately show ?thesis using Suc.IH [of "n div 128"] False by (simp add: varint.simps [of n])
  qed (simp add: varint.simps [of n])
qed simp

lemma length_varint_64: "length (varint (unat (v :: u64))) \<le> 10"
proof -
  have "unat v < 2 ^ 64" using u64_less_lim [of v] by simp
  also have "\<dots> < (128 :: nat) ^ 10" by simp
  finally show ?thesis by (rule length_varint) simp
qed

lemma or_push:
  assumes "a < 2 ^ n"
  shows "(of_nat a :: 'a::len word) OR push_bit n (of_nat c) = of_nat (a + c * 2 ^ n)"
proof -
  have "(of_nat a :: 'a word) OR push_bit n (of_nat c) = of_nat (a OR c * 2 ^ n)"
    by (simp only: of_nat_or_eq push_bit_of_nat [symmetric] push_bit_nat_def [symmetric])
  also have "a OR c * 2 ^ n = a + c * 2 ^ n" using or_add_disjoint [OF assms, of c] by (simp add: or.commute)
  finally show ?thesis .
qed

lemma low_bits: "(ucast ((b :: u8) AND 0x7F) :: 'a::len word) = of_nat (unat b mod 128)"
  by (metis unat_and_7f of_nat_unat)

text \<open>\<open>pb_decode_varint\<close>: the value of at most ten groups, modulo \<open>2^64\<close>.\<close>

lemma varint_loop_window:
  assumes "k \<le> 10" "a < 2 ^ (7 * k)"
  shows "varint_loop (of_nat a) (of_nat (7 * k)) (window w rest e :: 's pb_istream) =
     (case varint_val (take (10 - k) w) of
        Some (v, r) \<Rightarrow> Some (Some (of_nat (a + 2 ^ (7 * k) * v)), window (r @ drop (10 - k) w) rest e)
      | None \<Rightarrow> Some (None, window (drop (10 - k) w) rest
                  (set_error (if length w < 10 - k then ''end-of-stream'' else ''varint overflow'') e)))"
  using assms
proof (induction "10 - k" arbitrary: k a w)
  case 0
  then have "k = 10" by simp
  then show ?case by (subst varint_loop.simps) (simp add: error_window word_le_nat_alt unat_of_nat)
next
  case (Suc n)
  have "7 * k < 64" using Suc.hyps(2) by simp
  then have u: "unat (of_nat (7 * k) :: u8) = 7 * k" "\<not> (64 :: u8) \<le> of_nat (7 * k)"
    by (simp_all add: unat_of_nat word_le_nat_alt del: of_nat_mult)
  show ?case
  proof (cases w)
    case Nil
    then show ?thesis using u Suc.hyps(2) by (subst varint_loop.simps) (simp add: readbyte_window pb_fail_def)
  next
    case (Cons b w')
    let ?a = "a + unat b mod 128 * 2 ^ (7 * k)"
    have r: "of_nat a OR push_bit (unat (of_nat (7 * k) :: u8)) (ucast (b AND 0x7F)) = (of_nat ?a :: u64)"
      unfolding u low_bits by (rule or_push [OF Suc.prems(2)])
    have n: "(of_nat (7 * k) :: u8) + 7 = of_nat (7 * Suc k)" by simp
    have l: "length w < 10 - k \<longleftrightarrow> length w' < 10 - Suc k" unfolding Cons list.size by arith
    have t: "take (10 - k) w = b # take (10 - Suc k) w'" "drop (10 - k) w = drop (10 - Suc k) w'"
      using Cons Suc.hyps(2) by (simp_all add: take_Cons' drop_Cons')
    note t = t l
    have "unat b mod 128 * 2 ^ (7 * k) \<le> 127 * 2 ^ (7 * k)" by (intro mult_le_mono1) simp
    then have "?a < 128 * 2 ^ (7 * k)" using Suc.prems(2) by linarith
    then have a: "?a < 2 ^ (7 * Suc k)" by (simp add: power_add)
    show ?thesis
    proof (cases "unat b < 128")
      case True
      then show ?thesis using u r Cons t
        by (subst varint_loop.simps) (simp add: readbyte_window Let_def u8_high_bit_iff pb_return_def mult.commute)
    next
      case False
      have "varint_loop (of_nat a) (of_nat (7 * k)) (window w rest e :: 's pb_istream) = varint_loop (of_nat ?a) (of_nat (7 * Suc k)) (window w' rest e)"
        using False u r n Cons by (subst varint_loop.simps) (simp add: readbyte_window Let_def u8_high_bit_iff del: of_nat_add of_nat_mult)
      also have "\<dots> = (case varint_val (take (10 - Suc k) w') of
            Some (v, r) \<Rightarrow> Some (Some (of_nat (?a + 2 ^ (7 * Suc k) * v)), window (r @ drop (10 - Suc k) w') rest e)
          | None \<Rightarrow> Some (None, window (drop (10 - Suc k) w') rest
                      (set_error (if length w' < 10 - Suc k then ''end-of-stream'' else ''varint overflow'') e)))"
        by (rule Suc.hyps(1) [OF _ _ a]) (use Suc.hyps(2) in simp_all)
      finally show ?thesis unfolding t using False
        by (cases "varint_val (take (10 - Suc k) w')") (simp_all add: algebra_simps power_add split: prod.splits)
    qed
  qed
qed

lemma decode_varint_window:
  "pb_decode_varint (window w rest e) =
     (case varint_val (take 10 w) of
        Some (v, r) \<Rightarrow> Some (Some (of_nat v), window (r @ drop 10 w) rest e)
      | None \<Rightarrow> Some (None, window (drop 10 w) rest (set_error (if length w < 10 then ''end-of-stream'' else ''varint overflow'') e)))"
  using varint_loop_window [of 0 0 w rest e] by (simp add: pb_decode_varint_def cong: option.case_cong)

text \<open>\<open>pb_decode_varint32\<close> on the encodings of unsigned 32-bit numbers and of sign-extended negative ones.\<close>

lemma loop32_step:
  assumes "k \<le> 4" "a < 2 ^ (7 * k)"
  shows "varint32_loop (of_nat a) (of_nat (7 * k)) (window (b # w) rest e :: 's pb_istream) =
    (if unat b < 128 then Some (Some (of_nat (a + unat b * 2 ^ (7 * k)), of_nat (7 * Suc k), b), window w rest e)
     else varint32_loop (of_nat (a + unat b mod 128 * 2 ^ (7 * k))) (of_nat (7 * Suc k)) (window w rest e))"
proof -
  have "7 * k < 32" using assms(1) by simp
  then have u: "unat (of_nat (7 * k) :: u8) = 7 * k" "\<not> (32 :: u8) \<le> of_nat (7 * k)"
    by (simp_all add: unat_of_nat word_le_nat_alt del: of_nat_mult)
  have r: "of_nat a OR push_bit (unat (of_nat (7 * k) :: u8)) (ucast (b AND 0x7F)) = (of_nat (a + unat b mod 128 * 2 ^ (7 * k)) :: u32)"
    unfolding u low_bits by (rule or_push [OF assms(2)])
  have n: "(of_nat (7 * k) :: u8) + 7 = of_nat (7 * Suc k)" by simp
  show ?thesis
    using u(2) by (subst varint32_loop.simps) (simp add: readbyte_window Let_def u8_high_bit_iff pb_return_def r n del: of_nat_add of_nat_mult)
qed

lemma varint_byte:
  "\<not> n < 128 \<Longrightarrow> unat (of_nat (n mod 128 + 128) :: u8) = n mod 128 + 128" "n < 128 \<Longrightarrow> unat (of_nat n :: u8) = n"
  by (simp_all add: unat_of_nat del: of_nat_add)

lemma varint_Cons: "\<not> n < 128 \<Longrightarrow> varint n = of_nat (n mod 128 + 128) # varint (n div 128)" "n < 128 \<Longrightarrow> varint n = [of_nat n]"
  by (simp_all add: varint.simps [of n] del: of_nat_add)

lemma loop32_varint_step:
  assumes "k \<le> 4" "a < 2 ^ (7 * k)" "\<not> n < 128"
  shows "varint32_loop (of_nat a) (of_nat (7 * k)) (window (varint n @ w) rest e :: 's pb_istream) =
    varint32_loop (of_nat (a + n mod 128 * 2 ^ (7 * k))) (of_nat (7 * Suc k)) (window (varint (n div 128) @ w) rest e)"
  unfolding varint_Cons(1) [OF assms(3)] append_Cons loop32_step [OF assms(1,2)] varint_byte(1) [OF assms(3)] by simp

lemma acc_bound: "a < 2 ^ (7 * k) \<Longrightarrow> a + n mod 128 * 2 ^ (7 * k) < (2 :: nat) ^ (7 * Suc k)"
proof -
  assume a: "a < 2 ^ (7 * k)"
  have "n mod 128 * 2 ^ (7 * k) \<le> 127 * 2 ^ (7 * k)" by (intro mult_le_mono1) simp
  then have "a + n mod 128 * 2 ^ (7 * k) < 128 * 2 ^ (7 * k)" using a by linarith
  then show ?thesis by (simp add: power_add)
qed

lemma acc_step: "a + n mod 128 * 2 ^ (7 * k) + 2 ^ (7 * Suc k) * (n div 128) = a + 2 ^ (7 * k) * (n :: nat)"
proof -
  have "2 ^ (7 * k) * n = 2 ^ (7 * k) * (n div 128 * 128 + n mod 128)" by simp
  also have "\<dots> = n mod 128 * 2 ^ (7 * k) + 2 ^ (7 * Suc k) * (n div 128)" by (simp only: distrib_left power_add mult_Suc_right) (simp add: algebra_simps)
  finally show ?thesis by simp
qed

lemma unat_numeral_35: "unat (35 :: u8) = 35"
  by simp

lemma loop32_unsigned:
  "k \<le> 4 \<Longrightarrow> a < 2 ^ (7 * k) \<Longrightarrow> a + 2 ^ (7 * k) * n < 2 ^ 32 \<Longrightarrow>
   \<exists>bitpos byte. varint32_loop (of_nat a) (of_nat (7 * k)) (window (varint n @ w) rest e :: 's pb_istream) =
     Some (Some (of_nat (a + 2 ^ (7 * k) * n), bitpos, byte), window w rest e) \<and> \<not> (bitpos = 35 \<and> byte AND 0x70 \<noteq> 0)"
proof (induction "4 - k" arbitrary: k a n)
  case 0
  then have k: "k = 4" and n: "n < 16" by simp_all
  have "list_all (\<lambda>n. (of_nat n :: u8) AND 0x70 = 0) [0..<16]" by code_simp
  then have b: "(of_nat n :: u8) AND 0x70 = 0" using n by (simp add: list_all_iff)
  have "n < 128" using n by simp
  note v = varint_Cons(2) [OF this] varint_byte(2) [OF this]
  show ?case unfolding v append.simps loop32_step [OF 0(2,3)] using \<open>n < 128\<close> b
    by (simp add: mult.commute del: of_nat_add of_nat_mult)
next
  case (Suc m)
  show ?case
  proof (cases "n < 128")
    case True
    have l: "7 * Suc k < 35" using Suc.hyps(2) by simp
    then have "unat (of_nat (7 * Suc k) :: u8) = 7 * Suc k" by (simp only: unat_of_nat) simp
    then have "(of_nat (7 * Suc k) :: u8) \<noteq> 35" using l by (metis less_irrefl unat_numeral_35)
    then show ?thesis
      unfolding varint_Cons(2) [OF True] append.simps loop32_step [OF Suc.prems(1,2)] varint_byte(2) [OF True]
      using True by (simp add: mult.commute del: of_nat_add of_nat_mult)
  next
    case False
    have "\<exists>bitpos byte. varint32_loop (of_nat (a + n mod 128 * 2 ^ (7 * k))) (of_nat (7 * Suc k))
        (window (varint (n div 128) @ w) rest e :: 's pb_istream) =
      Some (Some (of_nat (a + n mod 128 * 2 ^ (7 * k) + 2 ^ (7 * Suc k) * (n div 128)), bitpos, byte), window w rest e) \<and>
      \<not> (bitpos = 35 \<and> byte AND 0x70 \<noteq> 0)"
      using Suc.hyps(2) Suc.prems acc_bound acc_step [of a n k] by (intro Suc.hyps(1)) simp_all
    then show ?thesis unfolding acc_step loop32_varint_step [OF Suc.prems(1,2) False] .
  qed
qed

lemma loop32_sign_extension:
  assumes "drop_bit 31 result \<noteq> 0"
  shows "varint32_loop result 35 (window (varint (2 ^ 29 - 1) @ w) rest e :: 's pb_istream) = Some (Some (result, 70, 1), window w rest e)"
proof -
  have v: "varint (2 ^ 29 - 1) = [255, 255, 255, 255, 1]" by code_simp
  have step: "varint32_loop result bitpos (window (255 # w) rest e :: 's pb_istream) = varint32_loop result (bitpos + 7) (window w rest e)"
    if "32 \<le> bitpos" "bitpos < 63" for bitpos and w
    using assms that by (subst varint32_loop.simps) (simp add: readbyte_window)
  have out: "varint32_loop result 63 (window (1 # w) rest e :: 's pb_istream) = Some (Some (result, 70, 1), window w rest e)"
    using assms by (subst varint32_loop.simps) (simp add: readbyte_window pb_return_def)
  show ?thesis unfolding v using step [of 35 "255 # 255 # 255 # 1 # w"] step [of 42 "255 # 255 # 1 # w"] step [of 49 "255 # 1 # w"]
      step [of 56 "1 # w"] out by simp
qed

lemma loop32_signed:
  "1 \<le> k \<Longrightarrow> k \<le> 5 \<Longrightarrow> a < 2 ^ (7 * k) \<Longrightarrow> a + 2 ^ (7 * k) * n < 2 ^ 64 \<Longrightarrow> 2 ^ 64 - 2 ^ 31 \<le> a + 2 ^ (7 * k) * n \<Longrightarrow>
   \<exists>bitpos byte. varint32_loop (of_nat a) (of_nat (7 * k)) (window (varint n @ w) rest e :: 's pb_istream) =
     Some (Some (of_nat (a + 2 ^ (7 * k) * n), bitpos, byte), window w rest e) \<and> \<not> (bitpos = 35 \<and> byte AND 0x70 \<noteq> 0)"
proof (induction "5 - k" arbitrary: k a n)
  case 0
  then have k: "k = 5" by simp
  have n: "n = 2 ^ 29 - 1" using 0 unfolding k by simp
  define r where "r = a - 7 * 2 ^ 32"
  have r: "a = r + 7 * 2 ^ 32" "2 ^ 31 \<le> r" "r < 2 ^ 32" using 0 unfolding k n r_def by simp_all
  have "a mod 2 ^ 32 = r" unfolding r(1) using r(3) by (simp only: mod_mult_self1 mod_less)
  then have a: "2 ^ 31 \<le> a mod 2 ^ 32" using r by simp
  then have "drop_bit 31 (of_nat a :: u32) \<noteq> 0"
    by (simp add: word_unat_eq_iff unat_drop_bit unat_of_nat div_eq_0_iff)
  from loop32_sign_extension [OF this, of w rest e] have
    "varint32_loop (of_nat a) 35 (window (varint (2 ^ 29 - 1) @ w) rest e :: 's pb_istream) = Some (Some (of_nat a, 70, 1), window w rest e)" .
  moreover have "(a + 2 ^ (7 * 5) * (2 ^ 29 - 1)) mod 2 ^ 32 = a mod 2 ^ 32"
    using mod_mult_self1 [of a "8 * (2 ^ 29 - 1)" "2 ^ 32"] by simp
  then have "(of_nat (a + 2 ^ (7 * 5) * (2 ^ 29 - 1)) :: u32) = of_nat a"
    by (simp add: word_of_nat_eq_iff take_bit_eq_mod del: of_nat_add of_nat_mult)
  moreover have "(of_nat (7 * 5) :: u8) = 35" by simp
  ultimately show ?case unfolding k n by (simp del: of_nat_add of_nat_mult)
next
  case (Suc m)
  have "\<not> n < 128"
  proof
    assume "n < 128"
    then have "2 ^ (7 * k) * n \<le> 2 ^ (7 * k) * 127" by simp
    moreover have "(2 :: nat) ^ (7 * k) \<le> 2 ^ 28" using Suc.hyps(2) by (intro power_increasing) simp_all
    ultimately have "a + 2 ^ (7 * k) * n < 2 ^ 28 + 2 ^ 28 * 127" using Suc.prems(3) by linarith
    then show False using Suc.prems(5) by simp
  qed
  note step = loop32_varint_step [OF _ Suc.prems(3) this]
  have "\<exists>bitpos byte. varint32_loop (of_nat (a + n mod 128 * 2 ^ (7 * k))) (of_nat (7 * Suc k))
      (window (varint (n div 128) @ w) rest e :: 's pb_istream) =
    Some (Some (of_nat (a + n mod 128 * 2 ^ (7 * k) + 2 ^ (7 * Suc k) * (n div 128)), bitpos, byte), window w rest e) \<and>
    \<not> (bitpos = 35 \<and> byte AND 0x70 \<noteq> 0)"
    using Suc.hyps(2) Suc.prems acc_bound acc_step [of a n k] by (intro Suc.hyps(1)) simp_all
  moreover have "k \<le> 4" using Suc.hyps(2) by simp
  ultimately show ?case by (simp only: acc_step step)
qed

lemma decode_varint32_window:
  assumes "v < 2 ^ 32 \<or> v < 2 ^ 64 \<and> 2 ^ 64 - 2 ^ 31 \<le> v"
  shows "pb_decode_varint32 (window (varint v @ w) rest e :: 's pb_istream) = Some (Some (of_nat v), window w rest e)"
proof (cases "v < 128")
  case True
  note v = varint_Cons(2) [OF True] varint_byte(2) [OF True]
  have "(ucast (of_nat v :: u8) :: u32) = of_nat v" by (metis of_nat_unat v(2))
  then show ?thesis unfolding varint32_bind v append.simps
    using True v(2) by (simp add: pb_bind_def readbyte_window u8_high_bit_iff pb_return_def)
next
  case False
  note v = varint_Cons(1) [OF False] varint_byte(1) [OF False]
  have "\<exists>bitpos byte. varint32_loop (of_nat (v mod 128)) (of_nat (7 * 1)) (window (varint (v div 128) @ w) rest e :: 's pb_istream) =
    Some (Some (of_nat (v mod 128 + 2 ^ (7 * 1) * (v div 128)), bitpos, byte), window w rest e) \<and> \<not> (bitpos = 35 \<and> byte AND 0x70 \<noteq> 0)"
    using assms
  proof
    assume "v < 2 ^ 32"
    then show ?thesis by (intro loop32_unsigned) simp_all
  next
    assume "v < 2 ^ 64 \<and> 2 ^ 64 - 2 ^ 31 \<le> v"
    then show ?thesis by (intro loop32_signed) simp_all
  qed
  then have "\<exists>bitpos byte. varint32_loop (of_nat (v mod 128)) 7 (window (varint (v div 128) @ w) rest e :: 's pb_istream) =
    Some (Some (of_nat v, bitpos, byte), window w rest e) \<and> \<not> (bitpos = 35 \<and> byte AND 0x70 \<noteq> 0)"
    by simp
  moreover have "(ucast ((of_nat (v mod 128 + 128) :: u8) AND 0x7F) :: u32) = of_nat (v mod 128)"
    unfolding low_bits v(2) by simp
  moreover have "(of_nat (v mod 128 + 128) :: u8) AND 0x80 \<noteq> 0" using v(2) by (simp add: u8_high_bit_iff)
  ultimately show ?thesis unfolding varint32_bind v(1) append.simps
    by (auto simp: pb_bind_def readbyte_window pb_return_def)
qed

end
