(* ===== verification/PbWire.thy ===== *)
theory PbWire
  imports PbRead
begin

text \<open>
  The wire format as the stream operations write it, and read it again.  A writer keeps the contract \<open>pb_writer\<close>: it
  counts, or writes, exactly one byte string, or fails because it does not fit.
\<close>

section \<open>The contract of writers\<close>

text \<open>
  A stream over a buffer whose free part holds at least what \<open>max_size\<close> still admits.  No object has \<open>2^63\<close> bytes.
\<close>

definition out_ok :: "'s pb_ostream \<Rightarrow> bool" where
  "out_ok s \<longleftrightarrow> (case os_sink s of
      Out before dest \<Rightarrow> os_max_size s \<le> os_bytes_written s + length dest \<and> os_bytes_written s \<le> os_max_size s \<and> os_max_size s < 2 ^ 63
    | _ \<Rightarrow> False)"

text \<open>The stream after \<open>bs\<close> was written: counted, or copied behind what is there.\<close>

definition wrote :: "bytes \<Rightarrow> 's pb_ostream \<Rightarrow> 's pb_ostream" where
  "wrote bs s = s \<lparr> os_bytes_written := os_bytes_written s + length bs,
     os_sink := (case os_sink s of Out before dest \<Rightarrow> Out (before @ bs) (drop (length bs) dest) | sink \<Rightarrow> sink) \<rparr>"

lemma wrote_simps [simp]:
  "os_bytes_written (wrote bs s) = os_bytes_written s + length bs" "os_max_size (wrote bs s) = os_max_size s"
  "os_errmsg (wrote bs s) = os_errmsg s" "is_Sizing (os_sink (wrote bs s)) = is_Sizing (os_sink s)"
  by (simp_all add: wrote_def split: pb_sink.splits)

lemma wrote_append: "wrote (as @ bs) s = wrote bs (wrote as s)"
  by (cases s) (simp add: wrote_def add.commute add.assoc split: pb_sink.splits)

lemma wrote_Nil: "wrote [] s = s"
  by (cases s) (simp add: wrote_def split: pb_sink.splits)

lemma out_ok_wrote: "out_ok s \<Longrightarrow> os_bytes_written s + length bs \<le> os_max_size s \<Longrightarrow> out_ok (wrote bs s)"
  by (auto simp: out_ok_def wrote_def split: pb_sink.splits)

text \<open>A stream that only counts; the count wraps around.\<close>

definition sizing :: "'s pb_ostream \<Rightarrow> bool" where
  "sizing s \<longleftrightarrow> is_Sizing (os_sink s) \<and> os_bytes_written s < size_lim"

definition counted :: "nat \<Rightarrow> 's pb_ostream \<Rightarrow> 's pb_ostream" where
  "counted n s = s \<lparr> os_bytes_written := size_add (os_bytes_written s) n \<rparr>"

lemma sizing_counted: "sizing s \<Longrightarrow> sizing (counted n s)"
  by (simp add: sizing_def counted_def size_add_less)

lemma counted_add: "counted (m + n) s = counted n (counted m s)"
  by (simp add: counted_def size_add_def mod_simps add.assoc)

lemma counted_0: "sizing s \<Longrightarrow> counted 0 s = s"
  by (cases s) (simp add: sizing_def counted_def size_add_def)

locale pb_writer =
  fixes f :: "'s pb_wr" and bs :: bytes
  assumes counts: "sizing s \<Longrightarrow> f s = Some (True, counted (length bs) s)"
    and fits: "out_ok s \<Longrightarrow> os_errmsg s = None \<Longrightarrow> os_bytes_written s + length bs \<le> os_max_size s \<Longrightarrow> f s = Some (True, wrote bs s)"
    and full: "out_ok s \<Longrightarrow> os_errmsg s = None \<Longrightarrow> os_max_size s < os_bytes_written s + length bs \<Longrightarrow> \<exists>s'. f s = Some (False, s') \<and> out_ok s'"
    and exact: "os_sink s = Out before dest \<Longrightarrow> f s = Some (True, s') \<Longrightarrow>
      length bs \<le> length dest \<and> os_sink s' = Out (before @ bs) (drop (length bs) dest)"
begin

lemma sized: "length bs < size_lim \<Longrightarrow> \<exists>s. f PB_OSTREAM_SIZING = Some (True, s) \<and> os_bytes_written s = length bs"
  using counts [of PB_OSTREAM_SIZING] by (simp add: PB_OSTREAM_SIZING_def sizing_def counted_def size_add_def)

lemma into_buffer:
  assumes "bufsize \<le> length buf" "bufsize < 2 ^ 63" "length bs \<le> bufsize"
  shows "\<exists>s. f (pb_ostream_from_buffer buf bufsize) = Some (True, s) \<and> os_sink s = Out bs (drop (length bs) buf) \<and> os_bytes_written s = length bs"
  using fits [of "pb_ostream_from_buffer buf bufsize"] assms by (simp add: pb_ostream_from_buffer_def out_ok_def wrote_def)

end

lemma pb_writer_then:
  assumes "pb_writer f as" "pb_writer g bs"
  shows "pb_writer (wr_then f g) (as @ bs)"
proof (rule pb_writer.intro)
  fix s :: "'a pb_ostream"
  assume "sizing s"
  then show "wr_then f g s = Some (True, counted (length (as @ bs)) s)"
    using pb_writer.counts [OF assms(1), of s] pb_writer.counts [OF assms(2) sizing_counted, of s]
    by (simp add: wr_then_def counted_add)
next
  fix s :: "'a pb_ostream"
  assume "out_ok s" "os_errmsg s = None" "os_bytes_written s + length (as @ bs) \<le> os_max_size s"
  then show "wr_then f g s = Some (True, wrote (as @ bs) s)"
    using pb_writer.fits [OF assms(1), of s] pb_writer.fits [OF assms(2), of "wrote as s"] out_ok_wrote [of s as]
    by (simp add: wr_then_def wrote_append)
next
  fix s :: "'a pb_ostream"
  assume s: "out_ok s" "os_errmsg s = None" "os_max_size s < os_bytes_written s + length (as @ bs)"
  show "\<exists>s'. wr_then f g s = Some (False, s') \<and> out_ok s'"
  proof (cases "os_bytes_written s + length as \<le> os_max_size s")
    case True
    then show ?thesis
      using s pb_writer.fits [OF assms(1) s(1,2) True] pb_writer.full [OF assms(2) out_ok_wrote [OF s(1) True]] by (auto simp: wr_then_def)
  next
    case False
    then show ?thesis using s pb_writer.full [OF assms(1) s(1,2)] by (auto simp: wr_then_def)
  qed
next
  fix s s' :: "'a pb_ostream" and before dest
  assume s: "os_sink s = Out before dest" "wr_then f g s = Some (True, s')"
  then obtain t where t: "f s = Some (True, t)" "g t = Some (True, s')" by (auto simp: wr_then_def split: option.splits bool.splits)
  have a: "length as \<le> length dest" "os_sink t = Out (before @ as) (drop (length as) dest)"
    using pb_writer.exact [OF assms(1) s(1) t(1)] by simp_all
  then show "length (as @ bs) \<le> length dest \<and> os_sink s' = Out (before @ as @ bs) (drop (length (as @ bs)) dest)"
    using pb_writer.exact [OF assms(2) a(2) t(2)] a(1) by (auto simp: add.commute)
qed

lemma pb_writer_write: "length bs = n \<Longrightarrow> n < size_lim \<Longrightarrow> pb_writer (pb_write (Some bs) n) bs"
proof (rule pb_writer.intro)
  fix s :: "'a pb_ostream"
  assume "length bs = n" "sizing s"
  then show "pb_write (Some bs) n s = Some (True, counted (length bs) s)"
    by (simp add: pb_write_def counted_def sizing_def)
next
  fix s :: "'a pb_ostream"
  assume "length bs = n" "out_ok s" "os_bytes_written s + length bs \<le> os_max_size s"
  moreover from this have "size_add (os_bytes_written s) n = os_bytes_written s + n"
    by (intro size_add_exact) (auto simp: out_ok_def split: pb_sink.splits)
  ultimately show "pb_write (Some bs) n s = Some (True, wrote bs s)"
    by (cases s) (auto simp: pb_write_def wrote_def out_ok_def buf_write_def Let_def split: pb_sink.splits)
next
  fix s :: "'a pb_ostream"
  assume n: "length bs = n" "n < size_lim" and s: "out_ok s" "os_max_size s < os_bytes_written s + length bs"
  then have "0 < n" "\<not> is_Sizing (os_sink s)" by (auto simp: out_ok_def split: pb_sink.splits)
  moreover have "size_add (os_bytes_written s) n < os_bytes_written s \<or> size_add (os_bytes_written s) n > os_max_size s"
  proof (cases "os_bytes_written s + n < size_lim")
    case True
    then show ?thesis using s n by (simp add: size_add_exact)
  next
    case False
    moreover have "os_bytes_written s < size_lim" using s(1) by (auto simp: out_ok_def split: pb_sink.splits)
    ultimately have "size_add (os_bytes_written s) n = os_bytes_written s + n - size_lim"
      using n(2) by (simp add: size_add_def mod_if)
    then show ?thesis using False n(2) by linarith
  qed
  ultimately have "pb_write (Some bs) n s = wr_error ''stream full'' s" by (simp add: pb_write_def Let_def)
  then show "\<exists>s'. pb_write (Some bs) n s = Some (False, s') \<and> out_ok s'" using s(1) by (auto simp: wr_error_def out_ok_def split: pb_sink.splits)
next
  fix s s' :: "'a pb_ostream" and before dest
  assume "length bs = n" "os_sink s = Out before dest" "pb_write (Some bs) n s = Some (True, s')"
  then show "length bs \<le> length dest \<and> os_sink s' = Out (before @ bs) (drop (length bs) dest)"
    by (auto simp: pb_write_def Let_def buf_write_def wr_error_def split: if_splits)
qed

lemma pb_writer_return: "pb_writer wr_return []"
  by (rule pb_writer.intro) (auto simp: wr_return_def wrote_Nil counted_0 out_ok_def split: pb_sink.splits)

text \<open>The varint encoder.\<close>

lemma groups_varint:
  "v \<noteq> 0 \<Longrightarrow> (varint_groups v) [length (varint_groups v) - 1 := (varint_groups v ! (length (varint_groups v) - 1)) AND 0x7F] = varint (unat v) \<and>
     varint_groups v \<noteq> []"
proof (induction v rule: varint_groups.induct)
  case (1 v)
  define b :: u8 where "b = ucast (v AND 0x7F) OR 0x80"
  have "v AND 0x7F = take_bit 7 v" by (simp add: take_bit_eq_mask mask_eq_exp_minus_1)
  then have "unat (v AND 0x7F) = unat v mod 128" by (simp only: unsigned_take_bit_eq) (simp add: take_bit_eq_mod)
  then have "unat (ucast (v AND 0x7F) :: u8) = unat v mod 128" by (simp add: unsigned_ucast_eq take_bit_eq_mod mod_less)
  then have b: "unat b = unat v mod 128 + 128" unfolding b_def by (subst unat_or_80) simp_all
  have b7: "b AND 0x7F = of_nat (unat v mod 128)" unfolding word_unat_eq_iff unat_and_7f b by (simp add: unat_of_nat)
  have g: "varint_groups v = b # varint_groups (drop_bit 7 v)" using "1.prems" by (simp add: varint_groups.simps [of v] b_def)
  show ?case
  proof (cases "unat v < 128")
    case True
    then have "drop_bit 7 v = 0" by (simp add: word_unat_eq_iff unat_drop_bit)
    then show ?thesis using g b7 True by (simp add: varint_groups.simps [of 0] varint.simps [of "unat v"])
  next
    case False
    then have "drop_bit 7 v \<noteq> 0" by (simp add: word_unat_eq_iff unat_drop_bit div_eq_0_iff)
    note ih = "1.IH" [OF "1.prems" this]
    have "of_nat (unat v mod 128 + 128) = b" unfolding word_unat_eq_iff b by (simp add: unat_of_nat del: of_nat_add)
    then show ?thesis
      using ih g False by (cases "length (varint_groups (drop_bit 7 v))") (simp_all add: varint.simps [of "unat v"] unat_drop_bit del: of_nat_add)
  qed
qed

lemma encode_varint_eq: "pb_encode_varint v = pb_write (Some (varint (unat v))) (length (varint (unat v)))"
proof (cases "v \<le> 0x7F")
  case True
  then have "unat v < 128" by (simp add: word_le_nat_alt)
  moreover have "(ucast v :: u8) = of_nat (unat v)" by (metis of_nat_unat)
  ultimately show ?thesis using True by (simp add: fun_eq_iff pb_encode_varint_def varint.simps [of "unat v"])
next
  case False
  then have "v \<noteq> 0" by auto
  from groups_varint [OF this] have "length (varint_groups v) = length (varint (unat v))" by (metis length_list_update)
  then show ?thesis
    using False groups_varint [OF \<open>v \<noteq> 0\<close>] length_varint_64 [of v] by (simp add: fun_eq_iff pb_encode_varint_def Let_def)
qed

lemma pb_writer_varint: "pb_writer (pb_encode_varint v) (varint (unat v))"
  unfolding encode_varint_eq by (rule pb_writer_write) (use length_varint_64 [of v] in simp_all)

text \<open>Little-endian fixed-width values, zigzag numbers, tags and strings.\<close>

definition le_bytes :: "nat \<Rightarrow> nat \<Rightarrow> bytes" where
  "le_bytes k n = map (\<lambda>i. of_nat (n div 256 ^ i mod 256)) [0..<k]"

lemma length_le_bytes [simp]: "length (le_bytes k n) = k"
  by (simp add: le_bytes_def)

lemma byte_of: "(ucast (drop_bit k v AND 0xFF) :: u8) = of_nat (unat v div 2 ^ k mod 256)" for v :: "'a::len word"
proof -
  have "drop_bit k v AND 0xFF = take_bit 8 (drop_bit k v)" by (simp add: take_bit_eq_mask mask_eq_exp_minus_1)
  then have "unat (drop_bit k v AND 0xFF) = take_bit 8 (unat v div 2 ^ k)" by (simp only: unsigned_take_bit_eq unat_drop_bit)
  then show ?thesis by (simp add: word_unat_eq_iff unsigned_ucast_eq take_bit_eq_mod unat_of_nat)
qed

lemma byte_of_0: "(ucast (v AND 0xFF) :: u8) = of_nat (unat v mod 256)" for v :: "'a::len word"
  using byte_of [of 0 v] by simp

lemma pb_writer_fixed32: "pb_writer (pb_encode_fixed32 v :: 's pb_wr) (le_bytes 4 (unat v))"
proof -
  have u: "[0..<4] = [0, 1, 2, 3]" by (simp add: upt_rec)
  have "(pb_encode_fixed32 v :: 's pb_wr) = pb_write (Some (le_bytes 4 (unat v))) 4"
    unfolding pb_encode_fixed32_def byte_of byte_of_0 le_bytes_def u by (simp add: unat_drop_bit)
  then show ?thesis by (simp add: pb_writer_write)
qed

lemma pb_writer_fixed64: "pb_writer (pb_encode_fixed64 v :: 's pb_wr) (le_bytes 8 (unat v))"
proof -
  have u: "[0..<8] = [0, 1, 2, 3, 4, 5, 6, 7]" by (simp add: upt_rec)
  have "(pb_encode_fixed64 v :: 's pb_wr) = pb_write (Some (le_bytes 8 (unat v))) 8"
    unfolding pb_encode_fixed64_def byte_of byte_of_0 le_bytes_def u by (simp add: unat_drop_bit)
  then show ?thesis by (simp add: pb_writer_write)
qed

definition zigzag :: "64 word \<Rightarrow> nat" where
  "zigzag v = (if v <s 0 then nat (- 2 * sint v - 1) else nat (2 * sint v))"

lemma pb_writer_string: "n < 2 ^ 63 \<Longrightarrow> length bs = n \<Longrightarrow> pb_writer (pb_encode_string (Some bs) n) (varint n @ bs)"
proof -
  assume n: "n < 2 ^ 63" "length bs = n"
  then have "unat (of_nat n :: u64) = n" by (simp add: unat_of_nat)
  then have "pb_writer (pb_encode_varint (of_nat n)) (varint n)" using pb_writer_varint [of "of_nat n"] by simp
  then show ?thesis unfolding pb_encode_string_def using n by (intro pb_writer_then pb_writer_write) simp_all
qed

definition tag_number :: "u32 \<Rightarrow> u32 \<Rightarrow> nat" where
  "tag_number wiretype field_number = unat field_number * 8 + unat wiretype"

lemma pb_writer_tag:
  assumes "wiretype < 8"
  shows "pb_writer (pb_encode_tag wiretype field_number) (varint (tag_number wiretype field_number))"
proof -
  have w: "unat wiretype < 2 ^ 3" using assms by (simp add: word_less_nat_alt)
  have f: "unat (ucast field_number :: u64) = unat field_number"
    by (simp add: unsigned_ucast_eq take_bit_nat_eq_self_iff less_trans [OF u32_less_lim])
  have "unat (push_bit 3 (ucast field_number) OR ucast wiretype :: u64) = unat field_number * 8 + unat wiretype"
    using unat_push_or [of wiretype 3 "ucast field_number :: u64"] w f u32_less_lim [of field_number] by simp
  then show ?thesis
    using pb_writer_varint [of "push_bit 3 (ucast field_number) OR ucast wiretype"] by (simp add: pb_encode_tag_def tag_number_def)
qed

lemma sint_cases: "sint (v :: 64 word) = (if unat v < 2 ^ 63 then int (unat v) else int (unat v) - 2 ^ 64)"
proof -
  have "unat v div 2 ^ 63 = (if unat v < 2 ^ 63 then 0 else 1)"
    using u64_less_lim [of v] by (auto intro: div_nat_eqI)
  then have "bit (unat v) 63 \<longleftrightarrow> \<not> unat v < 2 ^ 63" by (simp add: bit_iff_odd)
  then have "bit (uint v) 63 \<longleftrightarrow> \<not> unat v < 2 ^ 63" by (simp add: bit_unsigned_iff)
  moreover have "take_bit 64 (unat v) = unat v" by (simp add: take_bit_nat_eq_self_iff)
  then have "take_bit 64 (uint v) = int (unat v)" by (metis of_nat_take_bit of_nat_unat)
  ultimately show ?thesis by (simp add: sint_uint signed_take_bit_eq_take_bit_minus)
qed

lemma sless_0: "v <s 0 \<longleftrightarrow> \<not> unat (v :: 64 word) < 2 ^ 63"
proof -
  have "unat v < 2 ^ 64" using u64_less_lim [of v] by simp
  then have "int (unat v) < int (2 ^ 64)" by (simp only: of_nat_less_iff)
  then show ?thesis by (simp add: word_sless_alt sint_cases)
qed

lemma unat_not_64: "unat (NOT x) = 2 ^ 64 - 1 - unat (x :: 64 word)"
proof -
  have "NOT x = - 1 - x" by (simp add: not_eq_complement)
  moreover have "unat (- 1 - x) = unat (- 1 :: 64 word) - unat x" by (rule unat_sub) simp
  ultimately show ?thesis by (simp add: unsigned_minus_1_eq_mask mask_eq_exp_minus_1)
qed

lemma zigzag_word: "unat (if v <s 0 then NOT (push_bit 1 v) else push_bit 1 v) = zigzag v"
proof -
  have p: "unat (push_bit 1 v) = 2 * unat v mod 2 ^ 64" by (simp add: unat_word_ariths mult.commute)
  have d: "nat (2 * int n) = 2 * n" for n by simp
  show ?thesis
  proof (cases "unat v < 2 ^ 63")
    case True
    then show ?thesis using p d [of "unat v"] by (simp add: sless_0 sint_cases zigzag_def del: of_nat_unat)
  next
    case False
    then have r: "2 * unat v = (2 * unat v - 2 ^ 64) + 2 ^ 64" "2 * unat v - 2 ^ 64 < 2 ^ 64"
      using u64_less_lim [of v] by (simp_all del: u64_less_lim)
    then have m: "2 * unat v mod 2 ^ 64 = 2 * unat v - 2 ^ 64" by (metis mod_add_self2 mod_less)
    have "unat (NOT (push_bit 1 v)) = 2 ^ 64 - 1 - (2 * unat v - 2 ^ 64)" unfolding unat_not_64 p m ..
    moreover have "nat (- 2 * (int n - 2 ^ 64) - 1) = 2 ^ 64 - 1 - (2 * n - 2 ^ 64)" if "2 ^ 63 \<le> n" "n < 2 ^ 64" for n
    proof -
      have "int n < 2 ^ 64" "2 ^ 63 \<le> int n" using that by simp_all
      then have "int (2 ^ 64 - 1 - (2 * n - 2 ^ 64)) = - 2 * (int n - 2 ^ 64) - 1" using that by (simp add: of_nat_diff)
      then show ?thesis by (metis nat_int)
    qed
    moreover have "2 ^ 63 \<le> unat v" "unat v < 2 ^ 64" using False u64_less_lim [of v] by simp_all
    ultimately show ?thesis using False by (simp only: sless_0 sint_cases zigzag_def if_False if_True not_False_eq_True)
  qed
qed

lemma pb_writer_svarint: "pb_writer (pb_encode_svarint v) (varint (zigzag v))"
  unfolding pb_encode_svarint_def zigzag_word [symmetric] by (rule pb_writer_varint)

interpretation wr_varint: pb_writer "pb_encode_varint v" "varint (unat v)" for v
  by (rule pb_writer_varint)

section \<open>Reading back what was written\<close>

lemma decode_varint_word: "pb_decode_varint (window (varint (unat v) @ w) rest e) = Some (Some v, window w rest e)"
proof -
  have "take 10 (varint (unat v) @ w) = varint (unat v) @ take (10 - length (varint (unat v))) w"
    "drop 10 (varint (unat v) @ w) = drop (10 - length (varint (unat v))) w" using length_varint_64 [of v] by simp_all
  then show ?thesis unfolding decode_varint_window by (simp add: varint_val_varint)
qed

lemma zigzag_back:
  "(let u = (if v <s 0 then NOT (push_bit 1 v) else push_bit 1 v) in if u AND 1 \<noteq> 0 then NOT (drop_bit 1 u) else drop_bit 1 u) = (v :: 64 word)"
proof -
  have "bit v 63 \<longleftrightarrow> v <s 0"
  proof -
    have "unat v div 2 ^ 63 = (if unat v < 2 ^ 63 then 0 else 1)" using u64_less_lim [of v] by (auto intro: div_nat_eqI)
    then have "bit (unat v) 63 \<longleftrightarrow> \<not> unat v < 2 ^ 63" by (simp add: bit_iff_odd)
    then show ?thesis by (simp add: bit_unsigned_iff sless_0)
  qed
  moreover have d: "bit (v * 2) n \<longleftrightarrow> n \<noteq> 0 \<and> n < 64 \<and> bit v (n - 1)" for n
    using bit_double_iff [of v n] by (auto simp: mult.commute)
  moreover have "NOT (drop_bit 1 (NOT (push_bit 1 v))) = v" if "bit v 63"
  proof (rule bit_word_eqI)
    fix n :: nat
    assume "n < LENGTH(64)"
    then show "bit (NOT (drop_bit 1 (NOT (push_bit 1 v)))) n = bit v n"
      using that by (cases "n = 63") (auto simp: bit_not_iff bit_drop_bit_eq d)
  qed
  moreover have "drop_bit 1 (push_bit 1 v) = v" if "\<not> bit v 63"
  proof (rule bit_word_eqI)
    fix n :: nat
    assume "n < LENGTH(64)"
    then show "bit (drop_bit 1 (push_bit 1 v)) n = bit v n" using that by (cases "n = 63") (auto simp: bit_drop_bit_eq d)
  qed
  moreover have "NOT (push_bit 1 v) AND 1 \<noteq> 0" "push_bit 1 v AND 1 = 0" by (simp_all add: and_one_eq mod_2_eq_odd)
  ultimately show ?thesis by (simp add: Let_def)
qed

text \<open>Little-endian bytes put together again.\<close>

lemma le_bytes_Suc: "le_bytes (Suc k) n = of_nat (n mod 256) # le_bytes k (n div 256)"
proof (rule nth_equalityI)
  fix i
  assume "i < length (le_bytes (Suc k) n)"
  then show "le_bytes (Suc k) n ! i = (of_nat (n mod 256) # le_bytes k (n div 256)) ! i"
    by (cases i) (simp_all add: le_bytes_def div_mult2_eq nth_upt del: upt_Suc)
qed simp

lemma le_bytes_0 [simp]: "le_bytes 0 n = []"
  by (simp add: le_bytes_def)

lemma byte_word: "(ucast (of_nat (n mod 256) :: u8) :: 'a::len word) = of_nat (n mod 256)"
proof -
  have "unat (of_nat (n mod 256) :: u8) = n mod 256" by (simp add: unat_of_nat)
  then show ?thesis by (metis of_nat_unat)
qed

lemma digits_below: "a < 2 ^ k \<Longrightarrow> a + b mod 256 * 2 ^ k < (2 :: nat) ^ (k + 8)"
proof -
  assume "a < 2 ^ k"
  moreover have "b mod 256 * 2 ^ k \<le> 255 * 2 ^ k" by (intro mult_le_mono1) simp
  ultimately have "a + b mod 256 * 2 ^ k < 256 * 2 ^ k" by linarith
  then show ?thesis by (simp add: power_add)
qed

lemma join_four:
  "(of_nat (n0 mod 256) :: 'a::len word) OR push_bit 8 (of_nat (n1 mod 256)) OR push_bit 16 (of_nat (n2 mod 256)) OR push_bit 24 (of_nat (n3 mod 256)) =
   of_nat (n0 mod 256 + n1 mod 256 * 2 ^ 8 + n2 mod 256 * 2 ^ 16 + n3 mod 256 * 2 ^ 24)"
  "n0 mod 256 + n1 mod 256 * 2 ^ 8 + n2 mod 256 * 2 ^ 16 + n3 mod 256 * 2 ^ 24 < 2 ^ 32"
proof -
  have 1: "n0 mod 256 < 2 ^ 8" by simp
  have 2: "n0 mod 256 + n1 mod 256 * 2 ^ 8 < 2 ^ 16" using digits_below [OF 1, of n1] by simp
  have 3: "n0 mod 256 + n1 mod 256 * 2 ^ 8 + n2 mod 256 * 2 ^ 16 < 2 ^ 24" using digits_below [OF 2, of n2] by simp
  show "n0 mod 256 + n1 mod 256 * 2 ^ 8 + n2 mod 256 * 2 ^ 16 + n3 mod 256 * 2 ^ 24 < 2 ^ 32" using digits_below [OF 3, of n3] by simp
  show "(of_nat (n0 mod 256) :: 'a word) OR push_bit 8 (of_nat (n1 mod 256)) OR push_bit 16 (of_nat (n2 mod 256)) OR push_bit 24 (of_nat (n3 mod 256)) =
   of_nat (n0 mod 256 + n1 mod 256 * 2 ^ 8 + n2 mod 256 * 2 ^ 16 + n3 mod 256 * 2 ^ 24)"
    unfolding or.assoc [symmetric] or_push [OF 1] or_push [OF 2] or_push [OF 3] ..
qed

lemma digits_sum:
  fixes n0 :: nat
  shows "256 * n1 + a0 = n0 \<Longrightarrow> 256 * n2 + a1 = n1 \<Longrightarrow> 256 * n3 + a2 = n2 \<Longrightarrow>
      a0 + a1 * 2 ^ 8 + a2 * 2 ^ 16 + n3 * 2 ^ 24 = n0"
    and "256 * n1 + a0 = n0 \<Longrightarrow> 256 * n2 + a1 = n1 \<Longrightarrow> 256 * n3 + a2 = n2 \<Longrightarrow> 256 * n4 + a3 = n3 \<Longrightarrow> 256 * n5 + a4 = n4 \<Longrightarrow>
      256 * n6 + a5 = n5 \<Longrightarrow> 256 * n7 + a6 = n6 \<Longrightarrow>
      a0 + a1 * 2 ^ 8 + a2 * 2 ^ 16 + a3 * 2 ^ 24 + a4 * 2 ^ 32 + a5 * 2 ^ 40 + a6 * 2 ^ 48 + n7 * 2 ^ 56 = n0"
  by simp_all

lemma decode_fixed32_bytes: "pb_decode_fixed32 (window (le_bytes 4 (unat v) @ w) rest e) = Some (Some v, window w rest e)"
proof -
  define n0 n1 n2 n3 where d: "n0 = unat v" "n1 = n0 div 256" "n2 = n1 div 256" "n3 = n2 div 256"
  have b: "le_bytes 4 (unat v) = [of_nat (n0 mod 256), of_nat (n1 mod 256), of_nat (n2 mod 256), of_nat (n3 mod 256)]"
  proof -
    have f: "(4 :: nat) = Suc (Suc (Suc (Suc 0)))" by simp
    show ?thesis unfolding f le_bytes_Suc le_bytes_0 d ..
  qed
  have "n3 < 256" using u32_less_lim [of v] unfolding d by (simp add: div_mult2_eq [symmetric] less_mult_imp_div_less)
  then have m: "n3 mod 256 = n3" by simp
  have e: "256 * n1 + n0 mod 256 = n0" "256 * n2 + n1 mod 256 = n1" "256 * n3 + n2 mod 256 = n2"
    unfolding d by (rule mult_div_mod_eq)+
  then have "n0 mod 256 + n1 mod 256 * 2 ^ 8 + n2 mod 256 * 2 ^ 16 + n3 mod 256 * 2 ^ 24 = unat v"
    unfolding d(1) [symmetric] m by (rule digits_sum(1))
  then have "of_nat (n0 mod 256 + n1 mod 256 * 2 ^ 8 + n2 mod 256 * 2 ^ 16 + n3 mod 256 * 2 ^ 24) = v" by simp
  then show ?thesis
    unfolding pb_decode_fixed32_def b
    by (simp add: pb_bind_def read_into_window pb_return_def byte_word join_four del: of_nat_add of_nat_mult)
qed

lemma decode_fixed64_bytes: "pb_decode_fixed64 (window (le_bytes 8 (unat v) @ w) rest e) = Some (Some v, window w rest e)"
proof -
  define n0 n1 n2 n3 where d: "n0 = unat v" "n1 = n0 div 256" "n2 = n1 div 256" "n3 = n2 div 256"
  define n4 n5 n6 n7 where d': "n4 = n3 div 256" "n5 = n4 div 256" "n6 = n5 div 256" "n7 = n6 div 256"
  have b: "le_bytes 8 (unat v) = [of_nat (n0 mod 256), of_nat (n1 mod 256), of_nat (n2 mod 256), of_nat (n3 mod 256),
      of_nat (n4 mod 256), of_nat (n5 mod 256), of_nat (n6 mod 256), of_nat (n7 mod 256)]"
  proof -
    have f: "(8 :: nat) = Suc (Suc (Suc (Suc (Suc (Suc (Suc (Suc 0)))))))" by simp
    show ?thesis unfolding f le_bytes_Suc le_bytes_0 d d' ..
  qed
  have "n7 < 256"
    using u64_less_lim [of v] unfolding d d' by (simp add: div_mult2_eq [symmetric] less_mult_imp_div_less del: u64_less_lim)
  then have m: "n7 mod 256 = n7" by simp
  have e: "256 * n1 + n0 mod 256 = n0" "256 * n2 + n1 mod 256 = n1" "256 * n3 + n2 mod 256 = n2"
    "256 * n4 + n3 mod 256 = n3" "256 * n5 + n4 mod 256 = n4" "256 * n6 + n5 mod 256 = n5" "256 * n7 + n6 mod 256 = n6"
    unfolding d d' by (rule mult_div_mod_eq)+
  then have s: "n0 mod 256 + n1 mod 256 * 2 ^ 8 + n2 mod 256 * 2 ^ 16 + n3 mod 256 * 2 ^ 24 + n4 mod 256 * 2 ^ 32 + n5 mod 256 * 2 ^ 40 +
      n6 mod 256 * 2 ^ 48 + n7 mod 256 * 2 ^ 56 = unat v"
    unfolding d(1) [symmetric] m by (rule digits_sum(2))
  have 5: "n0 mod 256 + n1 mod 256 * 2 ^ 8 + n2 mod 256 * 2 ^ 16 + n3 mod 256 * 2 ^ 24 + n4 mod 256 * 2 ^ 32 < 2 ^ 40"
    using digits_below [OF join_four(2), of n0 n1 n2 n3 n4] by simp
  have 6: "n0 mod 256 + n1 mod 256 * 2 ^ 8 + n2 mod 256 * 2 ^ 16 + n3 mod 256 * 2 ^ 24 + n4 mod 256 * 2 ^ 32 + n5 mod 256 * 2 ^ 40 < 2 ^ 48"
    using digits_below [OF 5, of n5] by simp
  have 7: "n0 mod 256 + n1 mod 256 * 2 ^ 8 + n2 mod 256 * 2 ^ 16 + n3 mod 256 * 2 ^ 24 + n4 mod 256 * 2 ^ 32 + n5 mod 256 * 2 ^ 40 +
      n6 mod 256 * 2 ^ 48 < 2 ^ 56"
    using digits_below [OF 6, of n6] by simp
  have "(of_nat (n0 mod 256) :: u64) OR push_bit 8 (of_nat (n1 mod 256)) OR push_bit 16 (of_nat (n2 mod 256)) OR push_bit 24 (of_nat (n3 mod 256)) OR
      push_bit 32 (of_nat (n4 mod 256)) OR push_bit 40 (of_nat (n5 mod 256)) OR push_bit 48 (of_nat (n6 mod 256)) OR push_bit 56 (of_nat (n7 mod 256)) =
      of_nat (unat v)"
    unfolding s [symmetric] or_push [OF 7, symmetric] or_push [OF 6, symmetric] or_push [OF 5, symmetric] or_push [OF join_four(2), symmetric]
      join_four(1) [symmetric] or.assoc ..
  then show ?thesis
    unfolding pb_decode_fixed64_def b
    by (simp add: pb_bind_def read_into_window pb_return_def byte_word del: of_nat_add of_nat_mult)
qed

section \<open>Tags, fields and substreams\<close>

lemma varint32_eof_value: "pb_decode_varint32_eof s = Some ((Some x, eof), s') \<Longrightarrow> \<not> eof"
  by (auto simp: pb_decode_varint32_eof_def pb_error_def split: option.splits if_splits)

lemma decode_varint32_eof_window:
  assumes "pb_decode_varint32 s = Some (Some x, s')"
  shows "pb_decode_varint32_eof s = Some ((Some x, False), s')"
proof -
  obtain eof where "pb_decode_varint32_eof s = Some ((Some x, eof), s')" using assms by (auto simp: pb_decode_varint32_def)
  with varint32_eof_value [OF this] show ?thesis by simp
qed

lemma tag_parts:
  assumes "wiretype < 8" "tag_number wiretype field_number < 2 ^ 32"
  shows "of_nat (tag_number wiretype field_number) AND 7 = wiretype" "drop_bit 3 (of_nat (tag_number wiretype field_number)) = field_number"
proof -
  have w: "unat wiretype < 8" using assms(1) by (simp add: word_less_nat_alt)
  have u: "unat (of_nat (tag_number wiretype field_number) :: u32) = tag_number wiretype field_number"
    using assms(2) by (simp add: unat_of_nat)
  have "(of_nat (tag_number wiretype field_number) :: u32) AND 7 = take_bit 3 (of_nat (tag_number wiretype field_number))"
    by (simp add: take_bit_eq_mask mask_eq_exp_minus_1)
  then have "unat (of_nat (tag_number wiretype field_number) AND 7 :: u32) = tag_number wiretype field_number mod 8"
    using u by (simp only: unsigned_take_bit_eq) (simp add: take_bit_eq_mod)
  then show "of_nat (tag_number wiretype field_number) AND 7 = wiretype"
    using w by (simp add: word_unat_eq_iff tag_number_def)
  show "drop_bit 3 (of_nat (tag_number wiretype field_number)) = field_number"
    using w u by (simp add: word_unat_eq_iff unat_drop_bit tag_number_def)
qed

lemma decode_tag_window:
  assumes "wiretype < 8" "0 < tag_number wiretype field_number" "tag_number wiretype field_number < 2 ^ 32"
  shows "pb_decode_tag (window (varint (tag_number wiretype field_number) @ w) rest e :: 's pb_istream) =
    Some ((Some (wiretype, field_number), False), window w rest e)"
proof -
  have "of_nat (tag_number wiretype field_number) \<noteq> (0 :: u32)"
    using assms(2,3) by (simp add: word_unat_eq_iff unat_of_nat)
  moreover have "pb_decode_varint32_eof (window (varint (tag_number wiretype field_number) @ w) rest e :: 's pb_istream) =
      Some ((Some (of_nat (tag_number wiretype field_number)), False), window w rest e)"
    by (rule decode_varint32_eof_window [OF decode_varint32_window]) (use assms(3) in simp)
  ultimately show ?thesis using tag_parts [OF assms(1,3)] by (simp add: pb_decode_tag_def)
qed

text \<open>What may follow a tag, by its wire type.\<close>

definition payload :: "u32 \<Rightarrow> bytes \<Rightarrow> bool" where
  "payload wiretype p \<longleftrightarrow>
     (if wiretype = 0 then p \<noteq> [] \<and> list_all (\<lambda>b. 128 \<le> unat b) (butlast p) \<and> unat (List.last p) < 128
      else if wiretype = 1 then length p = 8
      else if wiretype = 2 then (case varint_val p of Some (n, bs) \<Rightarrow> p = varint n @ bs \<and> length bs = n \<and> n < 2 ^ 32 | None \<Rightarrow> False)
      else if wiretype = 5 then length p = 4
      else False)"

lemma skip_varint_window:
  "p \<noteq> [] \<Longrightarrow> list_all (\<lambda>b. 128 \<le> unat b) (butlast p) \<Longrightarrow> unat (List.last p) < 128 \<Longrightarrow>
   pb_skip_varint (window (p @ w) rest e) = Some (Some (), window w rest e)"
proof (induction p)
  case (Cons b p)
  then show ?case
    by (subst pb_skip_varint.simps) (auto simp: read_into_window u8_high_bit_iff pb_return_def split: if_splits)
qed simp

lemma skip_field_window: "payload wiretype p \<Longrightarrow> pb_skip_field wiretype (window (p @ w) rest e) = Some (Some (), window w rest e)"
proof -
  assume p: "payload wiretype p"
  then consider "wiretype = 0" | "wiretype = 1" | "wiretype = 2" | "wiretype = 5" by (auto simp: payload_def split: if_splits)
  then show ?thesis
  proof cases
    case 1
    then show ?thesis using p by (simp add: payload_def pb_skip_field_def skip_varint_window)
  next
    case 2
    then show ?thesis using p by (simp add: payload_def pb_skip_field_def read_null_window)
  next
    case 3
    then obtain n bs where n: "p = varint n @ bs" "length bs = n" "n < 2 ^ 32" using p by (auto simp: payload_def split: option.splits)
    then have "unat (of_nat n :: u32) = n" by (simp add: unat_of_nat)
    then show ?thesis using 3 n
      by (simp add: pb_skip_field_def pb_skip_string_def pb_bind_def decode_varint32_window read_null_window)
  next
    case 4
    then show ?thesis using p by (simp add: payload_def pb_skip_field_def read_null_window)
  qed
qed

lemma substream_window:
  assumes "length bs < 2 ^ 32"
  shows "pb_make_string_substream (window (varint (length bs) @ bs @ w) rest e) =
    Some (Some (window bs (w @ rest) e), (window bs (w @ rest) e) \<lparr> is_bytes_left := length w \<rparr>)"
proof -
  have "unat (of_nat (length bs) :: u32) = length bs" using assms by (simp add: unat_of_nat)
  then show ?thesis using assms unfolding pb_make_string_substream_def pb_bind_def
    by (subst decode_varint32_window) (simp_all add: window_def)
qed

lemma close_window:
  "pb_close_string_substream (window bs (w @ rest) e') (s \<lparr> is_bytes_left := length w \<rparr>) = Some (Some (), window w rest e')"
  by (simp add: pb_close_string_substream_def read_null_window pb_return_def)

section \<open>Properties\<close>

definition written :: "'s pb_ostream \<Rightarrow> bytes" where
  "written s = (case os_sink s of Out before dest \<Rightarrow> before | _ \<Rightarrow> [])"

text \<open>
  An encoder and a decoder of a value: into a buffer of \<open>k\<close> bytes or more the encoder succeeds with at most \<open>k\<close>
  bytes, and the decoder gets the value back from them, and leaves what follows.
\<close>

definition codec :: "'s pb_wr \<Rightarrow> ('s, 'a) pb_rd \<Rightarrow> 'a \<Rightarrow> nat \<Rightarrow> bool" where
  "codec enc dec x k \<longleftrightarrow> (\<forall>buf bufsize. k \<le> bufsize \<and> bufsize \<le> length buf \<and> bufsize < 2 ^ 63 \<longrightarrow>
     (\<exists>s. enc (pb_ostream_from_buffer buf bufsize) = Some (True, s) \<and> length (written s) = os_bytes_written s \<and> os_bytes_written s \<le> k \<and>
        (\<forall>w rest e. dec (window (written s @ w) rest e) = Some (Some x, window w rest e))))"

lemma codecI:
  assumes "pb_writer enc bs" "length bs \<le> k" "\<And>w rest e. dec (window (bs @ w) rest e) = Some (Some x, window w rest e)"
  shows "codec enc dec x k"
  unfolding codec_def
proof (intro allI impI)
  fix buf :: bytes and bufsize
  assume "k \<le> bufsize \<and> bufsize \<le> length buf \<and> bufsize < 2 ^ 63"
  then obtain s where "enc (pb_ostream_from_buffer buf bufsize) = Some (True, s)" "os_sink s = Out bs (drop (length bs) buf)" "os_bytes_written s = length bs"
    using pb_writer.into_buffer [OF assms(1), of bufsize buf] assms(2) by auto
  then show "\<exists>s. enc (pb_ostream_from_buffer buf bufsize) = Some (True, s) \<and> length (written s) = os_bytes_written s \<and> os_bytes_written s \<le> k \<and>
      (\<forall>w rest e. dec (window (written s @ w) rest e) = Some (Some x, window w rest e))"
    using assms(2,3) by (auto simp: written_def)
qed

lemma decode_svarint_word: "pb_decode_svarint (window (varint (zigzag v) @ w) rest e) = Some (Some v, window w rest e)"
  using zigzag_back [of v] unfolding zigzag_word [symmetric]
  by (simp add: pb_decode_svarint_def pb_bind_def decode_varint_word pb_return_def Let_def)

lemma scast_range:
  fixes x :: u32
  shows "unat (scast x :: u64) < 2 ^ 32 \<or> unat (scast x :: u64) < 2 ^ 64 \<and> 2 ^ 64 - 2 ^ 31 \<le> unat (scast x :: u64)"
    and "(of_nat (unat (scast x :: u64)) :: u32) = x"
proof -
  have "(ucast (scast x :: u64) :: u32) = x"
  proof (rule bit_word_eqI)
    fix n :: nat
    assume n: "n < LENGTH(32)"
    then have "min (LENGTH(32) - 1) n = n" by simp
    then show "bit (ucast (scast x :: u64) :: u32) n = bit x n" using n by (simp only: bit_ucast_iff bit_signed_iff possible_bit_word) simp
  qed
  then show "(of_nat (unat (scast x :: u64)) :: u32) = x" by (simp only: of_nat_unat)
  have s: "- (2 ^ 31) \<le> sint x" "sint x < 2 ^ 31" using sint_greater_eq [of x] sint_less [of x] by simp_all
  have u: "uint (scast x :: u64) = sint x mod 2 ^ 64" by (simp only: scast_eq uint_word_of_int) simp
  show "unat (scast x :: u64) < 2 ^ 32 \<or> unat (scast x :: u64) < 2 ^ 64 \<and> 2 ^ 64 - 2 ^ 31 \<le> unat (scast x :: u64)"
  proof (cases "0 \<le> sint x")
    case True
    then have "uint (scast x :: u64) < 2 ^ 32" using u s by simp
    then have "int (unat (scast x :: u64)) < int (2 ^ 32)" by simp
    then have "unat (scast x :: u64) < 2 ^ 32" by (simp only: of_nat_less_iff)
    then show ?thesis ..
  next
    case False
    have "sint x mod 2 ^ 64 = (sint x + 2 ^ 64) mod 2 ^ 64" by simp
    also have "\<dots> = sint x + 2 ^ 64" using False s by (intro mod_pos_pos_trivial) simp_all
    finally have "int (2 ^ 64 - 2 ^ 31) \<le> int (unat (scast x :: u64))" using u s by simp
    then have "2 ^ 64 - 2 ^ 31 \<le> unat (scast x :: u64)" by (simp only: of_nat_le_iff)
    then show ?thesis using u64_less_lim [of "scast x"] by simp
  qed
qed

text \<open>
  C32.  Every scalar that is encoded into a buffer with room for the longest encoding is decoded again: varints of 64
  bits, zigzag varints, and fixed-width values; also a 32-bit value by the 32-bit decoder.
\<close>

theorem pb_scalar_roundtrip:
  "codec (pb_encode_varint v) pb_decode_varint v 10 \<and> codec (pb_encode_svarint i) pb_decode_svarint i 10 \<and>
   codec (pb_encode_fixed32 x) pb_decode_fixed32 x 4 \<and> codec (pb_encode_fixed64 y) pb_decode_fixed64 y 8 \<and>
   codec (pb_encode_varint (ucast x)) pb_decode_varint32 x 10 \<and> codec (pb_encode_varint (scast x)) pb_decode_varint32 x 10"
proof (intro conjI)
  show "codec (pb_encode_varint v) pb_decode_varint v 10"
    by (rule codecI [OF pb_writer_varint length_varint_64 decode_varint_word])
  show "codec (pb_encode_svarint i) pb_decode_svarint i 10"
    by (rule codecI [OF pb_writer_svarint _ decode_svarint_word]) (simp only: zigzag_word [symmetric] length_varint_64)
  show "codec (pb_encode_fixed32 x) pb_decode_fixed32 x 4"
    by (rule codecI [OF pb_writer_fixed32 _ decode_fixed32_bytes]) simp
  show "codec (pb_encode_fixed64 y) pb_decode_fixed64 y 8"
    by (rule codecI [OF pb_writer_fixed64 _ decode_fixed64_bytes]) simp
  have u: "unat (ucast x :: u64) = unat x" by (simp add: unsigned_ucast_eq take_bit_nat_eq_self_iff less_trans [OF u32_less_lim])
  show "codec (pb_encode_varint (ucast x)) pb_decode_varint32 x 10"
  proof (rule codecI [OF pb_writer_varint length_varint_64])
    have "unat x < 2 ^ 32 \<or> unat x < 2 ^ 64 \<and> 2 ^ 64 - 2 ^ 31 \<le> unat x" using u32_less_lim [of x] by simp
    from decode_varint32_window [OF this] show "pb_decode_varint32 (window (varint (unat (ucast x :: u64)) @ w) rest e) =
        Some (Some x, window w rest e)" for w rest e by (simp only: u of_nat_unat ucast_id)
  qed
  show "codec (pb_encode_varint (scast x)) pb_decode_varint32 x 10"
    using decode_varint32_window [OF scast_range(1), of x] unfolding scast_range(2)
    by (rule codecI [OF pb_writer_varint length_varint_64])
qed

text \<open>
  C33.  \<open>pb_decode_varint\<close> reads at most ten bytes, up to the first without the high bit, and returns their value
  modulo \<open>2^64\<close>; otherwise it fails, with an overflow after ten bytes and with the end of the stream before.
\<close>

theorem pb_varint_exact:
  "pb_decode_varint (window w rest e) =
     (case varint_val (take 10 w) of
        Some (v, r) \<Rightarrow> Some (Some (of_nat v), window (r @ drop 10 w) rest e)
      | None \<Rightarrow> Some (None, window (drop 10 w) rest (set_error (if length w < 10 then ''end-of-stream'' else ''varint overflow'') e)))"
  by (rule decode_varint_window)

lemma loop32_eval:
  "varint32_loop result bitpos (window (b # w) rest e) =
     (if bitpos \<ge> 32 \<and> b AND 0x7F \<noteq> 0 \<and> (drop_bit 31 result = 0 \<or> b \<noteq> (if bitpos < 63 then 0xFF else 0x01))
      then pb_error ''varint overflow'' (window w rest e)
      else if b AND 0x80 \<noteq> 0
      then varint32_loop (if bitpos \<ge> 32 then result else result OR push_bit (unat bitpos) (ucast (b AND 0x7F))) (bitpos + 7) (window w rest e)
      else Some (Some (if bitpos \<ge> 32 then result else result OR push_bit (unat bitpos) (ucast (b AND 0x7F)), bitpos + 7, b), window w rest e))"
  by (subst varint32_loop.simps) (auto simp: readbyte_window Let_def pb_return_def)

text \<open>The first \<open>k\<close> groups of a number, with the high bit set: more groups follow.\<close>

primrec groups :: "nat \<Rightarrow> nat \<Rightarrow> bytes" where
  "groups 0 n = []"
| "groups (Suc k) n = of_nat (n mod 128 + 128) # groups k (n div 128)"

lemma group_byte: "unat (of_nat (n mod 128 + 128) :: u8) = n mod 128 + 128"
  by (simp add: unat_of_nat del: of_nat_add)

lemma varint_val_groups: "n < 128 ^ k \<Longrightarrow> varint_val (groups k n @ 0 # w) = Some (n, w)"
proof (induction k arbitrary: n)
  case (Suc k)
  then have "n div 128 < 128 ^ k" by (simp add: less_mult_imp_div_less mult.commute)
  then show ?case using Suc.IH [of "n div 128"] by (simp add: group_byte del: of_nat_add)
qed simp

lemma varint_groups: "128 ^ k \<le> n \<Longrightarrow> varint n = groups k n @ varint (n div 128 ^ k)"
proof (induction k arbitrary: n)
  case (Suc k)
  then have "128 ^ k \<le> n div 128" by (simp add: less_eq_div_iff_mult_less_eq mult.commute)
  moreover have "1 \<le> (128 :: nat) ^ k" by simp
  then have "\<not> n < 128" using Suc.prems unfolding power_Suc by linarith
  ultimately show ?case using Suc.IH [of "n div 128"] varint_Cons(1) [of n] by (simp add: div_mult2_eq del: of_nat_add)
qed simp

lemma loop32_groups:
  "k + j \<le> 5 \<Longrightarrow> a < 2 ^ (7 * k) \<Longrightarrow>
   varint32_loop (of_nat a) (of_nat (7 * k)) (window (groups j n @ w) rest e :: 's pb_istream) =
   varint32_loop (of_nat (a + 2 ^ (7 * k) * (n mod 128 ^ j))) (of_nat (7 * (k + j))) (window w rest e)"
proof (induction j arbitrary: k a n)
  case (Suc j)
  have m: "a + n mod 128 * 2 ^ (7 * k) + 2 ^ (7 * Suc k) * (n div 128 mod 128 ^ j) = a + 2 ^ (7 * k) * (n mod 128 ^ Suc j)"
  proof -
    have "n mod 128 ^ Suc j = 128 * (n div 128 mod 128 ^ j) + n mod 128" by (simp add: mod_mult2_eq)
    then show ?thesis by (simp add: power_add algebra_simps)
  qed
  have "varint32_loop (of_nat a) (of_nat (7 * k)) (window (groups (Suc j) n @ w) rest e :: 's pb_istream) =
      varint32_loop (of_nat (a + n mod 128 * 2 ^ (7 * k))) (of_nat (7 * Suc k)) (window (groups j (n div 128) @ w) rest e)"
    using loop32_step [of k a "of_nat (n mod 128 + 128)" "groups j (n div 128) @ w" rest e] Suc.prems
    by (simp add: group_byte del: of_nat_add of_nat_mult)
  also have "\<dots> = varint32_loop (of_nat (a + n mod 128 * 2 ^ (7 * k) + 2 ^ (7 * Suc k) * (n div 128 mod 128 ^ j)))
      (of_nat (7 * (Suc k + j))) (window w rest e)"
    using Suc.prems by (intro Suc.IH acc_bound) simp_all
  finally show ?case unfolding m by simp
qed (simp del: of_nat_add of_nat_mult)

lemma decode32_groups:
  assumes "j \<le> 4"
  shows "pb_decode_varint32 (window (groups (Suc j) n @ w) rest e :: 's pb_istream) =
    pb_bind (varint32_loop (of_nat (n mod 128 ^ Suc j)) (of_nat (7 * Suc j)))
      (\<lambda>(result, bitpos, byte). if bitpos = 35 \<and> byte AND 0x70 \<noteq> 0 then pb_error ''varint overflow'' else pb_return result)
      (window w rest e)"
proof -
  have m: "n mod 128 + 2 ^ (7 * 1) * (n div 128 mod 128 ^ j) = n mod 128 ^ Suc j" by (simp add: mod_mult2_eq)
  have l: "varint32_loop (of_nat (n mod 128)) 7 (window (groups j (n div 128) @ w) rest e :: 's pb_istream) =
      varint32_loop (of_nat (n mod 128 ^ Suc j)) (of_nat (7 * Suc j)) (window w rest e)"
    using loop32_groups [of 1 j "n mod 128" "n div 128" w rest e] assms unfolding m by simp
  have r: "(ucast ((of_nat (n mod 128 + 128) :: u8) AND 0x7F) :: u32) = of_nat (n mod 128)"
    unfolding low_bits group_byte by simp
  show ?thesis
    unfolding varint32_bind by (simp add: pb_bind_def readbyte_window u8_high_bit_iff group_byte r l del: of_nat_add of_nat_mult)
qed

lemma decode32_padded:
  "pb_decode_varint32 (window (groups 5 n @ 0 # w) rest e :: 's pb_istream) = Some (Some (of_nat (n mod 128 ^ 5)), window w rest e)"
  using decode32_groups [of 4 n "0 # w" rest e] by (simp add: pb_bind_def loop32_eval pb_return_def)

lemma decode32_refuses:
  assumes "2 ^ 32 \<le> n" "n < 2 ^ 35"
  shows "pb_decode_varint32 (window (varint n @ w) rest e :: 's pb_istream) = Some (None, window w rest (set_error ''varint overflow'' e))"
proof -
  define t where "t = n div 128 ^ 4"
  have t: "16 \<le> t" "t < 128" using assms by (simp_all add: t_def less_eq_div_iff_mult_less_eq div_less_iff_less_mult)
  have "list_all (\<lambda>t. (of_nat t :: u8) AND 0x70 \<noteq> 0) [16..<128]" by code_simp
  then have "\<forall>t \<in> set [16..<128]. (of_nat t :: u8) AND 0x70 \<noteq> 0" unfolding list_all_iff .
  then have o: "(of_nat t :: u8) AND 0x70 \<noteq> 0" by (rule bspec) (use t in \<open>simp only: set_upt atLeastLessThan_iff\<close>)
  have "128 ^ 4 \<le> n" using assms(1) by simp
  from varint_groups [OF this] have v: "varint n = groups (Suc 3) n @ [of_nat t]"
    using varint_Cons(2) [OF t(2)] by (simp add: t_def)
  have a: "n mod 128 ^ 4 < 2 ^ (7 * 4)" by simp
  have "varint32_loop (of_nat (n mod 128 ^ 4)) (of_nat (7 * 4)) (window (of_nat t # w) rest e :: 's pb_istream) =
      Some (Some (of_nat (n mod 128 ^ 4 + t * 2 ^ (7 * 4)), of_nat (7 * Suc 4), of_nat t), window w rest e)"
    using loop32_step [OF _ a, of "of_nat t" w rest e] t(2) varint_byte(2) [OF t(2)] by (simp del: of_nat_add of_nat_mult)
  moreover have "(of_nat (7 * Suc 3) :: u8) = of_nat (7 * 4)" "(of_nat (7 * Suc 4) :: u8) = 35" "128 ^ Suc 3 = (128 ^ 4 :: nat)" "(3 :: nat) \<le> 4" by simp_all
  ultimately show ?thesis
    unfolding v append_assoc append.simps using o
    by (simp only: decode32_groups pb_bind_def option.case prod.case simp_thms if_True error_window)
qed

text \<open>\<open>bitpos\<close> is a number of eight bits.\<close>

lemma loop32_zeros:
  "varint32_loop result bitpos (window (replicate k 0x80 @ w) rest e :: 's pb_istream) =
   varint32_loop result (bitpos + 7 * of_nat k) (window w rest e)"
proof (induction k arbitrary: bitpos)
  case (Suc k)
  have "(0x80 :: u8) AND 0x7F = 0" "(0x80 :: u8) AND 0x80 = 0x80" "(0x80 :: u8) \<noteq> 0" by simp_all
  then show ?case using Suc.IH [of "bitpos + 7"] by (simp add: loop32_eval algebra_simps)
qed simp

lemma varint_val_zeros: "unat b < 128 \<Longrightarrow> varint_val (replicate k 0x80 @ b # w) = Some (unat b * 128 ^ k, w)"
  by (induction k) simp_all

lemma decode32_wraps:
  assumes "unat b < 128"
  shows "pb_decode_varint32 (window (replicate 37 0x80 @ b # w) rest e :: 's pb_istream) = Some (Some (8 * ucast b), window w rest e)"
proof -
  have r: "replicate 37 (0x80 :: u8) = 0x80 # replicate 36 0x80" by (simp add: eval_nat_numeral)
  have b: "b AND 0x80 = 0" "(ucast (b AND 0x7F) :: u32) = ucast b"
    using assms low_bits [of b] by (simp_all add: u8_high_bit_iff)
  have "(7 + 7 * of_nat 36 :: u8) = 3" by simp
  then have "varint32_loop 0 7 (window (replicate 36 0x80 @ b # w) rest e :: 's pb_istream) =
      Some (Some (8 * ucast b, 10, b), window w rest e)"
    unfolding loop32_zeros using b by (simp add: loop32_eval push_bit_eq_mult mult.commute)
  then show ?thesis unfolding r varint32_bind by (simp add: pb_bind_def readbyte_window pb_return_def)
qed

text \<open>
  C34.  \<open>pb_decode_varint32\<close> does not detect every overflow.  A number \<open>n\<close> of 33 to 35 bits is refused in its shortest
  encoding; with one group of zeros behind it the same number is decoded, modulo \<open>2^32\<close>.  And because the eight bits of
  \<open>bitpos\<close> wrap around, every group \<open>b\<close> behind 37 groups of zeros, which stands for \<open>b * 2^259\<close>, is decoded as \<open>8 * b\<close>.
\<close>

theorem pb_varint32_truncates:
  assumes "2 ^ 32 \<le> n" "n < 2 ^ 35" "unat b < 128"
  shows "pb_decode_varint32 (window (varint n @ w) rest e :: 's pb_istream) = Some (None, window w rest (set_error ''varint overflow'' e)) \<and>
    varint_val (groups 5 n @ 0 # w) = Some (n, w) \<and>
    pb_decode_varint32 (window (groups 5 n @ 0 # w) rest e :: 's pb_istream) = Some (Some (of_nat (n mod 2 ^ 32)), window w rest e) \<and>
    varint_val (replicate 37 0x80 @ b # w) = Some (unat b * 2 ^ 259, w) \<and>
    pb_decode_varint32 (window (replicate 37 0x80 @ b # w) rest e :: 's pb_istream) = Some (Some (8 * ucast b), window w rest e)"
proof -
  have n: "n < 128 ^ 5" using assms(2) by simp
  have "(of_nat (n mod 2 ^ 32) :: u32) = of_nat n" by (simp add: word_of_nat_eq_iff take_bit_eq_mod)
  then have "pb_decode_varint32 (window (groups 5 n @ 0 # w) rest e :: 's pb_istream) = Some (Some (of_nat (n mod 2 ^ 32)), window w rest e)"
    unfolding decode32_padded using n by simp
  moreover have "varint_val (replicate 37 0x80 @ b # w) = Some (unat b * 2 ^ 259, w)"
    using varint_val_zeros [OF assms(3), of 37 w] by simp
  ultimately show ?thesis
    by (intro conjI decode32_refuses [OF assms(1,2)] varint_val_groups [OF n] decode32_wraps [OF assms(3)])
qed

theorem pb_varint32_truncates_witness:
  "pb_decode_varint32 (window (groups 5 (7 * 2 ^ 32 + 5) @ [0]) [] None :: unit pb_istream) = Some (Some 5, window [] [] None) \<and>
   pb_decode_varint32 (window (replicate 37 0x80 @ [0x1F]) [] None :: unit pb_istream) = Some (Some 248, window [] [] None)"
  using pb_varint32_truncates [of "7 * 2 ^ 32 + 5" "0x1F" "[]" "[]" None, where 's = unit] by (simp del: groups.simps)

text \<open>
  After a tag, which is read back with its field number and wire type, \<open>pb_skip_field\<close> skips exactly one
  payload of that wire type.
\<close>

theorem pb_skip_field_exact:
  assumes "payload wiretype p" "0 < field_number" "unat field_number < 2 ^ 29"
  shows "pb_decode_tag (window (varint (tag_number wiretype field_number) @ p @ w) rest e) =
      Some ((Some (wiretype, field_number), False), window (p @ w) rest e) \<and>
    pb_skip_field wiretype (window (p @ w) rest e) = Some (Some (), window w rest e)"
proof -
  have "wiretype < 8" using assms(1) by (auto simp: payload_def split: if_splits)
  moreover from this have "unat wiretype < 8" "0 < unat field_number" using assms(2) by (simp_all add: word_less_nat_alt)
  then have "0 < tag_number wiretype field_number" "tag_number wiretype field_number < 2 ^ 32"
    using assms(3) by (simp_all add: tag_number_def)
  ultimately show ?thesis using assms(1) by (simp add: decode_tag_window skip_field_window)
qed

theorem pb_skip_field_exact_witness:
  "pb_skip_field 2 (window ([2, 7, 9] @ [5]) [] None) = Some (Some (), window [5] [] None)"
proof -
  have "varint 2 = [2]" by code_simp
  then have "payload 2 [2, 7, 9]" by (simp add: payload_def)
  then show ?thesis by (rule pb_skip_field_exact [of 2 "[2, 7, 9]" 1, THEN conjunct2]) simp_all
qed

end
