(* ===== verification/PbEncode.thy ===== *)
theory PbEncode
  imports PbWire
begin

text \<open>
  The message encoder of nanopb, \<open>pb_encode.c\<close> with the field iterator of \<open>pb_common.c\<close>, for a build with
  \<open>PB_FIELD_32BIT\<close> (the generated files of the repository require it) on a little-endian machine with 64-bit pointers.
  Memory is a function from addresses to bytes that the encoder only reads; null is 0.  An array of field
  descriptors is the list of its elements before the terminator; \<open>ptr\<close> names it by its address.  Functions that user
  code supplies, for callback fields and extensions, are parameters.  The recursion through submessages has
  fuel; \<^term>\<open>None\<close> says that it ran out, or a fault.
\<close>

section \<open>Field descriptors\<close>

record pb_field =
  pf_tag :: u32
  pf_type :: u8
  pf_data_offset :: u32
  pf_size_offset :: "32 word"
  pf_data_size :: u32
  pf_array_size :: u32
  pf_ptr :: nat

definition PB_LAST_FIELD :: pb_field where
  "PB_LAST_FIELD = \<lparr> pf_tag = 0, pf_type = 0, pf_data_offset = 0, pf_size_offset = 0, pf_data_size = 0, pf_array_size = 0, pf_ptr = 0 \<rparr>"

definition PB_ATYPE :: "u8 \<Rightarrow> u8" where
  "PB_ATYPE x = x AND 0xC0"

definition PB_HTYPE :: "u8 \<Rightarrow> u8" where
  "PB_HTYPE x = x AND 0x30"

definition PB_LTYPE :: "u8 \<Rightarrow> u8" where
  "PB_LTYPE x = x AND 0x0F"

abbreviation "ATYPE_STATIC \<equiv> 0 :: u8"
abbreviation "ATYPE_CALLBACK \<equiv> 0x40 :: u8"
abbreviation "ATYPE_POINTER \<equiv> 0x80 :: u8"
abbreviation "HTYPE_REQUIRED \<equiv> 0 :: u8"
abbreviation "HTYPE_OPTIONAL \<equiv> 0x10 :: u8"
abbreviation "HTYPE_REPEATED \<equiv> 0x20 :: u8"
abbreviation "HTYPE_ONEOF \<equiv> 0x30 :: u8"
abbreviation "LTYPE_BOOL \<equiv> 0 :: u8"
abbreviation "LTYPE_VARINT \<equiv> 1 :: u8"
abbreviation "LTYPE_UVARINT \<equiv> 2 :: u8"
abbreviation "LTYPE_SVARINT \<equiv> 3 :: u8"
abbreviation "LTYPE_FIXED32 \<equiv> 4 :: u8"
abbreviation "LTYPE_FIXED64 \<equiv> 5 :: u8"
abbreviation "LTYPE_LAST_PACKABLE \<equiv> 5 :: u8"
abbreviation "LTYPE_BYTES \<equiv> 6 :: u8"
abbreviation "LTYPE_STRING \<equiv> 7 :: u8"
abbreviation "LTYPE_SUBMESSAGE \<equiv> 8 :: u8"
abbreviation "LTYPE_EXTENSION \<equiv> 9 :: u8"
abbreviation "LTYPE_FIXED_LENGTH_BYTES \<equiv> 10 :: u8"

text \<open>The iterator over the fields of a struct; \<open>it_pos\<close> counts elements from \<open>start\<close>.\<close>

record pb_field_iter =
  it_start :: "pb_field list"
  it_pos :: nat
  it_required_field_index :: nat
  it_dest_struct :: nat
  it_pData :: nat
  it_pSize :: nat

definition field_at :: "pb_field list \<Rightarrow> nat \<Rightarrow> pb_field" where
  "field_at fs i = (if i < length fs then fs ! i else PB_LAST_FIELD)"

definition it_field :: "pb_field_iter \<Rightarrow> pb_field" where
  "it_field it = field_at (it_start it) (it_pos it)"

definition size_ptr :: "nat \<Rightarrow> pb_field \<Rightarrow> nat" where
  "size_ptr pData field = nat (int pData + sint (pf_size_offset field))"

definition pb_field_iter_begin :: "pb_field list \<Rightarrow> nat \<Rightarrow> bool \<times> pb_field_iter" where
  "pb_field_iter_begin fs dest_struct =
     (let first = field_at fs 0;
          pData = (if dest_struct = 0 then 0 else dest_struct + unat (pf_data_offset first));
          pSize = (if dest_struct = 0 then 0 else size_ptr pData first)
      in (pf_tag first \<noteq> 0,
          \<lparr> it_start = fs, it_pos = 0, it_required_field_index = 0, it_dest_struct = dest_struct, it_pData = pData, it_pSize = pSize \<rparr>))"

definition pb_field_iter_next :: "pb_field_iter \<Rightarrow> bool \<times> pb_field_iter" where
  "pb_field_iter_next it =
     (let prev_field = it_field it in
      if pf_tag prev_field = 0 then (False, it)
      else
        let it = it \<lparr> it_pos := it_pos it + 1 \<rparr>; field = it_field it in
        if pf_tag field = 0 then (False, snd (pb_field_iter_begin (it_start it) (it_dest_struct it)))
        else if PB_HTYPE (pf_type prev_field) = HTYPE_ONEOF \<and> PB_HTYPE (pf_type field) = HTYPE_ONEOF \<and> pf_data_offset field = 0xFFFFFFFF
        then (True, it)
        else
          let prev_size =
                (if PB_ATYPE (pf_type prev_field) = ATYPE_STATIC \<and> PB_HTYPE (pf_type prev_field) = HTYPE_REPEATED
                 then size_mul (unat (pf_data_size prev_field)) (unat (pf_array_size prev_field))
                 else if PB_ATYPE (pf_type prev_field) = ATYPE_POINTER then 8
                 else unat (pf_data_size prev_field));
              it = (if PB_HTYPE (pf_type prev_field) = HTYPE_REQUIRED
                    then it \<lparr> it_required_field_index := it_required_field_index it + 1 \<rparr> else it);
              pData = it_pData it + prev_size + unat (pf_data_offset field)
          in (True, it \<lparr> it_pData := pData, it_pSize := size_ptr pData field \<rparr>))"

text \<open>\<open>pb_field_iter_find\<close> goes round until it is back at the field it started from.\<close>

primrec iter_find :: "nat \<Rightarrow> u32 \<Rightarrow> nat \<Rightarrow> pb_field_iter \<Rightarrow> (bool \<times> pb_field_iter) option" where
  "iter_find 0 tag start it = None"
| "iter_find (Suc n) tag start it =
     (if pf_tag (it_field it) = tag \<and> PB_LTYPE (pf_type (it_field it)) \<noteq> LTYPE_EXTENSION then Some (True, it)
      else let it = snd (pb_field_iter_next it) in if it_pos it \<noteq> start then iter_find n tag start it else Some (False, it))"

definition pb_field_iter_find :: "pb_field_iter \<Rightarrow> u32 \<Rightarrow> (bool \<times> pb_field_iter) option" where
  "pb_field_iter_find it tag = iter_find (length (it_start it) + 1) tag (it_pos it) it"

section \<open>Memory and the environment\<close>

type_synonym memory = "nat \<Rightarrow> u8"

text \<open>The little-endian number in \<open>n\<close> bytes at \<open>p\<close>, and the bytes themselves.\<close>

primrec load :: "nat \<Rightarrow> memory \<Rightarrow> nat \<Rightarrow> nat" where
  "load 0 m p = 0"
| "load (Suc n) m p = unat (m p) + 256 * load n m (p + 1)"

definition load_bytes :: "memory \<Rightarrow> nat \<Rightarrow> nat \<Rightarrow> bytes" where
  "load_bytes m p n = map (\<lambda>i. m (p + i)) [0..<n]"

text \<open>
  Besides memory: the descriptors at an address; the functions that encode callback fields and extensions, by
  address; and the descriptor an extension type's \<open>arg\<close> points to.
\<close>

record 's pb_env =
  env_mem :: memory
  env_fields :: "nat \<Rightarrow> pb_field list"
  env_callback :: "nat \<Rightarrow> pb_field \<Rightarrow> nat \<Rightarrow> 's pb_wr"
  env_extension :: "nat \<Rightarrow> nat \<Rightarrow> 's pb_wr"

section \<open>Field encoders\<close>

definition safe_read_bool :: "memory \<Rightarrow> nat \<Rightarrow> bool" where
  "safe_read_bool m pSize \<longleftrightarrow> m pSize \<noteq> 0"

definition pb_encode_tag_for_field :: "pb_field \<Rightarrow> 's pb_wr" where
  "pb_encode_tag_for_field field =
     (let t = PB_LTYPE (pf_type field) in
      if t = LTYPE_BOOL \<or> t = LTYPE_VARINT \<or> t = LTYPE_UVARINT \<or> t = LTYPE_SVARINT then pb_encode_tag 0 (pf_tag field)
      else if t = LTYPE_FIXED32 then pb_encode_tag 5 (pf_tag field)
      else if t = LTYPE_FIXED64 then pb_encode_tag 1 (pf_tag field)
      else if t = LTYPE_BYTES \<or> t = LTYPE_STRING \<or> t = LTYPE_SUBMESSAGE \<or> t = LTYPE_FIXED_LENGTH_BYTES then pb_encode_tag 2 (pf_tag field)
      else wr_error ''invalid field type'')"

text \<open>The buffer a pointer and a size stand for.\<close>

definition buffer_at :: "memory \<Rightarrow> nat \<Rightarrow> nat \<Rightarrow> bytes option" where
  "buffer_at m p n = (if p = 0 then None else Some (load_bytes m p n))"

definition pb_enc_bool :: "memory \<Rightarrow> pb_field \<Rightarrow> nat \<Rightarrow> 's pb_wr" where
  "pb_enc_bool m field src = pb_encode_varint (if safe_read_bool m src then 1 else 0)"

text \<open>The signed and unsigned loads by \<open>data_size\<close>, sign- or zero-extended to 64 bits.\<close>

definition load_signed :: "memory \<Rightarrow> pb_field \<Rightarrow> nat \<Rightarrow> u64 option" where
  "load_signed m field src =
     (let k = pf_data_size field in
      if k = 1 then Some (scast (of_nat (load 1 m src) :: 8 word))
      else if k = 2 then Some (scast (of_nat (load 2 m src) :: 16 word))
      else if k = 4 then Some (scast (of_nat (load 4 m src) :: 32 word))
      else if k = 8 then Some (of_nat (load 8 m src))
      else None)"

definition pb_enc_varint :: "memory \<Rightarrow> pb_field \<Rightarrow> nat \<Rightarrow> 's pb_wr" where
  "pb_enc_varint m field src =
     (case load_signed m field src of None \<Rightarrow> wr_error ''invalid data_size'' | Some v \<Rightarrow> pb_encode_varint v)"

definition pb_enc_uvarint :: "memory \<Rightarrow> pb_field \<Rightarrow> nat \<Rightarrow> 's pb_wr" where
  "pb_enc_uvarint m field src =
     (let k = pf_data_size field in
      if k = 1 \<or> k = 2 \<or> k = 4 \<or> k = 8 then pb_encode_varint (of_nat (load (unat k) m src))
      else wr_error ''invalid data_size'')"

definition pb_enc_svarint :: "memory \<Rightarrow> pb_field \<Rightarrow> nat \<Rightarrow> 's pb_wr" where
  "pb_enc_svarint m field src =
     (case load_signed m field src of None \<Rightarrow> wr_error ''invalid data_size'' | Some v \<Rightarrow> pb_encode_svarint v)"

definition pb_enc_fixed64 :: "memory \<Rightarrow> pb_field \<Rightarrow> nat \<Rightarrow> 's pb_wr" where
  "pb_enc_fixed64 m field src = pb_encode_fixed64 (of_nat (load 8 m src))"

definition pb_enc_fixed32 :: "memory \<Rightarrow> pb_field \<Rightarrow> nat \<Rightarrow> 's pb_wr" where
  "pb_enc_fixed32 m field src = pb_encode_fixed32 (of_nat (load 4 m src))"

text \<open>A \<open>pb_bytes_array_t\<close> is a 32-bit size and the bytes.\<close>

definition pb_enc_bytes :: "memory \<Rightarrow> pb_field \<Rightarrow> nat \<Rightarrow> 's pb_wr" where
  "pb_enc_bytes m field src =
     (if src = 0 then pb_encode_string None 0
      else
        let n = load 4 m src in
        if PB_ATYPE (pf_type field) = ATYPE_STATIC \<and> n > size_add (unat (pf_data_size field)) (size_lim - 4)
        then wr_error ''bytes size exceeded''
        else pb_encode_string (Some (load_bytes m (src + 4) n)) n)"

function string_size :: "memory \<Rightarrow> nat \<Rightarrow> nat \<Rightarrow> nat \<Rightarrow> nat" where
  "string_size m max_size p n = (if n < max_size \<and> m p \<noteq> 0 then string_size m max_size (p + 1) (n + 1) else n)"
  by pat_completeness auto
termination
  by (relation "measure (\<lambda>(m, max_size, p, n). max_size - n)") auto

declare string_size.simps [simp del]

definition pb_enc_string :: "memory \<Rightarrow> pb_field \<Rightarrow> nat \<Rightarrow> 's pb_wr" where
  "pb_enc_string m field src =
     (let max_size = (if PB_ATYPE (pf_type field) = ATYPE_POINTER then size_lim - 1 else unat (pf_data_size field));
          n = (if src = 0 then 0 else string_size m max_size src 0)
      in pb_encode_string (buffer_at m src n) n)"

definition pb_enc_fixed_length_bytes :: "memory \<Rightarrow> pb_field \<Rightarrow> nat \<Rightarrow> 's pb_wr" where
  "pb_enc_fixed_length_bytes m field src =
     pb_encode_string (buffer_at m src (unat (pf_data_size field))) (unat (pf_data_size field))"

section \<open>Submessages\<close>

text \<open>In what follows \<open>enc\<close> is \<open>pb_encode\<close>, for the fields and the struct it is given.\<close>

definition pb_encode_submessage :: "'s pb_wr \<Rightarrow> 's pb_wr" where
  "pb_encode_submessage enc stream =
     (case enc PB_OSTREAM_SIZING of
        None \<Rightarrow> None
      | Some (False, substream) \<Rightarrow> Some (False, stream \<lparr> os_errmsg := os_errmsg substream \<rparr>)
      | Some (True, substream) \<Rightarrow>
          let n = os_bytes_written substream in
          wr_then (pb_encode_varint (of_nat n)) (\<lambda>stream.
            if is_Sizing (os_sink stream) then pb_write None n stream
            else if size_add (os_bytes_written stream) n > os_max_size stream then wr_error ''stream full'' stream
            else
              case enc \<lparr> os_sink = os_sink stream, os_max_size = n, os_bytes_written = 0, os_errmsg = None \<rparr> of
                None \<Rightarrow> None
              | Some (status, substream) \<Rightarrow>
                  let stream = stream \<lparr> os_bytes_written := size_add (os_bytes_written stream) (os_bytes_written substream),
                        os_sink := os_sink substream, os_errmsg := os_errmsg substream \<rparr>
                  in if os_bytes_written substream \<noteq> n then wr_error ''submsg size changed'' stream
                     else Some (status, stream)) stream)"

definition pb_enc_submessage :: "(pb_field list \<Rightarrow> nat \<Rightarrow> 's pb_wr) \<Rightarrow> 's pb_env \<Rightarrow> pb_field \<Rightarrow> nat \<Rightarrow> 's pb_wr" where
  "pb_enc_submessage enc env field src =
     (if pf_ptr field = 0 then wr_error ''invalid field descriptor''
      else pb_encode_submessage (enc (env_fields env (pf_ptr field)) src))"

text \<open>The call through \<open>PB_ENCODERS\<close>; there is no encoder for extensions, and none behind the table.\<close>

definition PB_ENCODERS :: "(pb_field list \<Rightarrow> nat \<Rightarrow> 's pb_wr) \<Rightarrow> 's pb_env \<Rightarrow> u8 \<Rightarrow> pb_field \<Rightarrow> nat \<Rightarrow> 's pb_wr" where
  "PB_ENCODERS enc env t field src =
     (if t = LTYPE_BOOL then pb_enc_bool (env_mem env) field src
      else if t = LTYPE_VARINT then pb_enc_varint (env_mem env) field src
      else if t = LTYPE_UVARINT then pb_enc_uvarint (env_mem env) field src
      else if t = LTYPE_SVARINT then pb_enc_svarint (env_mem env) field src
      else if t = LTYPE_FIXED32 then pb_enc_fixed32 (env_mem env) field src
      else if t = LTYPE_FIXED64 then pb_enc_fixed64 (env_mem env) field src
      else if t = LTYPE_BYTES then pb_enc_bytes (env_mem env) field src
      else if t = LTYPE_STRING then pb_enc_string (env_mem env) field src
      else if t = LTYPE_SUBMESSAGE then pb_enc_submessage enc env field src
      else if t = LTYPE_FIXED_LENGTH_BYTES then pb_enc_fixed_length_bytes (env_mem env) field src
      else (\<lambda>s. None))"

section \<open>Fields\<close>

text \<open>The loop that writes the elements of a packed array.\<close>

primrec encode_items :: "(nat \<Rightarrow> 's pb_wr) \<Rightarrow> nat \<Rightarrow> nat \<Rightarrow> nat \<Rightarrow> 's pb_wr" where
  "encode_items func step 0 p = wr_return"
| "encode_items func step (Suc n) p = wr_then (func p) (encode_items func step n (p + step))"

text \<open>\<open>encode_array\<close>; \<open>func\<close> is the encoder of one element.\<close>

definition encode_array :: "(nat \<Rightarrow> 's pb_wr) \<Rightarrow> memory \<Rightarrow> pb_field \<Rightarrow> nat \<Rightarrow> nat \<Rightarrow> 's pb_wr" where
  "encode_array func m field pData count stream =
     (let step = unat (pf_data_size field); t = PB_LTYPE (pf_type field); a = PB_ATYPE (pf_type field) in
      if count = 0 then wr_return stream
      else if a \<noteq> ATYPE_POINTER \<and> count > unat (pf_array_size field) then wr_error ''array max size exceeded'' stream
      else if t \<le> LTYPE_LAST_PACKABLE then
        wr_then (pb_encode_tag 2 (pf_tag field)) (\<lambda>stream.
          case (if t = LTYPE_FIXED32 then Some (True, size_mul 4 count)
                else if t = LTYPE_FIXED64 then Some (True, size_mul 8 count)
                else map_option (\<lambda>(ok, sizestream). (ok, os_bytes_written sizestream)) (encode_items func step count pData PB_OSTREAM_SIZING)) of
            None \<Rightarrow> None
          | Some (False, n) \<Rightarrow> Some (False, stream)
          | Some (True, n) \<Rightarrow>
              wr_then (pb_encode_varint (of_nat n)) (\<lambda>stream.
                if is_Sizing (os_sink stream) then pb_write None n stream
                else encode_items func step count pData stream) stream) stream
      else
        encode_items (\<lambda>p. wr_then (pb_encode_tag_for_field field)
            (if a = ATYPE_POINTER \<and> (t = LTYPE_STRING \<or> t = LTYPE_BYTES) then func (load 8 m p) else func p))
          step count pData stream)"

lemma iter_next_pos: "pb_field_iter_next it = (True, it') \<Longrightarrow> it_start it' = it_start it \<and> it_pos it' = Suc (it_pos it) \<and> it_pos it' < length (it_start it')"
  by (auto simp: pb_field_iter_next_def Let_def it_field_def field_at_def PB_LAST_FIELD_def split: if_splits)

text \<open>
  \<open>pb_check_proto3_default_value\<close>.  A static submessage is searched field by field; \<open>chk\<close> is the function itself,
  with less fuel.
\<close>

function all_default :: "(pb_field \<Rightarrow> nat \<Rightarrow> bool option) \<Rightarrow> pb_field_iter \<Rightarrow> bool option" where
  "all_default chk it =
     (case chk (it_field it) (it_pData it) of
        None \<Rightarrow> None
      | Some False \<Rightarrow> Some False
      | Some True \<Rightarrow> (case pb_field_iter_next it of (True, it) \<Rightarrow> all_default chk it | (False, _) \<Rightarrow> Some True))"
  by pat_completeness auto
termination
  by (relation "measure (\<lambda>(chk, it). length (it_start it) - it_pos it)") (auto dest!: sym [of "(True, _)"] iter_next_pos)

declare all_default.simps [simp del]

definition default_value :: "(pb_field \<Rightarrow> nat \<Rightarrow> bool option) \<Rightarrow> 's pb_env \<Rightarrow> pb_field \<Rightarrow> nat \<Rightarrow> bool option" where
  "default_value chk env field pData =
     (let m = env_mem env; t = pf_type field; pSize = size_ptr pData field in
      if PB_HTYPE t = HTYPE_REQUIRED then Some False
      else if PB_HTYPE t = HTYPE_REPEATED \<and> pf_size_offset field \<noteq> 0 then Some (load 4 m pSize = 0)
      else if PB_HTYPE t = HTYPE_REPEATED \<and> PB_ATYPE t = ATYPE_STATIC then Some False
      else if PB_HTYPE t = HTYPE_ONEOF then Some (load 4 m pSize = 0)
      else if PB_HTYPE t = HTYPE_OPTIONAL \<and> pf_size_offset field \<noteq> 0 then Some (\<not> safe_read_bool m pSize)
      else if PB_ATYPE t = ATYPE_STATIC \<and> PB_LTYPE t = LTYPE_BYTES then Some (load 4 m pData = 0)
      else if PB_ATYPE t = ATYPE_STATIC \<and> PB_LTYPE t = LTYPE_STRING then Some (m pData = 0)
      else if PB_ATYPE t = ATYPE_STATIC \<and> PB_LTYPE t = LTYPE_FIXED_LENGTH_BYTES then Some (pf_data_size field = 0)
      else if PB_ATYPE t = ATYPE_STATIC \<and> PB_LTYPE t = LTYPE_SUBMESSAGE then
        (case pb_field_iter_begin (env_fields env (pf_ptr field)) pData of
           (True, it) \<Rightarrow> all_default chk it
         | (False, _) \<Rightarrow> Some True)
      else if PB_ATYPE t = ATYPE_POINTER \<and> PB_LTYPE t > LTYPE_LAST_PACKABLE then Some (load 8 m pData = 0)
      else Some (list_all (\<lambda>b. b = 0) (load_bytes m pData (unat (pf_data_size field)))))"

primrec pb_check_proto3_default_value :: "nat \<Rightarrow> 's pb_env \<Rightarrow> pb_field \<Rightarrow> nat \<Rightarrow> bool option" where
  "pb_check_proto3_default_value 0 env = (\<lambda>field pData. None)"
| "pb_check_proto3_default_value (Suc d) env = default_value (pb_check_proto3_default_value d env) env"

text \<open>\<open>encode_basic_field\<close>: \<open>pSize\<close> is an address, or the local \<open>implicit_has\<close>.\<close>

definition encode_basic_field ::
    "(pb_field list \<Rightarrow> nat \<Rightarrow> 's pb_wr) \<Rightarrow> (pb_field \<Rightarrow> nat \<Rightarrow> bool option) \<Rightarrow> 's pb_env \<Rightarrow> pb_field \<Rightarrow> nat \<Rightarrow> 's pb_wr" where
  "encode_basic_field enc chk env field pData stream =
     (let m = env_mem env; h = PB_HTYPE (pf_type field); func = PB_ENCODERS enc env (PB_LTYPE (pf_type field)) field;
          pSize = (if pf_size_offset field \<noteq> 0 then Some (size_ptr pData field) else None) in
      case (if pf_size_offset field \<noteq> 0 then Some False
            else if h = HTYPE_OPTIONAL then map_option Not (chk field pData)
            else Some True) of
        None \<Rightarrow> None
      | Some implicit_has \<Rightarrow>
          let pointer = (PB_ATYPE (pf_type field) = ATYPE_POINTER);
              pData = (if pointer then load 8 m pData else pData);
              implicit_has = (if pointer then pData \<noteq> 0 else implicit_has);
              put = wr_then (pb_encode_tag_for_field field) (func pData)
          in if h = HTYPE_REQUIRED then (if pData = 0 then wr_error ''missing required field'' stream else put stream)
             else if h = HTYPE_OPTIONAL then
               (if case pSize of Some p \<Rightarrow> safe_read_bool m p | None \<Rightarrow> implicit_has then put stream else wr_return stream)
             else if h = HTYPE_REPEATED then
               encode_array func m field pData (case pSize of Some p \<Rightarrow> load 4 m p | None \<Rightarrow> unat (pf_array_size field)) stream
             else
               (case pSize of
                  None \<Rightarrow> None
                | Some p \<Rightarrow> if load 4 m p = unat (pf_tag field) then put stream else wr_return stream))"

text \<open>A \<open>pb_callback_t\<close> is a function pointer and, 8 bytes behind, the argument.\<close>

definition encode_callback_field :: "'s pb_env \<Rightarrow> pb_field \<Rightarrow> nat \<Rightarrow> 's pb_wr" where
  "encode_callback_field env field pData stream =
     (let f = load 8 (env_mem env) pData in
      if f \<noteq> 0 then
        (case env_callback env f field (pData + 8) stream of
           None \<Rightarrow> None
         | Some (False, stream) \<Rightarrow> wr_error ''callback error'' stream
         | Some (True, stream) \<Rightarrow> wr_return stream)
      else wr_return stream)"

definition encode_field ::
    "(pb_field list \<Rightarrow> nat \<Rightarrow> 's pb_wr) \<Rightarrow> (pb_field \<Rightarrow> nat \<Rightarrow> bool option) \<Rightarrow> 's pb_env \<Rightarrow> pb_field \<Rightarrow> nat \<Rightarrow> 's pb_wr" where
  "encode_field enc chk env field pData =
     (let a = PB_ATYPE (pf_type field) in
      if a = ATYPE_STATIC \<or> a = ATYPE_POINTER then encode_basic_field enc chk env field pData
      else if a = ATYPE_CALLBACK then encode_callback_field env field pData
      else wr_error ''invalid field type'')"

text \<open>
  A \<open>pb_extension_t\<close> has pointers to its type, to the data and to the next one; in its type the pointer to the encoder
  and \<open>arg\<close>, which points to the descriptor, are at 8 and 16.
\<close>

definition default_extension_encoder ::
    "(pb_field list \<Rightarrow> nat \<Rightarrow> 's pb_wr) \<Rightarrow> (pb_field \<Rightarrow> nat \<Rightarrow> bool option) \<Rightarrow> 's pb_env \<Rightarrow> nat \<Rightarrow> 's pb_wr" where
  "default_extension_encoder enc chk env extension =
     (let m = env_mem env; field = field_at (env_fields env (load 8 m (load 8 m extension + 16))) 0 in
      if PB_ATYPE (pf_type field) = ATYPE_POINTER then encode_field enc chk env field (extension + 8)
      else encode_field enc chk env field (load 8 m (extension + 8)))"

primrec encode_extensions ::
    "(pb_field list \<Rightarrow> nat \<Rightarrow> 's pb_wr) \<Rightarrow> (pb_field \<Rightarrow> nat \<Rightarrow> bool option) \<Rightarrow> 's pb_env \<Rightarrow> nat \<Rightarrow> nat \<Rightarrow> 's pb_wr" where
  "encode_extensions enc chk env 0 extension = (\<lambda>s. None)"
| "encode_extensions enc chk env (Suc n) extension =
     (if extension = 0 then wr_return
      else
        let m = env_mem env; f = load 8 m (load 8 m extension + 8) in
        wr_then (if f \<noteq> 0 then env_extension env f extension else default_extension_encoder enc chk env extension)
          (encode_extensions enc chk env n (load 8 m (extension + 16))))"

definition encode_extension_field ::
    "(pb_field list \<Rightarrow> nat \<Rightarrow> 's pb_wr) \<Rightarrow> (pb_field \<Rightarrow> nat \<Rightarrow> bool option) \<Rightarrow> 's pb_env \<Rightarrow> nat \<Rightarrow> nat \<Rightarrow> 's pb_wr" where
  "encode_extension_field enc chk env n pData = encode_extensions enc chk env n (load 8 (env_mem env) pData)"

section \<open>Messages\<close>

function encode_fields ::
    "(pb_field list \<Rightarrow> nat \<Rightarrow> 's pb_wr) \<Rightarrow> (pb_field \<Rightarrow> nat \<Rightarrow> bool option) \<Rightarrow> 's pb_env \<Rightarrow> nat \<Rightarrow> pb_field_iter \<Rightarrow> 's pb_wr" where
  "encode_fields enc chk env n it =
     wr_then
       (if PB_LTYPE (pf_type (it_field it)) = LTYPE_EXTENSION then encode_extension_field enc chk env n (it_pData it)
        else encode_field enc chk env (it_field it) (it_pData it))
       (case pb_field_iter_next it of (True, it) \<Rightarrow> encode_fields enc chk env n it | (False, _) \<Rightarrow> wr_return)"
  by pat_completeness auto
termination
  by (relation "measure (\<lambda>(enc, chk, env, n, it). length (it_start it) - it_pos it)") (auto dest!: sym [of "(True, _)"] iter_next_pos)

declare encode_fields.simps [simp del]

text \<open>\<open>d\<close> bounds the depth of submessages and the length of a list of extensions.\<close>

primrec pb_encode :: "nat \<Rightarrow> 's pb_env \<Rightarrow> pb_field list \<Rightarrow> nat \<Rightarrow> 's pb_wr" where
  "pb_encode 0 env = (\<lambda>fs src s. None)"
| "pb_encode (Suc d) env = (\<lambda>fs src.
     case pb_field_iter_begin fs src of
       (False, _) \<Rightarrow> wr_return
     | (True, it) \<Rightarrow> encode_fields (pb_encode d env) (pb_check_proto3_default_value d env) env d it)"

definition pb_encode_delimited :: "nat \<Rightarrow> 's pb_env \<Rightarrow> pb_field list \<Rightarrow> nat \<Rightarrow> 's pb_wr" where
  "pb_encode_delimited d env fs src = pb_encode_submessage (pb_encode d env fs src)"

definition pb_encode_nullterminated :: "nat \<Rightarrow> 's pb_env \<Rightarrow> pb_field list \<Rightarrow> nat \<Rightarrow> 's pb_wr" where
  "pb_encode_nullterminated d env fs src = wr_then (pb_encode d env fs src) (pb_write (Some [0]) 1)"

definition pb_get_encoded_size :: "nat \<Rightarrow> 's pb_env \<Rightarrow> pb_field list \<Rightarrow> nat \<Rightarrow> nat option option" where
  "pb_get_encoded_size d env fs src =
     map_option (\<lambda>(ok, stream). if ok then Some (os_bytes_written stream) else None) (pb_encode d env fs src PB_OSTREAM_SIZING)"

end
