(* ===== verification/PbDecode.thy ===== *)
theory PbDecode
  imports PbEncode
begin

text \<open>
  The message decoder of nanopb, \<open>pb_decode.c\<close>, for the build of the repository: \<open>PB_FIELD_32BIT\<close> and
  \<open>PB_ENABLE_MALLOC\<close>, 64-bit pointers, little-endian.  A decoder takes the world, which is memory and the blocks
  that are allocated, and a stream; it returns whether it succeeded, the world and the stream.  \<^term>\<open>None\<close> is a
  fault (a free of what is not allocated, a division by zero), a loop that does not end, or fuel that ran out.
  Functions of user code, for callback fields and extensions, and the choice of addresses by \<open>realloc\<close> are parameters.
\<close>

section \<open>The world\<close>

text \<open>\<open>wd_count\<close> is the local \<open>fixed_count_size\<close> of the innermost \<open>pb_decode_noinit\<close>.\<close>

record pb_world =
  wd_mem :: memory
  wd_blocks :: "nat \<Rightarrow> nat option"
  wd_count :: u32

type_synonym 's pb_dec = "pb_world \<Rightarrow> 's pb_istream \<Rightarrow> ((bool \<times> pb_world) \<times> 's pb_istream) option"

record 's pb_denv =
  dv_fields :: "nat \<Rightarrow> pb_field list"
  dv_alloc :: "(nat \<Rightarrow> nat option) \<Rightarrow> nat \<Rightarrow> nat option"
  dv_callback :: "nat \<Rightarrow> pb_field \<Rightarrow> nat \<Rightarrow> 's pb_dec"
  dv_extension :: "nat \<Rightarrow> nat \<Rightarrow> u32 \<Rightarrow> u32 \<Rightarrow> 's pb_dec"

definition poke :: "nat \<Rightarrow> bytes \<Rightarrow> pb_world \<Rightarrow> pb_world" where
  "poke p bs w = w \<lparr> wd_mem := (\<lambda>a. if p \<le> a \<and> a < p + length bs then bs ! (a - p) else wd_mem w a) \<rparr>"

definition get :: "nat \<Rightarrow> nat \<Rightarrow> pb_world \<Rightarrow> nat" where
  "get k p w = load k (wd_mem w) p"

definition de_return :: "bool \<Rightarrow> 's pb_dec" where
  "de_return ok w s = Some ((ok, w), s)"

definition de_error :: "string \<Rightarrow> 's pb_dec" where
  "de_error msg w s = Some ((False, w), s \<lparr> is_errmsg := set_error msg (is_errmsg s) \<rparr>)"

definition de_read :: "('s, 'a) pb_rd \<Rightarrow> ('a \<Rightarrow> 's pb_dec) \<Rightarrow> 's pb_dec" where
  "de_read r f w s =
     (case r s of
        None \<Rightarrow> None
      | Some (None, s) \<Rightarrow> Some ((False, w), s)
      | Some (Some x, s) \<Rightarrow> f x w s)"

definition de_then :: "'s pb_dec \<Rightarrow> 's pb_dec \<Rightarrow> 's pb_dec" where
  "de_then f g w s =
     (case f w s of
        None \<Rightarrow> None
      | Some ((False, w), s) \<Rightarrow> Some ((False, w), s)
      | Some ((True, w), s) \<Rightarrow> g w s)"

text \<open>An action on the world alone, and one that can fault.\<close>

definition de_do :: "(pb_world \<Rightarrow> pb_world) \<Rightarrow> 's pb_dec \<Rightarrow> 's pb_dec" where
  "de_do u f w = f (u w)"

definition de_try :: "(pb_world \<Rightarrow> pb_world option) \<Rightarrow> 's pb_dec \<Rightarrow> 's pb_dec" where
  "de_try u f w s = (case u w of None \<Rightarrow> None | Some w \<Rightarrow> f w s)"

section \<open>Allocation\<close>

definition pb_realloc :: "'s pb_denv \<Rightarrow> nat \<Rightarrow> nat \<Rightarrow> pb_world \<Rightarrow> (nat \<times> pb_world) option" where
  "pb_realloc env ptr n w =
     (if ptr \<noteq> 0 \<and> wd_blocks w ptr = None then None
      else case dv_alloc env (wd_blocks w) n of
             None \<Rightarrow> Some (0, w)
           | Some q \<Rightarrow>
               let old = (case wd_blocks w ptr of Some k \<Rightarrow> if ptr \<noteq> 0 then k else 0 | None \<Rightarrow> 0);
                   kept = load_bytes (wd_mem w) ptr (min old n)
               in Some (q, poke q kept (w \<lparr> wd_blocks := (wd_blocks w)(ptr := None, q := Some n) \<rparr>)))"

definition pb_free :: "nat \<Rightarrow> pb_world \<Rightarrow> pb_world option" where
  "pb_free ptr w =
     (if ptr = 0 then Some w
      else if wd_blocks w ptr = None then None
      else Some (w \<lparr> wd_blocks := (wd_blocks w)(ptr := None) \<rparr>))"

definition allocate_field :: "'s pb_denv \<Rightarrow> nat \<Rightarrow> nat \<Rightarrow> nat \<Rightarrow> 's pb_dec" where
  "allocate_field env pData data_size array_size w s =
     (if data_size = 0 \<or> array_size = 0 then de_error ''invalid size'' w s
      else if (data_size \<ge> 2 ^ 32 \<or> array_size \<ge> 2 ^ 32) \<and> (size_lim - 1) div array_size < data_size then de_error ''size too large'' w s
      else case pb_realloc env (get 8 pData w) (size_mul array_size data_size) w of
             None \<Rightarrow> None
           | Some (ptr, w) \<Rightarrow>
               if ptr = 0 then de_error ''realloc failed'' w s else de_do (poke pData (le_bytes 8 ptr)) (de_return True) w s)"

section \<open>Field decoders\<close>

definition pb_dec_bool :: "nat \<Rightarrow> 's pb_dec" where
  "pb_dec_bool dest = de_read pb_decode_varint32 (\<lambda>val. de_do (poke dest [if val \<noteq> 0 then 1 else 0]) (de_return True))"

definition pb_decode_bool :: "nat \<Rightarrow> 's pb_dec" where
  "pb_decode_bool dest = pb_dec_bool dest"

text \<open>\<open>clamped\<close>, as a number of 64 bits, for a \<open>data_size\<close>.\<close>

definition clamp_signed :: "u32 \<Rightarrow> u64 \<Rightarrow> u64 option" where
  "clamp_signed k v =
     (if k = 8 then Some v
      else if k = 4 then Some (scast (ucast v :: 32 word))
      else if k = 2 then Some (scast (ucast v :: 16 word))
      else if k = 1 then Some (scast (ucast v :: 8 word))
      else None)"

definition clamp_unsigned :: "u32 \<Rightarrow> u64 \<Rightarrow> u64 option" where
  "clamp_unsigned k v =
     (if k = 8 then Some v
      else if k = 4 then Some (ucast (ucast v :: 32 word))
      else if k = 2 then Some (ucast (ucast v :: 16 word))
      else if k = 1 then Some (ucast (ucast v :: 8 word))
      else None)"

text \<open>The clamped value is stored before it is compared.\<close>

definition store_clamped :: "pb_field \<Rightarrow> nat \<Rightarrow> u64 option \<Rightarrow> u64 \<Rightarrow> 's pb_dec" where
  "store_clamped field dest clamped v =
     (case clamped of
        None \<Rightarrow> de_error ''invalid data_size''
      | Some c \<Rightarrow> de_do (poke dest (le_bytes (unat (pf_data_size field)) (unat c)))
                    (if c \<noteq> v then de_error ''integer too large'' else de_return True))"

definition pb_dec_varint :: "pb_field \<Rightarrow> nat \<Rightarrow> 's pb_dec" where
  "pb_dec_varint field dest = de_read pb_decode_varint (\<lambda>val.
     let svalue = (if pf_data_size field = 8 then val else scast (ucast val :: 32 word))
     in store_clamped field dest (clamp_signed (pf_data_size field) svalue) svalue)"

definition pb_dec_uvarint :: "pb_field \<Rightarrow> nat \<Rightarrow> 's pb_dec" where
  "pb_dec_uvarint field dest = de_read pb_decode_varint (\<lambda>val. store_clamped field dest (clamp_unsigned (pf_data_size field) val) val)"

definition pb_dec_svarint :: "pb_field \<Rightarrow> nat \<Rightarrow> 's pb_dec" where
  "pb_dec_svarint field dest = de_read pb_decode_svarint (\<lambda>val. store_clamped field dest (clamp_signed (pf_data_size field) val) val)"

definition pb_dec_fixed32 :: "nat \<Rightarrow> 's pb_dec" where
  "pb_dec_fixed32 dest = de_read pb_decode_fixed32 (\<lambda>val. de_do (poke dest (le_bytes 4 (unat val))) (de_return True))"

definition pb_dec_fixed64 :: "nat \<Rightarrow> 's pb_dec" where
  "pb_dec_fixed64 dest = de_read pb_decode_fixed64 (\<lambda>val. de_do (poke dest (le_bytes 8 (unat val))) (de_return True))"

text \<open>A read into memory.\<close>

definition read_at :: "nat \<Rightarrow> nat \<Rightarrow> 's pb_dec" where
  "read_at dest n = de_read (pb_read_into n) (\<lambda>bs. de_do (poke dest bs) (de_return True))"

definition pb_dec_bytes :: "'s pb_denv \<Rightarrow> pb_field \<Rightarrow> nat \<Rightarrow> 's pb_dec" where
  "pb_dec_bytes env field dest = de_read pb_decode_varint32 (\<lambda>n w s.
     let alloc_size = size_add (unat n) 4;
         fill = (\<lambda>bdest. de_do (poke bdest (le_bytes 4 (unat n))) (read_at (bdest + 4) (unat n)))
     in if unat n > alloc_size then de_error ''size too large'' w s
        else if PB_ATYPE (pf_type field) = ATYPE_POINTER then
          if is_bytes_left s < unat n then de_error ''end-of-stream'' w s
          else de_then (allocate_field env dest alloc_size 1) (\<lambda>w. fill (get 8 dest w) w) w s
        else if alloc_size > unat (pf_data_size field) then de_error ''bytes overflow'' w s
        else fill dest w s)"

text \<open>The terminator is written whether or not the bytes could be read.\<close>

definition read_string :: "nat \<Rightarrow> nat \<Rightarrow> 's pb_dec" where
  "read_string dest n w s =
     (case read_at dest n w s of
        None \<Rightarrow> None
      | Some ((status, w), s) \<Rightarrow> Some ((status, poke (dest + n) [0] w), s))"

definition pb_dec_string :: "'s pb_denv \<Rightarrow> pb_field \<Rightarrow> nat \<Rightarrow> 's pb_dec" where
  "pb_dec_string env field dest = de_read pb_decode_varint32 (\<lambda>n w s.
     let alloc_size = n + 1 in
     if alloc_size < n then de_error ''size too large'' w s
     else if PB_ATYPE (pf_type field) = ATYPE_POINTER then
       if is_bytes_left s < unat n then de_error ''end-of-stream'' w s
       else de_then (allocate_field env dest (unat alloc_size) 1) (\<lambda>w. read_string (get 8 dest w) (unat n) w) w s
     else if alloc_size > pf_data_size field then de_error ''string overflow'' w s
     else read_string dest (unat n) w s)"

definition pb_dec_fixed_length_bytes :: "pb_field \<Rightarrow> nat \<Rightarrow> 's pb_dec" where
  "pb_dec_fixed_length_bytes field dest = de_read pb_decode_varint32 (\<lambda>n.
     if n = 0 then de_do (poke dest (replicate (unat (pf_data_size field)) 0)) (de_return True)
     else if n \<noteq> pf_data_size field then de_error ''incorrect fixed length bytes size''
     else read_at dest (unat (pf_data_size field)))"

text \<open>
  A substream is opened, given to \<open>body\<close>, and closed.  In what follows \<open>dec True\<close> is \<open>pb_decode\<close> and
  \<open>dec False\<close> is \<open>pb_decode_noinit\<close>.
\<close>

definition in_substream :: "'s pb_dec \<Rightarrow> 's pb_dec" where
  "in_substream body = de_read pb_make_string_substream (\<lambda>substream w s.
     case body w substream of
       None \<Rightarrow> None
     | Some ((status, w), substream) \<Rightarrow> de_read (pb_close_string_substream substream) (\<lambda>_. de_return status) w s)"

type_synonym 's pb_msg = "bool \<Rightarrow> pb_field list \<Rightarrow> nat \<Rightarrow> 's pb_dec"

definition pb_dec_submessage :: "'s pb_msg \<Rightarrow> 's pb_denv \<Rightarrow> pb_field \<Rightarrow> nat \<Rightarrow> 's pb_dec" where
  "pb_dec_submessage dec env field dest =
     (if pf_ptr field = 0 then de_read pb_make_string_substream (\<lambda>_. de_error ''invalid field descriptor'')
      else in_substream (dec (PB_HTYPE (pf_type field) = HTYPE_REPEATED) (dv_fields env (pf_ptr field)) dest))"

definition PB_DECODERS :: "'s pb_msg \<Rightarrow> 's pb_denv \<Rightarrow> u8 \<Rightarrow> pb_field \<Rightarrow> nat \<Rightarrow> 's pb_dec" where
  "PB_DECODERS dec env t field dest =
     (if t = LTYPE_BOOL then pb_dec_bool dest
      else if t = LTYPE_VARINT then pb_dec_varint field dest
      else if t = LTYPE_UVARINT then pb_dec_uvarint field dest
      else if t = LTYPE_SVARINT then pb_dec_svarint field dest
      else if t = LTYPE_FIXED32 then pb_dec_fixed32 dest
      else if t = LTYPE_FIXED64 then pb_dec_fixed64 dest
      else if t = LTYPE_BYTES then pb_dec_bytes env field dest
      else if t = LTYPE_STRING then pb_dec_string env field dest
      else if t = LTYPE_SUBMESSAGE then pb_dec_submessage dec env field dest
      else if t = LTYPE_FIXED_LENGTH_BYTES then pb_dec_fixed_length_bytes field dest
      else (\<lambda>w s. None))"

section \<open>Default values and release\<close>

text \<open>A loop over the fields of a struct.\<close>

function each_field :: "(pb_field_iter \<Rightarrow> pb_world \<Rightarrow> pb_world option) \<Rightarrow> pb_field_iter \<Rightarrow> pb_world \<Rightarrow> pb_world option" where
  "each_field f it w =
     (case f it w of
        None \<Rightarrow> None
      | Some w \<Rightarrow> (case pb_field_iter_next it of (True, it) \<Rightarrow> each_field f it w | (False, _) \<Rightarrow> Some w))"
  by pat_completeness auto
termination
  by (relation "measure (\<lambda>(f, it, w). length (it_start it) - it_pos it)") (auto dest!: sym [of "(True, _)"] iter_next_pos)

declare each_field.simps [simp del]

definition each_of_message :: "(pb_field_iter \<Rightarrow> pb_world \<Rightarrow> pb_world option) \<Rightarrow> pb_field list \<Rightarrow> nat \<Rightarrow> pb_world \<Rightarrow> pb_world option" where
  "each_of_message f fs dest w =
     (case pb_field_iter_begin fs dest of (False, _) \<Rightarrow> Some w | (True, it) \<Rightarrow> each_field f it w)"

definition iter_from_extension :: "'s pb_denv \<Rightarrow> nat \<Rightarrow> pb_world \<Rightarrow> pb_field_iter" where
  "iter_from_extension env extension w =
     (let fs = dv_fields env (get 8 (get 8 extension w + 16) w);
          dest = get 8 (extension + 8) w;
          it = snd (pb_field_iter_begin fs dest) \<lparr> it_pData := dest, it_pSize := extension + 24 \<rparr>
      in if PB_ATYPE (pf_type (field_at fs 0)) = ATYPE_POINTER then it \<lparr> it_pData := extension + 8 \<rparr> else it)"

text \<open>The loop over a list of extensions; \<open>n\<close> bounds its length.\<close>

primrec each_extension :: "(nat \<Rightarrow> pb_world \<Rightarrow> pb_world option) \<Rightarrow> nat \<Rightarrow> nat \<Rightarrow> pb_world \<Rightarrow> pb_world option" where
  "each_extension f 0 ext w = None"
| "each_extension f (Suc n) ext w =
     (if ext = 0 then Some w
      else case f ext w of None \<Rightarrow> None | Some w \<Rightarrow> each_extension f n (get 8 (ext + 16) w) w)"

text \<open>\<open>pb_field_set_to_default\<close>; \<open>f\<close> is the function itself, with less fuel.\<close>

definition default_field :: "(pb_field_iter \<Rightarrow> pb_world \<Rightarrow> pb_world option) \<Rightarrow> 's pb_denv \<Rightarrow> nat \<Rightarrow> pb_field_iter \<Rightarrow> pb_world \<Rightarrow> pb_world option" where
  "default_field f env n it w =
     (let field = it_field it; t = pf_type field in
      if PB_LTYPE t = LTYPE_EXTENSION then
        each_extension (\<lambda>ext w. let w = poke (ext + 24) [0] w in f (iter_from_extension env ext w) w) n (get 8 (it_pData it) w) w
      else if PB_ATYPE t = ATYPE_STATIC then
        let optional = (PB_HTYPE t = HTYPE_OPTIONAL \<and> it_pSize it \<noteq> it_pData it);
            counted = (\<not> optional \<and> (PB_HTYPE t = HTYPE_REPEATED \<or> PB_HTYPE t = HTYPE_ONEOF));
            w = (if optional then poke (it_pSize it) [0] w else if counted then poke (it_pSize it) (le_bytes 4 0) w else w)
        in if counted then Some w
           else if PB_LTYPE t = LTYPE_SUBMESSAGE then each_of_message f (dv_fields env (pf_ptr field)) (it_pData it) w
           else if pf_ptr field \<noteq> 0 then Some (poke (it_pData it) (load_bytes (wd_mem w) (pf_ptr field) (unat (pf_data_size field))) w)
           else Some (poke (it_pData it) (replicate (unat (pf_data_size field)) 0) w)
      else if PB_ATYPE t = ATYPE_POINTER then
        let w = poke (it_pData it) (le_bytes 8 0) w in
        Some (if PB_HTYPE t = HTYPE_REPEATED \<or> PB_HTYPE t = HTYPE_ONEOF then poke (it_pSize it) (le_bytes 4 0) w else w)
      else Some w)"

primrec pb_field_set_to_default :: "nat \<Rightarrow> 's pb_denv \<Rightarrow> pb_field_iter \<Rightarrow> pb_world \<Rightarrow> pb_world option" where
  "pb_field_set_to_default 0 env = (\<lambda>it w. None)"
| "pb_field_set_to_default (Suc d) env = default_field (pb_field_set_to_default d env) env d"

definition pb_message_set_to_defaults :: "nat \<Rightarrow> 's pb_denv \<Rightarrow> pb_field list \<Rightarrow> nat \<Rightarrow> pb_world \<Rightarrow> pb_world option" where
  "pb_message_set_to_defaults d env = each_of_message (pb_field_set_to_default d env)"

text \<open>\<open>pb_release_single_field\<close>: the loops over submessages and over the entries of an array.\<close>

primrec release_items :: "(nat \<Rightarrow> pb_world \<Rightarrow> pb_world option) \<Rightarrow> nat \<Rightarrow> nat \<Rightarrow> nat \<Rightarrow> pb_world \<Rightarrow> pb_world option" where
  "release_items f step 0 p w = Some w"
| "release_items f step (Suc n) p w = (case f p w of None \<Rightarrow> None | Some w \<Rightarrow> release_items f step n (p + step) w)"

definition release_entry :: "nat \<Rightarrow> pb_world \<Rightarrow> pb_world option" where
  "release_entry p w = map_option (poke p (le_bytes 8 0)) (pb_free (get 8 p w) w)"

definition release_main :: "pb_field_iter \<Rightarrow> pb_world \<Rightarrow> pb_world option" where
  "release_main it w =
     (let t = pf_type (it_field it) in
      if PB_ATYPE t \<noteq> ATYPE_POINTER then Some w
      else
        case (if PB_HTYPE t = HTYPE_REPEATED \<and> (PB_LTYPE t = LTYPE_STRING \<or> PB_LTYPE t = LTYPE_BYTES)
              then release_items release_entry 8 (get 4 (it_pSize it) w) (get 8 (it_pData it) w) w else Some w) of
          None \<Rightarrow> None
        | Some w \<Rightarrow>
            let w = (if PB_HTYPE t = HTYPE_REPEATED then poke (it_pSize it) (le_bytes 4 0) w else w)
            in map_option (poke (it_pData it) (le_bytes 8 0)) (pb_free (get 8 (it_pData it) w) w))"

definition release_field :: "(pb_field_iter \<Rightarrow> pb_world \<Rightarrow> pb_world option) \<Rightarrow> 's pb_denv \<Rightarrow> nat \<Rightarrow> pb_field_iter \<Rightarrow> pb_world \<Rightarrow> pb_world option" where
  "release_field f env n it w =
     (let field = it_field it; t = pf_type field in
      if PB_HTYPE t = HTYPE_ONEOF \<and> get 4 (it_pSize it) w \<noteq> unat (pf_tag field) then Some w
      else
        case (if PB_LTYPE t = LTYPE_EXTENSION then
                each_extension (\<lambda>ext w. f (iter_from_extension env ext w) w) n (get 8 (it_pData it) w) w
              else if PB_LTYPE t = LTYPE_SUBMESSAGE \<and> PB_ATYPE t \<noteq> ATYPE_CALLBACK then
                let pItem = (if PB_ATYPE t = ATYPE_POINTER then get 8 (it_pData it) w else it_pData it);
                    count = (if PB_HTYPE t = HTYPE_REPEATED then
                               let c = (if PB_ATYPE t = ATYPE_STATIC \<and> it_pSize it = it_pData it then unat (pf_array_size field)
                                        else get 4 (it_pSize it) w)
                               in if PB_ATYPE t = ATYPE_STATIC \<and> c > unat (pf_array_size field) then unat (pf_array_size field) else c
                             else 1)
                in if pItem \<noteq> 0
                   then release_items (\<lambda>p w. if p = 0 then Some w else each_of_message f (dv_fields env (pf_ptr field)) p w)
                          (unat (pf_data_size field)) count pItem w
                   else Some w
              else Some w) of
          None \<Rightarrow> None
        | Some w \<Rightarrow> release_main it w)"

primrec pb_release_single_field :: "nat \<Rightarrow> 's pb_denv \<Rightarrow> pb_field_iter \<Rightarrow> pb_world \<Rightarrow> pb_world option" where
  "pb_release_single_field 0 env = (\<lambda>it w. None)"
| "pb_release_single_field (Suc d) env = release_field (pb_release_single_field d env) env d"

definition pb_release :: "nat \<Rightarrow> 's pb_denv \<Rightarrow> pb_field list \<Rightarrow> nat \<Rightarrow> pb_world \<Rightarrow> pb_world option" where
  "pb_release d env fs dest w =
     (if dest = 0 then Some w else each_of_message (pb_release_single_field d env) fs dest w)"

section \<open>Fields\<close>

text \<open>What \<open>iter->pSize\<close> points to: memory, or the local \<open>fixed_count_size\<close>.\<close>

definition get_size :: "nat option \<Rightarrow> pb_world \<Rightarrow> u32" where
  "get_size cell w = (case cell of Some p \<Rightarrow> of_nat (get 4 p w) | None \<Rightarrow> wd_count w)"

definition set_size :: "nat option \<Rightarrow> u32 \<Rightarrow> pb_world \<Rightarrow> pb_world" where
  "set_size cell n w = (case cell of Some p \<Rightarrow> poke p (le_bytes 4 (unat n)) w | None \<Rightarrow> w \<lparr> wd_count := n \<rparr>)"

definition bump_size :: "nat option \<Rightarrow> pb_world \<Rightarrow> pb_world" where
  "bump_size cell w = set_size cell (get_size cell w + 1) w"

text \<open>The address of the next item; the product is one of 32-bit numbers.\<close>

definition next_item :: "pb_field \<Rightarrow> nat \<Rightarrow> nat option \<Rightarrow> pb_world \<Rightarrow> nat" where
  "next_item field base cell w = base + unat (pf_data_size field * get_size cell w)"

primrec packed_items :: "(nat \<Rightarrow> 's pb_dec) \<Rightarrow> pb_field \<Rightarrow> nat \<Rightarrow> nat option \<Rightarrow> nat \<Rightarrow> 's pb_dec" where
  "packed_items func field pData cell 0 = (\<lambda>w s. None)"
| "packed_items func field pData cell (Suc n) = (\<lambda>w s.
     if is_bytes_left s > 0 \<and> get_size cell w < pf_array_size field then
       de_then (func (next_item field pData cell w)) (de_do (bump_size cell) (packed_items func field pData cell n)) w s
     else de_return True w s)"

definition decode_static_field ::
    "(nat \<Rightarrow> 's pb_dec) \<Rightarrow> (pb_field list \<Rightarrow> nat \<Rightarrow> pb_world \<Rightarrow> pb_world option) \<Rightarrow> 's pb_denv \<Rightarrow> u32 \<Rightarrow> pb_field_iter \<Rightarrow> nat option \<Rightarrow> 's pb_dec" where
  "decode_static_field func defaults env wire_type it cell =
     (let field = it_field it; t = pf_type field; h = PB_HTYPE t in
      if h = HTYPE_REQUIRED then func (it_pData it)
      else if h = HTYPE_OPTIONAL then
        (if it_pSize it \<noteq> it_pData it then de_do (poke (it_pSize it) [1]) (func (it_pData it)) else func (it_pData it))
      else if h = HTYPE_REPEATED then
        if wire_type = 2 \<and> PB_LTYPE t \<le> LTYPE_LAST_PACKABLE then
          de_read pb_make_string_substream (\<lambda>substream w s.
            case packed_items func field (it_pData it) cell (is_bytes_left substream + 1) w substream of
              None \<Rightarrow> None
            | Some ((status, w), substream) \<Rightarrow>
                if is_bytes_left substream \<noteq> 0 then de_error ''array overflow'' w s
                else de_read (pb_close_string_substream substream) (\<lambda>_. de_return status) w s)
        else
          (\<lambda>w s.
            let pItem = next_item field (it_pData it) cell w; full = (get_size cell w \<ge> pf_array_size field); w = bump_size cell w in
            if full then de_error ''array overflow'' w s else func pItem w s)
      else
        (\<lambda>w. de_try (\<lambda>w. if PB_LTYPE t = LTYPE_SUBMESSAGE \<and> get 4 (it_pSize it) w \<noteq> unat (pf_tag field)
                 then defaults (dv_fields env (pf_ptr field)) (it_pData it) (poke (it_pData it) (replicate (unat (pf_data_size field)) 0) w)
                 else Some w)
              (de_do (poke (it_pSize it) (le_bytes 4 (unat (pf_tag field)))) (func (it_pData it))) w))"

definition initialize_pointer_field ::
    "(pb_field list \<Rightarrow> nat \<Rightarrow> pb_world \<Rightarrow> pb_world option) \<Rightarrow> 's pb_denv \<Rightarrow> pb_field \<Rightarrow> nat \<Rightarrow> pb_world \<Rightarrow> pb_world option" where
  "initialize_pointer_field defaults env field pItem w =
     (let t = PB_LTYPE (pf_type field) in
      if t = LTYPE_STRING \<or> t = LTYPE_BYTES then Some (poke pItem (le_bytes 8 0) w)
      else if t = LTYPE_SUBMESSAGE then defaults (dv_fields env (pf_ptr field)) pItem (poke pItem (replicate (unat (pf_data_size field)) 0) w)
      else Some w)"

text \<open>
  The loop over a packed array that is allocated; the second flag says that the message of the parent stream is set to
  ``too many array entries''.
\<close>

primrec packed_grow ::
    "(nat \<Rightarrow> 's pb_dec) \<Rightarrow> (nat \<Rightarrow> pb_world \<Rightarrow> pb_world option) \<Rightarrow> 's pb_denv \<Rightarrow> pb_field \<Rightarrow> nat \<Rightarrow> nat option \<Rightarrow> nat \<Rightarrow> nat \<Rightarrow>
     pb_world \<Rightarrow> 's pb_istream \<Rightarrow> (((bool \<times> bool) \<times> pb_world) \<times> 's pb_istream) option" where
  "packed_grow func ini env field pData cell 0 allocated_size = (\<lambda>w s. None)"
| "packed_grow func ini env field pData cell (Suc n) allocated_size = (\<lambda>w s.
     if is_bytes_left s = 0 then Some (((True, False), w), s)
     else if get_size cell w = 0xFFFFFFFF then Some (((False, True), w), s)
     else
       let grow = (unat (get_size cell w) + 1 > allocated_size);
           remain = (is_bytes_left s - 1) div unat (pf_data_size field) + 1;
           allocated = (if \<not> grow then allocated_size
                        else if remain < size_add 0xFFFFFFFF (size_lim - allocated_size) then size_add allocated_size remain
                        else size_add allocated_size 1)
       in if grow \<and> pf_data_size field = 0 then None
          else
            case (if grow then allocate_field env pData (unat (pf_data_size field)) allocated w s else de_return True w s) of
              None \<Rightarrow> None
            | Some ((False, w), s) \<Rightarrow> Some (((False, False), w), s)
            | Some ((True, w), s) \<Rightarrow>
                let pItem = next_item field (get 8 pData w) cell w in
                if pItem = 0 then Some (((False, False), w), s)
                else
                  case de_try (ini pItem) (func pItem) w s of
                    None \<Rightarrow> None
                  | Some ((False, w), s) \<Rightarrow> Some (((False, False), w), s)
                  | Some ((True, w), s) \<Rightarrow> packed_grow func ini env field pData cell n allocated (bump_size cell w) s)"

definition decode_pointer_field ::
    "(nat \<Rightarrow> 's pb_dec) \<Rightarrow> (pb_field list \<Rightarrow> nat \<Rightarrow> pb_world \<Rightarrow> pb_world option) \<Rightarrow> (pb_field_iter \<Rightarrow> pb_world \<Rightarrow> pb_world option) \<Rightarrow>
     's pb_denv \<Rightarrow> u32 \<Rightarrow> pb_field_iter \<Rightarrow> nat option \<Rightarrow> 's pb_dec" where
  "decode_pointer_field func defaults release env wire_type it cell =
     (let field = it_field it; t = pf_type field; h = PB_HTYPE t; pData = it_pData it;
          ini = initialize_pointer_field defaults env field in
      if h = HTYPE_REPEATED then
        if wire_type = 2 \<and> PB_LTYPE t \<le> LTYPE_LAST_PACKABLE then
          de_read pb_make_string_substream (\<lambda>substream w s.
            case packed_grow func ini env field pData cell (is_bytes_left substream + 1) (unat (get_size cell w)) w substream of
              None \<Rightarrow> None
            | Some (((status, many), w), substream) \<Rightarrow>
                de_read (pb_close_string_substream substream) (\<lambda>_. de_return status) w
                  (if many then s \<lparr> is_errmsg := Some ''too many array entries'' \<rparr> else s))
        else
          (\<lambda>w s.
            if get_size cell w = 0xFFFFFFFF then de_error ''too many array entries'' w s
            else de_then (allocate_field env pData (unat (pf_data_size field)) (unat (get_size cell w + 1)))
              (\<lambda>w. let pItem = next_item field (get 8 pData w) cell w
                   in de_try (ini pItem) (func pItem) (bump_size cell w)) w s)
      else
        de_try (\<lambda>w. if PB_LTYPE t = LTYPE_SUBMESSAGE \<and> get 8 pData w \<noteq> 0 then release it w else Some w)
          (de_do (\<lambda>w. if h = HTYPE_ONEOF then poke (it_pSize it) (le_bytes 4 (unat (pf_tag field))) w else w)
             (if PB_LTYPE t = LTYPE_STRING \<or> PB_LTYPE t = LTYPE_BYTES then func pData
              else de_then (allocate_field env pData (unat (pf_data_size field)) 1)
                     (\<lambda>w. de_try (ini (get 8 pData w)) (func (get 8 pData w)) w))))"

text \<open>The callback is called until the substream is empty, which may never be.\<close>

partial_function (option) callback_loop :: "'s pb_dec \<Rightarrow> pb_world \<Rightarrow> 's pb_istream \<Rightarrow> ((bool \<times> pb_world) \<times> 's pb_istream) option" where
  "callback_loop f w s =
     (case f w s of
        None \<Rightarrow> None
      | Some r \<Rightarrow>
          if fst (fst r) \<and> is_bytes_left (snd r) \<noteq> 0 then callback_loop f (snd (fst r)) (snd r) else Some r)"

definition decode_callback_field :: "'s pb_denv \<Rightarrow> u32 \<Rightarrow> pb_field_iter \<Rightarrow> 's pb_dec" where
  "decode_callback_field env wire_type it w s =
     (let pData = it_pData it; decode = get 8 pData w; f = dv_callback env decode (it_field it) (pData + 8) in
      if pData = 0 \<or> decode = 0 then de_read (pb_skip_field wire_type) (\<lambda>_. de_return True) w s
      else if wire_type = 2 then
        de_read pb_make_string_substream (\<lambda>substream w s.
          case callback_loop f w substream of
            None \<Rightarrow> None
          | Some ((False, w), substream) \<Rightarrow> de_error ''callback failed'' w s
          | Some ((True, w), substream) \<Rightarrow> de_read (pb_close_string_substream substream) (\<lambda>_. de_return True) w s) w s
      else
        de_read (read_raw_value wire_type 10) (\<lambda>buffer w s.
          case f w (pb_istream_from_buffer buffer (length buffer)) of
            None \<Rightarrow> None
          | Some ((status, w), substream) \<Rightarrow> de_return status w s) w s)"

text \<open>\<open>pb_release_union_field\<close> moves the iterator away and back; the iterator is part of its result.\<close>

definition pb_release_union_field ::
    "(pb_field_iter \<Rightarrow> pb_world \<Rightarrow> pb_world option) \<Rightarrow> pb_field_iter \<Rightarrow> pb_world \<Rightarrow> 's pb_istream \<Rightarrow>
     (((bool \<times> pb_field_iter) \<times> pb_world) \<times> 's pb_istream) option" where
  "pb_release_union_field release it w s =
     (let old_tag = of_nat (get 4 (it_pSize it) w) :: u32; new_tag = pf_tag (it_field it) in
      if old_tag = 0 \<or> old_tag = new_tag then Some (((True, it), w), s)
      else
        case pb_field_iter_find it old_tag of
          None \<Rightarrow> None
        | Some (False, it) \<Rightarrow> Some (((False, it), w), s \<lparr> is_errmsg := set_error ''invalid union tag'' (is_errmsg s) \<rparr>)
        | Some (True, it) \<Rightarrow>
            (case release it w of
               None \<Rightarrow> None
             | Some w \<Rightarrow>
                 (case pb_field_iter_find it new_tag of
                    None \<Rightarrow> None
                  | Some (False, it) \<Rightarrow> Some (((False, it), w), s \<lparr> is_errmsg := set_error ''iterator error'' (is_errmsg s) \<rparr>)
                  | Some (True, it) \<Rightarrow>
                      Some (((True, it), if PB_ATYPE (pf_type (it_field it)) = ATYPE_POINTER then poke (it_pData it) (le_bytes 8 0) w else w), s))))"

text \<open>
  \<open>decode_field\<close>, with the iterator as it leaves it.  \<open>d\<close> is the fuel of the functions it calls; \<open>fixed\<close> says that
  \<open>pSize\<close> points to the local counter.
\<close>

definition decode_field :: "nat \<Rightarrow> 's pb_msg \<Rightarrow> 's pb_denv \<Rightarrow> u32 \<Rightarrow> pb_field_iter \<Rightarrow> bool \<Rightarrow> pb_world \<Rightarrow> 's pb_istream \<Rightarrow>
    (((bool \<times> pb_field_iter) \<times> pb_world) \<times> 's pb_istream) option" where
  "decode_field d dec env wire_type it fixed w s =
     (case (if PB_HTYPE (pf_type (it_field it)) = HTYPE_ONEOF then pb_release_union_field (pb_release_single_field d env) it w s
            else Some (((True, it), w), s)) of
        None \<Rightarrow> None
      | Some (((False, it), w), s) \<Rightarrow> Some (((False, it), w), s)
      | Some (((True, it), w), s) \<Rightarrow>
          let field = it_field it; a = PB_ATYPE (pf_type field); func = PB_DECODERS dec env (PB_LTYPE (pf_type field)) field;
              cell = (if fixed then None else Some (it_pSize it)); defaults = pb_message_set_to_defaults d env
          in map_option (\<lambda>((status, w), s). (((status, it), w), s))
               (if a = ATYPE_STATIC then decode_static_field func defaults env wire_type it cell w s
                else if a = ATYPE_POINTER then decode_pointer_field func defaults (pb_release_single_field d env) env wire_type it cell w s
                else if a = ATYPE_CALLBACK then decode_callback_field env wire_type it w s
                else de_error ''invalid field type'' w s))"

section \<open>Extensions\<close>

definition default_extension_decoder :: "nat \<Rightarrow> 's pb_msg \<Rightarrow> 's pb_denv \<Rightarrow> nat \<Rightarrow> u32 \<Rightarrow> u32 \<Rightarrow> 's pb_dec" where
  "default_extension_decoder d dec env extension tag wire_type w s =
     (if pf_tag (field_at (dv_fields env (get 8 (get 8 extension w + 16) w)) 0) \<noteq> tag then de_return True w s
      else
        map_option (\<lambda>(((status, it), w), s). ((status, w), s))
          (decode_field d dec env wire_type (iter_from_extension env extension w) False (poke (extension + 24) [1] w) s))"

primrec extension_loop :: "nat \<Rightarrow> 's pb_msg \<Rightarrow> 's pb_denv \<Rightarrow> u32 \<Rightarrow> u32 \<Rightarrow> nat \<Rightarrow> nat \<Rightarrow> nat \<Rightarrow> 's pb_dec" where
  "extension_loop d dec env tag wire_type pos 0 extension = (\<lambda>w s. None)"
| "extension_loop d dec env tag wire_type pos (Suc n) extension = (\<lambda>w s.
     if extension = 0 \<or> pos \<noteq> is_bytes_left s then de_return True w s
     else
       let f = get 8 (get 8 extension w) w in
       de_then (if f \<noteq> 0 then dv_extension env f extension tag wire_type
                else default_extension_decoder d dec env extension tag wire_type)
         (\<lambda>w. extension_loop d dec env tag wire_type pos n (get 8 (extension + 16) w) w) w s)"

definition decode_extension :: "nat \<Rightarrow> 's pb_msg \<Rightarrow> 's pb_denv \<Rightarrow> u32 \<Rightarrow> u32 \<Rightarrow> pb_field_iter \<Rightarrow> 's pb_dec" where
  "decode_extension d dec env tag wire_type it w s =
     extension_loop d dec env tag wire_type (is_bytes_left s) d (get 8 (it_pData it) w) w s"

primrec extension_find :: "nat \<Rightarrow> nat \<Rightarrow> pb_field_iter \<Rightarrow> (bool \<times> pb_field_iter) option" where
  "extension_find 0 start it = None"
| "extension_find (Suc n) start it =
     (if PB_LTYPE (pf_type (it_field it)) = LTYPE_EXTENSION then Some (True, it)
      else let it = snd (pb_field_iter_next it) in if it_pos it \<noteq> start then extension_find n start it else Some (False, it))"

definition find_extension_field :: "pb_field_iter \<Rightarrow> (bool \<times> pb_field_iter) option" where
  "find_extension_field it = extension_find (length (it_start it) + 1) (it_pos it) it"

section \<open>Messages\<close>

text \<open>The checks behind the loop: the end of the field array, and the fields that were seen.\<close>

function seek_end :: "pb_field_iter \<Rightarrow> nat \<times> u8 \<times> pb_field_iter" where
  "seek_end it =
     (case pb_field_iter_next it of
        (True, it) \<Rightarrow> seek_end it
      | (False, it') \<Rightarrow> (it_required_field_index it, pf_type (it_field it), it'))"
  by pat_completeness auto
termination
  by (relation "measure (\<lambda>it. length (it_start it) - it_pos it)") (auto dest!: sym [of "(True, _)"] iter_next_pos)

declare seek_end.simps [simp del]

definition required_count :: "pb_field_iter \<Rightarrow> nat" where
  "required_count it =
     (case seek_end it of
        (n, last_type, it) \<Rightarrow>
          min 64 (if PB_HTYPE last_type = HTYPE_REQUIRED \<and> pf_tag (it_field it) \<noteq> 0 then n + 1 else n))"

definition all_seen :: "nat \<Rightarrow> u32 list \<Rightarrow> bool" where
  "all_seen n fields_seen \<longleftrightarrow>
     list_all (\<lambda>i. fields_seen ! i = 0xFFFFFFFF) [0..<n div 32] \<and>
     (n mod 32 = 0 \<or> fields_seen ! (n div 32) = drop_bit (32 - n mod 32) 0xFFFFFFFF)"

definition mark_seen :: "pb_field_iter \<Rightarrow> u32 list \<Rightarrow> u32 list" where
  "mark_seen it fields_seen =
     (let i = it_required_field_index it in
      if PB_HTYPE (pf_type (it_field it)) = HTYPE_REQUIRED \<and> i < 64
      then fields_seen[i div 32 := (fields_seen ! (i div 32)) OR push_bit (i mod 32) 1] else fields_seen)"

text \<open>\<open>fixed_count_field\<close> is a position in the array of fields.\<close>

definition wrong_count :: "pb_field_iter \<Rightarrow> nat option \<Rightarrow> pb_world \<Rightarrow> bool" where
  "wrong_count it fixed_count_field w \<longleftrightarrow>
     (case fixed_count_field of None \<Rightarrow> False | Some i \<Rightarrow> wd_count w \<noteq> pf_array_size (field_at (it_start it) i))"

definition decode_end :: "pb_field_iter \<Rightarrow> nat option \<Rightarrow> u32 list \<Rightarrow> 's pb_dec" where
  "decode_end it fixed_count_field fields_seen w =
     (if wrong_count it fixed_count_field w then de_error ''wrong size for fixed count field'' w
      else if \<not> all_seen (required_count it) fields_seen then de_error ''missing required field'' w
      else de_return True w)"

text \<open>
  The loop of \<open>pb_decode_noinit\<close>.  \<open>fixed\<close> says that \<open>pSize\<close> of the iterator points to \<open>fixed_count_size\<close>: it stays so
  as long as \<open>pb_field_iter_find\<close> finds the field without moving the iterator.
\<close>

primrec message_loop :: "nat \<Rightarrow> 's pb_msg \<Rightarrow> 's pb_denv \<Rightarrow> nat \<Rightarrow> pb_field_iter \<Rightarrow> bool \<Rightarrow> nat option \<Rightarrow> u32 list \<Rightarrow> u32 \<Rightarrow> 's pb_dec" where
  "message_loop d dec env 0 it fixed fixed_count_field fields_seen ext_start = (\<lambda>w s. None)"
| "message_loop d dec env (Suc n) it fixed fixed_count_field fields_seen ext_start = (\<lambda>w s.
     if is_bytes_left s = 0 then decode_end it fixed_count_field fields_seen w s
     else
       case pb_decode_tag s of
         None \<Rightarrow> None
       | Some ((None, eof), s) \<Rightarrow> if eof then decode_end it fixed_count_field fields_seen w s else Some ((False, w), s)
       | Some ((Some (wire_type, tag), eof), s) \<Rightarrow>
           let hit = (pf_tag (it_field it) = tag \<and> PB_LTYPE (pf_type (it_field it)) \<noteq> LTYPE_EXTENSION) in
           case pb_field_iter_find it tag of
             None \<Rightarrow> None
           | Some (False, it) \<Rightarrow>
               (case (if tag \<ge> ext_start then find_extension_field it else Some (False, it)) of
                  None \<Rightarrow> None
                | Some (found, it) \<Rightarrow>
                    let ext = (if tag \<ge> ext_start then if found then pf_tag (it_field it) else 0xFFFFFFFF else ext_start);
                        attempt = (tag \<ge> ext_start \<and> tag \<ge> ext); pos = is_bytes_left s
                    in de_then (if attempt then decode_extension d dec env tag wire_type it else de_return True)
                         (\<lambda>w s.
                           if attempt \<and> pos \<noteq> is_bytes_left s
                           then message_loop d dec env n it False fixed_count_field fields_seen ext w s
                           else de_read (pb_skip_field wire_type)
                                  (\<lambda>_. message_loop d dec env n it False fixed_count_field fields_seen ext) w s) w s)
           | Some (True, it) \<Rightarrow>
               let fixed = (fixed \<and> hit);
                   fixed_now = (PB_HTYPE (pf_type (it_field it)) = HTYPE_REPEATED \<and> \<not> fixed \<and> it_pSize it = it_pData it);
                   other = (fixed_now \<and> fixed_count_field \<noteq> Some (it_pos it))
               in if other \<and> wrong_count it fixed_count_field w then de_error ''wrong size for fixed count field'' w s
                  else
                    let w = (if other then w \<lparr> wd_count := 0 \<rparr> else w);
                        fixed_count_field = (if other then Some (it_pos it) else fixed_count_field);
                        fixed = (fixed \<or> fixed_now);
                        fields_seen = mark_seen it fields_seen
                    in case decode_field d dec env wire_type it fixed w s of
                         None \<Rightarrow> None
                       | Some (((False, it), w), s) \<Rightarrow> Some ((False, w), s)
                       | Some (((True, it), w), s) \<Rightarrow> message_loop d dec env n it fixed fixed_count_field fields_seen ext_start w s)"

definition decode_message :: "nat \<Rightarrow> 's pb_msg \<Rightarrow> 's pb_denv \<Rightarrow> pb_field list \<Rightarrow> nat \<Rightarrow> 's pb_dec" where
  "decode_message d dec env fs dest w s =
     map_option (\<lambda>((status, w'), s). ((status, w' \<lparr> wd_count := wd_count w \<rparr>), s))
       (message_loop d dec env (is_bytes_left s + 1) (snd (pb_field_iter_begin fs dest)) False None [0, 0] 0 (w \<lparr> wd_count := 0 \<rparr>) s)"

definition decode_init :: "nat \<Rightarrow> 's pb_denv \<Rightarrow> (pb_field list \<Rightarrow> nat \<Rightarrow> 's pb_dec) \<Rightarrow> pb_field list \<Rightarrow> nat \<Rightarrow> 's pb_dec" where
  "decode_init d env noinit fs dest w s =
     (case pb_message_set_to_defaults d env fs dest w of
        None \<Rightarrow> None
      | Some w \<Rightarrow>
          (case noinit fs dest w s of
             None \<Rightarrow> None
           | Some ((True, w), s) \<Rightarrow> Some ((True, w), s)
           | Some ((False, w), s) \<Rightarrow> map_option (\<lambda>w. ((False, w), s)) (pb_release d env fs dest w)))"

text \<open>\<open>d\<close> bounds the depth of submessages and the length of lists of extensions.\<close>

primrec pb_decode_noinit :: "nat \<Rightarrow> 's pb_denv \<Rightarrow> pb_field list \<Rightarrow> nat \<Rightarrow> 's pb_dec" where
  "pb_decode_noinit 0 env = (\<lambda>fs dest w s. None)"
| "pb_decode_noinit (Suc d) env =
     decode_message d (\<lambda>init. if init then decode_init d env (pb_decode_noinit d env) else pb_decode_noinit d env) env"

definition pb_decode :: "nat \<Rightarrow> 's pb_denv \<Rightarrow> pb_field list \<Rightarrow> nat \<Rightarrow> 's pb_dec" where
  "pb_decode d env = decode_init d env (pb_decode_noinit d env)"

definition pb_decode_delimited_noinit :: "nat \<Rightarrow> 's pb_denv \<Rightarrow> pb_field list \<Rightarrow> nat \<Rightarrow> 's pb_dec" where
  "pb_decode_delimited_noinit d env fs dest = in_substream (pb_decode_noinit d env fs dest)"

definition pb_decode_delimited :: "nat \<Rightarrow> 's pb_denv \<Rightarrow> pb_field list \<Rightarrow> nat \<Rightarrow> 's pb_dec" where
  "pb_decode_delimited d env fs dest = in_substream (pb_decode d env fs dest)"

definition pb_decode_nullterminated :: "nat \<Rightarrow> 's pb_denv \<Rightarrow> pb_field list \<Rightarrow> nat \<Rightarrow> 's pb_dec" where
  "pb_decode_nullterminated d env fs dest = pb_decode d env fs dest"

end
