(* ===== verification/PbEncodeProps.thy ===== *)
theory PbEncodeProps
  imports PbEncode
begin

text \<open>
  The encoder writes one byte string, whatever the stream: the same that a sizing run counts.  Hence the sizes written
  in front of submessages and packed arrays are right, a buffer of the announced size suffices, and nothing is written
  outside a smaller one.
\<close>

section \<open>Steady writers\<close>

text \<open>A stream over a buffer, which has fewer than \<open>2^63\<close> bytes.\<close>

definition on_buffer :: "'s pb_ostream \<Rightarrow> bool" where
  "on_buffer s \<longleftrightarrow> (case os_sink s of Out before dest \<Rightarrow> length dest < 2 ^ 63 | _ \<Rightarrow> False)"

definition refuses :: "'s pb_wr \<Rightarrow> bool" where
  "refuses f \<longleftrightarrow> (\<forall>s s'. on_buffer s \<longrightarrow> f s \<noteq> Some (True, s'))"

definition steady :: "'s pb_wr \<Rightarrow> bool" where
  "steady f \<longleftrightarrow> (\<exists>bs. length bs < 2 ^ 63 \<and> pb_writer f bs) \<or> refuses f"

lemma writer_on_buffer:
  assumes "pb_writer f bs" "on_buffer s" "f s = Some (True, s')"
  shows "on_buffer s' \<and> length bs < 2 ^ 63"
proof -
  obtain before dest where "os_sink s = Out before dest" "length dest < 2 ^ 63"
    using assms(2) by (auto simp: on_buffer_def split: pb_sink.splits)
  with pb_writer.exact [OF assms(1) this(1) assms(3)] show ?thesis by (auto simp: on_buffer_def)
qed

lemma steady_writer: "pb_writer f bs \<Longrightarrow> steady f"
proof (cases "length bs < 2 ^ 63")
  case False
  assume f: "pb_writer f bs"
  have "refuses f" unfolding refuses_def using writer_on_buffer [OF f] False by blast
  then show ?thesis by (simp add: steady_def)
qed (auto simp: steady_def)

lemma steady_cases:
  assumes "steady f"
  obtains (writer) bs where "pb_writer f bs" "length bs < 2 ^ 63" | (refuses) "refuses f"
  using assms by (auto simp: steady_def)

lemma refusesI: "(\<And>s s'. on_buffer s \<Longrightarrow> f s = Some (True, s') \<Longrightarrow> False) \<Longrightarrow> steady f"
  by (auto simp: steady_def refuses_def)

lemma refusesD: "refuses f \<Longrightarrow> on_buffer s \<Longrightarrow> f s = Some (True, s') \<Longrightarrow> P"
  by (auto simp: refuses_def)

lemma steady_error [simp]: "steady (wr_error msg)"
  by (rule refusesI) (simp add: wr_error_def)

lemma steady_None [simp]: "steady (\<lambda>s. None)"
  by (rule refusesI) simp

lemma steady_return [simp]: "steady wr_return"
  by (rule steady_writer [OF pb_writer_return])

lemma steady_then:
  assumes "steady f" "steady g"
  shows "steady (wr_then f g)"
  using assms(1)
proof (cases rule: steady_cases)
  case (writer as)
  note f = writer
  show ?thesis using assms(2)
  proof (cases rule: steady_cases)
    case (writer bs)
    from steady_writer [OF pb_writer_then [OF f(1) this(1)]] show ?thesis .
  next
    case refuses
    show ?thesis
    proof (rule refusesI)
      fix s s'
      assume s: "on_buffer s" "wr_then f g s = Some (True, s')"
      then obtain t where "f s = Some (True, t)" "g t = Some (True, s')" by (auto simp: wr_then_def split: option.splits bool.splits)
      then show False using refusesD [OF refuses] writer_on_buffer [OF f(1) s(1)] by blast
    qed
  qed
next
  case refuses
  show ?thesis
    by (rule refusesI) (auto simp: wr_then_def split: option.splits bool.splits elim: refusesD [OF refuses])
qed

lemma steady_varint [simp]: "steady (pb_encode_varint v)"
  by (rule steady_writer [OF pb_writer_varint])

lemma steady_svarint [simp]: "steady (pb_encode_svarint v)"
  by (rule steady_writer [OF pb_writer_svarint])

lemma steady_fixed [simp]: "steady (pb_encode_fixed32 v)" "steady (pb_encode_fixed64 w)"
  by (rule steady_writer [OF pb_writer_fixed32] steady_writer [OF pb_writer_fixed64])+

lemma steady_tag [simp]: "steady (pb_encode_tag t n)"
  unfolding pb_encode_tag_def by simp

lemma steady_tag_for_field [simp]: "steady (pb_encode_tag_for_field field)"
  by (auto simp: pb_encode_tag_for_field_def Let_def)

lemma steady_write:
  assumes "case buf of None \<Rightarrow> True | Some b \<Rightarrow> length b = n" "n < size_lim"
  shows "steady (pb_write buf n :: 's pb_wr)"
proof (cases buf)
  case None
  show ?thesis
  proof (cases "n = 0")
    case True
    then have "(pb_write buf n :: 's pb_wr) = pb_write (Some []) 0" unfolding None by (intro ext) (simp add: pb_write_def)
    then show ?thesis using steady_writer [OF pb_writer_write [of "[]" 0]] by simp
  next
    case False
    then show ?thesis unfolding None
      by (intro refusesI) (auto simp: pb_write_def Let_def wr_error_def on_buffer_def split: if_splits pb_sink.splits)
  qed
next
  case (Some b)
  then show ?thesis using assms by (auto intro: steady_writer pb_writer_write)
qed

lemma steady_string: "(case buf of None \<Rightarrow> True | Some b \<Rightarrow> length b = n) \<Longrightarrow> n < size_lim \<Longrightarrow> steady (pb_encode_string buf n)"
  unfolding pb_encode_string_def by (intro steady_then steady_varint steady_write)

section \<open>The encoders are steady\<close>

lemma length_load_bytes [simp]: "length (load_bytes m p n) = n"
  by (simp add: load_bytes_def)

lemma buffer_at_length: "case buffer_at m p n of None \<Rightarrow> True | Some b \<Rightarrow> length b = n"
  by (simp add: buffer_at_def)

lemma load_bound: "load n m p < 256 ^ n"
proof (induction n arbitrary: p)
  case (Suc n)
  have step: "b + 256 * x < 256 * y" if "b < 256" "x < y" for b x y :: nat
    using that by linarith
  have "unat (m p) < 256" using unsigned_less [of "m p"] by simp
  from step [OF this Suc [of "p + 1"]] show ?case by simp
qed simp

lemma load_4_bound: "load 4 m p < size_lim"
  using load_bound [of 4 m p] by simp

lemma string_size_bound: "n \<le> max_size \<Longrightarrow> string_size m max_size p n \<le> max_size"
proof (induction m max_size p n rule: string_size.induct)
  case (1 m max_size p n)
  then show ?case by (subst string_size.simps) auto
qed

lemma steady_scalar [simp]:
  "steady (pb_enc_bool m field src)" "steady (pb_enc_varint m field src)" "steady (pb_enc_uvarint m field src)"
  "steady (pb_enc_svarint m field src)" "steady (pb_enc_fixed32 m field src)" "steady (pb_enc_fixed64 m field src)"
  by (auto simp: pb_enc_bool_def pb_enc_varint_def pb_enc_uvarint_def pb_enc_svarint_def pb_enc_fixed32_def pb_enc_fixed64_def Let_def split: option.splits)

lemma steady_enc_bytes [simp]: "steady (pb_enc_bytes m field src :: 's pb_wr)"
proof -
  have "steady (pb_encode_string (Some (load_bytes m (src + 4) (load 4 m src))) (load 4 m src) :: 's pb_wr)"
    by (rule steady_string [OF _ load_4_bound]) simp
  moreover have "steady (pb_encode_string None 0 :: 's pb_wr)" by (rule steady_string) simp_all
  ultimately show ?thesis unfolding pb_enc_bytes_def Let_def by simp
qed

lemma u32_below: "unat (n :: u32) < size_lim"
  by (rule less_trans [OF u32_less_lim]) simp

lemma steady_buffer: "n < size_lim \<Longrightarrow> steady (pb_encode_string (buffer_at m p n) n)"
  by (rule steady_string [OF buffer_at_length])

lemma steady_enc_string [simp]: "steady (pb_enc_string m field src)"
proof -
  define max_size where "max_size = (if PB_ATYPE (pf_type field) = ATYPE_POINTER then size_lim - 1 else unat (pf_data_size field))"
  have "max_size < size_lim" unfolding max_size_def using u32_below by simp
  moreover have "(if src = 0 then 0 else string_size m max_size src 0) \<le> max_size" by (simp add: string_size_bound)
  ultimately have "(if src = 0 then 0 else string_size m max_size src 0) < size_lim" by (rule le_less_trans [rotated])
  then show ?thesis unfolding pb_enc_string_def Let_def max_size_def [symmetric] by (rule steady_buffer)
qed

lemma steady_enc_fixed_length_bytes [simp]: "steady (pb_enc_fixed_length_bytes m field src)"
  unfolding pb_enc_fixed_length_bytes_def by (rule steady_buffer [OF u32_below])

text \<open>A length and a value of that length, as submessages and packed arrays are written: on a sizing stream the value is only counted.\<close>

lemma sizing_write_null: "sizing s \<Longrightarrow> pb_write None n s = Some (True, counted n s)"
  by (simp add: pb_write_def sizing_def counted_def)

lemma out_not_sizing: "out_ok s \<Longrightarrow> \<not> is_Sizing (os_sink s)" "os_sink s = Out before dest \<Longrightarrow> \<not> is_Sizing (os_sink s)"
  by (auto simp: out_ok_def split: pb_sink.splits)

lemma pb_writer_sized:
  assumes f: "pb_writer f bs"
  shows "pb_writer (\<lambda>s. if is_Sizing (os_sink s) then pb_write None (length bs) s else f s) bs" (is "pb_writer ?g bs")
proof -
  have out: "?g s = f s" if "\<not> is_Sizing (os_sink s)" for s :: "'a pb_ostream" using that by simp
  show ?thesis
  proof (rule pb_writer.intro)
    fix s :: "'a pb_ostream"
    assume "sizing s"
    then show "?g s = Some (True, counted (length bs) s)" by (simp add: sizing_write_null) (simp add: sizing_def)
  next
    fix s :: "'a pb_ostream"
    assume "out_ok s" "os_errmsg s = None" "os_bytes_written s + length bs \<le> os_max_size s"
    from pb_writer.fits [OF f this] show "?g s = Some (True, wrote bs s)" by (subst out [OF out_not_sizing(1) [OF \<open>out_ok s\<close>]])
  next
    fix s :: "'a pb_ostream"
    assume "out_ok s" "os_errmsg s = None" "os_max_size s < os_bytes_written s + length bs"
    from pb_writer.full [OF f this] show "\<exists>s'. ?g s = Some (False, s') \<and> out_ok s'" by (subst out [OF out_not_sizing(1) [OF \<open>out_ok s\<close>]])
  next
    fix s s' :: "'a pb_ostream" and before dest
    assume s: "os_sink s = Out before dest" and g: "?g s = Some (True, s')"
    from g have "f s = Some (True, s')" by (subst (asm) out [OF out_not_sizing(2) [OF s]])
    from pb_writer.exact [OF f s this]
    show "length bs \<le> length dest \<and> os_sink s' = Out (before @ bs) (drop (length bs) dest)" .
  qed
qed

text \<open>Submessages.\<close>

text \<open>What \<open>pb_encode_submessage\<close> does after the length was written.\<close>

definition submessage_body :: "'s pb_wr \<Rightarrow> nat \<Rightarrow> 's pb_wr" where
  "submessage_body enc n stream =
     (if is_Sizing (os_sink stream) then pb_write None n stream
      else if size_add (os_bytes_written stream) n > os_max_size stream then wr_error ''stream full'' stream
      else
        case enc \<lparr> os_sink = os_sink stream, os_max_size = n, os_bytes_written = 0, os_errmsg = None \<rparr> of
          None \<Rightarrow> None
        | Some (status, substream) \<Rightarrow>
            let stream = stream \<lparr> os_bytes_written := size_add (os_bytes_written stream) (os_bytes_written substream),
                  os_sink := os_sink substream, os_errmsg := os_errmsg substream \<rparr>
            in if os_bytes_written substream \<noteq> n then wr_error ''submsg size changed'' stream
               else Some (status, stream))"

lemma submessage_alt:
  "pb_encode_submessage enc stream =
     (case enc PB_OSTREAM_SIZING of
        None \<Rightarrow> None
      | Some (False, substream) \<Rightarrow> Some (False, stream \<lparr> os_errmsg := os_errmsg substream \<rparr>)
      | Some (True, substream) \<Rightarrow>
          wr_then (pb_encode_varint (of_nat (os_bytes_written substream))) (submessage_body enc (os_bytes_written substream)) stream)"
  unfolding pb_encode_submessage_def submessage_body_def Let_def ..

lemma writer_submessage_body:
  assumes enc: "pb_writer enc bs" and n: "length bs < 2 ^ 63"
  shows "pb_writer (submessage_body enc (length bs)) bs"
proof (rule pb_writer.intro)
  fix s :: "'a pb_ostream"
  assume "sizing s"
  then show "submessage_body enc (length bs) s = Some (True, counted (length bs) s)"
    by (simp add: submessage_body_def sizing_write_null) (simp add: sizing_def)
next
  fix s :: "'a pb_ostream"
  assume s: "out_ok s" "os_errmsg s = None" "os_bytes_written s + length bs \<le> os_max_size s"
  then obtain before dest where d: "os_sink s = Out before dest" "os_max_size s \<le> os_bytes_written s + length dest" "os_max_size s < 2 ^ 63"
    by (auto simp: out_ok_def split: pb_sink.splits)
  let ?sub = "\<lparr> os_sink = os_sink s, os_max_size = length bs, os_bytes_written = 0, os_errmsg = None \<rparr>"
  have "enc ?sub = Some (True, wrote bs ?sub)"
    by (rule pb_writer.fits [OF enc]) (use d s(3) n in \<open>simp_all add: out_ok_def\<close>)
  moreover have "size_add (os_bytes_written s) (length bs) = os_bytes_written s + length bs"
    using s(3) d(3) by (intro size_add_exact) simp
  ultimately show "submessage_body enc (length bs) s = Some (True, wrote bs s)"
    using s d by (cases s) (simp add: submessage_body_def wrote_def)
next
  fix s :: "'a pb_ostream"
  assume s: "out_ok s" "os_errmsg s = None" "os_max_size s < os_bytes_written s + length bs"
  then have "size_add (os_bytes_written s) (length bs) = os_bytes_written s + length bs"
    using n by (intro size_add_exact) (auto simp: out_ok_def split: pb_sink.splits)
  then show "\<exists>s'. submessage_body enc (length bs) s = Some (False, s') \<and> out_ok s'"
    using s by (auto simp: submessage_body_def wr_error_def out_ok_def split: pb_sink.splits)
next
  fix s s' :: "'a pb_ostream" and before dest
  assume s: "os_sink s = Out before dest" "submessage_body enc (length bs) s = Some (True, s')"
  let ?sub = "\<lparr> os_sink = os_sink s, os_max_size = length bs, os_bytes_written = 0, os_errmsg = None \<rparr>"
  obtain t where "enc ?sub = Some (True, t)" "os_sink s' = os_sink t"
    using s by (auto simp: submessage_body_def wr_error_def Let_def split: if_splits option.splits)
  then show "length bs \<le> length dest \<and> os_sink s' = Out (before @ bs) (drop (length bs) dest)"
    using pb_writer.exact [OF enc, of ?sub before dest t] s(1) by simp
qed

lemma refuses_submessage_body:
  assumes "refuses enc" "on_buffer s" "submessage_body enc n s = Some (True, s')"
  shows False
proof -
  let ?sub = "\<lparr> os_sink = os_sink s, os_max_size = n, os_bytes_written = 0, os_errmsg = None \<rparr>"
  have "\<not> is_Sizing (os_sink s)" using assms(2) by (auto simp: on_buffer_def split: pb_sink.splits)
  then obtain t where "enc ?sub = Some (True, t)"
    using assms(3) by (auto simp: submessage_body_def wr_error_def Let_def split: if_splits option.splits)
  moreover have "on_buffer ?sub" using assms(2) by (simp add: on_buffer_def)
  ultimately show False using refusesD [OF assms(1)] by blast
qed

lemma writer_submessage:
  assumes enc: "pb_writer enc bs" and n: "length bs < 2 ^ 63"
  shows "pb_writer (pb_encode_submessage enc) (varint (length bs) @ bs)"
proof -
  obtain s where s: "enc PB_OSTREAM_SIZING = Some (True, s)" "os_bytes_written s = length bs"
    using pb_writer.sized [OF enc] n by auto
  have "unat (of_nat (length bs) :: u64) = length bs" using n by (simp add: unat_of_nat)
  then have "pb_writer (pb_encode_varint (of_nat (length bs))) (varint (length bs))" using pb_writer_varint [of "of_nat (length bs)"] by simp
  from pb_writer_then [OF this writer_submessage_body [OF assms]]
  show ?thesis using s by (simp add: submessage_alt [abs_def])
qed

lemma steady_submessage: "steady enc \<Longrightarrow> steady (pb_encode_submessage enc)"
proof (erule steady_cases)
  fix bs assume "pb_writer enc bs" "length bs < 2 ^ 63"
  then show "steady (pb_encode_submessage enc)" by (rule steady_writer [OF writer_submessage])
next
  assume enc: "refuses enc"
  show "steady (pb_encode_submessage enc)"
  proof (rule refusesI)
    fix s s'
    assume s: "on_buffer s" "pb_encode_submessage enc s = Some (True, s')"
    then obtain v n t where "pb_encode_varint v s = Some (True, t)" "submessage_body enc n t = Some (True, s')"
      by (auto simp: submessage_alt wr_then_def split: option.splits bool.splits)
    with refuses_submessage_body [OF enc] writer_on_buffer [OF pb_writer_varint s(1)] show False by blast
  qed
qed

text \<open>Arrays.\<close>

lemma steady_items: "(\<And>p. steady (func p)) \<Longrightarrow> steady (encode_items func step n p)"
  by (induction n arbitrary: p) (simp_all add: steady_then)

lemma writer_items:
  "(\<And>p. pb_writer (func p) (g p)) \<Longrightarrow> (\<And>p. length (g p) = k) \<Longrightarrow> \<exists>bs. pb_writer (encode_items func step n p) bs \<and> length bs = k * n"
proof (induction n arbitrary: p)
  case (Suc n)
  from Suc.IH [OF Suc.prems, of "p + step"] obtain bs where "pb_writer (encode_items func step n (p + step)) bs" "length bs = k * n" by blast
  with pb_writer_then [OF Suc.prems(1) this(1), of p] Suc.prems(2) show ?case by (intro exI [of _ "g p @ bs"]) simp
qed (auto intro: pb_writer_return)

text \<open>A packed array behind its tag; \<open>fixed\<close> is the size when the elements have one.\<close>

definition packed_body :: "nat option \<Rightarrow> 's pb_wr \<Rightarrow> 's pb_wr" where
  "packed_body fixed items stream =
     (case (case fixed of Some n \<Rightarrow> Some (True, n)
              | None \<Rightarrow> map_option (\<lambda>(ok, sizestream). (ok, os_bytes_written sizestream)) (items PB_OSTREAM_SIZING)) of
        None \<Rightarrow> None
      | Some (False, n) \<Rightarrow> Some (False, stream)
      | Some (True, n) \<Rightarrow>
          wr_then (pb_encode_varint (of_nat n)) (\<lambda>stream. if is_Sizing (os_sink stream) then pb_write None n stream else items stream) stream)"

lemma steady_packed:
  assumes items: "steady items" and fixed: "\<And>n. fixed = Some n \<Longrightarrow> \<exists>bs. pb_writer items bs \<and> length bs = n"
  shows "steady (packed_body fixed items)"
proof -
  have writer: "steady (packed_body fixed items)" if w: "pb_writer items bs" "length bs < 2 ^ 63" "\<And>n. fixed = Some n \<Longrightarrow> n = length bs" for bs
  proof -
    obtain s where "items PB_OSTREAM_SIZING = Some (True, s)" "os_bytes_written s = length bs"
      using pb_writer.sized [OF w(1)] w(2) by auto
    then have "packed_body fixed items =
        wr_then (pb_encode_varint (of_nat (length bs))) (\<lambda>s. if is_Sizing (os_sink s) then pb_write None (length bs) s else items s)"
      using w(3) by (intro ext) (auto simp: packed_body_def split: option.splits)
    then show ?thesis by (simp only: steady_then [OF steady_varint steady_writer [OF pb_writer_sized [OF w(1)]]])
  qed
  have refuses: "steady (packed_body fixed items)" if "refuses items"
  proof (rule refusesI)
    fix s s'
    assume s: "on_buffer s" "packed_body fixed items s = Some (True, s')"
    then obtain v n t where t: "pb_encode_varint v s = Some (True, t)"
        "(if is_Sizing (os_sink t) then pb_write None n t else items t) = Some (True, s')"
      by (auto simp: packed_body_def wr_then_def split: option.splits bool.splits)
    moreover have "on_buffer t" using writer_on_buffer [OF pb_writer_varint s(1) t(1)] by simp
    moreover from this have "\<not> is_Sizing (os_sink t)" by (auto simp: on_buffer_def split: pb_sink.splits)
    ultimately show False using refusesD [OF that] by auto
  qed
  show ?thesis
  proof (cases fixed)
    case None
    from items show ?thesis by (rule steady_cases) (rule writer refuses; simp add: None)+
  next
    case (Some n)
    from fixed [OF this] obtain bs where bs: "pb_writer items bs" "length bs = n" by blast
    show ?thesis
    proof (cases "length bs < 2 ^ 63")
      case True
      with bs Some show ?thesis by (intro writer) auto
    next
      case False
      have "refuses items" unfolding refuses_def using writer_on_buffer [OF bs(1)] False by blast
      then show ?thesis by (rule refuses)
    qed
  qed
qed

lemma array_alt:
  "encode_array func m field pData count =
     (let step = unat (pf_data_size field); t = PB_LTYPE (pf_type field); a = PB_ATYPE (pf_type field) in
      if count = 0 then wr_return
      else if a \<noteq> ATYPE_POINTER \<and> count > unat (pf_array_size field) then wr_error ''array max size exceeded''
      else if t \<le> LTYPE_LAST_PACKABLE then
        wr_then (pb_encode_tag 2 (pf_tag field))
          (packed_body (if t = LTYPE_FIXED32 then Some (size_mul 4 count) else if t = LTYPE_FIXED64 then Some (size_mul 8 count) else None)
             (encode_items func step count pData))
      else
        encode_items (\<lambda>p. wr_then (pb_encode_tag_for_field field)
            (if a = ATYPE_POINTER \<and> (t = LTYPE_STRING \<or> t = LTYPE_BYTES) then func (load 8 m p) else func p))
          step count pData)"
  by (intro ext) (simp add: encode_array_def packed_body_def [abs_def] Let_def)

lemma size_mul_small: "k \<le> 8 \<Longrightarrow> n < 2 ^ 32 \<Longrightarrow> size_mul k n = k * n"
proof -
  assume "k \<le> 8" "n < 2 ^ 32"
  then have "k * n \<le> 8 * 2 ^ 32" by (intro mult_le_mono) simp_all
  then show ?thesis by (simp add: size_mul_def)
qed

lemma steady_array:
  assumes func: "\<And>p. steady (func p)" and count: "count < 2 ^ 32"
    and f32: "PB_LTYPE (pf_type field) = LTYPE_FIXED32 \<Longrightarrow> func = pb_enc_fixed32 m' field"
    and f64: "PB_LTYPE (pf_type field) = LTYPE_FIXED64 \<Longrightarrow> func = pb_enc_fixed64 m' field"
  shows "steady (encode_array func m field pData count)"
proof -
  let ?items = "encode_items func (unat (pf_data_size field)) count pData"
  have 32: "\<exists>bs. pb_writer ?items bs \<and> length bs = size_mul 4 count" if "PB_LTYPE (pf_type field) = LTYPE_FIXED32"
    using writer_items [of func "\<lambda>p. le_bytes 4 (unat (of_nat (load 4 m' p) :: u32))" 4] count f32 [OF that]
    by (simp add: pb_enc_fixed32_def pb_writer_fixed32 size_mul_small)
  have 64: "\<exists>bs. pb_writer ?items bs \<and> length bs = size_mul 8 count" if "PB_LTYPE (pf_type field) = LTYPE_FIXED64"
    using writer_items [of func "\<lambda>p. le_bytes 8 (unat (of_nat (load 8 m' p) :: u64))" 8] count f64 [OF that]
    by (simp add: pb_enc_fixed64_def pb_writer_fixed64 size_mul_small)
  have "steady ?items" by (rule steady_items [OF func])
  then have "steady (packed_body (if PB_LTYPE (pf_type field) = LTYPE_FIXED32 then Some (size_mul 4 count)
      else if PB_LTYPE (pf_type field) = LTYPE_FIXED64 then Some (size_mul 8 count) else None) ?items)"
    by (rule steady_packed) (use 32 64 in \<open>auto split: if_splits\<close>)
  moreover have "steady (encode_items (\<lambda>p. wr_then (pb_encode_tag_for_field field) (if c then func (load 8 m p) else func p)) step count pData)" for c step
    by (intro steady_items steady_then steady_tag_for_field) (simp add: func)
  ultimately show ?thesis unfolding array_alt Let_def by (simp add: steady_then)
qed

section \<open>Fields and messages\<close>

lemma steady_encoder: "(\<And>fs src. steady (enc fs src)) \<Longrightarrow> steady (PB_ENCODERS enc env t field src)"
  by (simp add: PB_ENCODERS_def pb_enc_submessage_def steady_submessage)

lemma steady_if: "steady f \<Longrightarrow> steady g \<Longrightarrow> steady (\<lambda>s. if c then f s else g s)"
  by (cases c) simp_all

lemma steady_option: "steady f \<Longrightarrow> (\<And>x. steady (g x)) \<Longrightarrow> steady (\<lambda>s. case y of None \<Rightarrow> f s | Some x \<Rightarrow> g x s)"
  by (cases y) simp_all

text \<open>The functions of the environment are steady.\<close>

definition steady_env :: "'s pb_env \<Rightarrow> bool" where
  "steady_env env \<longleftrightarrow> (\<forall>f field arg. steady (env_callback env f field arg)) \<and> (\<forall>f extension. steady (env_extension env f extension))"

lemma load_4_small: "load 4 m p < 2 ^ 32"
  using load_bound [of 4 m p] by simp

lemma steady_basic_field:
  assumes enc: "\<And>fs src. steady (enc fs src)"
  shows "steady (encode_basic_field enc chk env field pData)"
proof -
  let ?func = "PB_ENCODERS enc env (PB_LTYPE (pf_type field)) field"
  have put: "steady (wr_then (pb_encode_tag_for_field field) (?func p))" for p
    by (intro steady_then steady_tag_for_field steady_encoder enc)
  have array: "steady (encode_array ?func (env_mem env) field p n)" if "n < 2 ^ 32" for p n
    by (rule steady_array [where m' = "env_mem env"]) (use that in \<open>simp_all add: steady_encoder enc, simp_all add: PB_ENCODERS_def [abs_def]\<close>)
  have n: "(case x of Some p \<Rightarrow> load 4 (env_mem env) p | None \<Rightarrow> unat (pf_array_size field)) < 2 ^ 32" for x
    using u32_less_lim [of "pf_array_size field"] by (cases x) (simp_all add: load_4_small [simplified])
  show ?thesis unfolding encode_basic_field_def [abs_def] Let_def
    by (intro steady_option steady_if steady_error steady_return steady_None put array n)
qed

lemma out_ok_error: "out_ok s \<Longrightarrow> \<exists>s'. wr_error msg s = Some (False, s') \<and> out_ok s'"
  by (auto simp: wr_error_def out_ok_def split: pb_sink.splits)

lemma steady_wrap:
  assumes f: "steady f"
  shows "steady (\<lambda>s. case f s of None \<Rightarrow> None | Some (False, s) \<Rightarrow> wr_error msg s | Some (True, s) \<Rightarrow> wr_return s)" (is "steady ?g")
  using f
proof (cases rule: steady_cases)
  case (writer bs)
  have "pb_writer ?g bs"
  proof (rule pb_writer.intro)
    fix s :: "'a pb_ostream" assume "sizing s"
    from pb_writer.counts [OF writer(1) this] show "?g s = Some (True, counted (length bs) s)" by (simp add: wr_return_def)
  next
    fix s :: "'a pb_ostream"
    assume "out_ok s" "os_errmsg s = None" "os_bytes_written s + length bs \<le> os_max_size s"
    from pb_writer.fits [OF writer(1) this] show "?g s = Some (True, wrote bs s)" by (simp add: wr_return_def)
  next
    fix s :: "'a pb_ostream"
    assume "out_ok s" "os_errmsg s = None" "os_max_size s < os_bytes_written s + length bs"
    from pb_writer.full [OF writer(1) this] obtain t where t: "f s = Some (False, t)" "out_ok t" by blast
    then have "?g s = wr_error msg t" by simp
    then show "\<exists>s'. ?g s = Some (False, s') \<and> out_ok s'" using out_ok_error [OF t(2)] by simp
  next
    fix s s' :: "'a pb_ostream" and before dest
    assume s: "os_sink s = Out before dest" and "?g s = Some (True, s')"
    then have "f s = Some (True, s')" by (auto simp: wr_error_def wr_return_def split: option.splits bool.splits)
    from pb_writer.exact [OF writer(1) s this] show "length bs \<le> length dest \<and> os_sink s' = Out (before @ bs) (drop (length bs) dest)" .
  qed
  then show ?thesis by (rule steady_writer)
next
  case refuses
  show ?thesis
    by (rule refusesI) (auto simp: wr_error_def wr_return_def split: option.splits bool.splits elim: refusesD [OF refuses])
qed

lemma steady_callback_field: "steady_env env \<Longrightarrow> steady (encode_callback_field env field pData)"
  unfolding encode_callback_field_def [abs_def] Let_def by (intro steady_if steady_return steady_wrap) (simp add: steady_env_def)

lemma steady_field:
  assumes "\<And>fs src. steady (enc fs src)" "steady_env env"
  shows "steady (encode_field enc chk env field pData)"
  unfolding encode_field_def Let_def by (simp add: steady_basic_field steady_callback_field assms)

lemma steady_extensions:
  assumes "\<And>fs src. steady (enc fs src)" "steady_env env"
  shows "steady (encode_extensions enc chk env n extension)"
proof (induction n arbitrary: extension)
  case (Suc n)
  have "steady (default_extension_encoder enc chk env extension)"
    by (simp add: default_extension_encoder_def Let_def steady_field assms)
  then show ?case using Suc assms(2) by (simp add: Let_def steady_then steady_env_def)
qed simp

lemma steady_fields:
  assumes "\<And>fs src. steady (enc fs src)" "steady_env env"
  shows "steady (encode_fields enc chk env n it)"
  using assms
proof (induction enc chk env n it rule: encode_fields.induct)
  case (1 enc chk env n it)
  note enc = "1.prems"
  have "steady (if PB_LTYPE (pf_type (it_field it)) = LTYPE_EXTENSION then encode_extension_field enc chk env n (it_pData it)
      else encode_field enc chk env (it_field it) (it_pData it))"
    by (simp add: encode_extension_field_def steady_extensions steady_field enc)
  moreover have "steady (case pb_field_iter_next it of (True, it) \<Rightarrow> encode_fields enc chk env n it | (False, _) \<Rightarrow> wr_return)"
    using "1.IH" enc by (auto split: prod.splits bool.splits)
  ultimately show ?case by (subst encode_fields.simps) (rule steady_then)
qed

lemma steady_encode: "steady_env env \<Longrightarrow> steady (pb_encode d env fs src)"
proof (induction d arbitrary: fs src)
  case (Suc d)
  then show ?case by (auto simp: steady_fields split: prod.splits bool.splits)
qed simp

text \<open>A message that was encoded once, into any buffer, is a byte string.\<close>

lemma encode_writer:
  assumes "steady_env env" "pb_encode d env fs src (pb_ostream_from_buffer buf bufsize) = Some (True, s)" "length buf < 2 ^ 63"
  shows "pb_writer (pb_encode d env fs src) (written s) \<and> length (written s) < 2 ^ 63"
proof -
  have b: "on_buffer (pb_ostream_from_buffer buf bufsize)" using assms(3) by (simp add: on_buffer_def pb_ostream_from_buffer_def)
  from steady_encode [OF assms(1), of d fs src] show ?thesis
  proof (cases rule: steady_cases)
    case (writer bs)
    from pb_writer.exact [OF this(1) _ assms(2), of "[]" buf] have "written s = bs"
      by (simp add: pb_ostream_from_buffer_def written_def)
    with writer show ?thesis by simp
  next
    case refuses
    from refusesD [OF this b assms(2)] show ?thesis .
  qed
qed

lemma writer_from_buffer:
  assumes "pb_writer f bs" "bufsize \<le> length buf" "bufsize < 2 ^ 63"
  shows "\<exists>s. f (pb_ostream_from_buffer buf bufsize) = Some (length bs \<le> bufsize, s) \<and> (length bs \<le> bufsize \<longrightarrow> written s = bs)"
proof (cases "length bs \<le> bufsize")
  case True
  then show ?thesis using pb_writer.into_buffer [OF assms(1) assms(2,3)] by (auto simp: written_def)
next
  case False
  then show ?thesis using pb_writer.full [OF assms(1), of "pb_ostream_from_buffer buf bufsize"] assms(2,3)
    by (simp add: pb_ostream_from_buffer_def out_ok_def) blast
qed

text \<open>A message of an integer and a submessage, for the witnesses.\<close>

definition sample_env :: "unit pb_env" where
  "sample_env = \<lparr> env_mem = (\<lambda>p. if p = 16 then 0x2C else if p = 17 then 1 else if p = 20 then 5 else 0),
     env_fields = (\<lambda>p. [\<lparr> pf_tag = 1, pf_type = 0x02, pf_data_offset = 0, pf_size_offset = 0, pf_data_size = 4, pf_array_size = 0, pf_ptr = 0 \<rparr>]),
     env_callback = (\<lambda>f field arg. wr_return), env_extension = (\<lambda>f extension. wr_return) \<rparr>"

definition sample_fields :: "pb_field list" where
  "sample_fields =
     [\<lparr> pf_tag = 1, pf_type = 0x02, pf_data_offset = 0, pf_size_offset = 0, pf_data_size = 4, pf_array_size = 0, pf_ptr = 0 \<rparr>,
      \<lparr> pf_tag = 2, pf_type = 0x08, pf_data_offset = 0, pf_size_offset = 0, pf_data_size = 4, pf_array_size = 0, pf_ptr = 1 \<rparr>]"
lemma sample_result:
  "map_option (\<lambda>(ok, s). (ok, written s)) (pb_encode 3 sample_env sample_fields 16 (pb_ostream_from_buffer (replicate 10 0) 10)) =
     Some (True, [0x08, 0xAC, 0x02, 0x12, 0x02, 0x08, 0x05])"
  by code_simp

lemma sample_encoded:
  obtains s where "pb_encode 3 sample_env sample_fields 16 (pb_ostream_from_buffer (replicate 10 0) 10) = Some (True, s)"
    "written s = [0x08, 0xAC, 0x02, 0x12, 0x02, 0x08, 0x05]"
  using sample_result by auto

lemma sample_steady: "steady_env sample_env"
  by (simp add: steady_env_def sample_env_def)

section \<open>Properties\<close>

text \<open>
  C30.  A message that is encoded into one buffer is the same byte string for every stream, its submessages and packed
  arrays with right lengths: \<open>pb_get_encoded_size\<close> gives its length; a buffer of that size or more receives exactly
  it; and a smaller one makes \<open>pb_encode\<close> fail.  Callbacks are assumed to do the same on every call.
\<close>

theorem pb_encode_exact:
  assumes "steady_env env" "pb_encode d env fs src (pb_ostream_from_buffer buf bufsize) = Some (True, s)" "length buf < 2 ^ 63"
  shows "pb_get_encoded_size d env fs src = Some (Some (length (written s))) \<and>
    (bufsize' \<le> length buf' \<and> bufsize' < 2 ^ 63 \<longrightarrow>
      (\<exists>s'. pb_encode d env fs src (pb_ostream_from_buffer buf' bufsize') = Some (length (written s) \<le> bufsize', s') \<and>
        (length (written s) \<le> bufsize' \<longrightarrow> written s' = written s)))"
proof
  from encode_writer [OF assms] have w: "pb_writer (pb_encode d env fs src) (written s)" "length (written s) < 2 ^ 63" by simp_all
  then show "pb_get_encoded_size d env fs src = Some (Some (length (written s)))"
    using pb_writer.sized [OF w(1)] by (auto simp: pb_get_encoded_size_def)
  show "bufsize' \<le> length buf' \<and> bufsize' < 2 ^ 63 \<longrightarrow>
      (\<exists>s'. pb_encode d env fs src (pb_ostream_from_buffer buf' bufsize') = Some (length (written s) \<le> bufsize', s') \<and>
        (length (written s) \<le> bufsize' \<longrightarrow> written s' = written s))"
    using writer_from_buffer [OF w(1)] by blast
qed

theorem pb_encode_exact_witness:
  "pb_get_encoded_size 3 sample_env sample_fields 16 = Some (Some 7) \<and>
   (\<exists>s'. pb_encode 3 sample_env sample_fields 16 (pb_ostream_from_buffer (replicate 6 0) 6) = Some (False, s'))"
proof -
  obtain s where s: "pb_encode 3 sample_env sample_fields 16 (pb_ostream_from_buffer (replicate 10 0) 10) = Some (True, s)"
      "written s = [0x08, 0xAC, 0x02, 0x12, 0x02, 0x08, 0x05]"
    by (rule sample_encoded)
  from pb_encode_exact [OF sample_steady s(1), of 6 "replicate 6 0"] s(2) show ?thesis by auto
qed

text \<open>
  C31.  \<open>pb_encode_delimited\<close> frames the message: into a buffer with room for it and its length it writes a varint and the
  same bytes as \<open>pb_encode\<close>, and \<open>pb_make_string_substream\<close> opens a substream on exactly these bytes.
\<close>

theorem pb_delimited_frames:
  assumes "steady_env env" "pb_encode d env fs src (pb_ostream_from_buffer buf bufsize) = Some (True, s)" "length buf < 2 ^ 63"
    and "length (written s) < 2 ^ 32" "length (written s) + 10 \<le> bufsize'" "bufsize' \<le> length buf'" "bufsize' < 2 ^ 63"
  shows "\<exists>s'. pb_encode_delimited d env fs src (pb_ostream_from_buffer buf' bufsize') = Some (True, s') \<and>
    pb_make_string_substream (window (written s' @ w) rest e) =
      Some (Some (window (written s) (w @ rest) e), (window (written s) (w @ rest) e) \<lparr> is_bytes_left := length w \<rparr>)"
proof -
  from encode_writer [OF assms(1-3)] have "pb_writer (pb_encode d env fs src) (written s)" "length (written s) < 2 ^ 63" by simp_all
  from writer_submessage [OF this]
  have "pb_writer (pb_encode_delimited d env fs src) (varint (length (written s)) @ written s)" by (simp add: pb_encode_delimited_def)
  moreover have "length (varint (length (written s))) \<le> 10"
    using length_varint_64 [of "of_nat (length (written s))"] assms(4) by (simp add: unat_of_nat)
  ultimately obtain s' where "pb_encode_delimited d env fs src (pb_ostream_from_buffer buf' bufsize') = Some (True, s')"
      "written s' = varint (length (written s)) @ written s"
    using writer_from_buffer [of "pb_encode_delimited d env fs src" "varint (length (written s)) @ written s" bufsize' buf'] assms(5-7)
    by auto
  then show ?thesis using substream_window [OF assms(4), of w rest e] by auto
qed

theorem pb_delimited_frames_witness:
  "\<exists>s'. pb_encode_delimited 3 sample_env sample_fields 16 (pb_ostream_from_buffer (replicate 20 0) 20) = Some (True, s') \<and>
     pb_make_string_substream (window (written s' @ [9]) [] None) =
       Some (Some (window [0x08, 0xAC, 0x02, 0x12, 0x02, 0x08, 0x05] [9] None),
         (window [0x08, 0xAC, 0x02, 0x12, 0x02, 0x08, 0x05] [9] None) \<lparr> is_bytes_left := 1 \<rparr>)"
proof -
  obtain s where s: "pb_encode 3 sample_env sample_fields 16 (pb_ostream_from_buffer (replicate 10 0) 10) = Some (True, s)"
      "written s = [0x08, 0xAC, 0x02, 0x12, 0x02, 0x08, 0x05]"
    by (rule sample_encoded)
  from pb_delimited_frames [OF sample_steady s(1), of 20 "replicate 20 0" "[9]" "[]" None] s(2) show ?thesis by simp
qed

end
