(* ===== verification/PbDecodeProps.thy ===== *)
theory PbDecodeProps
  imports PbDecode PbEncodeProps
begin

text \<open>
  Memory safety of the message decoder, for messages whose fields are all static: whatever the input, decoding ends,
  stays inside its stream, frees and allocates nothing, and writes only into the struct.  Where the layout that this
  needs is not what a descriptor promises, the decoder writes behind the struct.
\<close>

section \<open>Decoders that stay in a region\<close>

definition frame :: "nat \<Rightarrow> nat \<Rightarrow> pb_world \<Rightarrow> pb_world \<Rightarrow> bool" where
  "frame lo hi w w' \<longleftrightarrow> wd_blocks w' = wd_blocks w \<and> (\<forall>a. a < lo \<or> hi \<le> a \<longrightarrow> wd_mem w' a = wd_mem w a)"

lemma frame_refl [simp]: "frame lo hi w w"
  by (simp add: frame_def)

lemma frame_trans: "frame lo hi w w' \<Longrightarrow> frame lo hi w' w'' \<Longrightarrow> frame lo hi w w''"
  by (simp add: frame_def)

lemma frame_mono: "frame lo hi w w' \<Longrightarrow> lo' \<le> lo \<Longrightarrow> hi \<le> hi' \<Longrightarrow> frame lo' hi' w w'"
  by (auto simp: frame_def)

lemma frame_count [simp]: "frame lo hi w (w' \<lparr> wd_count := n \<rparr>) \<longleftrightarrow> frame lo hi w w'" "frame lo hi (w \<lparr> wd_count := n \<rparr>) w' \<longleftrightarrow> frame lo hi w w'"
  by (simp_all add: frame_def)

lemma frame_put: "lo \<le> p \<Longrightarrow> p + length bs \<le> hi \<Longrightarrow> frame lo hi w (poke p bs w)"
  by (auto simp: frame_def poke_def)

text \<open>
  A stream that lost \<open>g\<close> bytes of its window: a substream that an error kept from being closed leaves its parent so.
\<close>

definition lossy :: "nat \<Rightarrow> 's pb_istream \<Rightarrow> 's pb_istream" where
  "lossy g s = s \<lparr> is_bytes_left := is_bytes_left s - g \<rparr>"

lemma lossy_0 [simp]: "lossy 0 s = s"
  by (simp add: lossy_def)

text \<open>
  On a window of less than \<open>n\<close> bytes \<open>f\<close> returns, with a result and numbers of bytes taken and lost that \<open>P\<close> holds of;
  it changes memory between \<open>lo\<close> and \<open>hi\<close> only; and what is behind the window does not matter.
\<close>

definition stays :: "nat \<Rightarrow> nat \<Rightarrow> nat \<Rightarrow> ('x \<Rightarrow> nat \<Rightarrow> nat \<Rightarrow> bool) \<Rightarrow>
    (pb_world \<Rightarrow> 's pb_istream \<Rightarrow> (('x \<times> pb_world) \<times> 's pb_istream) option) \<Rightarrow> pb_world \<Rightarrow> bool" where
  "stays lo hi n P f w \<longleftrightarrow> (\<forall>win err. length win < n \<longrightarrow>
     (\<exists>x w' k g e. k + g \<le> length win \<and> P x k g \<and> frame lo hi w w' \<and>
        (\<forall>rest. f w (window win rest err) = Some ((x, w'), lossy g (window (drop k win) rest e)))))"

lemma staysI:
  assumes "\<And>win err. length win < n \<Longrightarrow> \<exists>x w' k g e. k + g \<le> length win \<and> P x k g \<and> frame lo hi w w' \<and>
    (\<forall>rest. f w (window win rest err) = Some ((x, w'), lossy g (window (drop k win) rest e)))"
  shows "stays lo hi n P f w"
  using assms unfolding stays_def by blast

text \<open>Bytes are lost in failures only; and, in the second, a success takes a byte.\<close>

definition anyhow :: "bool \<Rightarrow> nat \<Rightarrow> nat \<Rightarrow> bool" where
  "anyhow ok k g \<longleftrightarrow> (ok \<longrightarrow> g = 0)"

definition eager :: "bool \<Rightarrow> nat \<Rightarrow> nat \<Rightarrow> bool" where
  "eager ok k g \<longleftrightarrow> (ok \<longrightarrow> g = 0 \<and> 0 < k)"

lemma anyhow_simps [simp]: "anyhow False k g" "anyhow ok k 0" "anyhow True k g \<longleftrightarrow> g = 0" "eager False k g" "eager True k g \<longleftrightarrow> g = 0 \<and> 0 < k"
  by (simp_all add: anyhow_def eager_def)

lemma stays_weaken:
  assumes "stays lo hi n P f w" "\<And>x k g. P x k g \<Longrightarrow> Q x k g" "n' \<le> n" "lo' \<le> lo" "hi \<le> hi'"
  shows "stays lo' hi' n' Q f w"
proof (rule staysI)
  fix win :: bytes and err
  assume "length win < n'"
  then have "length win < n" using assms(3) by simp
  with assms(1) obtain x w' k g e where "k + g \<le> length win" "P x k g" "frame lo hi w w'"
      "\<And>rest. f w (window win rest err) = Some ((x, w'), lossy g (window (drop k win) rest e))"
    unfolding stays_def by blast
  then show "\<exists>x w' k g e. k + g \<le> length win \<and> Q x k g \<and> frame lo' hi' w w' \<and>
      (\<forall>rest. f w (window win rest err) = Some ((x, w'), lossy g (window (drop k win) rest e)))"
    using assms(2,4,5) frame_mono by blast
qed

lemma stays_anyhow: "stays lo hi n eager f w \<Longrightarrow> stays lo hi n anyhow f w"
  by (erule stays_weaken) (simp_all add: eager_def anyhow_def)

lemma stays_0 [simp]: "stays lo hi 0 P f w"
  by (simp add: stays_def)

lemma stays_return [intro]: "P ok 0 0 \<Longrightarrow> stays lo hi n P (de_return ok) w"
  unfolding stays_def de_return_def by (auto intro!: exI [of _ 0])

lemma stays_error [intro]: "P False 0 0 \<Longrightarrow> stays lo hi n P (de_error msg) w"
  unfolding stays_def de_error_def by (auto simp: window_def intro!: exI [of _ 0])

lemma stays_if: "(c w \<Longrightarrow> stays lo hi n P f w) \<Longrightarrow> (\<not> c w \<Longrightarrow> stays lo hi n P g w) \<Longrightarrow> stays lo hi n P (\<lambda>w s. if c w then f w s else g w s) w"
  by (cases "c w") (simp_all add: stays_def)

lemma stays_do: "frame lo hi w (u w) \<Longrightarrow> stays lo hi n P f (u w) \<Longrightarrow> stays lo hi n P (de_do u f) w"
  unfolding stays_def de_do_def using frame_trans by blast

lemma stays_try: "u w = Some w' \<Longrightarrow> frame lo hi w w' \<Longrightarrow> stays lo hi n P f w' \<Longrightarrow> stays lo hi n P (de_try u f) w"
  unfolding stays_def de_try_def using frame_trans by (simp del: split_paired_Ex) blast

lemma stays_map:
  assumes "stays lo hi n P f w" "\<And>x w. frame lo hi w (t x w)" "\<And>x k g. P x k g \<Longrightarrow> Q (h x) k g"
  shows "stays lo hi n Q (\<lambda>w s. map_option (\<lambda>((x, w), s). ((h x, t x w), s)) (f w s)) w"
proof (rule staysI)
  fix win :: bytes and err
  assume "length win < n"
  with assms(1) obtain x w' k g e where "k + g \<le> length win" "P x k g" "frame lo hi w w'"
      "\<And>rest. f w (window win rest err) = Some ((x, w'), lossy g (window (drop k win) rest e))"
    unfolding stays_def by blast
  then show "\<exists>y w' k g e. k + g \<le> length win \<and> Q y k g \<and> frame lo hi w w' \<and>
      (\<forall>rest. map_option (\<lambda>((x, w), s). ((h x, t x w), s)) (f w (window win rest err)) = Some ((y, w'), lossy g (window (drop k win) rest e)))"
    using assms(3) frame_trans [OF _ assms(2)]
    by (intro exI [of _ "h x"] exI [of _ "t x w'"] exI [of _ k] exI [of _ g] exI [of _ e]) auto
qed

text \<open>A reader, and a decoder behind it; \<open>takes\<close> holds of the readers that take a byte when they succeed.\<close>

definition takes :: "('s, 'a) pb_rd \<Rightarrow> bool" where
  "takes r \<longleftrightarrow> pb_reader r \<and> (\<forall>win rest e x s. r (window win rest e) = Some (Some x, s) \<longrightarrow> is_bytes_left s < length win)"

lemma de_read_window:
  fixes r :: "('s, 'a) pb_rd"
  assumes r: "k \<le> length win" "\<And>rest. r (window win rest err) = Some (Some x, window (drop k win) rest e)"
    and f: "stays lo hi n anyhow (f x) w" "length win - k < n"
  shows "\<exists>y w' j g e. j + g \<le> length win \<and> anyhow y j g \<and> k \<le> j \<and> frame lo hi w w' \<and>
    (\<forall>rest. de_read r f w (window win rest err) = Some ((y, w'), lossy g (window (drop j win) rest e)))"
proof -
  have "length (drop k win) < n" using f(2) by simp
  with f(1) obtain y w' j g e' where "j + g \<le> length (drop k win)" "anyhow y j g" "frame lo hi w w'"
      "\<And>rest. f x w (window (drop k win) rest e) = Some ((y, w'), lossy g (window (drop j (drop k win)) rest e'))"
    unfolding stays_def by blast
  then show ?thesis using r
    by (intro exI [of _ y] exI [of _ w'] exI [of _ "k + j"] exI [of _ g] exI [of _ e']) (simp add: de_read_def add.commute anyhow_def)
qed

lemma stays_read:
  assumes "pb_reader r" "\<And>x. stays lo hi n anyhow (f x) w"
  shows "stays lo hi n anyhow (de_read r f) w"
proof (rule staysI)
  fix win :: bytes and err
  assume n: "length win < n"
  obtain x k e where r: "k \<le> length win" "\<And>rest. r (window win rest err) = Some (x, window (drop k win) rest e)"
    using pb_reader.window [OF assms(1), of win err] by blast
  show "\<exists>x w' k g e. k + g \<le> length win \<and> anyhow x k g \<and> frame lo hi w w' \<and>
      (\<forall>rest. de_read r f w (window win rest err) = Some ((x, w'), lossy g (window (drop k win) rest e)))"
  proof (cases x)
    case None
    then show ?thesis using r by (intro exI [of _ False] exI [of _ w] exI [of _ k] exI [of _ 0] exI [of _ e]) (simp add: de_read_def)
  next
    case (Some a)
    have "length win - k < n" using n by simp
    from de_read_window [OF r(1) r(2) [unfolded Some], of lo hi n f w, OF assms(2) [of a] this] show ?thesis by blast
  qed
qed

lemma stays_takes:
  fixes r :: "('s, 'a) pb_rd"
  assumes "takes r" "\<And>x. stays lo hi n anyhow (f x) w"
  shows "stays lo hi (Suc n) eager (de_read r f) w"
proof (rule staysI)
  fix win :: bytes and err
  assume n: "length win < Suc n"
  obtain x k e where r: "k \<le> length win" "\<And>rest. r (window win rest err) = Some (x, window (drop k win) rest e)"
    using pb_reader.window [of r win err] assms(1) unfolding takes_def by blast
  show "\<exists>x w' k g e. k + g \<le> length win \<and> eager x k g \<and> frame lo hi w w' \<and>
      (\<forall>rest. de_read r f w (window win rest err) = Some ((x, w'), lossy g (window (drop k win) rest e)))"
  proof (cases x)
    case None
    then show ?thesis using r by (intro exI [of _ False] exI [of _ w] exI [of _ k] exI [of _ 0] exI [of _ e]) (simp add: de_read_def)
  next
    case (Some a)
    have "is_bytes_left (window (drop k win) [] e :: 's pb_istream) < length win" using assms(1) r(2) [of "[]"] Some unfolding takes_def by blast
    then have "0 < k" "length win - k < length win" by simp_all
    moreover from this have "length win - k < n" using n by linarith
    ultimately obtain y w' j g e' where "j + g \<le> length win" "anyhow y j g" "k \<le> j" "frame lo hi w w'"
        "\<And>rest. de_read r f w (window win rest err) = Some ((y, w'), lossy g (window (drop j win) rest e'))"
      using de_read_window [OF r(1) r(2) [unfolded Some], of lo hi n f w, OF assms(2) [of a]] by blast
    then show ?thesis using \<open>0 < k\<close>
      by (intro exI [of _ y] exI [of _ w'] exI [of _ j] exI [of _ g] exI [of _ e']) (simp add: eager_def anyhow_def)
  qed
qed

lemma stays_then:
  assumes "stays lo hi (Suc n) eager f w" "\<And>w. stays lo hi n anyhow g w"
  shows "stays lo hi (Suc n) anyhow (de_then f g) w"
proof (rule staysI)
  fix win :: bytes and err
  assume n: "length win < Suc n"
  with assms(1) obtain x w' k h e where r: "k + h \<le> length win" "eager x k h" "frame lo hi w w'"
      "\<And>rest. f w (window win rest err) = Some ((x, w'), lossy h (window (drop k win) rest e))"
    unfolding stays_def by blast
  show "\<exists>x w' k h e. k + h \<le> length win \<and> anyhow x k h \<and> frame lo hi w w' \<and>
      (\<forall>rest. de_then f g w (window win rest err) = Some ((x, w'), lossy h (window (drop k win) rest e)))"
  proof (cases x)
    case False
    then show ?thesis using r by (intro exI [of _ False] exI [of _ w'] exI [of _ k] exI [of _ h] exI [of _ e]) (simp add: de_then_def)
  next
    case True
    then have "h = 0" "0 < k" using r(2) by simp_all
    then have "length (drop k win) < n" using r(1) n by simp
    with assms(2) [of w'] obtain y w'' j h' e' where "j + h' \<le> length (drop k win)" "anyhow y j h'" "frame lo hi w' w''"
        "\<And>rest. g w' (window (drop k win) rest e) = Some ((y, w''), lossy h' (window (drop j (drop k win)) rest e'))"
      unfolding stays_def by blast
    then show ?thesis using r True \<open>h = 0\<close> frame_trans [OF r(3)]
      by (intro exI [of _ y] exI [of _ w''] exI [of _ "k + j"] exI [of _ h'] exI [of _ e']) (simp add: de_then_def add.commute anyhow_def)
  qed
qed

section \<open>Field decoders\<close>

lemma takes_bind: "takes r \<Longrightarrow> (\<And>x. pb_reader (f x)) \<Longrightarrow> takes (pb_bind r f :: ('s, 'a) pb_rd)"
proof -
  assume r: "takes r" and f: "\<And>x. pb_reader (f x)"
  have "is_bytes_left s < length win" if "pb_bind r f (window win rest e) = Some (Some y, s)" for win rest :: bytes and e y and s :: "'s pb_istream"
  proof -
    from that obtain x t where t: "r (window win rest e) = Some (Some x, t)" "f x t = Some (Some y, s)"
      by (auto simp: pb_bind_def split: option.splits)
    obtain k e' where "t = window (drop k win) rest e'"
      using pb_reader.window [of r win e] r t(1) unfolding takes_def by force
    moreover from this obtain j e'' where "s = window (drop j (drop k win)) rest e''"
      using pb_reader.window [OF f [of x], of "drop k win" e'] t(2) by force
    ultimately show ?thesis using r t(1) unfolding takes_def by fastforce
  qed
  with r f show ?thesis unfolding takes_def by (auto intro: pb_reader_bind)
qed

lemma takes_readbyte: "takes pb_readbyte"
  unfolding takes_def by (auto intro: pb_reader_readbyte dest: readbyte_less)

lemma takes_read_into: "takes (pb_read_into (Suc n))"
  unfolding takes_def by (auto intro: pb_reader_read_into dest: read_into_less)

lemma takes_varint: "takes pb_decode_varint"
  unfolding pb_decode_varint_def varint_loop_bind [of 0 0]
  by (auto intro!: takes_bind takes_readbyte simp: Let_def pb_reader_varint_loop pb_reader_return)

lemma takes_varint32: "takes pb_decode_varint32"
  unfolding varint32_bind
  by (rule takes_bind [OF takes_readbyte]) (auto intro!: pb_reader_bind pb_reader_return pb_reader_error pb_reader_varint32_loop)

lemma takes_svarint: "takes pb_decode_svarint"
  unfolding pb_decode_svarint_def by (intro takes_bind takes_varint pb_reader_return)

lemma takes_fixed: "takes pb_decode_fixed32" "takes pb_decode_fixed64"
  unfolding pb_decode_fixed32_def pb_decode_fixed64_def
  using takes_read_into [of 3] takes_read_into [of 7] by (auto intro!: takes_bind pb_reader_return simp: numeral_eq_Suc)

lemma stays_put: "lo \<le> p \<Longrightarrow> p + length bs \<le> hi \<Longrightarrow> stays lo hi n anyhow (de_do (poke p bs) (de_return True)) w"
  by (intro stays_do stays_return frame_put) simp_all

lemma stays_read_at: "lo \<le> p \<Longrightarrow> p + k \<le> hi \<Longrightarrow> stays lo hi n anyhow (read_at p k) w"
proof (rule staysI)
  fix win :: bytes and err
  assume p: "lo \<le> p" "p + k \<le> hi"
  show "\<exists>x w' j g e. j + g \<le> length win \<and> anyhow x j g \<and> frame lo hi w w' \<and>
      (\<forall>rest. read_at p k w (window win rest err) = Some ((x, w'), lossy g (window (drop j win) rest e)))"
  proof (cases "k \<le> length win")
    case True
    then show ?thesis using frame_put [of lo p "take k win" hi w] p
      by (intro exI [of _ True] exI [of _ "poke p (take k win) w"] exI [of _ k] exI [of _ 0] exI [of _ err])
        (simp add: read_at_def de_read_def read_into_window de_do_def de_return_def)
  next
    case False
    then show ?thesis
      by (intro exI [of _ False] exI [of _ w] exI [of _ 0] exI [of _ 0] exI [of _ "set_error ''end-of-stream'' err"])
        (simp add: read_at_def de_read_def read_into_window)
  qed
qed

lemma stays_bool: "lo \<le> p \<Longrightarrow> p < hi \<Longrightarrow> stays lo hi (Suc n) eager (pb_dec_bool p) w"
  unfolding pb_dec_bool_def by (intro stays_takes takes_varint32 stays_put) simp_all

lemma stays_clamped: "lo \<le> p \<Longrightarrow> p + unat (pf_data_size field) \<le> hi \<Longrightarrow> stays lo hi n anyhow (store_clamped field p c v) w"
  unfolding store_clamped_def by (auto intro!: stays_do frame_put split: option.splits)

lemma stays_varints:
  assumes "lo \<le> p" "p + unat (pf_data_size field) \<le> hi"
  shows "stays lo hi (Suc n) eager (pb_dec_varint field p) w" "stays lo hi (Suc n) eager (pb_dec_uvarint field p) w"
    "stays lo hi (Suc n) eager (pb_dec_svarint field p) w"
  unfolding pb_dec_varint_def pb_dec_uvarint_def pb_dec_svarint_def Let_def
  by (intro stays_takes takes_varint takes_svarint stays_clamped assms)+

lemma stays_fixed:
  "lo \<le> p \<Longrightarrow> p + 4 \<le> hi \<Longrightarrow> stays lo hi (Suc n) eager (pb_dec_fixed32 p) w"
  "lo \<le> p \<Longrightarrow> p + 8 \<le> hi \<Longrightarrow> stays lo hi (Suc n) eager (pb_dec_fixed64 p) w"
  unfolding pb_dec_fixed32_def pb_dec_fixed64_def by (intro stays_takes takes_fixed stays_put; simp)+

lemma stays_bytes:
  assumes "PB_ATYPE (pf_type field) = ATYPE_STATIC" "lo \<le> p" "p + unat (pf_data_size field) \<le> hi"
  shows "stays lo hi (Suc n) eager (pb_dec_bytes env field p) w"
  unfolding pb_dec_bytes_def
proof (rule stays_takes [OF takes_varint32])
  fix k :: u32
  have "unat k + 4 < 18446744073709551616" using u32_less_lim [of k] by linarith
  then have "unat k + 4 < size_lim" by simp
  then have "size_add (unat k) 4 = unat k + 4" by (rule size_add_exact)
  then show "stays lo hi n anyhow (\<lambda>w s.
     let alloc_size = size_add (unat k) 4;
         fill = (\<lambda>bdest. de_do (poke bdest (le_bytes 4 (unat k))) (read_at (bdest + 4) (unat k)))
     in if unat k > alloc_size then de_error ''size too large'' w s
        else if PB_ATYPE (pf_type field) = ATYPE_POINTER then
          if is_bytes_left s < unat k then de_error ''end-of-stream'' w s
          else de_then (allocate_field env p alloc_size 1) (\<lambda>w. fill (get 8 p w) w) w s
        else if alloc_size > unat (pf_data_size field) then de_error ''bytes overflow'' w s
        else fill p w s) w"
    using assms by (auto simp: Let_def intro!: stays_if stays_error stays_do frame_put stays_read_at)
qed

lemma stays_read_string: "lo \<le> p \<Longrightarrow> p + k < hi \<Longrightarrow> stays lo hi n anyhow (read_string p k :: 's pb_dec) w"
proof -
  assume p: "lo \<le> p" "p + k < hi"
  have eq: "(read_string p k :: 's pb_dec) = (\<lambda>w s. map_option (\<lambda>((x, w), s). ((x, poke (p + k) [0] w), s)) (read_at p k w s))"
    by (intro ext) (auto simp: read_string_def split: option.splits)
  show ?thesis unfolding eq by (rule stays_map [OF stays_read_at]) (use p in \<open>auto intro: frame_put\<close>)
qed

lemma stays_string:
  assumes "PB_ATYPE (pf_type field) = ATYPE_STATIC" "lo \<le> p" "p + unat (pf_data_size field) \<le> hi"
  shows "stays lo hi (Suc n) eager (pb_dec_string env field p) w"
  unfolding pb_dec_string_def
proof (rule stays_takes [OF takes_varint32])
  fix k :: u32
  have "p + unat k < hi" if "\<not> k + 1 < k" "\<not> pf_data_size field < k + 1"
  proof -
    have "1 + k \<noteq> 0"
    proof
      assume "1 + k = 0"
      then have "k + 1 = 0" "k \<noteq> 0" by (auto simp: add.commute)
      then show False using that(1) by (simp add: word_gt_0)
    qed
    then have "unat (k + 1) = unat k + 1" using unatSuc [of k] by (simp add: add.commute)
    moreover have "unat (k + 1) \<le> unat (pf_data_size field)" using that(2) by (simp add: word_le_nat_alt not_less)
    ultimately show ?thesis using assms(3) by simp
  qed
  then show "stays lo hi n anyhow (\<lambda>w s.
     let alloc_size = k + 1 in
     if alloc_size < k then de_error ''size too large'' w s
     else if PB_ATYPE (pf_type field) = ATYPE_POINTER then
       if is_bytes_left s < unat k then de_error ''end-of-stream'' w s
       else de_then (allocate_field env p (unat alloc_size) 1) (\<lambda>w. read_string (get 8 p w) (unat k) w) w s
     else if alloc_size > pf_data_size field then de_error ''string overflow'' w s
     else read_string p (unat k) w s) w"
    using assms by (auto simp: Let_def intro!: stays_if stays_error stays_read_string)
qed

lemma stays_fixed_length_bytes:
  "lo \<le> p \<Longrightarrow> p + unat (pf_data_size field) \<le> hi \<Longrightarrow> stays lo hi (Suc n) eager (pb_dec_fixed_length_bytes field p) w"
  unfolding pb_dec_fixed_length_bytes_def
  by (rule stays_takes [OF takes_varint32]) (auto intro!: stays_error stays_read_at stays_put)

section \<open>Substreams\<close>

lemma make_substream:
  obtains (fail) k e where "k \<le> length win"
      "\<And>rest. pb_make_string_substream (window win rest err :: 's pb_istream) = Some (None, window (drop k win) rest e)"
  | (ok) k m e where "0 < k" "k + m \<le> length win"
      "\<And>rest. pb_make_string_substream (window win rest err :: 's pb_istream) =
         Some (Some (window (take m (drop k win)) (drop (k + m) win @ rest) e), lossy m (window (drop k win) rest e))"
proof -
  obtain x k e where r: "k \<le> length win" "\<And>rest. pb_decode_varint32 (window win rest err :: 's pb_istream) = Some (x, window (drop k win) rest e)"
    using rd_varint32.window [of win err] by blast
  show thesis
  proof (cases x)
    case None
    with r show thesis by (intro fail [of k e]) (simp_all add: pb_make_string_substream_def pb_bind_def)
  next
    case (Some n)
    note r = r(1) r(2) [unfolded Some]
    have "is_bytes_left (window (drop k win) [] e :: 's pb_istream) < length win"
      using takes_varint32 r(2) [of "[]"] unfolding takes_def by blast
    then have k: "0 < k" by simp
    show thesis
    proof (cases "unat n \<le> length win - k")
      case True
      have "(window (drop k win) rest e :: 's pb_istream) \<lparr> is_bytes_left := unat n \<rparr> = window (take (unat n) (drop k win)) (drop (k + unat n) win @ rest) e"
        for rest
      proof -
        have "drop k win @ rest = take (unat n) (drop k win) @ drop (k + unat n) win @ rest"
          by (metis append.assoc append_take_drop_id drop_drop add.commute)
        then show ?thesis using True by (simp add: window_def)
      qed
      with r k True show thesis by (intro ok [of k "unat n" e]) (auto simp: pb_make_string_substream_def pb_bind_def lossy_def)
    next
      case False
      with r show thesis
        by (intro fail [of k "set_error ''parent stream too short'' e"])
          (simp_all add: pb_make_string_substream_def pb_bind_def error_window)
    qed
  qed
qed

lemma close_lossy:
  assumes "j + g \<le> m" "k + m \<le> length win"
  shows "pb_close_string_substream (lossy g (window (drop j (take m (drop k win))) (drop (k + m) win @ rest) e')) (lossy m (window (drop k win) rest e)) =
    Some (Some (), lossy g (window (drop (k + m - g) win) rest e'))"
proof -
  have "drop (m - g - j) (drop j (take m (drop k win)) @ drop (k + m) win @ rest) = drop (k + m - g) win @ rest"
  proof -
    have "drop (m - g - j) (drop j (take m (drop k win))) = drop (m - g) (take m (drop k win))" using assms(1) by simp
    moreover have "drop (m - g) (take m (drop k win)) = take g (drop (k + m - g) win)"
      using assms by (simp add: drop_take add.commute)
    moreover have "take g (drop (k + m - g) win) @ drop (k + m) win = drop (k + m - g) win"
      using assms(1) append_take_drop_id [of g "drop (k + m - g) win"] by simp
    ultimately show ?thesis using assms by simp
  qed
  then show ?thesis using assms
    by (auto simp: pb_close_string_substream_def lossy_def window_def pb_read_null_def pb_bind_def pb_read_into_def pb_return_def call_source_def buf_read_def)
qed

text \<open>A body on a substream, an error that can keep it from being closed, and closing it.\<close>

definition on_substream :: "bool \<Rightarrow> string \<Rightarrow> ('s pb_istream \<Rightarrow> 's pb_dec) \<Rightarrow> 's pb_dec" where
  "on_substream whole msg body = de_read pb_make_string_substream (\<lambda>substream w s.
     case body substream w substream of
       None \<Rightarrow> None
     | Some ((status, w), substream) \<Rightarrow>
         if whole \<and> is_bytes_left substream \<noteq> 0 then de_error msg w s
         else de_read (pb_close_string_substream substream) (\<lambda>_. de_return status) w s)"

lemma on_substream_whole: "on_substream True msg body = de_read pb_make_string_substream (\<lambda>substream w s.
     case body substream w substream of
       None \<Rightarrow> None
     | Some ((status, w), substream) \<Rightarrow>
         if is_bytes_left substream \<noteq> 0 then de_error msg w s
         else de_read (pb_close_string_substream substream) (\<lambda>_. de_return status) w s)"
  unfolding on_substream_def by (simp only: simp_thms)

lemma stays_on_substream:
  assumes body: "\<And>bs rest e w. stays lo hi (Suc (length bs)) anyhow (body (window bs rest e)) w"
    and local: "\<And>bs rest rest' e. body (window bs rest e) = body (window bs rest' e)"
  shows "stays lo hi n eager (on_substream whole msg body :: 's pb_dec) w"
proof (rule staysI)
  fix win :: bytes and err
  show "\<exists>x w' k g e. k + g \<le> length win \<and> eager x k g \<and> frame lo hi w w' \<and>
      (\<forall>rest. (on_substream whole msg body :: 's pb_dec) w (window win rest err) = Some ((x, w'), lossy g (window (drop k win) rest e)))"
  proof (cases rule: make_substream [of win err, where 's = 's])
    case (fail k e)
    then show ?thesis
      by (intro exI [of _ False] exI [of _ w] exI [of _ k] exI [of _ 0] exI [of _ e]) (simp add: on_substream_def de_read_def)
  next
    case (ok k m e)
    let ?sub = "take m (drop k win)"
    have m: "length ?sub = m" using ok(2) by simp
    obtain x w' j g e' where b: "j + g \<le> length ?sub" "anyhow x j g" "frame lo hi w w'"
        "\<And>rest. body (window ?sub [] e) w (window ?sub rest e) = Some ((x, w'), lossy g (window (drop j ?sub) rest e'))"
      using body [of ?sub "[]" e w] unfolding stays_def by blast
    have b4: "body (window ?sub rest e) w (window ?sub rest e) = Some ((x, w'), lossy g (window (drop j ?sub) rest e'))" for rest
      using b(4) [of rest] local [of ?sub rest e "[]"] by simp
    show ?thesis
    proof (cases "whole \<and> j + g < m")
      case True
      then show ?thesis using ok b b4
        by (intro exI [of _ False] exI [of _ w'] exI [of _ k] exI [of _ m] exI [of _ "set_error msg e"])
          (simp add: on_substream_def de_read_def de_error_def lossy_def window_def)
    next
      case False
      then have "\<not> (whole \<and> is_bytes_left (lossy g (window (drop j ?sub) (drop (k + m) win @ rest) e') :: 's pb_istream) \<noteq> 0)" for rest
        using ok(2) by (auto simp: lossy_def)
      moreover have "j + g \<le> m" using b(1) m by simp
      ultimately show ?thesis using ok b(2,3) b4
        by (intro exI [of _ x] exI [of _ w'] exI [of _ "k + m - g"] exI [of _ g] exI [of _ e'])
          (auto simp: on_substream_def de_read_def close_lossy de_return_def eager_def anyhow_def)
    qed
  qed
qed

lemma in_substream_alt: "in_substream body = on_substream False [] (\<lambda>_. body)"
  unfolding in_substream_def on_substream_def by (simp only: simp_thms if_False)

lemma stays_in_substream: "(\<And>n w. stays lo hi n anyhow body w) \<Longrightarrow> stays lo hi n eager (in_substream body) w"
  unfolding in_substream_alt by (rule stays_on_substream) simp_all

section \<open>The layout of static messages\<close>

text \<open>The iterators over a message, from the one given.\<close>

function iters :: "pb_field_iter \<Rightarrow> pb_field_iter list" where
  "iters it = it # (case pb_field_iter_next it of (True, it) \<Rightarrow> iters it | (False, _) \<Rightarrow> [])"
  by pat_completeness auto
termination
  by (relation "measure (\<lambda>it. length (it_start it) - it_pos it)") (auto dest!: sym [of "(True, _)"] iter_next_pos)

declare iters.simps [simp del]

definition all_iters :: "pb_field list \<Rightarrow> nat \<Rightarrow> pb_field_iter list" where
  "all_iters fs dest = iters (snd (pb_field_iter_begin fs dest))"

text \<open>The bytes that the decoder of an item can write.\<close>

definition item_len :: "pb_field \<Rightarrow> nat" where
  "item_len field =
     (let t = PB_LTYPE (pf_type field)
      in max (unat (pf_data_size field)) (if t = LTYPE_BOOL then 1 else if t = LTYPE_FIXED32 then 4 else if t = LTYPE_FIXED64 then 8 else 0))"

text \<open>
  A static field, with room between \<open>lo\<close> and \<open>hi\<close> for its data and for the counter or flag behind \<open>size_offset\<close>; \<open>sub\<close>
  is the layout of submessages.  A repeated field needs four bytes at \<open>pSize\<close> even when it has no counter.
\<close>

definition static_field :: "(pb_field list \<Rightarrow> nat \<Rightarrow> nat \<Rightarrow> bool) \<Rightarrow> 's pb_denv \<Rightarrow> nat \<Rightarrow> nat \<Rightarrow> pb_field_iter \<Rightarrow> bool" where
  "static_field sub env lo hi it \<longleftrightarrow>
     (let field = it_field it; h = PB_HTYPE (pf_type field); t = PB_LTYPE (pf_type field); p = it_pData it; n = unat (pf_data_size field) in
      PB_ATYPE (pf_type field) = ATYPE_STATIC \<and> t \<noteq> LTYPE_EXTENSION \<and> t \<le> LTYPE_FIXED_LENGTH_BYTES \<and> lo \<le> p \<and>
      (if h = HTYPE_REPEATED \<or> h = HTYPE_ONEOF then lo \<le> it_pSize it \<and> it_pSize it + 4 \<le> hi
       else h = HTYPE_REQUIRED \<or> it_pSize it = p \<or> lo \<le> it_pSize it \<and> it_pSize it < hi) \<and>
      (if h = HTYPE_REPEATED
       then item_len field = n \<and> n * unat (pf_array_size field) < 2 ^ 32 \<and> p + n * unat (pf_array_size field) \<le> hi
       else p + item_len field \<le> hi) \<and>
      (t \<noteq> LTYPE_SUBMESSAGE \<or>
       pf_ptr field \<noteq> 0 \<and>
       list_all (\<lambda>i. sub (dv_fields env (pf_ptr field)) (p + n * i) n) [0..<if h = HTYPE_REPEATED then unat (pf_array_size field) else 1]))"

text \<open>A message of \<open>n\<close> bytes at \<open>dest\<close>, of static fields, nested at most \<open>d\<close> deep.\<close>

primrec static_message :: "nat \<Rightarrow> 's pb_denv \<Rightarrow> pb_field list \<Rightarrow> nat \<Rightarrow> nat \<Rightarrow> bool" where
  "static_message 0 env fs dest n = False"
| "static_message (Suc d) env fs dest n = list_all (static_field (static_message d env) env dest (dest + n)) (all_iters fs dest)"

lemma item_len_ge: "unat (pf_data_size field) \<le> item_len field"
  by (simp add: item_len_def Let_def)

lemma ltype_cases:
  assumes "PB_LTYPE t \<noteq> LTYPE_EXTENSION" "PB_LTYPE t \<le> LTYPE_FIXED_LENGTH_BYTES"
  obtains "PB_LTYPE t = LTYPE_BOOL" | "PB_LTYPE t = LTYPE_VARINT" | "PB_LTYPE t = LTYPE_UVARINT" | "PB_LTYPE t = LTYPE_SVARINT"
  | "PB_LTYPE t = LTYPE_FIXED32" | "PB_LTYPE t = LTYPE_FIXED64" | "PB_LTYPE t = LTYPE_BYTES" | "PB_LTYPE t = LTYPE_STRING"
  | "PB_LTYPE t = LTYPE_SUBMESSAGE" | "PB_LTYPE t = LTYPE_FIXED_LENGTH_BYTES"
proof -
  define k where "k = unat (PB_LTYPE t)"
  have t: "PB_LTYPE t = of_nat k" by (simp add: k_def)
  have "k \<le> 10" using assms(2) by (simp add: k_def word_le_nat_alt)
  moreover have "k \<noteq> 9" using assms(1) t by auto
  ultimately have "k = 0 \<or> k = 1 \<or> k = 2 \<or> k = 3 \<or> k = 4 \<or> k = 5 \<or> k = 6 \<or> k = 7 \<or> k = 8 \<or> k = 10" by presburger
  then show thesis by (elim disjE) (use t that in auto)
qed

text \<open>The steps of an iterator stay among the iterators of its message.\<close>

lemma iters_hd: "it \<in> set (iters it)"
  by (subst iters.simps) simp

lemma begin_fields: "it_start (snd (pb_field_iter_begin fs dest)) = fs" "it_dest_struct (snd (pb_field_iter_begin fs dest)) = dest"
  "it_pos (snd (pb_field_iter_begin fs dest)) = 0"
  by (simp_all add: pb_field_iter_begin_def Let_def)

lemma next_fields: "it_start (snd (pb_field_iter_next it)) = it_start it \<and> it_dest_struct (snd (pb_field_iter_next it)) = it_dest_struct it"
  by (auto simp: pb_field_iter_next_def Let_def begin_fields)

lemma next_wraps: "pb_field_iter_next it = (False, it') \<Longrightarrow> it' = it \<and> pf_tag (it_field it) = 0 \<or> it' = snd (pb_field_iter_begin (it_start it) (it_dest_struct it))"
  by (auto simp: pb_field_iter_next_def Let_def split: if_splits)

lemma iters_nth:
  "i < length (iters it0) \<Longrightarrow> it_start (iters it0 ! i) = it_start it0 \<and> it_dest_struct (iters it0 ! i) = it_dest_struct it0 \<and> it_pos (iters it0 ! i) = it_pos it0 + i \<and>
    (Suc i < length (iters it0) \<longrightarrow> pb_field_iter_next (iters it0 ! i) = (True, iters it0 ! Suc i)) \<and>
    (Suc i = length (iters it0) \<longrightarrow> \<not> fst (pb_field_iter_next (iters it0 ! i)))"
proof (induction it0 arbitrary: i rule: iters.induct)
  case (1 it)
  obtain b it1 where nx: "pb_field_iter_next it = (b, it1)" by fastforce
  show ?case
  proof (cases b)
    case False
    then have "iters it = [it]" using nx by (subst iters.simps) simp
    then show ?thesis using "1.prems" nx False by simp
  next
    case True
    then have it: "iters it = it # iters it1" using nx by (subst iters.simps) simp
    have l: "0 < length (iters it1)" by (subst iters.simps) simp
    have h: "iters it1 ! 0 = it1" by (subst iters.simps) simp
    note f = next_fields [of it] iter_next_pos [of it it1]
    show ?thesis
    proof (cases i)
      case 0
      then show ?thesis using it nx True l h by auto
    next
      case (Suc j)
      have "j < length (iters it1)" using "1.prems" it Suc by simp
      from "1.IH" [of True it1 j] this nx True have "it_start (iters it1 ! j) = it_start it1 \<and> it_dest_struct (iters it1 ! j) = it_dest_struct it1 \<and>
          it_pos (iters it1 ! j) = it_pos it1 + j \<and>
          (Suc j < length (iters it1) \<longrightarrow> pb_field_iter_next (iters it1 ! j) = (True, iters it1 ! Suc j)) \<and>
          (Suc j = length (iters it1) \<longrightarrow> \<not> fst (pb_field_iter_next (iters it1 ! j)))" by simp
      then show ?thesis unfolding it Suc nth_Cons_Suc using f nx True by auto
    qed
  qed
qed

lemma next_True_tag: "pb_field_iter_next it = (True, it') \<Longrightarrow> pf_tag (it_field it') \<noteq> 0"
  by (auto simp: pb_field_iter_next_def Let_def it_field_def split: if_splits)

lemma all_iters_nth:
  assumes "i < length (all_iters fs dest)"
  shows "it_pos (all_iters fs dest ! i) = i"
    and "snd (pb_field_iter_next (all_iters fs dest ! i)) = all_iters fs dest ! (if Suc i < length (all_iters fs dest) then Suc i else 0)"
proof -
  let ?its = "all_iters fs dest" and ?it = "snd (pb_field_iter_begin fs dest)"
  have l: "?its ! 0 = ?it" unfolding all_iters_def by (subst iters.simps) simp
  note n = iters_nth [of _ ?it, folded all_iters_def, unfolded begin_fields]
  show "it_pos (?its ! i) = i" using n [OF assms] by simp
  show "snd (pb_field_iter_next (?its ! i)) = ?its ! (if Suc i < length ?its then Suc i else 0)"
  proof (cases "Suc i < length ?its")
    case True
    then show ?thesis using n [OF assms] by simp
  next
    case False
    then have "Suc i = length ?its" using assms by simp
    then obtain it' where it': "pb_field_iter_next (?its ! i) = (False, it')" using n [OF assms] by (metis prod.collapse)
    show ?thesis
    proof (cases i)
      case 0
      then show ?thesis using next_wraps [OF it'] it' False l n [OF assms] by auto
    next
      case (Suc j)
      then have "pb_field_iter_next (?its ! j) = (True, ?its ! i)" using n [of j] assms by simp
      then have "pf_tag (it_field (?its ! i)) \<noteq> 0" by (rule next_True_tag)
      then show ?thesis using next_wraps [OF it'] it' False l n [OF assms] by auto
    qed
  qed
qed

lemma all_iters_begin: "snd (pb_field_iter_begin fs dest) \<in> set (all_iters fs dest)"
  unfolding all_iters_def by (rule iters_hd)

lemma all_iters_start: "it \<in> set (all_iters fs dest) \<Longrightarrow> it_start it = fs"
  using iters_nth [of _ "snd (pb_field_iter_begin fs dest)"] by (auto simp: all_iters_def in_set_conv_nth begin_fields)

lemma length_iters: "it_pos it \<le> length (it_start it) \<Longrightarrow> length (iters it) \<le> Suc (length (it_start it) - it_pos it)"
proof (induction it rule: iters.induct)
  case (1 it)
  show ?case
  proof (cases "pb_field_iter_next it")
    case (Pair b it')
    show ?thesis
    proof (cases b)
      case True
      have nx: "it_start it' = it_start it \<and> it_pos it' = Suc (it_pos it) \<and> it_pos it' < length (it_start it')"
        by (rule iter_next_pos) (use Pair True in simp)
      then have "it_pos it' \<le> length (it_start it')" by linarith
      then have "length (iters it') \<le> Suc (length (it_start it') - it_pos it')" using "1.IH" [of True it'] Pair True by simp
      with nx have "length (iters it') \<le> length (it_start it) - it_pos it" by auto
      then show ?thesis using Pair True by (subst iters.simps) simp
    next
      case False
      then show ?thesis using Pair by (subst iters.simps) simp
    qed
  qed
qed

lemma length_all_iters: "length (all_iters fs dest) \<le> Suc (length fs)"
  using length_iters [of "snd (pb_field_iter_begin fs dest)"] by (simp add: all_iters_def begin_fields)

text \<open>Going round: the steps from index \<open>i\<close> to index \<open>j\<close>.\<close>

definition steps :: "nat \<Rightarrow> nat \<Rightarrow> nat \<Rightarrow> nat" where
  "steps k i j = (if i < j then j - i else k - i + j)"

lemma steps_next: "i < k \<Longrightarrow> j < k \<Longrightarrow> (if Suc i < k then Suc i else 0) \<noteq> j \<Longrightarrow> steps k (if Suc i < k then Suc i else 0) j < steps k i j"
  by (auto simp: steps_def split: if_splits)

lemma steps_pos: "i < k \<Longrightarrow> 0 < steps k i j"
  by (auto simp: steps_def)

lemma iter_find_ok:
  assumes "j < length (all_iters fs dest)"
  shows "i < length (all_iters fs dest) \<Longrightarrow> steps (length (all_iters fs dest)) i j \<le> n \<Longrightarrow>
    \<exists>b it. iter_find n tag j (all_iters fs dest ! i) = Some (b, it) \<and> it \<in> set (all_iters fs dest)"
proof (induction n arbitrary: i)
  case 0
  then show ?case using steps_pos [OF 0(1), of j] by simp
next
  case (Suc n)
  let ?its = "all_iters fs dest"
  let ?i = "if Suc i < length ?its then Suc i else 0"
  have i: "?i < length ?its" using Suc.prems(1) by auto
  note nx = all_iters_nth(2) [OF Suc.prems(1)] all_iters_nth(1) [OF i]
  show ?case
  proof (cases "?i = j")
    case True
    then show ?thesis using nx Suc.prems(1) i by (auto simp: Let_def)
  next
    case False
    have "steps (length ?its) ?i j \<le> n" using steps_next [OF Suc.prems(1) assms False] Suc.prems(2) by linarith
    from Suc.IH [OF i this] show ?thesis using nx False Suc.prems(1) by (auto simp: Let_def)
  qed
qed

lemma find_ok:
  assumes "it \<in> set (all_iters fs dest)"
  obtains b it' where "pb_field_iter_find it tag = Some (b, it')" "it' \<in> set (all_iters fs dest)"
proof -
  obtain i where i: "i < length (all_iters fs dest)" "it = all_iters fs dest ! i" using assms by (auto simp: in_set_conv_nth)
  have "steps (length (all_iters fs dest)) i i \<le> length fs + 1" using length_all_iters [of fs dest] i(1) by (simp add: steps_def)
  from iter_find_ok [OF i(1) i(1) this, of tag] show thesis
    using that i all_iters_nth(1) [OF i(1)] all_iters_start [OF assms] by (auto simp: pb_field_iter_find_def simp del: iter_find.simps)
qed

lemma extension_find_none:
  assumes "j < length (all_iters fs dest)" "\<And>it. it \<in> set (all_iters fs dest) \<Longrightarrow> PB_LTYPE (pf_type (it_field it)) \<noteq> LTYPE_EXTENSION"
  shows "i < length (all_iters fs dest) \<Longrightarrow> steps (length (all_iters fs dest)) i j \<le> n \<Longrightarrow>
    \<exists>it. extension_find n j (all_iters fs dest ! i) = Some (False, it) \<and> it \<in> set (all_iters fs dest)"
proof (induction n arbitrary: i)
  case 0
  then show ?case using steps_pos [OF 0(1), of j] by simp
next
  case (Suc n)
  let ?its = "all_iters fs dest"
  let ?i = "if Suc i < length ?its then Suc i else 0"
  have i: "?i < length ?its" using Suc.prems(1) by auto
  note nx = all_iters_nth(2) [OF Suc.prems(1)] all_iters_nth(1) [OF i] assms(2) [OF nth_mem [OF Suc.prems(1)]]
  show ?case
  proof (cases "?i = j")
    case True
    then show ?thesis using nx i by (auto simp: Let_def)
  next
    case False
    have "steps (length ?its) ?i j \<le> n" using steps_next [OF Suc.prems(1) assms(1) False] Suc.prems(2) by linarith
    from Suc.IH [OF i this] show ?thesis using nx False by (auto simp: Let_def)
  qed
qed

lemma find_extension_none:
  assumes "it \<in> set (all_iters fs dest)" "\<And>it. it \<in> set (all_iters fs dest) \<Longrightarrow> PB_LTYPE (pf_type (it_field it)) \<noteq> LTYPE_EXTENSION"
  obtains it' where "find_extension_field it = Some (False, it')" "it' \<in> set (all_iters fs dest)"
proof -
  obtain i where i: "i < length (all_iters fs dest)" "it = all_iters fs dest ! i" using assms(1) by (auto simp: in_set_conv_nth)
  have "steps (length (all_iters fs dest)) i i \<le> length fs + 1" using length_all_iters [of fs dest] i(1) by (simp add: steps_def)
  from extension_find_none [OF i(1) assms(2) i(1) this] show thesis
    using that i all_iters_nth(1) [OF i(1)] all_iters_start [OF assms(1)] by (auto simp: find_extension_field_def simp del: extension_find.simps)
qed

section \<open>Default values and release of static messages\<close>

text \<open>What each field does to the world, the loop over the fields does, if it can be chained.\<close>

lemma each_field_rel:
  assumes R: "\<And>w. R w w" "\<And>w w' w''. R w w' \<Longrightarrow> R w' w'' \<Longrightarrow> R w w''"
    and f: "\<And>it w. it \<in> set (iters it0) \<Longrightarrow> \<exists>w'. f it w = Some w' \<and> R w w'"
  shows "\<exists>w'. each_field f it0 w = Some w' \<and> R w w'"
  using f
proof (induction f it0 w rule: each_field.induct)
  case (1 f it w)
  obtain w1 where w1: "f it w = Some w1" "R w w1" using "1.prems" [OF iters_hd] by blast
  obtain b it1 where nx: "pb_field_iter_next it = (b, it1)" by fastforce
  show ?case
  proof (cases b)
    case True
    have "set (iters it1) \<subseteq> set (iters it)" using nx True by (subst (2) iters.simps) auto
    then have "\<And>it w. it \<in> set (iters it1) \<Longrightarrow> \<exists>w'. f it w = Some w' \<and> R w w'" using "1.prems" by blast
    with "1.IH" [OF w1(1), of b it1] nx True have "\<exists>w'. each_field f it1 w1 = Some w' \<and> R w1 w'" by simp
    then show ?thesis using w1 nx True R(2) [OF w1(2)] by (subst each_field.simps) auto
  next
    case False
    then show ?thesis using w1 nx by (subst each_field.simps) auto
  qed
qed

lemma each_of_message_rel:
  assumes R: "\<And>w. R w w" "\<And>w w' w''. R w w' \<Longrightarrow> R w' w'' \<Longrightarrow> R w w''"
    and f: "\<And>it w. it \<in> set (all_iters fs dest) \<Longrightarrow> \<exists>w'. f it w = Some w' \<and> R w w'"
  shows "\<exists>w'. each_of_message f fs dest w = Some w' \<and> R w w'"
proof (cases "pb_field_iter_begin fs dest")
  case (Pair b it)
  then have it: "all_iters fs dest = iters it" by (simp add: all_iters_def)
  show ?thesis
  proof (cases b)
    case True
    then show ?thesis using Pair each_field_rel [of R it f w, OF R] f it by (simp add: each_of_message_def)
  next
    case False
    then show ?thesis using Pair R(1) by (simp add: each_of_message_def)
  qed
qed

lemmas each_of_message_frame = each_of_message_rel [where R = "frame lo hi" for lo hi, OF frame_refl frame_trans]

lemma each_of_message_same:
  "(\<And>it w. it \<in> set (all_iters fs dest) \<Longrightarrow> f it w = Some w) \<Longrightarrow> each_of_message f fs dest w = Some w"
  using each_of_message_rel [of "(=)" fs dest f w] by simp

lemma static_fieldD:
  assumes "static_field sub env lo hi it"
  shows "PB_ATYPE (pf_type (it_field it)) = ATYPE_STATIC" "PB_LTYPE (pf_type (it_field it)) \<noteq> LTYPE_EXTENSION"
    "PB_LTYPE (pf_type (it_field it)) \<le> LTYPE_FIXED_LENGTH_BYTES" "lo \<le> it_pData it"
    "PB_HTYPE (pf_type (it_field it)) = HTYPE_REPEATED \<or> PB_HTYPE (pf_type (it_field it)) = HTYPE_ONEOF \<Longrightarrow> lo \<le> it_pSize it \<and> it_pSize it + 4 \<le> hi"
    "PB_HTYPE (pf_type (it_field it)) = HTYPE_OPTIONAL \<Longrightarrow> it_pSize it \<noteq> it_pData it \<Longrightarrow> lo \<le> it_pSize it \<and> it_pSize it < hi"
    "PB_HTYPE (pf_type (it_field it)) \<noteq> HTYPE_REPEATED \<Longrightarrow> it_pData it + item_len (it_field it) \<le> hi"
    "PB_HTYPE (pf_type (it_field it)) \<noteq> HTYPE_REPEATED \<Longrightarrow> PB_LTYPE (pf_type (it_field it)) = LTYPE_SUBMESSAGE \<Longrightarrow>
       pf_ptr (it_field it) \<noteq> 0 \<and> sub (dv_fields env (pf_ptr (it_field it))) (it_pData it) (unat (pf_data_size (it_field it)))"
    "PB_HTYPE (pf_type (it_field it)) = HTYPE_REPEATED \<Longrightarrow> item_len (it_field it) = unat (pf_data_size (it_field it)) \<and>
       unat (pf_data_size (it_field it)) * unat (pf_array_size (it_field it)) < 2 ^ 32 \<and>
       it_pData it + unat (pf_data_size (it_field it)) * unat (pf_array_size (it_field it)) \<le> hi"
    "PB_HTYPE (pf_type (it_field it)) = HTYPE_REPEATED \<Longrightarrow> PB_LTYPE (pf_type (it_field it)) = LTYPE_SUBMESSAGE \<Longrightarrow> i < unat (pf_array_size (it_field it)) \<Longrightarrow>
       pf_ptr (it_field it) \<noteq> 0 \<and>
       sub (dv_fields env (pf_ptr (it_field it))) (it_pData it + unat (pf_data_size (it_field it)) * i) (unat (pf_data_size (it_field it)))"
  using assms unfolding static_field_def Let_def by (auto simp: list_all_iff split: if_splits)

lemma default_field_frame:
  assumes f: "static_field sub env lo hi it"
    and sub: "\<And>fs p n w. sub fs p n \<Longrightarrow> \<exists>w'. each_of_message g fs p w = Some w' \<and> frame p (p + n) w w'"
  shows "\<exists>w'. default_field g env d it w = Some w' \<and> frame lo hi w w'"
proof -
  note F = static_fieldD [OF f]
  let ?field = "it_field it" and ?h = "PB_HTYPE (pf_type (it_field it))" and ?t = "PB_LTYPE (pf_type (it_field it))"
  show ?thesis
  proof (cases "?h = HTYPE_REPEATED \<or> ?h = HTYPE_ONEOF")
    case True
    then show ?thesis using F(1,2) F(5) by (auto simp: default_field_def Let_def intro!: frame_put)
  next
    case False
    define w1 where "w1 = (if ?h = HTYPE_OPTIONAL \<and> it_pSize it \<noteq> it_pData it then poke (it_pSize it) [0] w else w)"
    have w1: "frame lo hi w w1" using F(6) by (auto simp: w1_def intro!: frame_put)
    have p: "it_pData it + unat (pf_data_size ?field) \<le> hi" using False F(7) item_len_ge [of ?field] by simp
    have eq: "default_field g env d it w =
      (if ?t = LTYPE_SUBMESSAGE then each_of_message g (dv_fields env (pf_ptr ?field)) (it_pData it) w1
       else if pf_ptr ?field \<noteq> 0 then Some (poke (it_pData it) (load_bytes (wd_mem w1) (pf_ptr ?field) (unat (pf_data_size ?field))) w1)
       else Some (poke (it_pData it) (replicate (unat (pf_data_size ?field)) 0) w1))"
      using False F(1,2) by (simp add: default_field_def Let_def w1_def)
    show ?thesis
    proof (cases "?t = LTYPE_SUBMESSAGE")
      case True
      obtain w2 where "each_of_message g (dv_fields env (pf_ptr ?field)) (it_pData it) w1 = Some w2"
          "frame (it_pData it) (it_pData it + unat (pf_data_size ?field)) w1 w2"
        using sub F(8) False True by blast
      then show ?thesis using True frame_trans [OF w1 frame_mono [OF _ F(4) p]] unfolding eq by auto
    next
      case False
      then show ?thesis unfolding eq using frame_trans [OF w1 frame_put] F(4) p by auto
    qed
  qed
qed

lemma set_to_defaults_frame:
  "static_message k env fs dest n \<Longrightarrow> k \<le> d \<Longrightarrow> \<exists>w'. pb_message_set_to_defaults d env fs dest w = Some w' \<and> frame dest (dest + n) w w'"
  unfolding pb_message_set_to_defaults_def
proof (induction k arbitrary: d fs dest n w)
  case (Suc k)
  then obtain d' where d: "d = Suc d'" "k \<le> d'" by (cases d) auto
  show ?case
  proof (rule each_of_message_frame)
    fix it w
    assume "it \<in> set (all_iters fs dest)"
    then have "static_field (static_message k env) env dest (dest + n) it" using Suc.prems(1) by (simp add: list_all_iff)
    from default_field_frame [OF this, of "pb_field_set_to_default d' env" d' w] Suc.IH [OF _ d(2)]
    show "\<exists>w'. pb_field_set_to_default d env it w = Some w' \<and> frame dest (dest + n) w w'" by (simp add: d(1))
  qed
qed simp

lemma release_items_same: "(\<And>i w. i < n \<Longrightarrow> f (p + step * i) w = Some w) \<Longrightarrow> release_items f step n p w = Some w"
proof (induction n arbitrary: p)
  case (Suc n)
  have "f p w = Some w" using Suc.prems [of 0] by simp
  moreover have "release_items f step n (p + step) w = Some w"
    by (rule Suc.IH) (use Suc.prems [of "Suc _"] in \<open>simp add: algebra_simps\<close>)
  ultimately show ?case by simp
qed simp

lemma release_field_same:
  assumes f: "static_field sub env lo hi it"
    and sub: "\<And>fs p n w. sub fs p n \<Longrightarrow> each_of_message g fs p w = Some w"
  shows "release_field g env d it w = Some w"
proof -
  note F = static_fieldD [OF f]
  let ?field = "it_field it" and ?h = "PB_HTYPE (pf_type (it_field it))" and ?n = "unat (pf_data_size (it_field it))"
  let ?item = "\<lambda>p w. if p = 0 then Some w else each_of_message g (dv_fields env (pf_ptr ?field)) p w"
  have main: "release_main it w = Some w" using F(1) by (simp add: release_main_def Let_def)
  have items: "release_items ?item ?n c (it_pData it) w = Some w"
    if "PB_LTYPE (pf_type ?field) = LTYPE_SUBMESSAGE" "?h = HTYPE_REPEATED \<longrightarrow> c \<le> unat (pf_array_size ?field)" "?h \<noteq> HTYPE_REPEATED \<longrightarrow> c = 1" for c
  proof (rule release_items_same)
    fix i w
    assume "i < c"
    then have "sub (dv_fields env (pf_ptr ?field)) (it_pData it + ?n * i) ?n"
      using that F(8) F(10) [of i] by (cases "?h = HTYPE_REPEATED") auto
    then show "?item (it_pData it + ?n * i) w = Some w" using sub by auto
  qed
  show ?thesis
  proof (cases "PB_LTYPE (pf_type ?field) = LTYPE_SUBMESSAGE")
    case True
    then show ?thesis using F(1,2) main items [OF True] by (auto simp: release_field_def Let_def)
  next
    case False
    then show ?thesis using F(2) main by (auto simp: release_field_def Let_def)
  qed
qed

lemma release_same:
  "static_message k env fs dest n \<Longrightarrow> k \<le> d \<Longrightarrow> each_of_message (pb_release_single_field d env) fs dest w = Some w"
proof (induction k arbitrary: d fs dest n w)
  case (Suc k)
  then obtain d' where d: "d = Suc d'" "k \<le> d'" by (cases d) auto
  show ?case
  proof (rule each_of_message_same)
    fix it w
    assume "it \<in> set (all_iters fs dest)"
    then have "static_field (static_message k env) env dest (dest + n) it" using Suc.prems(1) by (simp add: list_all_iff)
    from release_field_same [OF this, of "pb_release_single_field d' env" d' w] Suc.IH [OF _ d(2)]
    show "pb_release_single_field d env it w = Some w" by (simp add: d(1))
  qed
qed simp

section \<open>Fields of static messages\<close>

text \<open>What is assumed of \<open>pb_decode\<close> and \<open>pb_decode_noinit\<close> for submessages.\<close>

definition sub_stays :: "(pb_field list \<Rightarrow> nat \<Rightarrow> nat \<Rightarrow> bool) \<Rightarrow> 's pb_msg \<Rightarrow> bool" where
  "sub_stays sub dec \<longleftrightarrow> (\<forall>fs p k. sub fs p k \<longrightarrow> (\<forall>init n w. stays p (p + k) n anyhow (dec init fs p) w))"

lemma htype_cases:
  obtains "PB_HTYPE t = HTYPE_REQUIRED" | "PB_HTYPE t = HTYPE_OPTIONAL" | "PB_HTYPE t = HTYPE_REPEATED" | "PB_HTYPE t = HTYPE_ONEOF"
proof -
  define k where "k = unat (take_bit 2 (drop_bit 4 t))"
  have m: "(0x30 :: u8) = push_bit 4 (mask 2)" by (simp add: mask_eq_exp_minus_1)
  have "PB_HTYPE t = push_bit 4 (take_bit 2 (drop_bit 4 t))"
    unfolding PB_HTYPE_def m by (rule bit_word_eqI) (auto simp: bit_simps)
  then have t: "PB_HTYPE t = push_bit 4 (of_nat k)" by (simp add: k_def)
  have "k = take_bit 2 (unat (drop_bit 4 t))" unfolding k_def by (simp only: unsigned_take_bit_eq)
  then have "k < 4" by (simp add: take_bit_eq_mod)
  then have "k = 0 \<or> k = 1 \<or> k = 2 \<or> k = 3" by presburger
  then show thesis by (elim disjE) (use t that in auto)
qed

lemma stays_any: "(\<And>n. stays lo hi (Suc n) P f w) \<Longrightarrow> stays lo hi n P f w"
  by (cases n) simp_all

lemma stays_decoders:
  assumes f: "static_field sub env lo0 hi0 it" and p: "lo \<le> p" "p + item_len (it_field it) \<le> hi"
    and sub: "PB_LTYPE (pf_type (it_field it)) = LTYPE_SUBMESSAGE \<Longrightarrow>
      pf_ptr (it_field it) \<noteq> 0 \<and> sub (dv_fields env (pf_ptr (it_field it))) p (unat (pf_data_size (it_field it)))"
    and dec: "sub_stays sub dec"
  shows "stays lo hi n eager (PB_DECODERS dec env (PB_LTYPE (pf_type (it_field it))) (it_field it) p) w"
proof (rule stays_any)
  fix n
  note F = static_fieldD [OF f]
  have n: "p + unat (pf_data_size (it_field it)) \<le> hi" using p(2) item_len_ge [of "it_field it"] by simp
  from F(2,3) show "stays lo hi (Suc n) eager (PB_DECODERS dec env (PB_LTYPE (pf_type (it_field it))) (it_field it) p) w"
  proof (cases rule: ltype_cases)
    case 1
    then show ?thesis using p by (simp add: PB_DECODERS_def item_len_def Let_def stays_bool)
  next
    case 2
    then show ?thesis using stays_varints [OF p(1) n] by (simp add: PB_DECODERS_def)
  next
    case 3
    then show ?thesis using stays_varints [OF p(1) n] by (simp add: PB_DECODERS_def)
  next
    case 4
    then show ?thesis using stays_varints [OF p(1) n] by (simp add: PB_DECODERS_def)
  next
    case 5
    then show ?thesis using p by (simp add: PB_DECODERS_def item_len_def Let_def stays_fixed)
  next
    case 6
    then show ?thesis using p by (simp add: PB_DECODERS_def item_len_def Let_def stays_fixed)
  next
    case 7
    then show ?thesis using stays_bytes [OF F(1) p(1) n] by (simp add: PB_DECODERS_def)
  next
    case 8
    then show ?thesis using stays_string [OF F(1) p(1) n] by (simp add: PB_DECODERS_def)
  next
    case 9
    have "stays lo hi m anyhow (dec b (dv_fields env (pf_ptr (it_field it))) p) w" for b m w
      by (rule stays_weaken [where lo = p and hi = "p + unat (pf_data_size (it_field it))"])
        (use sub [OF 9] dec p(1) n in \<open>auto simp: sub_stays_def\<close>)
    then show ?thesis using 9 sub [OF 9] by (simp add: PB_DECODERS_def pb_dec_submessage_def stays_in_substream)
  next
    case 10
    then show ?thesis using stays_fixed_length_bytes [OF p(1) n] by (simp add: PB_DECODERS_def)
  qed
qed

text \<open>Items of an array: the index is below the size of the array when an item is decoded.\<close>

definition cell_ok :: "nat \<Rightarrow> nat \<Rightarrow> nat option \<Rightarrow> bool" where
  "cell_ok lo hi cell \<longleftrightarrow> (case cell of Some p \<Rightarrow> lo \<le> p \<and> p + 4 \<le> hi | None \<Rightarrow> True)"

lemma frame_bump: "cell_ok lo hi cell \<Longrightarrow> frame lo hi w (bump_size cell w)"
  by (auto simp: bump_size_def set_size_def cell_ok_def intro!: frame_put split: option.splits)

lemma item_at_less:
  assumes "get_size cell w < pf_array_size field" "unat (pf_data_size field) * unat (pf_array_size field) < 2 ^ 32"
  shows "next_item field base cell w = base + unat (pf_data_size field) * unat (get_size cell w)" "unat (get_size cell w) < unat (pf_array_size field)"
proof -
  show i: "unat (get_size cell w) < unat (pf_array_size field)" using assms(1) by (simp only: word_less_nat_alt)
  then have "unat (pf_data_size field) * unat (get_size cell w) \<le> unat (pf_data_size field) * unat (pf_array_size field)"
    by (intro mult_le_mono2) simp
  also have "\<dots> < 2 ^ LENGTH(32)" using assms(2) by simp
  finally have "unat (pf_data_size field * get_size cell w) = unat (pf_data_size field) * unat (get_size cell w)"
    by (simp only: unat_mult_lem)
  then show "next_item field base cell w = base + unat (pf_data_size field) * unat (get_size cell w)" by (simp only: next_item_def)
qed

lemma stays_item:
  assumes f: "static_field sub env lo hi it" "PB_HTYPE (pf_type (it_field it)) = HTYPE_REPEATED" and dec: "sub_stays sub dec"
    and i: "get_size cell w < pf_array_size (it_field it)"
  shows "stays lo hi n eager (PB_DECODERS dec env (PB_LTYPE (pf_type (it_field it))) (it_field it) (next_item (it_field it) (it_pData it) cell w)) w'"
proof -
  note F = static_fieldD [OF f(1)]
  let ?n = "unat (pf_data_size (it_field it))" and ?a = "unat (pf_array_size (it_field it))" and ?i = "unat (get_size cell w)"
  note r = F(9) [OF f(2)]
  note small = conjunct1 [OF conjunct2 [OF r]]
  note i = item_at_less(1) [OF i small, where base = "it_pData it"] item_at_less(2) [OF i small]
  have "?n * Suc ?i \<le> ?n * ?a" using i(2) r by (intro mult_le_mono2) simp
  then have "it_pData it + ?n * ?i + item_len (it_field it) \<le> hi" using r by simp
  then show ?thesis using r F(4) F(10) [OF f(2) _ i(2)] dec by (simp only: i(1)) (intro stays_decoders [OF f(1)]; simp)
qed

lemma stays_unless_empty:
  assumes "stays lo hi n anyhow f w" "\<And>rest err. g w (window [] rest err) = Some ((True, w), window [] rest err)"
    and "\<And>win rest err. win \<noteq> [] \<Longrightarrow> g w (window win rest err) = f w (window win rest err)"
  shows "stays lo hi n anyhow g w"
proof (rule staysI)
  fix win :: bytes and err
  assume "length win < n"
  then show "\<exists>x w' k h e. k + h \<le> length win \<and> anyhow x k h \<and> frame lo hi w w' \<and>
      (\<forall>rest. g w (window win rest err) = Some ((x, w'), lossy h (window (drop k win) rest e)))"
  proof (cases "win = []")
    case True
    then show ?thesis using assms(2)
      by (intro exI [of _ True] exI [of _ w] exI [of _ 0] exI [of _ err]) simp
  next
    case False
    then show ?thesis using assms(1,3) \<open>length win < n\<close> unfolding stays_def by simp
  qed
qed

lemma stays_packed_items:
  assumes f: "static_field sub env lo hi it" "PB_HTYPE (pf_type (it_field it)) = HTYPE_REPEATED" and dec: "sub_stays sub dec" and cell: "cell_ok lo hi cell"
  shows "stays lo hi n anyhow (packed_items (PB_DECODERS dec env (PB_LTYPE (pf_type (it_field it))) (it_field it)) (it_field it) (it_pData it) cell n) w"
proof (induction n arbitrary: w)
  case (Suc n)
  let ?func = "PB_DECODERS dec env (PB_LTYPE (pf_type (it_field it))) (it_field it)"
  let ?items = "packed_items ?func (it_field it) (it_pData it) cell"
  show ?case
  proof (cases "get_size cell w < pf_array_size (it_field it)")
    case True
    have "stays lo hi (Suc n) anyhow (de_then (?func (next_item (it_field it) (it_pData it) cell w)) (de_do (bump_size cell) (?items n))) w"
      by (intro stays_then stays_item [OF f dec True] stays_do frame_bump [OF cell] Suc.IH)
    moreover have "?items (Suc n) w (window [] rest err) = Some ((True, w), window [] rest err)" for rest err by (simp add: de_return_def)
    moreover have "?items (Suc n) w (window win rest err) =
        de_then (?func (next_item (it_field it) (it_pData it) cell w)) (de_do (bump_size cell) (?items n)) w (window win rest err)" if "win \<noteq> []" for win rest err
      using that True by simp
    ultimately show ?thesis by (rule stays_unless_empty)
  next
    case False
    then show ?thesis using stays_return [of anyhow True lo hi "Suc n" w] by (simp add: stays_def)
  qed
qed simp

lemma stays_static_field:
  assumes f: "static_field sub env lo hi it" and dec: "sub_stays sub dec" and cell: "cell = Some (it_pSize it) \<or> cell = None"
    and defaults: "\<And>fs p k w. sub fs p k \<Longrightarrow> \<exists>w'. defaults fs p w = Some w' \<and> frame p (p + k) w w'"
  shows "stays lo hi n eager (decode_static_field (PB_DECODERS dec env (PB_LTYPE (pf_type (it_field it))) (it_field it)) defaults env wire_type it cell) w"
proof -
  note F = static_fieldD [OF f]
  let ?field = "it_field it" and ?h = "PB_HTYPE (pf_type (it_field it))" and ?t = "PB_LTYPE (pf_type (it_field it))"
  let ?func = "PB_DECODERS dec env ?t ?field"
  have single: "stays lo hi n eager (?func (it_pData it)) w" if "?h \<noteq> HTYPE_REPEATED" for n w
    by (rule stays_decoders [OF f F(4) F(7) [OF that] F(8) [OF that] dec])
  show ?thesis
  proof (cases rule: htype_cases [of "pf_type (it_field it)"])
    case 1
    then show ?thesis using single by (simp add: decode_static_field_def Let_def)
  next
    case 2
    then show ?thesis using single F(6) by (auto simp: decode_static_field_def Let_def intro!: stays_do frame_put)
  next
    case 3
    have cell: "cell_ok lo hi cell" using cell F(5) 3 by (auto simp: cell_ok_def)
    show ?thesis
    proof (cases "wire_type = 2 \<and> ?t \<le> LTYPE_LAST_PACKABLE")
      case True
      have "decode_static_field ?func defaults env wire_type it cell =
          on_substream True ''array overflow'' (\<lambda>s. packed_items ?func ?field (it_pData it) cell (is_bytes_left s + 1))"
        using True 3 by (simp add: decode_static_field_def on_substream_whole Let_def del: packed_items.simps add_Suc_right)
      moreover have "stays lo hi n eager (on_substream True ''array overflow'' (\<lambda>s. packed_items ?func ?field (it_pData it) cell (is_bytes_left s + 1))) w"
        by (rule stays_on_substream)
          (simp_all only: window_simps Suc_eq_plus1 [symmetric] stays_packed_items [OF f 3 dec cell])
      ultimately show ?thesis by (simp only:)
    next
      case False
      let ?w = "bump_size cell w"
      have eq: "decode_static_field ?func defaults env wire_type it cell w =
          (if get_size cell w \<ge> pf_array_size ?field then de_error ''array overflow'' ?w else ?func (next_item ?field (it_pData it) cell w) ?w)"
        using False 3 by (auto simp: decode_static_field_def Let_def fun_eq_iff)
      have "stays lo hi n eager (\<lambda>w'. decode_static_field ?func defaults env wire_type it cell w) ?w"
      proof (cases "get_size cell w < pf_array_size ?field")
        case True
        then have "\<not> pf_array_size ?field \<le> get_size cell w" by (simp only: not_le)
        with stays_item [OF f 3 dec True, of n ?w] show ?thesis unfolding eq by (simp add: stays_def)
      next
        case False
        have "stays lo hi n eager (de_error ''array overflow'') ?w" by (rule stays_error) simp
        with False show ?thesis unfolding eq by (simp add: stays_def not_less)
      qed
      then show ?thesis unfolding stays_def using frame_trans [OF frame_bump [OF cell, of w]] by blast
    qed
  next
    case 4
    have u: "\<exists>w'. (if ?t = LTYPE_SUBMESSAGE \<and> get 4 (it_pSize it) w \<noteq> unat (pf_tag ?field)
        then defaults (dv_fields env (pf_ptr ?field)) (it_pData it) (poke (it_pData it) (replicate (unat (pf_data_size ?field)) 0) w)
        else Some w) = Some w' \<and> frame lo hi w w'"
    proof (cases "?t = LTYPE_SUBMESSAGE")
      case True
      let ?w = "poke (it_pData it) (replicate (unat (pf_data_size ?field)) 0) w"
      have n: "it_pData it + unat (pf_data_size ?field) \<le> hi" using F(7) item_len_ge [of ?field] 4 by simp
      have "?h \<noteq> HTYPE_REPEATED" using 4 by simp
      from defaults [OF conjunct2 [OF F(8) [OF this True]], of ?w]
      obtain w' where w': "defaults (dv_fields env (pf_ptr ?field)) (it_pData it) ?w = Some w'"
          "frame (it_pData it) (it_pData it + unat (pf_data_size ?field)) ?w w'" by blast
      have "frame lo hi w ?w" using F(4) n by (intro frame_put) simp_all
      from frame_trans [OF this frame_mono [OF w'(2) F(4) n]] w'(1) show ?thesis by simp
    qed simp
    then obtain w' where "(if ?t = LTYPE_SUBMESSAGE \<and> get 4 (it_pSize it) w \<noteq> unat (pf_tag ?field)
        then defaults (dv_fields env (pf_ptr ?field)) (it_pData it) (poke (it_pData it) (replicate (unat (pf_data_size ?field)) 0) w)
        else Some w) = Some w'" "frame lo hi w w'" by blast
    then show ?thesis using 4 F(5) single
      by (auto simp: decode_static_field_def Let_def intro!: stays_try stays_do frame_put)
  qed
qed

section \<open>The decoder of static messages\<close>

lemma release_single_same:
  assumes "static_field (static_message k env) env lo hi it" "k < d"
  shows "pb_release_single_field d env it w = Some w"
proof -
  obtain d' where d: "d = Suc d'" "k \<le> d'" using assms(2) by (cases d) auto
  have "each_of_message (pb_release_single_field d' env) fs p w = Some w" if "static_message k env fs p n" for fs p n w
    by (rule release_same [OF that d(2)])
  then show ?thesis using release_field_same [OF assms(1)] by (simp add: d(1))
qed

definition keeps_iter :: "pb_field_iter set \<Rightarrow> bool \<times> pb_field_iter \<Rightarrow> nat \<Rightarrow> nat \<Rightarrow> bool" where
  "keeps_iter its r k g \<longleftrightarrow> eager (fst r) k g \<and> snd r \<in> its"

text \<open>Going on behind a result that carries an iterator.\<close>

lemma stays_bind_iter:
  assumes F: "stays lo hi n P F w"
    and fail: "\<And>it k g. P (False, it) k g \<Longrightarrow> Q (stop it) k g"
    and ok: "\<And>it k g. P (True, it) k g \<Longrightarrow> g = 0"
    and G: "\<And>it k w. P (True, it) k 0 \<Longrightarrow> stays lo hi n (\<lambda>x j h. Q x (k + j) h) (G it) w"
  shows "stays lo hi n Q (\<lambda>w s. case F w s of None \<Rightarrow> None | Some (((False, it), w), s) \<Rightarrow> Some ((stop it, w), s) | Some (((True, it), w), s) \<Rightarrow> G it w s) w"
    (is "stays lo hi n Q ?H w")
proof (rule staysI)
  fix win :: bytes and err
  assume n: "length win < n"
  with F obtain x w' k g e where r: "k + g \<le> length win" "P x k g" "frame lo hi w w'"
      "\<And>rest. F w (window win rest err) = Some ((x, w'), lossy g (window (drop k win) rest e))"
    unfolding stays_def by blast
  obtain b it where x: "x = (b, it)" by fastforce
  show "\<exists>x w' k g e. k + g \<le> length win \<and> Q x k g \<and> frame lo hi w w' \<and>
      (\<forall>rest. ?H w (window win rest err) = Some ((x, w'), lossy g (window (drop k win) rest e)))"
  proof (cases b)
    case False
    then show ?thesis using r x fail
      by (intro exI [of _ "stop it"] exI [of _ w'] exI [of _ k] exI [of _ g] exI [of _ e]) simp
  next
    case True
    then have g: "g = 0" "P (True, it) k 0" using ok [of it k g] r(2) x by auto
    have "length (drop k win) < n" using n by simp
    with G [OF g(2), of w'] obtain y w'' j h e' where "j + h \<le> length (drop k win)" "Q y (k + j) h" "frame lo hi w' w''"
        "\<And>rest. G it w' (window (drop k win) rest e) = Some ((y, w''), lossy h (window (drop j (drop k win)) rest e'))"
      unfolding stays_def by blast
    then show ?thesis using r x True g frame_trans [OF r(3)]
      by (intro exI [of _ y] exI [of _ w''] exI [of _ "k + j"] exI [of _ h] exI [of _ e']) (simp add: add.commute)
  qed
qed

lemma stays_release_union:
  assumes its: "\<And>it. it \<in> set (all_iters fs dest) \<Longrightarrow> static_field (static_message k env) env lo hi it"
    and it: "it \<in> set (all_iters fs dest)" and k: "k < d"
  shows "stays lo hi n (\<lambda>r j g. j = 0 \<and> g = 0 \<and> snd r \<in> set (all_iters fs dest)) (pb_release_union_field (pb_release_single_field d env) it) w"
    (is "stays lo hi n _ ?U w")
proof (rule staysI)
  fix win :: bytes and err
  let ?its = "set (all_iters fs dest)" and ?old = "of_nat (get 4 (it_pSize it) w) :: u32"
  obtain b1 it1 where f1: "pb_field_iter_find it ?old = Some (b1, it1)" "it1 \<in> ?its" using find_ok [OF it] by blast
  obtain b2 it2 where f2: "pb_field_iter_find it1 (pf_tag (it_field it)) = Some (b2, it2)" "it2 \<in> ?its" using find_ok [OF f1(2)] by blast
  have rel: "pb_release_single_field d env it1 w = Some w" by (rule release_single_same [OF its [OF f1(2)] k])
  have static: "PB_ATYPE (pf_type (it_field it2)) = ATYPE_STATIC" using static_fieldD(1) [OF its [OF f2(2)]] .
  have "\<exists>x e. snd x \<in> ?its \<and> (\<forall>rest. ?U w (window win rest err) = Some ((x, w), window win rest e))"
  proof (cases "?old = 0 \<or> ?old = pf_tag (it_field it)")
    case True
    then show ?thesis using it by (intro exI [of _ "(True, it)"] exI [of _ err]) (auto simp: pb_release_union_field_def)
  next
    case False
    then have eq: "?U w (window win rest err) =
        (if \<not> b1 then Some (((False, it1), w), window win rest (set_error ''invalid union tag'' err))
         else if \<not> b2 then Some (((False, it2), w), window win rest (set_error ''iterator error'' err))
         else Some (((True, it2), w), window win rest err))" for rest
      using f1(1) f2(1) rel static by (cases b1; cases b2) (simp_all add: pb_release_union_field_def Let_def window_def)
    show ?thesis unfolding eq using f1(2) f2(2)
      by (intro exI [of _ "(b1 \<and> b2, if b1 then it2 else it1)"]
          exI [of _ "if \<not> b1 then set_error ''invalid union tag'' err else if \<not> b2 then set_error ''iterator error'' err else err"]) auto
  qed
  then obtain x e where "snd x \<in> ?its" "\<And>rest. ?U w (window win rest err) = Some ((x, w), window win rest e)" by blast
  then show "\<exists>x w' j g e. j + g \<le> length win \<and> (j = 0 \<and> g = 0 \<and> snd x \<in> ?its) \<and> frame lo hi w w' \<and>
      (\<forall>rest. ?U w (window win rest err) = Some ((x, w'), lossy g (window (drop j win) rest e)))"
    by (intro exI [of _ x] exI [of _ w] exI [of _ 0] exI [of _ e]) simp
qed

lemma stays_decode_field:
  assumes its: "\<And>it. it \<in> set (all_iters fs dest) \<Longrightarrow> static_field (static_message k env) env lo hi it"
    and it: "it \<in> set (all_iters fs dest)" and k: "k < d" and dec: "sub_stays (static_message k env) dec"
  shows "stays lo hi n (keeps_iter (set (all_iters fs dest))) (decode_field d dec env wire_type it fixed) w"
proof -
  let ?its = "set (all_iters fs dest)"
  let ?U = "\<lambda>w s. if PB_HTYPE (pf_type (it_field it)) = HTYPE_ONEOF then pb_release_union_field (pb_release_single_field d env) it w s
            else Some (((True, it), w), s)"
  let ?G = "\<lambda>it w s. let field = it_field it; a = PB_ATYPE (pf_type field); func = PB_DECODERS dec env (PB_LTYPE (pf_type field)) field;
              cell = (if fixed then None else Some (it_pSize it)); defaults = pb_message_set_to_defaults d env
          in map_option (\<lambda>((status, w), s). (((status, it), w), s))
               (if a = ATYPE_STATIC then decode_static_field func defaults env wire_type it cell w s
                else if a = ATYPE_POINTER then decode_pointer_field func defaults (pb_release_single_field d env) env wire_type it cell w s
                else if a = ATYPE_CALLBACK then decode_callback_field env wire_type it w s
                else de_error ''invalid field type'' w s)"
  have U: "stays lo hi n (\<lambda>r j g. j = 0 \<and> g = 0 \<and> snd r \<in> ?its) ?U w"
  proof (cases "PB_HTYPE (pf_type (it_field it)) = HTYPE_ONEOF")
    case True
    then show ?thesis using stays_release_union [OF its it k] by simp
  next
    case False
    then show ?thesis using it unfolding stays_def by (auto intro!: exI [of _ 0])
  qed
  have G: "stays lo hi n (keeps_iter ?its) (?G it') w'" if "it' \<in> ?its" for it' w'
  proof -
    note f = its [OF that]
    let ?cell = "if fixed then None else Some (it_pSize it')"
    have "stays lo hi n eager (decode_static_field (PB_DECODERS dec env (PB_LTYPE (pf_type (it_field it'))) (it_field it'))
        (pb_message_set_to_defaults d env) env wire_type it' ?cell) w'"
      by (rule stays_static_field [OF f dec]) (auto intro: set_to_defaults_frame [OF _ less_imp_le [OF k]])
    from stays_map [OF this, of "\<lambda>_ w. w" "keeps_iter ?its" "\<lambda>x. (x, it')"] that show ?thesis
      using static_fieldD(1) [OF f] by (simp add: keeps_iter_def Let_def)
  qed
  have eq: "decode_field d dec env wire_type it fixed =
      (\<lambda>w s. case ?U w s of None \<Rightarrow> None | Some (((False, it), w), s) \<Rightarrow> Some (((False, it), w), s) | Some (((True, it), w), s) \<Rightarrow> ?G it w s)"
    unfolding decode_field_def by (intro ext) simp
  show ?thesis unfolding eq
  proof (rule stays_bind_iter [OF U])
    fix it w and j :: nat
    assume "j = 0 \<and> (0 :: nat) = 0 \<and> snd (True, it) \<in> ?its"
    then show "stays lo hi n (\<lambda>x i h. keeps_iter ?its x (j + i) h) (?G it) w" using G [of it w] by simp
  qed (auto simp: keeps_iter_def)
qed

lemma varint32_eof_result: "pb_decode_varint32_eof (window win rest e) = Some ((r, eof), s) \<Longrightarrow> eof = (win = [])"
  by (cases win) (auto simp: pb_decode_varint32_eof_def readbyte_window pb_error_def split: if_splits option.splits)

lemma tag_window:
  obtains (fail) j eof e where "j \<le> length win"
      "\<And>rest. pb_decode_tag (window win rest err :: 's pb_istream) = Some ((None, eof), window (drop j win) rest e)"
  | (ok) j wt tag eof e where "j \<le> length win" "0 < j" "tag < 0xFFFFFFFF"
      "\<And>rest. pb_decode_tag (window win rest err :: 's pb_istream) = Some ((Some (wt, tag), eof), window (drop j win) rest e)"
proof -
  obtain x j e where r: "j \<le> length win" "\<And>rest. pb_decode_varint32 (window win rest err :: 's pb_istream) = Some (x, window (drop j win) rest e)"
    using rd_varint32.window [of win err] by blast
  have eof: "pb_decode_varint32_eof (window win rest err :: 's pb_istream) = Some ((x, win = []), window (drop j win) rest e)" for rest
    using r(2) [of rest] varint32_eof_result [of win rest err] by (auto simp: pb_decode_varint32_def)
  show thesis
  proof (cases x)
    case None
    then show thesis using eof r(1) by (intro fail [of j "win = []" e]) (simp_all add: pb_decode_tag_def)
  next
    case (Some temp)
    have "is_bytes_left (window (drop j win) [] e :: 's pb_istream) < length win"
      using takes_varint32 r(2) [of "[]"] Some unfolding takes_def by blast
    then have j: "0 < j" by simp
    have "unat (drop_bit 3 temp) \<le> unat temp div 8" by (simp add: unat_drop_bit)
    also have "\<dots> < 0xFFFFFFFF" using u32_less_lim [of temp] by linarith
    finally have "drop_bit 3 temp < 0xFFFFFFFF" by (simp add: word_less_nat_alt)
    then show thesis using eof r(1) j Some
      by (cases "temp = 0") (auto simp: pb_decode_tag_def intro: fail [of j True e] ok [of j "drop_bit 3 temp" "temp AND 7" "win = []" e])
  qed
qed

lemma stays_decode_end: "stays lo hi n anyhow (decode_end it fixed seen) w"
proof -
  have "stays lo hi n anyhow (de_error msg) w" for msg by (rule stays_error) simp
  moreover have "stays lo hi n anyhow (de_return True) w" by (rule stays_return) simp
  ultimately show ?thesis
    by (cases "wrong_count it fixed w"; cases "all_seen (required_count it) seen") (simp_all add: stays_def decode_end_def)
qed

text \<open>Going on with a decoder behind the first bytes.\<close>

lemma stays_continue:
  assumes "stays lo hi n anyhow g w'" "length win - j < n" "j \<le> length win" "frame lo hi w w'"
    and "\<And>rest. F (window win rest err) = g w' (window (drop j win) rest e)"
  shows "\<exists>x w'' k h e. k + h \<le> length win \<and> anyhow x k h \<and> frame lo hi w w'' \<and>
    (\<forall>rest. F (window win rest err) = Some ((x, w''), lossy h (window (drop k win) rest e)))"
proof -
  have "length (drop j win) < n" using assms(2) by simp
  with assms(1) obtain x w'' k h e' where "k + h \<le> length (drop j win)" "anyhow x k h" "frame lo hi w' w''"
      "\<And>rest. g w' (window (drop j win) rest e) = Some ((x, w''), lossy h (window (drop k (drop j win)) rest e'))"
    unfolding stays_def by blast
  then show ?thesis using assms(3,5) frame_trans [OF assms(4)]
    by (intro exI [of _ x] exI [of _ w''] exI [of _ "j + k"] exI [of _ h] exI [of _ e']) (simp add: add.commute anyhow_def)
qed

lemma stays_fail: "stays lo hi n anyhow (\<lambda>w s. Some ((False, w), s)) w"
  unfolding stays_def
proof (intro allI impI)
  fix win :: bytes and err
  show "\<exists>x w' k g e. k + g \<le> length win \<and> anyhow x k g \<and> frame lo hi w w' \<and>
      (\<forall>rest. Some ((False, w), window win rest err) = Some ((x, w'), lossy g (window (drop k win) rest e)))"
    by (intro exI [of _ False] exI [of _ w] exI [of _ 0] exI [of _ 0] exI [of _ err]) simp
qed

lemma anyhow_shift: "(\<lambda>x l h. anyhow x (i + l) h) = anyhow"
  by (intro ext) (simp add: anyhow_def)

lemma message_loop_hit:
  assumes "is_bytes_left s \<noteq> 0" "pb_decode_tag s = Some ((Some (wt, tag), eof), s')" "pb_field_iter_find it tag = Some (True, it1)"
    and h: "h = (fixed \<and> pf_tag (it_field it) = tag \<and> PB_LTYPE (pf_type (it_field it)) \<noteq> LTYPE_EXTENSION)"
    and now: "now = (PB_HTYPE (pf_type (it_field it1)) = HTYPE_REPEATED \<and> \<not> h \<and> it_pSize it1 = it_pData it1)"
    and other: "other = (now \<and> fc \<noteq> Some (it_pos it1))"
  shows "message_loop d dec env (Suc n) it fixed fc seen ext w s =
    (if other \<and> wrong_count it1 fc w then de_error ''wrong size for fixed count field'' w s'
     else case decode_field d dec env wt it1 (h \<or> now) (if other then w \<lparr> wd_count := 0 \<rparr> else w) s' of
            None \<Rightarrow> None
          | Some (((False, it), w), s) \<Rightarrow> Some ((False, w), s)
          | Some (((True, it), w), s) \<Rightarrow>
              message_loop d dec env n it (h \<or> now) (if other then Some (it_pos it1) else fc) (mark_seen it1 seen) ext w s)"
  using assms(1) by (simp only: message_loop.simps Let_def assms(2,3) if_False option.case prod.case bool.case h now other)

lemma stays_message_loop:
  fixes dec :: "'s pb_msg"
  assumes its: "\<And>it. it \<in> set (all_iters fs dest) \<Longrightarrow> static_field (static_message k env) env lo hi it"
    and k: "k < d" and dec: "sub_stays (static_message k env) dec"
  shows "it \<in> set (all_iters fs dest) \<Longrightarrow> stays lo hi n anyhow (message_loop d dec env n it fixed fc seen ext) w"
proof (induction n arbitrary: it fixed fc seen ext w)
  case (Suc n it fixed fc seen ext w)
  let ?its = "set (all_iters fs dest)"
  have noext: "PB_LTYPE (pf_type (it_field it)) \<noteq> LTYPE_EXTENSION" if "it \<in> ?its" for it by (rule static_fieldD(2) [OF its [OF that]])
  show ?case
  proof (rule staysI)
    fix win :: bytes and err
    assume n: "length win < Suc n"
    show "\<exists>x w' k g e. k + g \<le> length win \<and> anyhow x k g \<and> frame lo hi w w' \<and>
        (\<forall>rest. message_loop d dec env (Suc n) it fixed fc seen ext w (window win rest err) = Some ((x, w'), lossy g (window (drop k win) rest e)))"
    proof (cases "win = []")
      case True
      show ?thesis
        by (rule stays_continue [OF stays_decode_end, of win 0 "Suc n" lo hi w w]) (use True in simp_all)
    next
      case False
      then have nz: "\<not> is_bytes_left (window win rest err) = 0" for rest by simp
      show ?thesis
      proof (cases rule: tag_window [of win err, where 's = 's])
        case (fail j eof e)
        show ?thesis
        proof (cases eof)
          case True
          show ?thesis
            by (rule stays_continue [OF stays_decode_end, of win j "Suc n" lo hi w w]) (use True fail n nz in \<open>auto simp: Let_def\<close>)
        next
          case False
          show ?thesis
            by (rule stays_continue [OF stays_fail, of win j "Suc n" lo hi w w]) (use False fail n nz in \<open>auto simp: Let_def\<close>)
        qed
      next
        case (ok j wt tag eof e)
        then have j: "length win - j < n" using n False by (cases win) auto
        obtain b it1 where f: "pb_field_iter_find it tag = Some (b, it1)" "it1 \<in> ?its" using find_ok [OF Suc.prems] by blast
        show ?thesis
        proof (cases b)
          case False
          obtain it3 where "find_extension_field it1 = Some (False, it3)" "it3 \<in> ?its"
            by (rule find_extension_none [OF f(2) noext]) simp
          then obtain it2 where f2: "(if tag \<ge> ext then find_extension_field it1 else Some (False, it1)) = Some (False, it2)" "it2 \<in> ?its"
            using f(2) by (cases "tag \<ge> ext") auto
          let ?ext = "if tag \<ge> ext then 0xFFFFFFFF else ext"
          have no_attempt: "\<not> (tag \<ge> ext \<and> tag \<ge> ?ext)" using ok(3) by (simp add: not_le)
          have "stays lo hi n anyhow (de_read (pb_skip_field wt) (\<lambda>_. message_loop d dec env n it2 False fc seen ?ext)) w"
            by (rule stays_read [OF rd_field.pb_reader_axioms Suc.IH [OF f2(2)]])
          then show ?thesis
            by (rule stays_continue [where e = e, OF _ j ok(1) frame_refl]) (use ok(4) nz f(1) False f2(1) no_attempt in \<open>simp add: Let_def de_then_def de_return_def\<close>)
        next
          case True
          define h where "h = (fixed \<and> pf_tag (it_field it) = tag \<and> PB_LTYPE (pf_type (it_field it)) \<noteq> LTYPE_EXTENSION)"
          define now where "now = (PB_HTYPE (pf_type (it_field it1)) = HTYPE_REPEATED \<and> \<not> h \<and> it_pSize it1 = it_pData it1)"
          define other where "other = (now \<and> fc \<noteq> Some (it_pos it1))"
          have f1: "pb_field_iter_find it tag = Some (True, it1)" using f(1) True by simp
          note hit = message_loop_hit [OF nz ok(4) f1 h_def now_def other_def]
          show ?thesis
          proof (cases "other \<and> wrong_count it1 fc w")
            case wrong: True
            have "stays lo hi n anyhow (de_error ''wrong size for fixed count field'') w" by (rule stays_error) simp
            then show ?thesis
              by (rule stays_continue [where e = e, OF _ j ok(1) frame_refl]) (simp add: hit wrong del: message_loop.simps)
          next
            case False
            let ?w = "if other then w \<lparr> wd_count := 0 \<rparr> else w"
            let ?F = "decode_field d dec env wt it1 (h \<or> now)"
            let ?G = "\<lambda>it. message_loop d dec env n it (h \<or> now) (if other then Some (it_pos it1) else fc) (mark_seen it1 seen) ext"
            have "stays lo hi n anyhow (\<lambda>w s. case ?F w s of None \<Rightarrow> None | Some (((False, it), w), s) \<Rightarrow> Some ((False, w), s)
                | Some (((True, it), w), s) \<Rightarrow> ?G it w s) ?w"
            proof (rule stays_bind_iter [OF stays_decode_field [OF its f(2) k dec]])
              fix it' i w
              assume "keeps_iter ?its (True, it') i 0"
              then have "stays lo hi n anyhow (?G it') w" by (intro Suc.IH) (simp add: keeps_iter_def)
              then show "stays lo hi n (\<lambda>x l h. anyhow x (i + l) h) (?G it') w" by (simp only: anyhow_shift)
            qed (simp_all add: keeps_iter_def)
            moreover have "frame lo hi w ?w" by simp
            ultimately show ?thesis
              by (rule stays_continue [where e = e, OF _ j ok(1)]) (simp only: hit False if_False)
          qed
        qed
      qed
    qed
  qed
qed simp

lemma stays_init:
  assumes "static_message k env fs dest n" "k \<le> d" "\<And>m w. stays dest (dest + n) m anyhow (noinit fs dest) w"
  shows "stays dest (dest + n) m anyhow (decode_init d env noinit fs dest) w"
proof -
  obtain w' where w': "pb_message_set_to_defaults d env fs dest w = Some w'" "frame dest (dest + n) w w'"
    using set_to_defaults_frame [OF assms(1,2)] by blast
  have rel: "pb_release d env fs dest w = Some w" for w by (simp add: pb_release_def release_same [OF assms(1,2)])
  have "decode_init d env noinit fs dest w s = noinit fs dest w' s" for s
    using w'(1) by (auto simp: decode_init_def rel split: option.splits bool.splits)
  then show ?thesis using assms(3) [of m w'] frame_trans [OF w'(2)] unfolding stays_def by (simp only:) blast
qed

lemma stays_noinit:
  "static_message k env fs dest n \<Longrightarrow> k < d \<Longrightarrow> stays dest (dest + n) m anyhow (pb_decode_noinit d env fs dest) w"
proof (induction k arbitrary: d fs dest n m w)
  case (Suc k d fs dest n m w)
  then obtain d' where d: "d = Suc d'" "k < d'" by (cases d) auto
  let ?dec = "\<lambda>init. if init then decode_init d' env (pb_decode_noinit d' env) else pb_decode_noinit d' env"
  have dec: "sub_stays (static_message k env) ?dec"
    unfolding sub_stays_def using Suc.IH [OF _ d(2)] by (auto intro: stays_init [OF _ less_imp_le [OF d(2)]])
  have its: "static_field (static_message k env) env dest (dest + n) it" if "it \<in> set (all_iters fs dest)" for it
    using Suc.prems(1) that by (simp add: list_all_iff)
  show ?case
  proof (rule staysI)
    fix win :: bytes and err
    have "stays dest (dest + n) (Suc (length win)) anyhow
        (message_loop d' ?dec env (Suc (length win)) (snd (pb_field_iter_begin fs dest)) False None [0, 0] 0) (w \<lparr> wd_count := 0 \<rparr>)"
      by (rule stays_message_loop [OF its d(2) dec all_iters_begin])
    then obtain x w' k g e where "k + g \<le> length win" "anyhow x k g" "frame dest (dest + n) (w \<lparr> wd_count := 0 \<rparr>) w'"
        "\<And>rest. message_loop d' ?dec env (Suc (length win)) (snd (pb_field_iter_begin fs dest)) False None [0, 0] 0 (w \<lparr> wd_count := 0 \<rparr>)
           (window win rest err) = Some ((x, w'), lossy g (window (drop k win) rest e))"
      unfolding stays_def by blast
    then show "\<exists>x w' k g e. k + g \<le> length win \<and> anyhow x k g \<and> frame dest (dest + n) w w' \<and>
        (\<forall>rest. pb_decode_noinit d env fs dest w (window win rest err) = Some ((x, w'), lossy g (window (drop k win) rest e)))"
      by (intro exI [of _ x] exI [of _ "w' \<lparr> wd_count := wd_count w \<rparr>"] exI [of _ k] exI [of _ g] exI [of _ e])
        (simp add: d(1) decode_message_def del: message_loop.simps)
  qed
qed simp

lemma stays_decode:
  "static_message k env fs dest n \<Longrightarrow> k < d \<Longrightarrow> stays dest (dest + n) m anyhow (pb_decode d env fs dest) w"
  unfolding pb_decode_def by (rule stays_init) (auto intro: stays_noinit)

section \<open>Properties\<close>

text \<open>A descriptor of an integer and of a submessage of an integer, and one of a fixed-count array, for the witnesses.\<close>

definition sample_denv :: "unit pb_denv" where
  "sample_denv = \<lparr> dv_fields = env_fields sample_env, dv_alloc = (\<lambda>blocks n. None),
     dv_callback = (\<lambda>f field arg. de_return False), dv_extension = (\<lambda>f extension tag wire_type. de_return False) \<rparr>"

definition sample_world :: pb_world where
  "sample_world = \<lparr> wd_mem = (\<lambda>p. 0xAA), wd_blocks = (\<lambda>p. None), wd_count = 0 \<rparr>"

definition fixed_count_fields :: "pb_field list" where
  "fixed_count_fields = [\<lparr> pf_tag = 1, pf_type = 0x20, pf_data_offset = 0, pf_size_offset = 0, pf_data_size = 1, pf_array_size = 1, pf_ptr = 0 \<rparr>]"

lemma sample_static: "static_message 2 sample_denv sample_fields 16 8"
  by code_simp

text \<open>
  C36.  Whatever the input, decoding a message whose static fields, nested less than \<open>d\<close> deep, lie in the \<open>n\<close> bytes of its
  struct ends, with success or with an error; it changes no byte outside of the struct and neither allocates nor frees;
  what is behind the window is not looked at, and the stream is left within it, exactly behind the bytes taken if the
  decoder succeeds.
\<close>

theorem pb_decode_confined:
  fixes env :: "'s pb_denv"
  assumes "static_message k env fs dest n" "k < d"
  shows "\<exists>ok w' j e. j \<le> length win \<and> wd_blocks w' = wd_blocks w \<and>
    (\<forall>a. a < dest \<or> dest + n \<le> a \<longrightarrow> wd_mem w' a = wd_mem w a) \<and>
    (\<forall>rest. \<exists>s'. pb_decode d env fs dest w (window win rest err) = Some ((ok, w'), s') \<and>
       is_bytes_left s' \<le> length win - j \<and> (ok \<longrightarrow> s' = window (drop j win) rest e))"
proof -
  obtain x w' j g e where r: "j + g \<le> length win" "anyhow x j g" "frame dest (dest + n) w w'"
      "\<And>rest. pb_decode d env fs dest w (window win rest err) = Some ((x, w'), lossy g (window (drop j win) rest e))"
    using stays_decode [OF assms, of "Suc (length win)" w] unfolding stays_def by blast
  show ?thesis
    by (intro exI [of _ x] exI [of _ w'] exI [of _ j] exI [of _ e])
      (use r in \<open>auto simp: frame_def anyhow_def lossy_def\<close>)
qed

theorem pb_decode_confined_witness:
  "\<exists>ok w'. (\<forall>a. a < 16 \<or> 24 \<le> a \<longrightarrow> wd_mem w' a = 0xAA) \<and>
     (\<forall>rest. \<exists>s'. pb_decode 3 sample_denv sample_fields 16 sample_world (window [0x12, 0x05, 0x08, 0x05] rest None) = Some ((ok, w'), s') \<and>
       is_bytes_left s' \<le> 4)"
proof -
  obtain ok w' j e where r: "\<forall>a. a < 16 \<or> 16 + 8 \<le> a \<longrightarrow> wd_mem w' a = wd_mem sample_world a"
      "\<forall>rest. \<exists>s'. pb_decode 3 sample_denv sample_fields 16 sample_world (window [0x12, 0x05, 0x08, 0x05] rest None) = Some ((ok, w'), s') \<and>
         is_bytes_left s' \<le> length [0x12 :: u8, 0x05, 0x08, 0x05] - j \<and> (ok \<longrightarrow> s' = window (drop j [0x12, 0x05, 0x08, 0x05]) rest e)"
    using pb_decode_confined [OF sample_static, of 3 "[0x12, 0x05, 0x08, 0x05]" sample_world None] by auto
  have "\<exists>s'. pb_decode 3 sample_denv sample_fields 16 sample_world (window [0x12, 0x05, 0x08, 0x05] rest None) = Some ((ok, w'), s') \<and>
         is_bytes_left s' \<le> 4" for rest
  proof -
    from r(2) obtain s' where "pb_decode 3 sample_denv sample_fields 16 sample_world (window [0x12, 0x05, 0x08, 0x05] rest None) = Some ((ok, w'), s')"
        "is_bytes_left s' \<le> length [0x12 :: u8, 0x05, 0x08, 0x05] - j"
      by blast
    moreover have "length [0x12 :: u8, 0x05, 0x08, 0x05] - j \<le> 4" by simp
    ultimately show ?thesis using le_trans by blast
  qed
  then show ?thesis using r(1) by (intro exI [of _ ok] exI [of _ w']) (simp add: sample_world_def)
qed

text \<open>
  C35.  A substream isolates what reads it.  A stream read that keeps the contract \<open>pb_reader\<close>, as every read and skip of the
  library does, may fail anywhere inside a length-delimited value: closing the substream puts the parent just behind
  it.  The decoder of a message of static fields in such a value depends on nothing behind it and leaves the parent
  the bytes behind it; the parent stands there when the decoder succeeds, and \<open>g\<close> bytes before the end of the value
  when it fails with a packed array left open.
\<close>

theorem pb_substream_isolated:
  fixes r :: "('s, 'a) pb_rd" and env :: "'s pb_denv"
  assumes "length bs < 2 ^ 32" "pb_reader r" "static_message k env fs dest n" "k < d"
  shows "(\<exists>sub parent x sub' e'. pb_make_string_substream (window (varint (length bs) @ bs @ behind) rest e) = Some (Some sub, parent) \<and>
      is_bytes_left sub = length bs \<and> r sub = Some (x, sub') \<and> pb_close_string_substream sub' parent = Some (Some (), window behind rest e')) \<and>
    (\<exists>ok w' g e'. g \<le> length bs \<and> (ok \<longrightarrow> g = 0) \<and> (\<forall>behind rest.
      pb_decode_delimited d env fs dest w (window (varint (length bs) @ bs @ behind) rest e) =
        Some ((ok, w'), \<lparr> is_source = Buf (drop (length bs - g) bs @ behind @ rest), is_bytes_left = length behind, is_errmsg = e' \<rparr>)))"
proof
  obtain x j e' where "r (window bs (behind @ rest) e) = Some (x, window (drop j bs) (behind @ rest) e')"
    using pb_reader.window [OF assms(2), of bs e] by blast
  then show "\<exists>sub parent x sub' e'. pb_make_string_substream (window (varint (length bs) @ bs @ behind) rest e) = Some (Some sub, parent) \<and>
      is_bytes_left sub = length bs \<and> r sub = Some (x, sub') \<and> pb_close_string_substream sub' parent = Some (Some (), window behind rest e')"
    using substream_window [OF assms(1), of behind rest e] close_window by fastforce
next
  obtain ok w' j g e' where d: "j + g \<le> length bs" "anyhow ok j g"
      "\<And>rest. pb_decode d env fs dest w (window bs rest e) = Some ((ok, w'), lossy g (window (drop j bs) rest e'))"
    using stays_decode [OF assms(3,4), of "Suc (length bs)" w] unfolding stays_def by blast
  have "pb_decode_delimited d env fs dest w (window (varint (length bs) @ bs @ behind) rest e) =
      Some ((ok, w'), \<lparr> is_source = Buf (drop (length bs - g) bs @ behind @ rest), is_bytes_left = length behind, is_errmsg = e' \<rparr>)"
    for behind rest
  proof -
    have "pb_close_string_substream (lossy g (window (drop j bs) (behind @ rest) e') :: 's pb_istream) ((window bs (behind @ rest) e) \<lparr> is_bytes_left := length behind \<rparr>) =
        Some (Some (), lossy g (window (drop (length bs - g) bs @ behind) rest e'))"
      using close_lossy [of j g "length bs" 0 "bs @ behind" rest e' e] d(1) by (simp add: lossy_def window_def)
    moreover have "(lossy g (window (drop (length bs - g) bs @ behind) rest e') :: 's pb_istream) =
        \<lparr> is_source = Buf (drop (length bs - g) bs @ behind @ rest), is_bytes_left = length behind, is_errmsg = e' \<rparr>"
      using d(1) by (simp add: lossy_def window_def)
    ultimately show ?thesis
      unfolding pb_decode_delimited_def in_substream_def de_read_def substream_window [OF assms(1)] by (simp add: d(3) de_return_def)
  qed
  then show "\<exists>ok w' g e'. g \<le> length bs \<and> (ok \<longrightarrow> g = 0) \<and> (\<forall>behind rest.
      pb_decode_delimited d env fs dest w (window (varint (length bs) @ bs @ behind) rest e) =
        Some ((ok, w'), \<lparr> is_source = Buf (drop (length bs - g) bs @ behind @ rest), is_bytes_left = length behind, is_errmsg = e' \<rparr>))"
    using d(1,2) by (intro exI [of _ ok] exI [of _ w'] exI [of _ g] exI [of _ e']) (auto simp: anyhow_def)
qed

theorem pb_substream_isolated_witness:
  "(\<exists>sub parent x sub' e'. pb_make_string_substream (window (varint (length [0x80, 1 :: u8]) @ [0x80, 1] @ [5]) [6] None :: unit pb_istream) =
      Some (Some sub, parent) \<and> is_bytes_left sub = length [0x80, 1 :: u8] \<and> pb_decode_varint sub = Some (x, sub') \<and>
      pb_close_string_substream sub' parent = Some (Some (), window [5] [6] e')) \<and>
   (\<exists>ok w' g e'. g \<le> length [0x80, 1 :: u8] \<and> (ok \<longrightarrow> g = 0) \<and> (\<forall>behind rest.
      pb_decode_delimited 3 sample_denv sample_fields 16 sample_world (window (varint (length [0x80, 1 :: u8]) @ [0x80, 1] @ behind) rest None) =
        Some ((ok, w'), \<lparr> is_source = Buf (drop (length [0x80, 1 :: u8] - g) [0x80, 1] @ behind @ rest), is_bytes_left = length behind, is_errmsg = e' \<rparr>)))"
  by (rule pb_substream_isolated [OF _ rd_varint.pb_reader_axioms sample_static]) simp_all

lemma poke_count: "(poke p bs (w \<lparr> wd_count := n \<rparr>)) \<lparr> wd_count := wd_count w \<rparr> = poke p bs w"
  by (cases w) (simp add: poke_def cong: if_cong)

text \<open>Decoding from an empty input, and the field that a message type without fields has.\<close>

lemma decode_empty_input:
  assumes "pb_message_set_to_defaults (Suc d) env fs dest w = Some w'"
    and "required_count (snd (pb_field_iter_begin fs dest)) = 0"
  shows "pb_decode (Suc d) env fs dest w (window [] rest e) = Some ((True, w'), window [] rest e)"
  using assms by (simp add: pb_decode_def decode_init_def decode_message_def decode_end_def wrong_count_def all_seen_def de_return_def)

text \<open>
  C37.  A fixed-count array, static and without a counter, in a message of its own: decoding writes four zero bytes to the
  address of its data, whatever the size of the array, even from an empty input, because the defaults are set through
  \<open>pSize\<close>, which is \<open>pData\<close> for such a field; an array of less than four bytes is overrun.  And a message type without
  fields takes field number 0 for a bool of its own: whatever the wire type, its value is stored into the struct that has
  no byte for it.
\<close>

theorem pb_decode_overruns:
  fixes env :: "'s pb_denv"
  assumes "PB_ATYPE (pf_type field) = ATYPE_STATIC" "PB_HTYPE (pf_type field) = HTYPE_REPEATED" "PB_LTYPE (pf_type field) \<noteq> LTYPE_EXTENSION"
    and "pf_tag field \<noteq> 0" "pf_size_offset field = 0" "0 < dest" "0 < wire" "wire < 8" "b < 0x80"
  shows "pb_decode (Suc d) env [field] dest w (window [] rest e) =
      Some ((True, poke (dest + unat (pf_data_offset field)) [0, 0, 0, 0] w), window [] rest e) \<and>
    pb_decode (Suc d) env [] dest w (window [wire, b] rest e) =
      Some ((True, poke dest [if b \<noteq> 0 then 1 else 0] w), window [] rest e)"
proof
  define it where "it = snd (pb_field_iter_begin [field] dest)"
  have sp: "size_ptr q field = q" for q using assms(5) by (simp add: size_ptr_def)
  have it: "it_field it = field" "it_pData it = dest + unat (pf_data_offset field)" "it_pSize it = dest + unat (pf_data_offset field)"
      "it_required_field_index it = 0"
    using assms(6) by (simp_all add: it_def pb_field_iter_begin_def Let_def it_field_def field_at_def sp)
  have nx: "pb_field_iter_next it = (False, it)"
    using assms(4) by (simp add: it_def pb_field_iter_next_def Let_def pb_field_iter_begin_def it_field_def field_at_def PB_LAST_FIELD_def)
  have b: "pb_field_iter_begin [field] dest = (True, it)"
    using assms(4) by (simp add: it_def pb_field_iter_begin_def Let_def field_at_def)
  have "le_bytes 4 0 = [0, 0, 0, 0]" by code_simp
  then have "default_field f env d it w = Some (poke (dest + unat (pf_data_offset field)) [0, 0, 0, 0] w)" for f
    using assms(1-3) it by (simp add: default_field_def Let_def)
  then have "pb_message_set_to_defaults (Suc d) env [field] dest w = Some (poke (dest + unat (pf_data_offset field)) [0, 0, 0, 0] w)"
    unfolding pb_message_set_to_defaults_def each_of_message_def b by (subst each_field.simps) (simp add: nx)
  moreover have "required_count (snd (pb_field_iter_begin [field] dest)) = 0"
    unfolding b snd_conv required_count_def using it assms(2) by (subst seek_end.simps) (simp add: nx)
  ultimately show "pb_decode (Suc d) env [field] dest w (window [] rest e) =
      Some ((True, poke (dest + unat (pf_data_offset field)) [0, 0, 0, 0] w), window [] rest e)"
    by (rule decode_empty_input)
next
  let ?it = "snd (pb_field_iter_begin [] dest)"
  have it: "it_field ?it = PB_LAST_FIELD" "it_pData ?it = dest" "it_pSize ?it = dest" "it_required_field_index ?it = 0" "it_start ?it = []"
    by (simp_all add: pb_field_iter_begin_def Let_def it_field_def field_at_def size_ptr_def PB_LAST_FIELD_def)
  have nx: "pb_field_iter_next ?it = (False, ?it)" using it(1) by (simp add: pb_field_iter_next_def PB_LAST_FIELD_def)
  have req: "required_count ?it = 0" using it nx by (simp add: required_count_def seek_end.simps [of ?it] PB_LAST_FIELD_def)
  have find: "pb_field_iter_find ?it 0 = Some (True, ?it)" using it(1) by (simp add: pb_field_iter_find_def PB_LAST_FIELD_def PB_LTYPE_def)
  have def: "pb_message_set_to_defaults (Suc d) env [] dest w = Some w"
    by (simp add: pb_message_set_to_defaults_def each_of_message_def pb_field_iter_begin_def Let_def field_at_def PB_LAST_FIELD_def)
  have u: "unat wire < 8" "unat b < 128" "0 < unat wire" using assms(7-9) by (simp_all add: word_less_nat_alt)
  have wt: "(ucast wire :: u32) \<noteq> 0" "drop_bit 3 (ucast wire :: u32) = 0"
    using u(1,3) by (simp_all add: word_unat_eq_iff unat_drop_bit unat_ucast_mod)
  have tag: "pb_decode_tag (window [wire, b] rest e :: 's pb_istream) = Some ((Some (ucast wire AND 7, 0), False), window [b] rest e)"
    using u(1) wt by (simp add: pb_decode_tag_def pb_decode_varint32_eof_def readbyte_window u8_high_bit_iff)
  have bool: "pb_decode_varint32 (window [b] rest e :: 's pb_istream) = Some (Some (ucast b), window [] rest e)"
    using u(2) by (simp add: pb_decode_varint32_def pb_decode_varint32_eof_def readbyte_window u8_high_bit_iff)
  have nz: "(ucast b :: u32) = 0 \<longleftrightarrow> b = 0" using u(2) by (simp add: word_unat_eq_iff unat_ucast_mod)
  have field: "decode_field d dec env wt ?it False w (window [b] rest e :: 's pb_istream) =
      Some (((True, ?it), poke dest [if b \<noteq> 0 then 1 else 0] w), window [] rest e)" for dec :: "'s pb_msg" and wt w
    using it(1-3) bool nz
    by (simp add: decode_field_def decode_static_field_def PB_LAST_FIELD_def PB_ATYPE_def PB_HTYPE_def PB_LTYPE_def Let_def PB_DECODERS_def
        pb_dec_bool_def de_read_def de_do_def de_return_def)
  have loop: "message_loop d dec env (Suc (Suc (Suc 0))) ?it False None [0, 0] 0 w (window [wire, b] rest e :: 's pb_istream) =
      Some ((True, poke dest [if b \<noteq> 0 then 1 else 0] w), window [] rest e)" for dec :: "'s pb_msg" and w
    using it(1) field req
    by (subst message_loop_hit [OF _ tag find refl refl refl])
      (simp_all add: PB_LAST_FIELD_def PB_HTYPE_def decode_end_def wrong_count_def all_seen_def de_return_def)
  show "pb_decode (Suc d) env [] dest w (window [wire, b] rest e) =
      Some ((True, poke dest [if b \<noteq> 0 then 1 else 0] w), window [] rest e)"
    using def loop by (simp add: pb_decode_def decode_init_def decode_message_def poke_count del: message_loop.simps)
qed

theorem pb_decode_overruns_witness:
  "pb_decode 1 sample_denv fixed_count_fields 16 sample_world (window [] [] None) =
      Some ((True, poke 16 [0, 0, 0, 0] sample_world), window [] [] None) \<and>
   pb_decode 1 sample_denv [] 16 sample_world (window [1, 1] [] None) = Some ((True, poke 16 [1] sample_world), window [] [] None)"
  using pb_decode_overruns [of "hd fixed_count_fields" 16 1 1 0 sample_denv sample_world "[]" None]
  by (simp add: fixed_count_fields_def PB_ATYPE_def PB_HTYPE_def PB_LTYPE_def)

end
