(* ===== verification/Spec2Isabelle.thy ===== *)
theory Spec2Isabelle
  imports CbbProps DerProps BerProps Stack Pool BioPair Base64Props PbDecodeProps
begin

text \<open>
  A verification library for C code of this repository.

  The repository is a chat application over Firebase.  Nearly all of its code is vendored under
  \<open>src/learn_code/Pods\<close>; the libraries in C that the network and storage stack rests on are BoringSSL
  (\<open>BoringSSL-GRPC/src/crypto\<close>), whose byte strings, containers and BIOs carry TLS and certificates, and nanopb
  (\<open>nanopb\<close>), which encodes and decodes the protocol buffers of Firestore and Analytics.  The library models these
  parts as functions of HOL and proves what makes them correct.  Names are those of the C functions; a name with a
  suffix such as \<open>_loop\<close> or \<open>_step\<close> is a loop or a section of the function in front of it.

  \<^bold>\<open>Conventions\<close> (theories \<open>Prelude\<close>, \<open>Mem\<close>, \<open>Readers\<close>).  Machine integers are words of their width;
  \<open>size_t\<close> is \<open>nat\<close> with \<open>size_add\<close>, \<open>size_mul\<close> and \<open>size_sub\<close>, which wrap at \<open>size_lim = 2^64\<close>.  Bytes are
  \<open>u8 list\<close>.  A failure that C reports is a value: \<^term>\<open>None\<close>, \<^term>\<open>False\<close>, or a number.  Where C would have
  undefined behaviour, abort, or not return, the model has an outer \<^term>\<open>None\<close>, and theorems say that it does not
  occur.  Memory allocation is a parameter of type \<open>allocator\<close>: the content of a new block, or none, as a function
  of the size that is asked for; the locale \<open>allocator\<close> says only that a block has that size.  An allocator is thus
  the same at every call, except where a definition takes a fresh address or a state as an argument.

  \<^bold>\<open>Byte strings\<close>, \<open>bytestring/cbs.c\<close>, \<open>cbb.c\<close>, \<open>ber.c\<close>, \<open>unicode.c\<close>.
    \<^item> \<open>Readers\<close>: the shape of all readers, a function from the bytes of a \<open>CBS\<close> to a result and the bytes left, and the
      locales \<open>byte_reader\<close>, \<open>local_reader\<close>, \<open>codec\<close>, \<open>canonical_codec\<close> for what they promise.
    \<^item> \<open>Cbs\<close>, \<open>Der\<close>, \<open>Asn1Int\<close>: the reader.  \<open>Der\<close> writes the canonical encoding of an element down (\<open>der\<close>, \<open>der_tag\<close>,
      \<open>der_len\<close>, \<open>b128\<close>) and proves that the parsers accept exactly it; \<open>Asn1Int\<close> does so for integers (\<open>int_body\<close>),
      booleans, bit strings and optional elements.
    \<^item> \<open>Cbb\<close>: the builder.  The record \<open>cbb\<close> is the shared \<open>cbb_buffer\<close> and the chain of \<open>cbb_frame\<close>s, from the
      root to the innermost open child; a \<open>CBB *\<close> is its depth \<open>d\<close> in the chain.  \<open>CbbSpec\<close>: what a builder
      stands for, a list of prefixes and contents (\<open>acbb\<close>), and the simulation \<open>refines\<close> between operations on both;
      \<open>CbbOps\<close> proves it for every operation, together with \<open>guarded\<close> (an operation that fails sets the error flag).
    \<^item> \<open>Oid\<close>: object identifiers in text.  \<open>CbbCalls\<close>: clients, as lists of calls; \<open>CBB_add_asn1_oid_from_text\<close> is the one
      call that fails without setting the flag, and counts there as the components it has written.  \<open>CbbProps\<close>:
      soundness, completeness, the error flag, the buffer's invariant, fixed buffers.
    \<^item> \<open>SetOf\<close>: \<open>CBB_flush_asn1_set_of\<close>; \<open>qsort\<close> is a sort by the comparison of the code, which is proved to be the
      lexicographic order.  \<open>Unicode\<close>: code points.  \<open>DerProps\<close>: the properties of readers, and the round trips.
    \<^item> \<open>Ber\<close>, \<open>BerProps\<close>: the conversion of BER to DER, over the reader and the builder.  \<open>asn1\<close> is the abstract syntax,
      \<open>ber_elem\<close> its BER encodings as an inductive relation, \<open>to_der\<close> its DER encoding.  The recursion of the code is
      bounded by \<open>kMaxDepth\<close>, which the first argument counts down; a loop takes at least a byte each time, so the
      length of its input and one is fuel enough, and the functions are proved total.

  \<^bold>\<open>Containers\<close>.
    \<^item> \<open>Stack\<close> (\<open>stack/stack.c\<close>): the array, its count, capacity, mark and comparison; the locales \<open>comparator\<close> and
      \<open>sorter\<close> for what the client's comparison and \<open>qsort\<close> promise.  A stack refines a list with a comparison and a
      mark; searches, sorts and deep copies.
    \<^item> \<open>Lhash\<close> (\<open>lhash/lhash.c\<close>): buckets of chains.  The locale \<open>hash_functions\<close> says that equal elements have equal
      hashes; a table refines a finite map.
    \<^item> \<open>Pool\<close> (\<open>pool/pool.c\<close>, \<open>refcount_lock.c\<close>): buffers with reference counts in a table of \<open>Lhash\<close>, which is interpreted
      on them.  \<open>crypto_buffer_new\<close> is split at its locks, and \<open>pool_step\<close> interleaves these sections for any
      number of threads; the invariant holds of every reachable state.
    \<^item> \<open>CStr\<close> (\<open>mem.c\<close>): C strings in memory that ends; \<open>ConstTime\<close> (\<open>internal.h\<close>): comparisons by masks.

  \<^bold>\<open>Input and output\<close>.
    \<^item> \<open>Bio\<close> (\<open>bio/bio.c\<close>): the object, its flags, the generic calls over the methods as parameters; the locales \<open>byte_fifo\<close>
      and \<open>bio_methods\<close>.  \<open>BioMem\<close> (\<open>bio_mem.c\<close>, \<open>buf.c\<close>): growable buffers and memory BIOs.  \<open>BioPair\<close> (\<open>pair.c\<close>):
      two rings in a store of BIOs, where assertions and bounds are faults.  Both are interpretations of
      \<open>bio_methods\<close>, and so queues of bytes.
    \<^item> \<open>Base64\<close>, \<open>Base64Props\<close> (\<open>base64/base64.c\<close>): lengths, blocks, the streaming encoder and decoder, against a
      reference encoding and decoding; every write is checked against the buffer.

  \<^bold>\<open>Protocol buffers\<close>, nanopb, for the build of the repository: \<open>PB_FIELD_32BIT\<close>, \<open>PB_ENABLE_MALLOC\<close>, 64-bit pointers,
  little-endian.
    \<^item> \<open>PbStream\<close>: streams over a buffer, a callback, or nothing but a count (sizing), and the primitive encodings of
      \<open>pb_encode.c\<close> and \<open>pb_decode.c\<close>.  A callback is a function from its state; it cannot reach the stream.
    \<^item> \<open>PbRead\<close>, \<open>PbWire\<close>: the contracts \<open>pb_reader\<close> (a reader takes bytes from the front of its window and looks at
      nothing behind it) and \<open>pb_writer\<close> (a writer writes one byte string to any stream that has room), varints, the
      other wire types, substreams.
    \<^item> \<open>PbEncode\<close>, \<open>PbEncodeProps\<close>: descriptors, the field iterator of \<open>pb_common.c\<close>, and the message encoder over a
      total memory it only reads.  Loads through null pointers are not faults of the model.  The callbacks of user code
      are parameters of the environment \<open>pb_env\<close>.
    \<^item> \<open>PbDecode\<close>, \<open>PbDecodeProps\<close>: the message decoder over memory, blocks and a stream.  \<open>d\<close> bounds the nesting of
      submessages and the length of extension lists; the loop over a message has the bytes left and one for fuel,
      since every round takes a byte.  That this is enough is part of the theorems: for a layout nested less than
      \<open>d\<close> deep the decoder returns.  Confinement is proved for messages of static fields; pointer, callback and
      extension fields are modelled, and not part of these theorems.

  \<^bold>\<open>What modelling showed\<close>: \<open>pb_decode_varint32\<close> lets overflows pass (\<open>pb_varint32_truncates\<close>); a fixed-count array
  without a counter has its data zeroed as if it were one, and a message without fields is written to
  (\<open>pb_decode_overruns\<close>); \<open>cbs_find_ber\<close> forgets what it found (\<open>ber_to_der_misses\<close>), and \<open>CBS_asn1_ber_to_der\<close> converts
  all of its input where its comment says one element (\<open>ber_to_der_complete\<close>); \<open>sk_set\<close> does not clear the mark of a
  sorted stack (\<open>sk_set_breaks_sorted\<close>); \<open>CBB_add_asn1_oid_from_text\<close> fails without a trace in the builder
  (\<open>oid_error_lost\<close>).

  \<^bold>\<open>Not modelled.\<close>  Of the files above: the release of memory that nothing reads afterwards, cleansing, locks and atomics
  (a critical section is one step), printing, the weak hooks of \<open>mem.c\<close>, chains of BIOs, and variants that the build
  does not select.  Of BoringSSL: big numbers, digests, ciphers and elliptic curves, whose inner loops are assembly,
  intrinsics, generated field arithmetic or tables; the error queue, a log that no modelled function reads; X.509 and
  the ASN.1 templates, interpreted from tables of casts; and the TLS library, which is C++.  Of the rest of the
  repository: gRPC, Abseil, LevelDB and the Firestore core, which are C++; upb, generated; the Firebase services and
  Crashlytics, Objective-C over the frameworks and signals of the operating system; and the application, Swift.
\<close>

end
